(* ===== verification/WF_Base.thy ===== *)
theory WF_Base
  imports Main "HOL-Library.AList" "HOL-Library.Multiset"
begin

text \<open>
  The shared layer of the development.

  A Python dictionary keeps the order of insertion: storing under a present key keeps the
  key's place, storing under a new key appends. This is \<^verbatim>\<open>AList.update\<close> on
  association lists; \<^verbatim>\<open>AList.delete\<close> is \<open>pop\<close> with a default, and
  \<^verbatim>\<open>map_of\<close> is \<open>get\<close>. A Python set is a list that is only asked for
  membership or iterated in sorted order.

  An operation that can raise and that also changes state is a function from the state to
  the pair of its outcome and the state it leaves, so that what a raise leaves behind is
  part of the model.
\<close>

section \<open>Collections of rewrite rules\<close>

named_theorems dict_simps \<open>association lists read as Python dictionaries\<close>
named_theorems op_simps \<open>outcomes of operations that can raise\<close>

section \<open>Exceptions\<close>

text \<open>
  The exception classes of \<^verbatim>\<open>errors.py\<close> and the builtin ones the modelled code raises.
  The message texts are not modelled.
\<close>

datatype exc =
    Authority_Error | Dependency_Error | Path_Error | Node_Error
  | Read_Only_Endpoint_Error | Stale_Handle_Error | Value_Unavailable_Error
  | Closed_Context_Error | Reentrant_Context_Error | Concurrent_Update_Error
  | Controller_Failed_Error
  | Key_Error | Type_Error | Value_Error | Attribute_Error | Runtime_Error | Assertion_Error
  | Index_Error | Not_Implemented_Error | Cache_Miss_Error | Conflict_Error | Mount_Error

section \<open>Opaque Python values\<close>

text \<open>
  A checksum is named by its hexadecimal digits. A value the modelled code only stores,
  compares or tests for truth is a \<open>py_value\<close>; \<open>PyObj\<close> carries the truth value of the
  object it stands for.
\<close>

type_synonym checksum = string

datatype py_value = PyNone | PyBool bool | PyInt int | PyStr string | PyObj string bool

fun truthy :: "py_value \<Rightarrow> bool" where
  "truthy PyNone = False"
| "truthy (PyBool b) = b"
| "truthy (PyInt n) = (n \<noteq> 0)"
| "truthy (PyStr s) = (s \<noteq> [])"
| "truthy (PyObj _ b) = b"

section \<open>Node states\<close>

text \<open>
  The states of a node. \<open>Blocked_by_miswiring\<close> is no state of a node: it is one more
  answer of the question what state an edge delivers (\<open>source_state\<close>).
\<close>

datatype nstate =
    Miswired | Unwired | Blocked | Waiting | Computing | Complete | Failed | Blocked_by_miswiring

section \<open>Operations that can raise\<close>

type_synonym ('s, 'a) oper = "'s \<Rightarrow> (exc + 'a) \<times> 's"

definition ret :: "'a \<Rightarrow> ('s, 'a) oper" where
  "ret x s = (Inr x, s)"

definition raise :: "exc \<Rightarrow> ('s, 'a) oper" where
  "raise e s = (Inl e, s)"

definition bnd :: "('s, 'a) oper \<Rightarrow> ('a \<Rightarrow> ('s, 'b) oper) \<Rightarrow> ('s, 'b) oper" where
  "bnd m f s = (case m s of (Inl e, s') \<Rightarrow> (Inl e, s') | (Inr x, s') \<Rightarrow> f x s')"

definition modify :: "('s \<Rightarrow> 's) \<Rightarrow> ('s, unit) oper" where
  "modify f s = (Inr (), f s)"

definition guarded :: "bool \<Rightarrow> exc \<Rightarrow> ('s, unit) oper" where
  "guarded b e s = (if b then (Inl e, s) else (Inr (), s))"

definition res_bind :: "exc + 'a \<Rightarrow> ('a \<Rightarrow> exc + 'b) \<Rightarrow> exc + 'b" where
  "res_bind r f = (case r of Inl e \<Rightarrow> Inl e | Inr x \<Rightarrow> f x)"

lemma ret_run [simp, op_simps]: "ret x s = (Inr x, s)"
  by (simp add: ret_def)

lemma raise_run [simp, op_simps]: "raise e s = (Inl e, s)"
  by (simp add: raise_def)

lemma modify_run [simp, op_simps]: "modify f s = (Inr (), f s)"
  by (simp add: modify_def)

lemma guarded_run [simp, op_simps]:
  "guarded b e s = (if b then (Inl e, s) else (Inr (), s))"
  by (simp add: guarded_def)

lemma bnd_Inl [op_simps]: "m s = (Inl e, s') \<Longrightarrow> bnd m f s = (Inl e, s')"
  by (simp add: bnd_def)

lemma bnd_Inr [op_simps]: "m s = (Inr x, s') \<Longrightarrow> bnd m f s = f x s'"
  by (simp add: bnd_def)

lemma bnd_ret [simp, op_simps]: "bnd (ret x) f s = f x s"
  by (simp add: bnd_def)

lemma bnd_raise [simp, op_simps]: "bnd (raise e) f s = (Inl e, s)"
  by (simp add: bnd_def)

lemma bnd_modify [simp, op_simps]: "bnd (modify g) f s = f () (g s)"
  by (simp add: bnd_def)

lemma bnd_guarded [simp, op_simps]:
  "bnd (guarded b e) f s = (if b then (Inl e, s) else f () s)"
  by (simp add: bnd_def)

lemma res_bind_simps [simp, op_simps]:
  "res_bind (Inl e) f = Inl e"
  "res_bind (Inr x) f = f x"
  by (simp_all add: res_bind_def)

lemma if_Inl_eq_Inr [simp, op_simps]:
  "(if b then Inl e else r) = Inr x \<longleftrightarrow> \<not> b \<and> r = Inr x"
  by simp

lemma if_else_Inl_eq_Inr [simp, op_simps]:
  "(if b then r else Inl e) = Inr x \<longleftrightarrow> b \<and> r = Inr x"
  by simp

lemma res_bind_eq_Inr [simp, op_simps]:
  "res_bind r f = Inr y \<longleftrightarrow> (\<exists>x. r = Inr x \<and> f x = Inr y)"
  by (cases r) simp_all

lemma bnd_Inr_cases:
  assumes "bnd m f s = (Inr y, s'')"
  obtains x s' where "m s = (Inr x, s')" and "f x s' = (Inr y, s'')"
  using assms by (auto simp: bnd_def split: prod.splits sum.splits)

text \<open>
  A relation between the state before and the state after that composes is kept by a sequence of
  operations when it is kept by each.
\<close>

locale step_relation =
  fixes R :: "'s \<Rightarrow> 's \<Rightarrow> bool"
  assumes stays: "R s s" and goes_on: "R a b \<Longrightarrow> R b c \<Longrightarrow> R a c"
begin

lemma ret_keeps: "R s (snd (ret x s))"
  by (simp add: stays)

lemma raise_keeps: "R s (snd (raise e s))"
  by (simp add: stays)

lemma bnd_keeps:
  assumes "R s (snd (m s))" and "\<And>x s. R s (snd (f x s))"
  shows "R s (snd (bnd m f s))"
proof -
  obtain r s1 where m: "m s = (r, s1)" by force
  then have "R s s1" using assms(1) by simp
  then show ?thesis
    using goes_on [OF _ assms(2)] by (cases r) (simp_all add: bnd_def m)
qed

end

section \<open>Dictionaries\<close>

abbreviation keys :: "('k \<times> 'v) list \<Rightarrow> 'k list" where
  "keys d \<equiv> map fst d"

definition wf_dict :: "('k \<times> 'v) list \<Rightarrow> bool" where
  "wf_dict d \<longleftrightarrow> distinct (keys d)"

lemma map_of_update [simp, dict_simps]:
  "map_of (AList.update k v d) k' = (if k' = k then Some v else map_of d k')"
  by (simp add: update_conv')

lemma map_of_delete [simp, dict_simps]:
  "map_of (AList.delete k d) k' = (if k' = k then None else map_of d k')"
  by (simp add: delete_conv')

lemma wf_dict_Nil [simp, intro]: "wf_dict []"
  by (simp add: wf_dict_def)

lemma wf_dict_update [simp, intro]: "wf_dict d \<Longrightarrow> wf_dict (AList.update k v d)"
  by (simp add: wf_dict_def distinct_update)

lemma wf_dict_delete [simp, intro]: "wf_dict d \<Longrightarrow> wf_dict (AList.delete k d)"
  by (simp add: wf_dict_def distinct_delete)

lemma set_keys_update [simp, dict_simps]:
  "fst ` set (AList.update k v d) = insert k (fst ` set d)"
  by (simp add: dom_update)

lemma set_keys_delete [simp, dict_simps]:
  "fst ` set (AList.delete k d) = fst ` set d - {k}"
  by (metis delete_keys list.set_map set_removeAll)

lemma in_keys_iff: "k \<in> fst ` set d \<longleftrightarrow> map_of d k \<noteq> None"
  by (metis domIff dom_map_of_conv_image_fst)

text \<open>A dictionary built by storing its items in order.\<close>

definition dict_of :: "('k \<times> 'v) list \<Rightarrow> ('k \<times> 'v) list" where
  "dict_of items = fold (\<lambda>(k, v). AList.update k v) items []"

lemma wf_dict_of [simp, intro]: "wf_dict (dict_of items)"
proof -
  have "wf_dict d \<Longrightarrow> wf_dict (fold (\<lambda>(k, v). AList.update k v) items d)" for d :: "('a \<times> 'b) list"
    by (induction items arbitrary: d) auto
  then show ?thesis by (simp add: dict_of_def)
qed

lemma keys_dict_of: "set (keys (dict_of items)) = set (keys items)"
proof -
  have "set (keys (fold (\<lambda>(k, v). AList.update k v) items d)) = set (keys d) \<union> set (keys items)"
    for d :: "('a \<times> 'b) list"
  proof (induction items arbitrary: d)
    case (Cons kv items)
    obtain k v where "kv = (k, v)" by force
    with Cons show ?case using set_keys_update [of k v d] by (simp add: insert_commute Un_commute)
  qed simp
  then show ?thesis by (simp add: dict_of_def)
qed

end
