(* ===== verification/Graph_Links.thy ===== *)
theory Graph_Links
  imports WF_Base
begin

text \<open>
  The link algebra of \<^verbatim>\<open>graph.py\<close>: path components and celltypes, the split of a source
  recipe (a path with conversions at positions of it) into anonymous links
  (\<open>anonymous_links\<close>), the grouping of links into fusible runs (\<open>fusible_runs\<close>), and
  the treatment of the one step below a deep celltype (\<open>split_deep_step\<close>,
  \<open>deep_barrier\<close>, \<open>deep_recipe_error\<close>).

  The conversion tables and \<open>validate_expression_shape\<close> belong to the package
  \<^verbatim>\<open>seamless\<close>, which the repository imports: they are the parameters \<open>preserving\<close> and
  \<open>shape\<close>.
\<close>

section \<open>Paths and celltypes\<close>

text \<open>
  A component of a view path: an attribute or mapping key, an integer, a bool (which Python
  counts among the integers, and which the code refuses by name) or a slice.
\<close>

datatype comp =
    KStr string
  | KInt int
  | KBool bool
  | KSlice "int option" "int option" "int option"

type_synonym path = "comp list"
type_synonym celltype = string
type_synonym steps = "(int \<times> celltype) list"
type_synonym link = "celltype \<times> path"
type_synonym shape_check = "path \<Rightarrow> celltype \<Rightarrow> celltype \<Rightarrow> exc option"

definition is_slice :: "comp \<Rightarrow> bool" where
  "is_slice c = (case c of KSlice _ _ _ \<Rightarrow> True | _ \<Rightarrow> False)"

definition is_str :: "comp \<Rightarrow> bool" where
  "is_str c = (case c of KStr _ \<Rightarrow> True | _ \<Rightarrow> False)"

definition deep_celltypes :: "celltype list" where
  "deep_celltypes = [''deepcell'', ''deepfolder'', ''folder'']"

definition is_deep :: "celltype \<Rightarrow> bool" where
  "is_deep ct = List.member deep_celltypes ct"

fun projected_celltype :: "celltype \<Rightarrow> path \<Rightarrow> celltype" where
  "projected_celltype celltype [] = celltype"
| "projected_celltype celltype (component # rest) =
     (if is_slice component then projected_celltype celltype rest
      else projected_celltype
        (if celltype = ''deepcell'' then ''mixed''
         else if List.member [''deepfolder'', ''folder''] celltype then ''bytes''
         else celltype) rest)"

definition link_miswired :: "celltype \<Rightarrow> celltype \<Rightarrow> path \<Rightarrow> bool" where
  "link_miswired source_celltype celltype path =
     (if path = [] then False
      else if is_deep source_celltype \<and> (length path \<noteq> 1 \<or> \<not> is_str (hd path)) then True
      else celltype \<noteq> projected_celltype source_celltype path)"

section \<open>Anonymous links\<close>

text \<open>
  The inner function \<open>path_links\<close>: the links of one path segment and the celltype after
  it. The first step below a deep celltype is a link of its own.
\<close>

definition path_links :: "celltype \<Rightarrow> path \<Rightarrow> link list \<times> celltype" where
  "path_links current segment =
     (if is_deep current \<and> length segment > 1
      then (let c1 = projected_celltype current (take 1 segment);
                rest = drop 1 segment;
                c2 = projected_celltype c1 rest
            in ([(c1, take 1 segment), (c2, rest)], c2))
      else (let c2 = projected_celltype current segment in ([(c2, segment)], c2)))"

definition clamp_position :: "int \<Rightarrow> nat \<Rightarrow> path \<Rightarrow> nat" where
  "clamp_position p position local_path = nat (min (max p (int position)) (int (length local_path)))"

fun links_loop :: "path \<Rightarrow> steps \<Rightarrow> celltype \<Rightarrow> nat \<Rightarrow> link list" where
  "links_loop local_path [] current position =
     (let segment = drop position local_path
      in if segment \<noteq> [] then fst (path_links current segment) else [])"
| "links_loop local_path ((p, converted) # steps) current position =
     (let p' = clamp_position p position local_path;
          segment = drop position (take p' local_path)
      in (if segment \<noteq> [] then fst (path_links current segment) else [])
         @ (converted, []) # links_loop local_path steps converted p')"

definition anonymous_links :: "celltype \<Rightarrow> path \<Rightarrow> steps \<Rightarrow> link list" where
  "anonymous_links source_celltype local_path conversion_steps =
     links_loop local_path (sort_key fst conversion_steps) source_celltype 0"

section \<open>Fusible runs\<close>

text \<open>
  An open run: its input celltype, its path, its celltype, the index of its last link,
  whether it ends in a conversion, and whether it absorbed a conversion before its path.
\<close>

record open_run =
  or_input :: celltype
  or_path :: path
  or_type :: celltype
  or_last :: nat
  or_conv :: bool
  or_absorbed :: bool

type_synonym run = "celltype \<times> path \<times> celltype \<times> nat"

definition close_run :: "run list \<Rightarrow> open_run option \<Rightarrow> run list" where
  "close_run runs opn =
     (case opn of None \<Rightarrow> runs
      | Some r \<Rightarrow> runs @ [(or_input r, or_path r, or_type r, or_last r)])"

definition fuse_link ::
  "(celltype \<Rightarrow> celltype \<Rightarrow> bool) \<Rightarrow> nat \<Rightarrow> celltype \<Rightarrow> link \<Rightarrow> run list \<times> open_run option
   \<Rightarrow> run list \<times> open_run option" where
  "fuse_link preserving index current lnk st =
     (case lnk of (celltype, path) \<Rightarrow> case st of (runs, opn) \<Rightarrow>
      if is_deep current \<or> is_deep celltype
      then (close_run runs opn @ [(current, path, celltype, index)], None)
      else if path \<noteq> [] then
        (case opn of
           None \<Rightarrow> (runs, Some \<lparr>or_input = current, or_path = path, or_type = celltype,
                                 or_last = index, or_conv = False, or_absorbed = False\<rparr>)
         | Some r \<Rightarrow>
             if \<not> or_conv r
             then (runs, Some (r\<lparr>or_path := or_path r @ path, or_type := celltype, or_last := index\<rparr>))
             else if or_path r = [] \<and> \<not> or_absorbed r
                  \<and> (or_input r = or_type r \<or> preserving (or_input r) (or_type r))
             then (runs, Some \<lparr>or_input = or_type r, or_path = path, or_type = celltype,
                                or_last = index, or_conv = False, or_absorbed = True\<rparr>)
             else (close_run runs opn,
                   Some \<lparr>or_input = current, or_path = path, or_type = celltype,
                          or_last = index, or_conv = False, or_absorbed = False\<rparr>))
      else
        (case opn of
           None \<Rightarrow> (runs, Some \<lparr>or_input = current, or_path = [], or_type = celltype,
                                 or_last = index, or_conv = True, or_absorbed = False\<rparr>)
         | Some r \<Rightarrow>
             if celltype = current then (runs, Some (r\<lparr>or_last := index\<rparr>))
             else if or_conv r
             then (close_run runs opn,
                   Some \<lparr>or_input = current, or_path = [], or_type = celltype,
                          or_last = index, or_conv = True, or_absorbed = False\<rparr>)
             else (runs, Some (r\<lparr>or_type := celltype, or_last := index, or_conv := True\<rparr>))))"

fun fuse_loop ::
  "(celltype \<Rightarrow> celltype \<Rightarrow> bool) \<Rightarrow> nat \<Rightarrow> celltype \<Rightarrow> link list \<Rightarrow> run list \<times> open_run option
   \<Rightarrow> run list \<times> open_run option" where
  "fuse_loop preserving index current [] st = st"
| "fuse_loop preserving index current (lnk # links) st =
     fuse_loop preserving (Suc index) (fst lnk) links (fuse_link preserving index current lnk st)"

definition fusible_runs ::
  "(celltype \<Rightarrow> celltype \<Rightarrow> bool) \<Rightarrow> celltype \<Rightarrow> link list \<Rightarrow> run list" where
  "fusible_runs preserving source_celltype links =
     (case fuse_loop preserving 0 source_celltype links ([], None) of
        (runs, opn) \<Rightarrow> close_run runs opn)"

section \<open>The step below a deep celltype\<close>

definition split_deep_step ::
  "celltype \<Rightarrow> path \<Rightarrow> steps \<Rightarrow> (celltype list \<times> celltype \<times> celltype \<times> path \<times> steps) option" where
  "split_deep_step celltype local_path conversion_steps =
     (if local_path = [] then None
      else (let steps = sort_key fst conversion_steps;
                prefix = map snd (filter (\<lambda>s. fst s \<le> 0) steps);
                current = (if prefix \<noteq> [] then last prefix else celltype)
            in if \<not> is_deep current then None
               else Some (prefix, current, projected_celltype current (take 1 local_path),
                          drop 1 local_path,
                          map (\<lambda>s. (fst s - 1, snd s)) (filter (\<lambda>s. fst s > 0) steps))))"

definition deep_barrier :: "celltype \<Rightarrow> path \<Rightarrow> celltype \<Rightarrow> celltype option" where
  "deep_barrier celltype path target_type =
     (if \<not> is_deep celltype \<or> path = [] then None
      else (let member = projected_celltype celltype (take 1 path)
            in if is_deep member then None
               else if length path = 1 \<and> List.member [member, ''checksum''] target_type then None
               else Some member))"

fun recipe_scan :: "shape_check \<Rightarrow> path \<Rightarrow> steps \<Rightarrow> celltype \<Rightarrow> nat \<Rightarrow> exc option" where
  "recipe_scan shape local_path [] current position = None"
| "recipe_scan shape local_path ((p, converted) # steps) current position =
     (let p' = clamp_position p position local_path;
          c = projected_celltype current (drop position (take p' local_path))
      in case (if converted \<noteq> c \<and> (is_deep c \<or> is_deep converted)
               then shape [] c converted else None) of
           Some e \<Rightarrow> Some e
         | None \<Rightarrow> recipe_scan shape local_path steps converted p')"

definition deep_recipe_error :: "shape_check \<Rightarrow> celltype \<Rightarrow> path \<Rightarrow> steps \<Rightarrow> exc option" where
  "deep_recipe_error shape root_type local_path conversion_steps =
     (case (case split_deep_step root_type local_path conversion_steps of
              None \<Rightarrow> None
            | Some (_, deep_type, member, _, _) \<Rightarrow> shape (take 1 local_path) deep_type member) of
        Some e \<Rightarrow> Some e
      | None \<Rightarrow> recipe_scan shape local_path (sort_key fst conversion_steps) root_type 0)"

section \<open>Specifications of link lists and run lists\<close>

text \<open>
  The celltype after a list of links; the links of a list are well-formed one by one, each
  over the celltype of the link before it; a list of runs covers a list of links.
\<close>

definition link_type :: "celltype \<Rightarrow> link list \<Rightarrow> celltype" where
  "link_type current links = (if links = [] then current else fst (last links))"

fun links_wf :: "celltype \<Rightarrow> link list \<Rightarrow> bool" where
  "links_wf current [] = True"
| "links_wf current ((celltype, path) # links) =
     (\<not> link_miswired current celltype path \<and> links_wf celltype links)"

fun covers ::
  "(celltype \<Rightarrow> celltype \<Rightarrow> bool) \<Rightarrow> celltype \<Rightarrow> nat \<Rightarrow> link list \<Rightarrow> run list \<Rightarrow> bool" where
  "covers preserving c base links [] = (links = [])"
| "covers preserving c base links ((inp, p, ty, lst) # runs) =
     (base \<le> lst \<and> lst < base + length links
      \<and> p = concat (map snd (take (Suc lst - base) links))
      \<and> ty = fst (links ! (lst - base))
      \<and> (inp = c \<or> preserving c inp)
      \<and> (is_deep inp \<or> is_deep ty \<longrightarrow> lst = base)
      \<and> covers preserving ty (Suc lst) (drop (Suc lst - base) links) runs)"

text \<open>
  Evaluation of links one by one, and of runs one by one, over an evaluator \<open>ev\<close> of single
  Expressions (\<open>ev input_celltype path celltype checksum\<close>), and the laws of
  \<^verbatim>\<open>expressions.md\<close> (Fusion) that the grouping relies on.
\<close>

type_synonym 'v evaluator = "celltype \<Rightarrow> path \<Rightarrow> celltype \<Rightarrow> 'v \<Rightarrow> 'v option"

fun eval_links :: "'v evaluator \<Rightarrow> celltype \<Rightarrow> link list \<Rightarrow> 'v \<Rightarrow> 'v option" where
  "eval_links ev c [] v = Some v"
| "eval_links ev c ((t, p) # links) v = Option.bind (ev c p t v) (eval_links ev t links)"

fun eval_runs :: "'v evaluator \<Rightarrow> run list \<Rightarrow> 'v \<Rightarrow> 'v option" where
  "eval_runs ev [] v = Some v"
| "eval_runs ev ((i, p, t, l) # runs) v = Option.bind (ev i p t v) (eval_runs ev runs)"

definition fusion_laws :: "(celltype \<Rightarrow> celltype \<Rightarrow> bool) \<Rightarrow> 'v evaluator \<Rightarrow> bool" where
  "fusion_laws preserving ev \<longleftrightarrow>
     (\<forall>a p q v. \<not> is_deep a \<and> p \<noteq> [] \<and> q \<noteq> [] \<longrightarrow>
        Option.bind (ev a p a v) (ev a q a) = ev a (p @ q) a v)
   \<and> (\<forall>a p c v. \<not> is_deep a \<and> \<not> is_deep c \<and> p \<noteq> [] \<longrightarrow>
        Option.bind (ev a p a v) (ev a [] c) = ev a p c v)
   \<and> (\<forall>a b q v. preserving a b \<and> \<not> is_deep a \<and> \<not> is_deep b \<and> q \<noteq> [] \<longrightarrow>
        Option.bind (ev a [] b v) (ev b q b) = ev b q b v)
   \<and> (\<forall>a v. \<not> is_deep a \<longrightarrow> ev a [] a v = Some v)"

section \<open>Lemmas on projection and clamping\<close>

lemma projected_append:
  "projected_celltype ct (p @ q) = projected_celltype (projected_celltype ct p) q"
  by (induction ct p rule: projected_celltype.induct) auto

lemma is_deep_iff:
  "is_deep ct \<longleftrightarrow> ct = ''deepcell'' \<or> ct = ''deepfolder'' \<or> ct = ''folder''"
  by (auto simp: is_deep_def deep_celltypes_def)

lemma not_deep_members [simp]:
  "\<not> is_deep ''mixed''" "\<not> is_deep ''bytes''" "\<not> is_deep ''plain''" "\<not> is_deep ''text''"
  by (simp_all add: is_deep_iff)

lemma projected_not_deep [simp]: "\<not> is_deep ct \<Longrightarrow> projected_celltype ct p = ct"
  by (induction ct p rule: projected_celltype.induct) (auto simp: is_deep_iff)

lemma projected_item_not_deep:
  "\<not> is_slice c \<Longrightarrow> \<not> is_deep (projected_celltype ct (c # p))"
  by (cases "is_deep ct") (auto simp: is_deep_iff)

lemma is_str_not_slice: "is_str c \<Longrightarrow> \<not> is_slice c"
  by (cases c) (auto simp: is_str_def is_slice_def)

lemma clamp_bounds:
  assumes "position \<le> length local_path"
  shows "position \<le> clamp_position p position local_path"
    and "clamp_position p position local_path \<le> length local_path"
  using assms by (auto simp: clamp_position_def)

lemma clamp_nonpos [simp]: "p \<le> 0 \<Longrightarrow> clamp_position p 0 local_path = 0"
  by (simp add: clamp_position_def)

lemma path_links_paths: "concat (map snd (fst (path_links c s))) = s"
  by (simp add: path_links_def Let_def)

lemma path_links_type:
  "fst (path_links c s) \<noteq> [] \<and> fst (last (fst (path_links c s))) = projected_celltype c s
   \<and> snd (path_links c s) = projected_celltype c s"
  by (auto simp: path_links_def Let_def projected_append [symmetric])

lemma drop_take_append:
  "i \<le> j \<Longrightarrow> j \<le> length xs \<Longrightarrow> drop i (take j xs) @ drop j xs = drop i xs"
  by (metis append_take_drop_id drop_append length_take min.absorb2 diff_is_0_eq drop0)

section \<open>The links of a recipe\<close>

lemma links_loop_paths:
  "position \<le> length local_path \<Longrightarrow>
   concat (map snd (links_loop local_path steps current position)) = drop position local_path"
proof (induction local_path steps current position rule: links_loop.induct)
  case (1 local_path current position)
  then show ?case by (simp add: Let_def path_links_paths)
next
  case (2 local_path p converted steps current position)
  define q where "q = clamp_position p position local_path"
  have q: "position \<le> q" "q \<le> length local_path"
    using clamp_bounds [OF "2.prems"] by (auto simp: q_def)
  have IH: "concat (map snd (links_loop local_path steps converted q)) = drop q local_path"
    using "2.IH" [OF q_def refl q(2)] .
  have seg: "concat (map snd (if drop position (take q local_path) \<noteq> []
      then fst (path_links current (drop position (take q local_path))) else []))
    = drop position (take q local_path)"
    by (simp only: path_links_paths split: if_split) simp
  show ?case
    unfolding links_loop.simps Let_def q_def [symmetric] map_append concat_append seg
    using IH drop_take_append [OF q] by (simp del: drop_take)
qed

lemma links_loop_nonpos:
  assumes "\<forall>s \<in> set pre. fst s \<le> 0"
  shows "links_loop local_path (pre @ steps) current 0 =
     map (\<lambda>s. (snd s, [])) pre
     @ links_loop local_path steps (if pre = [] then current else snd (last pre)) 0"
  using assms by (induction pre arbitrary: current) (auto simp: Let_def)

lemma sorted_split_nonpos:
  assumes "sorted (map fst (steps :: (int \<times> 'a) list))"
  shows "steps = filter (\<lambda>s. fst s \<le> 0) steps @ filter (\<lambda>s. fst s > 0) steps"
  using assms
proof (induction steps)
  case Nil
  then show ?case by simp
next
  case (Cons s steps)
  show ?case
  proof (cases "fst s \<le> 0")
    case True
    with Cons show ?thesis by auto
  next
    case False
    with Cons.prems have "\<forall>t \<in> set steps. fst t > 0" by force
    then have "filter (\<lambda>s. fst s \<le> 0) steps = []" "filter (\<lambda>s. fst s > 0) steps = steps"
      by (force simp: filter_empty_conv filter_id_conv)+
    with False show ?thesis by simp
  qed
qed

definition shift_steps :: "steps \<Rightarrow> steps" where
  "shift_steps steps = map (\<lambda>s. (fst s - 1, snd s)) steps"

lemma clamp_shift:
  "0 < p \<Longrightarrow> clamp_position p (Suc i) (k # rest) = Suc (clamp_position (p - 1) i rest)"
  "0 < p \<Longrightarrow> clamp_position p 0 (k # rest) = Suc (clamp_position (p - 1) 0 rest)"
  by (auto simp: clamp_position_def)

lemma links_loop_shift:
  "\<forall>s \<in> set steps. 0 < fst s \<Longrightarrow>
   links_loop (k # rest) steps current (Suc i) = links_loop rest (shift_steps steps) current i"
proof (induction steps arbitrary: current i)
  case Nil
  then show ?case by (simp add: shift_steps_def Let_def)
next
  case (Cons s steps)
  then show ?case
    by (cases s) (simp add: shift_steps_def Let_def clamp_shift)
qed

lemma path_links_deep:
  assumes "is_deep c" and "\<not> is_slice k"
  shows "fst (path_links c (k # xs)) =
    (projected_celltype c [k], [k])
    # (if xs \<noteq> [] then fst (path_links (projected_celltype c [k]) xs) else [])"
  using assms projected_item_not_deep [OF assms(2), of c "[]"]
  by (cases xs) (auto simp: path_links_def Let_def)

lemma links_loop_deep_step:
  assumes pos: "\<forall>s \<in> set steps. 0 < fst s" and deep: "is_deep c" and k: "\<not> is_slice k"
  shows "links_loop (k # rest) steps c 0 =
    (projected_celltype c [k], [k])
    # links_loop rest (shift_steps steps) (projected_celltype c [k]) 0"
proof (cases steps)
  case Nil
  then show ?thesis
    using path_links_deep [OF deep k, of rest] by (simp add: shift_steps_def Let_def)
next
  case (Cons s ss)
  obtain p conv where s: "s = (p, conv)" by force
  define j where "j = clamp_position (p - 1) 0 rest"
  have q: "clamp_position p 0 (k # rest) = Suc j"
    using pos Cons s by (simp add: clamp_shift j_def)
  have ss: "links_loop (k # rest) ss conv (Suc j) = links_loop rest (shift_steps ss) conv j"
    using pos Cons by (simp add: links_loop_shift)
  show ?thesis
    using path_links_deep [OF deep k, of "take j rest"]
    by (simp add: Cons s q ss Let_def shift_steps_def j_def [symmetric] del: projected_celltype.simps)
qed

lemma shift_steps_sorted:
  "sorted (map fst steps) \<Longrightarrow> sort_key fst (shift_steps steps) = shift_steps steps"
  by (rule sort_key_id_if_sorted) 
     (auto simp: shift_steps_def sorted_map sorted_wrt_map elim: sorted_wrt_mono_rel [rotated])

lemma split_deep_step_links:
  assumes split: "split_deep_step ct local_path steps = Some (prefix, deep, member, rest, rest_steps)"
    and item: "\<not> is_slice (hd local_path)"
  shows "anonymous_links ct local_path steps =
    map (\<lambda>c. (c, [])) prefix @ (member, take 1 local_path) # anonymous_links member rest rest_steps"
proof -
  define ss where "ss = sort_key fst steps"
  define pre where "pre = filter (\<lambda>s. fst s \<le> 0) ss"
  define pos where "pos = filter (\<lambda>s. fst s > 0) ss"
  have ne: "local_path \<noteq> []" and prefix: "prefix = map snd pre"
    and deep: "deep = (if prefix \<noteq> [] then last prefix else ct)" and isd: "is_deep deep"
    and member: "member = projected_celltype deep (take 1 local_path)"
    and rest: "rest = drop 1 local_path" and rs: "rest_steps = shift_steps pos"
    using split
    by (auto simp: split_deep_step_def Let_def ss_def pre_def pos_def shift_steps_def split: if_splits)
  obtain k xs where lp: "local_path = k # xs" using ne by (cases local_path) auto
  have srt: "sorted (map fst ss)" by (simp add: ss_def)
  have app: "ss = pre @ pos"
    unfolding pre_def pos_def by (rule sorted_split_nonpos [OF srt])
  have srt': "sorted (map fst pos)"
    using srt app by (metis map_append sorted_append)
  have "anonymous_links ct local_path steps
      = map (\<lambda>s. (snd s, [])) pre @ links_loop local_path pos (if pre = [] then ct else snd (last pre)) 0"
    unfolding anonymous_links_def ss_def [symmetric] app
    by (rule links_loop_nonpos) (simp add: pre_def)
  also have "(if pre = [] then ct else snd (last pre)) = deep"
    by (simp add: deep prefix last_map)
  also have "links_loop local_path pos deep 0 = (member, [k]) # links_loop xs (shift_steps pos) member 0"
    unfolding lp member using links_loop_deep_step [OF _ isd, of pos k xs] item
    by (simp add: lp pos_def)
  finally show ?thesis
    by (simp add: prefix comp_def lp rest rs anonymous_links_def shift_steps_sorted [OF srt'])
qed

section \<open>Well-formed links\<close>

lemma links_loop_wf:
  "\<not> is_deep current \<Longrightarrow> \<forall>s \<in> set steps. \<not> is_deep (snd s) \<Longrightarrow>
   links_wf current (links_loop local_path steps current position)"
  by (induction local_path steps current position rule: links_loop.induct)
     (auto simp: Let_def path_links_def link_miswired_def)

lemma links_wf_append:
  "links_wf c (xs @ ys) \<longleftrightarrow> links_wf c xs \<and> links_wf (link_type c xs) ys"
  by (induction c xs rule: links_wf.induct) (auto simp: link_type_def)

lemma links_wf_conversions: "links_wf c (map (\<lambda>c. (c, [])) cs)"
  by (induction cs arbitrary: c) (auto simp: link_miswired_def)

lemma anonymous_links_wf:
  assumes step: "split_deep_step ct local_path steps \<noteq> None \<Longrightarrow> is_str (hd local_path)"
    and conv: "\<forall>s \<in> set steps. 0 < fst s \<longrightarrow> \<not> is_deep (snd s)"
  shows "links_wf ct (anonymous_links ct local_path steps)"
proof (cases "split_deep_step ct local_path steps")
  case (Some d)
  obtain prefix deep member rest rest_steps
    where d: "d = (prefix, deep, member, rest, rest_steps)" by (cases d)
  have str: "is_str (hd local_path)" using step Some by simp
  have links: "anonymous_links ct local_path steps =
      map (\<lambda>c. (c, [])) prefix @ (member, take 1 local_path) # anonymous_links member rest rest_steps"
    using split_deep_step_links Some d str is_str_not_slice by blast
  have ne: "local_path \<noteq> []" and deep: "deep = (if prefix \<noteq> [] then last prefix else ct)"
    and member: "member = projected_celltype deep (take 1 local_path)"
    and rs: "rest_steps = shift_steps (filter (\<lambda>s. fst s > 0) (sort_key fst steps))"
    using Some d by (auto simp: split_deep_step_def Let_def shift_steps_def split: if_splits)
  have t: "take 1 local_path = [hd local_path]" using ne by (cases local_path) auto
  have nd: "\<not> is_deep member"
    unfolding member t by (rule projected_item_not_deep [OF is_str_not_slice [OF str]])
  have "links_wf member (anonymous_links member rest rest_steps)"
    unfolding anonymous_links_def
    by (rule links_loop_wf [OF nd]) (use conv in \<open>auto simp: rs shift_steps_def\<close>)
  moreover have "\<not> link_miswired deep member (take 1 local_path)"
    unfolding link_miswired_def member t using str by simp
  moreover have "link_type ct (map (\<lambda>c. (c, [])) prefix) = deep"
    by (simp add: link_type_def deep last_map)
  ultimately show ?thesis
    unfolding links by (simp add: links_wf_append links_wf_conversions)
next
  case None
  define ss where "ss = sort_key fst steps"
  define pre where "pre = filter (\<lambda>s. fst s \<le> 0) ss"
  define pos where "pos = filter (\<lambda>s. fst s > 0) ss"
  define cur where "cur = (if pre = [] then ct else snd (last pre))"
  have app: "ss = pre @ pos"
    unfolding pre_def pos_def by (rule sorted_split_nonpos) (simp add: ss_def)
  have links: "anonymous_links ct local_path steps
      = map (\<lambda>c. (c, [])) (map snd pre) @ links_loop local_path pos cur 0"
    unfolding anonymous_links_def ss_def [symmetric] app cur_def
    using links_loop_nonpos [of pre local_path pos ct] by (simp add: pre_def comp_def)
  have type: "link_type ct (map (\<lambda>c. (c, [])) (map snd pre)) = cur"
    by (simp add: link_type_def cur_def last_map)
  have posnd: "\<forall>s \<in> set pos. \<not> is_deep (snd s)"
    using conv by (auto simp: pos_def ss_def)
  have "links_wf cur (links_loop local_path pos cur 0)"
  proof (cases "local_path = []")
    case True
    have "links_wf c (links_loop [] ss c i)" for c i and ss :: steps
      by (induction "[] :: path" ss c i rule: links_loop.induct) (auto simp: Let_def link_miswired_def)
    with True show ?thesis by simp
  next
    case False
    with None have "\<not> is_deep cur"
      by (auto simp: split_deep_step_def Let_def cur_def pre_def ss_def last_map split: if_splits)
    then show ?thesis using posnd by (rule links_loop_wf)
  qed
  with type show ?thesis
    unfolding links by (simp add: links_wf_append links_wf_conversions del: map_map)
qed

section \<open>The runs of a list of links\<close>

lemma link_type_append: "link_type c (xs @ ys) = link_type (link_type c xs) ys"
  by (simp add: link_type_def)

lemma link_type_simps [simp]:
  "link_type c [] = c" "link_type c (l # ls) = link_type (fst l) ls"
  by (auto simp: link_type_def)

text \<open>A run over the group of links from index \<open>base\<close> to \<open>lst\<close>.\<close>

definition covers_run ::
  "(celltype \<Rightarrow> celltype \<Rightarrow> bool) \<Rightarrow> celltype \<Rightarrow> nat \<Rightarrow> link list \<Rightarrow> run \<Rightarrow> bool" where
  "covers_run preserving c base grp r =
     (case r of (inp, p, ty, lst) \<Rightarrow>
        grp \<noteq> [] \<and> Suc lst = base + length grp \<and> p = concat (map snd grp)
        \<and> ty = link_type c grp \<and> (inp = c \<or> preserving c inp)
        \<and> (is_deep inp \<or> is_deep ty \<longrightarrow> length grp = 1))"

lemma covers_single:
  assumes "covers_run preserving c base grp r"
  shows "covers preserving c base grp [r]"
proof -
  obtain inp p ty lst where r: "r = (inp, p, ty, lst)" by (cases r)
  have grp: "grp \<noteq> []" and len: "Suc lst = base + length grp"
    and rest: "p = concat (map snd grp)" "ty = fst (last grp)" "inp = c \<or> preserving c inp"
      "is_deep inp \<or> is_deep ty \<longrightarrow> length grp = 1"
    using assms by (simp_all add: r covers_run_def link_type_def split: if_splits)
  have n: "Suc lst - base = length grp" "lst - base = length grp - 1" "base \<le> lst" "lst < base + length grp"
    using len grp by (cases grp; simp)+
  have l: "fst (grp ! (lst - base)) = fst (last grp)"
    using grp n(2) by (simp add: last_conv_nth)
  have d: "is_deep inp \<or> is_deep ty \<longrightarrow> lst = base"
    using rest(4) n(2,3) by auto
  show ?thesis
    unfolding r covers.simps n(1) using rest(1,2,3) l d n(3,4) by simp
qed

lemma covers_snoc:
  assumes "covers preserving c base links runs"
    and "covers_run preserving (link_type c links) (base + length links) grp r"
  shows "covers preserving c base (links @ grp) (runs @ [r])"
  using assms
proof (induction preserving c base links runs rule: covers.induct)
  case (1 preserving c base links)
  then show ?case using covers_single by fastforce
next
  case (2 preserving c base links inp p ty lst runs)
  let ?n = "Suc lst - base"
  from "2.prems"(1) have b: "base \<le> lst" "lst < base + length links"
    and p: "p = concat (map snd (take ?n links))" and ty: "ty = fst (links ! (lst - base))"
    and inp: "inp = c \<or> preserving c inp" "is_deep inp \<or> is_deep ty \<longrightarrow> lst = base"
    and rest: "covers preserving ty (Suc lst) (drop ?n links) runs"
    unfolding covers.simps by blast+
  from b have n: "?n \<le> length links" "Suc lst + length (drop ?n links) = base + length links"
    "lst - base < length links" "take ?n links \<noteq> []" "lst < base + length (links @ grp)"
    by auto
  have last: "last (take ?n links) = links ! (lst - base)"
    using b n by (subst last_conv_nth) (auto simp: min_def)
  have "link_type c (take ?n links) = ty"
    using n(4) by (simp only: link_type_def last ty if_False)
  then have lt: "link_type c links = link_type ty (drop ?n links)"
    by (metis append_take_drop_id link_type_append)
  have tail: "covers preserving ty (Suc lst) (drop ?n links @ grp) (runs @ [r])"
    by (rule "2.IH" [OF rest]) (use "2.prems"(2) in \<open>simp only: lt n(2)\<close>)
  have t: "take ?n (links @ grp) = take ?n links" "drop ?n (links @ grp) = drop ?n links @ grp"
    "(links @ grp) ! (lst - base) = links ! (lst - base)"
    using n by (simp_all add: nth_append)
  show ?case
    unfolding append_Cons covers.simps t using b(1) n(5) p ty inp tail by blast
qed

definition open_ok ::
  "(celltype \<Rightarrow> celltype \<Rightarrow> bool) \<Rightarrow> celltype \<Rightarrow> nat \<Rightarrow> link list \<Rightarrow> celltype \<Rightarrow> open_run option \<Rightarrow> bool" where
  "open_ok preserving c base grp current opn =
     (case opn of
        None \<Rightarrow> grp = []
      | Some r \<Rightarrow> covers_run preserving c base grp (or_input r, or_path r, or_type r, or_last r)
          \<and> or_type r = current \<and> \<not> is_deep current \<and> \<not> is_deep (or_input r)
          \<and> (or_absorbed r \<longrightarrow> or_path r \<noteq> []) \<and> (\<not> or_absorbed r \<longrightarrow> or_input r = c))"

definition fuse_inv ::
  "(celltype \<Rightarrow> celltype \<Rightarrow> bool) \<Rightarrow> celltype \<Rightarrow> link list \<Rightarrow> celltype \<Rightarrow> run list \<times> open_run option \<Rightarrow> bool" where
  "fuse_inv preserving src ls current st \<longleftrightarrow>
     (\<exists>pre grp. ls = pre @ grp \<and> covers preserving src 0 pre (fst st)
        \<and> open_ok preserving (link_type src pre) (length pre) grp current (snd st)
        \<and> current = link_type src ls)"

lemma fuse_inv_close:
  "fuse_inv preserving src ls current (runs, opn) \<Longrightarrow>
   covers preserving src 0 ls (close_run runs opn)"
proof -
  assume "fuse_inv preserving src ls current (runs, opn)"
  then obtain pre grp where ls: "ls = pre @ grp" and cov: "covers preserving src 0 pre runs"
    and ok: "open_ok preserving (link_type src pre) (length pre) grp current opn"
    unfolding fuse_inv_def fst_conv snd_conv by blast
  show ?thesis
  proof (cases opn)
    case None
    then show ?thesis using ok cov by (simp add: ls open_ok_def close_run_def)
  next
    case (Some r)
    then have "covers_run preserving (link_type src pre) (0 + length pre) grp
        (or_input r, or_path r, or_type r, or_last r)"
      using ok unfolding Some open_ok_def option.case add_0 by blast
    from covers_snoc [OF cov this] show ?thesis by (simp add: ls close_run_def Some)
  qed
qed

lemma fuse_inv_new:
  assumes "covers preserving src 0 ls runs" and "l = (celltype, path)"
    and "current = link_type src ls" and "\<not> is_deep celltype" and "\<not> is_deep current"
  shows "fuse_inv preserving src (ls @ [l]) celltype
    (runs, Some \<lparr>or_input = current, or_path = path, or_type = celltype,
                  or_last = length ls, or_conv = b, or_absorbed = False\<rparr>)"
  unfolding fuse_inv_def
  by (intro exI [where x = ls] exI [where x = "[l]"])
     (use assms in \<open>simp add: open_ok_def covers_run_def link_type_append\<close>)

lemma fuse_inv_deep:
  assumes "covers preserving src 0 ls runs" and "l = (celltype, path)"
    and "current = link_type src ls"
  shows "fuse_inv preserving src (ls @ [l]) celltype
    (runs @ [(current, path, celltype, length ls)], None)"
proof -
  have "covers preserving src 0 (ls @ [l]) (runs @ [(current, path, celltype, length ls)])"
    by (rule covers_snoc [OF assms(1)]) (use assms(2,3) in \<open>simp add: covers_run_def\<close>)
  then show ?thesis
    unfolding fuse_inv_def
    by (intro exI [where x = "ls @ [l]"] exI [where x = "[]"])
       (use assms(2) in \<open>simp add: open_ok_def link_type_append\<close>)
qed

lemma fuse_inv_extend:
  assumes "fuse_inv preserving src ls current (runs, Some r)" and "l = (celltype, path)"
    and "\<not> is_deep celltype"
    and "or_input r' = or_input r \<and> or_absorbed r' = or_absorbed r
       \<or> or_absorbed r' \<and> \<not> or_absorbed r \<and> or_path r' \<noteq> [] \<and> or_input r' = or_type r
         \<and> (or_input r = or_type r \<or> preserving (or_input r) (or_type r))"
    and "or_path r' = or_path r @ path" and "or_type r' = celltype" and "or_last r' = length ls"
  shows "fuse_inv preserving src (ls @ [l]) celltype (runs, Some r')"
proof -
  obtain pre grp where ls: "ls = pre @ grp" and cov: "covers preserving src 0 pre runs"
    and ok: "open_ok preserving (link_type src pre) (length pre) grp current (Some r)"
    using assms(1) by (auto simp: fuse_inv_def)
  from ok have r: "covers_run preserving (link_type src pre) (length pre) grp
      (or_input r, or_path r, or_type r, or_last r)" "or_type r = current" "\<not> is_deep current"
    "\<not> is_deep (or_input r)" "or_absorbed r \<longrightarrow> or_path r \<noteq> []"
    "\<not> or_absorbed r \<longrightarrow> or_input r = link_type src pre"
    unfolding open_ok_def option.case by blast+
  have "open_ok preserving (link_type src pre) (length pre) (grp @ [l]) celltype (Some r')"
    using r assms(2-7) ls by (auto simp: open_ok_def covers_run_def link_type_append)
  then show ?thesis
    unfolding fuse_inv_def
    by (intro exI [where x = pre] exI [where x = "grp @ [l]"])
       (use cov ls assms(2) in \<open>simp add: link_type_append\<close>)
qed

lemma fuse_link_inv:
  assumes inv: "fuse_inv preserving src ls current (runs, opn)"
  shows "fuse_inv preserving src (ls @ [l]) (fst l)
    (fuse_link preserving (length ls) current l (runs, opn))"
proof -
  obtain celltype path where l: "l = (celltype, path)" by force
  have cur: "current = link_type src ls" using inv by (auto simp: fuse_inv_def)
  note closed = fuse_inv_close [OF inv]
  show ?thesis
  proof (cases "is_deep current \<or> is_deep celltype")
    case True
    then show ?thesis using fuse_inv_deep [OF closed l cur] by (simp add: fuse_link_def l)
  next
    case False
    show ?thesis
    proof (cases opn)
      case None
      then show ?thesis
        using False fuse_inv_new [OF closed l cur]
        by (cases "path = []") (simp_all add: fuse_link_def l close_run_def)
    next
      case (Some r)
      have ty: "or_type r = current" using inv Some by (auto simp: fuse_inv_def open_ok_def)
      note extend = fuse_inv_extend [OF inv [unfolded Some] l]
      note new = fuse_inv_new [OF closed l cur]
      have nd: "\<not> is_deep current" "\<not> is_deep celltype" using False by simp_all
      consider (path) "path \<noteq> []" "\<not> or_conv r"
        | (absorb) "path \<noteq> []" "or_conv r" "or_path r = []" "\<not> or_absorbed r"
            "or_input r = or_type r \<or> preserving (or_input r) (or_type r)"
        | (barrier) "path \<noteq> []" "or_conv r"
            "\<not> (or_path r = [] \<and> \<not> or_absorbed r
              \<and> (or_input r = or_type r \<or> preserving (or_input r) (or_type r)))"
        | (same) "path = []" "celltype = current"
        | (second) "path = []" "celltype \<noteq> current" "or_conv r"
        | (conv) "path = []" "celltype \<noteq> current" "\<not> or_conv r"
        by blast
      then show ?thesis
      proof cases
        case path
        have "fuse_inv preserving src (ls @ [l]) celltype
            (runs, Some (r\<lparr>or_path := or_path r @ path, or_type := celltype, or_last := length ls\<rparr>))"
          by (rule extend) (use nd in simp_all)
        with path nd show ?thesis by (simp add: fuse_link_def l Some)
      next
        case absorb
        have "fuse_inv preserving src (ls @ [l]) celltype
            (runs, Some \<lparr>or_input = or_type r, or_path = path, or_type = celltype,
                          or_last = length ls, or_conv = False, or_absorbed = True\<rparr>)"
          by (rule extend) (use nd absorb in simp_all)
        with absorb nd show ?thesis by (simp add: fuse_link_def l Some)
      next
        case barrier
        with nd new [OF nd(2,1)] show ?thesis by (auto simp: fuse_link_def l Some)
      next
        case same
        have "fuse_inv preserving src (ls @ [l]) celltype (runs, Some (r\<lparr>or_last := length ls\<rparr>))"
          by (rule extend) (use nd same ty in simp_all)
        with same nd show ?thesis by (simp add: fuse_link_def l Some)
      next
        case second
        with nd new [OF nd(2,1)] show ?thesis by (simp add: fuse_link_def l Some)
      next
        case conv
        have "fuse_inv preserving src (ls @ [l]) celltype
            (runs, Some (r\<lparr>or_type := celltype, or_last := length ls, or_conv := True\<rparr>))"
          by (rule extend) (use nd conv in simp_all)
        with conv nd show ?thesis by (simp add: fuse_link_def l Some)
      qed
    qed
  qed
qed

lemma fuse_loop_inv:
  "fuse_inv preserving src ls current st \<Longrightarrow>
   covers preserving src 0 (ls @ links)
     (case fuse_loop preserving (length ls) current links st of (runs, opn) \<Rightarrow> close_run runs opn)"
proof (induction links arbitrary: ls current st)
  case Nil
  then show ?case by (cases st) (simp add: fuse_inv_close)
next
  case (Cons l links)
  have "fuse_inv preserving src (ls @ [l]) (fst l) (fuse_link preserving (length ls) current l st)"
    using fuse_link_inv Cons.prems by (cases st) simp
  from Cons.IH [OF this] show ?case by simp
qed

lemma fusible_runs_cover: "covers preserving src 0 links (fusible_runs preserving src links)"
proof -
  have "fuse_inv preserving src [] src ([], None)"
    by (simp add: fuse_inv_def open_ok_def)
  from fuse_loop_inv [OF this, of links] show ?thesis by (simp add: fusible_runs_def)
qed

end
