(* ===== verification/Graph_Fusion.thy ===== *)
theory Graph_Fusion
  imports Graph_Links
begin

text \<open>
  What \<open>fusible_runs\<close> is for: evaluating one Expression per run gives the value that
  evaluating every anonymous link in turn gives, under the fusion laws of the Expression
  evaluator. The grouping is read against the laws here and nowhere else.
\<close>

section \<open>Evaluation of appended lists\<close>

lemma eval_runs_append:
  "eval_runs ev (xs @ ys) v = Option.bind (eval_runs ev xs v) (eval_runs ev ys)"
  by (induction ev xs v rule: eval_runs.induct) (auto split: bind_splits)

lemma eval_links_append:
  "eval_links ev c (xs @ ys) v = Option.bind (eval_links ev c xs v) (eval_links ev (link_type c xs) ys)"
  by (induction ev c xs v rule: eval_links.induct) (auto split: bind_splits)

lemma eval_single [simp]: "eval_runs ev [(i, p, t, n)] = ev i p t" "eval_links ev c [(t, p)] = ev c p t"
proof -
  have "eval_runs ev [] = Some" "eval_links ev t [] = Some" by (auto intro!: ext)
  then show "eval_runs ev [(i, p, t, n)] = ev i p t" "eval_links ev c [(t, p)] = ev c p t"
    by (auto intro!: ext)
qed

lemma eval_close_Some:
  "eval_runs ev (close_run runs (Some r)) v =
   Option.bind (eval_runs ev runs v) (ev (or_input r) (or_path r) (or_type r))"
  by (simp add: close_run_def eval_runs_append del: eval_runs.simps)

lemma eval_close_None: "eval_runs ev (close_run runs None) v = eval_runs ev runs v"
  by (simp add: close_run_def)

section \<open>The loop keeps the value\<close>

definition open_shape :: "celltype \<Rightarrow> open_run option \<Rightarrow> bool" where
  "open_shape current opn =
     (case opn of None \<Rightarrow> True
      | Some r \<Rightarrow> or_type r = current \<and> \<not> is_deep current \<and> \<not> is_deep (or_input r)
          \<and> (\<not> or_conv r \<longrightarrow> or_path r \<noteq> [] \<and> or_input r = current))"

definition eval_inv ::
  "'v evaluator \<Rightarrow> celltype \<Rightarrow> link list \<Rightarrow> celltype \<Rightarrow> run list \<times> open_run option \<Rightarrow> bool" where
  "eval_inv ev src ls current st \<longleftrightarrow>
     current = link_type src ls \<and> open_shape current (snd st)
   \<and> (\<forall>v. eval_runs ev (close_run (fst st) (snd st)) v = eval_links ev src ls v)"

lemma fusion_lawsD:
  assumes "fusion_laws preserving ev"
  shows "\<not> is_deep a \<Longrightarrow> p \<noteq> [] \<Longrightarrow> q \<noteq> [] \<Longrightarrow>
      Option.bind (ev a p a v) (ev a q a) = ev a (p @ q) a v"
    and "\<not> is_deep a \<Longrightarrow> \<not> is_deep c \<Longrightarrow> p \<noteq> [] \<Longrightarrow>
      Option.bind (ev a p a v) (ev a [] c) = ev a p c v"
    and "preserving a b \<Longrightarrow> \<not> is_deep a \<Longrightarrow> \<not> is_deep b \<Longrightarrow> q \<noteq> [] \<Longrightarrow>
      Option.bind (ev a [] b v) (ev b q b) = ev b q b v"
    and "\<not> is_deep a \<Longrightarrow> ev a [] a v = Some v"
  using assms unfolding fusion_laws_def by blast+

lemma eval_snoc_link:
  assumes "eval_inv ev src ls current st"
  shows "eval_links ev src (ls @ [(celltype, path)]) v =
    Option.bind (eval_runs ev (close_run (fst st) (snd st)) v) (ev current path celltype)"
  using assms by (simp add: eval_inv_def eval_links_append del: eval_links.simps)

lemma eval_inv_closed:
  assumes "eval_inv ev src ls current (runs, opn)"
  shows "eval_inv ev src (ls @ [(celltype, path)]) celltype
      (close_run runs opn @ [(current, path, celltype, n)], None)"
    and "\<not> is_deep current \<Longrightarrow> \<not> is_deep celltype \<Longrightarrow> b \<or> (path \<noteq> [] \<and> current = celltype) \<Longrightarrow>
      eval_inv ev src (ls @ [(celltype, path)]) celltype
      (close_run runs opn, Some \<lparr>or_input = current, or_path = path, or_type = celltype,
                                  or_last = n, or_conv = b, or_absorbed = False\<rparr>)"
proof -
  show "eval_inv ev src (ls @ [(celltype, path)]) celltype
      (close_run runs opn @ [(current, path, celltype, n)], None)"
    using eval_snoc_link [OF assms]
    by (simp add: eval_inv_def open_shape_def link_type_append eval_close_None eval_runs_append
      del: eval_runs.simps)
  show "eval_inv ev src (ls @ [(celltype, path)]) celltype
      (close_run runs opn, Some \<lparr>or_input = current, or_path = path, or_type = celltype,
                                  or_last = n, or_conv = b, or_absorbed = False\<rparr>)"
    if "\<not> is_deep current" "\<not> is_deep celltype" "b \<or> (path \<noteq> [] \<and> current = celltype)"
    using eval_snoc_link [OF assms] that
    by (auto simp: eval_inv_def open_shape_def link_type_append eval_close_Some)
qed

lemma eval_inv_merge:
  assumes inv: "eval_inv ev src ls current (runs, Some r)"
    and ev: "\<And>w. Option.bind (ev (or_input r) (or_path r) (or_type r) w) (ev current path celltype)
      = ev (or_input r') (or_path r') (or_type r') w"
    and shape: "open_shape celltype (Some r')"
  shows "eval_inv ev src (ls @ [(celltype, path)]) celltype (runs, Some r')"
proof -
  have "eval_links ev src (ls @ [(celltype, path)]) v
      = Option.bind (eval_runs ev runs v) (ev (or_input r') (or_path r') (or_type r'))" for v
    unfolding eval_snoc_link [OF inv] fst_conv snd_conv eval_close_Some
    by (cases "eval_runs ev runs v") (simp_all add: ev)
  with shape show ?thesis by (simp add: eval_inv_def eval_close_Some link_type_append)
qed

lemma fuse_link_eval:
  assumes laws: "fusion_laws preserving ev"
    and inv: "eval_inv ev src ls current (runs, opn)"
    and wf: "\<not> link_miswired current celltype path"
  shows "eval_inv ev src (ls @ [(celltype, path)]) celltype
    (fuse_link preserving n current (celltype, path) (runs, opn))"
proof (cases "is_deep current \<or> is_deep celltype")
  case True
  then show ?thesis using eval_inv_closed(1) [OF inv] by (simp add: fuse_link_def)
next
  case False
  then have nd: "\<not> is_deep current" "\<not> is_deep celltype" by simp_all
  have keep: "path \<noteq> [] \<Longrightarrow> celltype = current"
    using wf nd by (simp add: link_miswired_def)
  note fresh = eval_inv_closed(2) [OF inv nd]
  show ?thesis
  proof (cases opn)
    case None
    with nd keep fresh show ?thesis
      by (cases "path = []") (simp_all add: fuse_link_def close_run_def)
  next
    case (Some r)
    have r: "or_type r = current" "\<not> is_deep (or_input r)"
      "\<not> or_conv r \<Longrightarrow> or_path r \<noteq> [] \<and> or_input r = current"
      using inv Some by (auto simp: eval_inv_def open_shape_def)
    note merge = eval_inv_merge [OF inv [unfolded Some]]
    note law = fusion_lawsD [OF laws]
    consider (path) "path \<noteq> []" "\<not> or_conv r"
      | (barrier) "path \<noteq> []" "or_conv r"
      | (same) "path = []" "celltype = current"
      | (second) "path = []" "celltype \<noteq> current" "or_conv r"
      | (conv) "path = []" "celltype \<noteq> current" "\<not> or_conv r"
      by blast
    then show ?thesis
    proof cases
      case path
      have "eval_inv ev src (ls @ [(celltype, path)]) celltype
          (runs, Some (r\<lparr>or_path := or_path r @ path, or_type := celltype, or_last := n\<rparr>))"
        by (rule merge) (use path r keep nd law(1) in \<open>simp_all add: open_shape_def\<close>)
      with path nd show ?thesis by (simp add: fuse_link_def Some)
    next
      case barrier
      have "eval_inv ev src (ls @ [(celltype, path)]) celltype
          (runs, Some \<lparr>or_input = or_type r, or_path = path, or_type = celltype,
                        or_last = n, or_conv = False, or_absorbed = True\<rparr>)"
        if "or_path r = []" "or_input r = or_type r \<or> preserving (or_input r) (or_type r)"
      proof (rule merge)
        show "Option.bind (ev (or_input r) (or_path r) (or_type r) w) (ev current path celltype) =
          ev (or_input \<lparr>or_input = or_type r, or_path = path, or_type = celltype,
                        or_last = n, or_conv = False, or_absorbed = True\<rparr>)
             (or_path \<lparr>or_input = or_type r, or_path = path, or_type = celltype,
                        or_last = n, or_conv = False, or_absorbed = True\<rparr>)
             (or_type \<lparr>or_input = or_type r, or_path = path, or_type = celltype,
                        or_last = n, or_conv = False, or_absorbed = True\<rparr>) w" for w
          using that law(3) [of "or_input r" current path] law(4) [of current] r nd keep barrier
          by auto
      qed (use barrier r keep nd in \<open>simp add: open_shape_def\<close>)
      with barrier nd keep fresh show ?thesis by (auto simp: fuse_link_def Some)
    next
      case same
      have "eval_inv ev src (ls @ [(celltype, path)]) celltype (runs, Some (r\<lparr>or_last := n\<rparr>))"
      proof (rule merge)
        show "Option.bind (ev (or_input r) (or_path r) (or_type r) w) (ev current path celltype) =
            ev (or_input (r\<lparr>or_last := n\<rparr>)) (or_path (r\<lparr>or_last := n\<rparr>)) (or_type (r\<lparr>or_last := n\<rparr>)) w" for w
          using same law(4) [OF nd(1)] r(1)
          by (cases "ev (or_input r) (or_path r) (or_type r) w") simp_all
      qed (use same r nd in \<open>simp add: open_shape_def\<close>)
      with same nd show ?thesis by (simp add: fuse_link_def Some)
    next
      case second
      with nd fresh show ?thesis by (simp add: fuse_link_def Some)
    next
      case conv
      have "eval_inv ev src (ls @ [(celltype, path)]) celltype
          (runs, Some (r\<lparr>or_type := celltype, or_last := n, or_conv := True\<rparr>))"
        by (rule merge) (use conv r nd law(2) in \<open>simp_all add: open_shape_def\<close>)
      with conv nd show ?thesis by (simp add: fuse_link_def Some)
    qed
  qed
qed

lemma fuse_loop_eval:
  assumes "fusion_laws preserving ev"
  shows "eval_inv ev src ls current st \<Longrightarrow> links_wf current links \<Longrightarrow>
    eval_inv ev src (ls @ links) (link_type current links) (fuse_loop preserving n current links st)"
proof (induction links arbitrary: ls current st n)
  case Nil
  then show ?case by simp
next
  case (Cons l links)
  obtain celltype path where l: "l = (celltype, path)" by force
  obtain runs opn where st: "st = (runs, opn)" by force
  have "eval_inv ev src (ls @ [l]) celltype (fuse_link preserving n current l (runs, opn))"
    unfolding l by (rule fuse_link_eval [OF assms]) (use Cons.prems l st in simp_all)
  from Cons.IH [OF this] Cons.prems(2) show ?case by (simp add: l st)
qed

lemma fusible_runs_value:
  assumes "fusion_laws preserving ev" and "links_wf src links"
  shows "eval_runs ev (fusible_runs preserving src links) v = eval_links ev src links v"
proof -
  have "eval_inv ev src [] src ([], None)"
    by (simp add: eval_inv_def open_shape_def close_run_def)
  from fuse_loop_eval [OF assms(1) this assms(2), of 0]
  show ?thesis by (auto simp: fusible_runs_def eval_inv_def split: prod.splits)
qed

section \<open>A concrete evaluator\<close>

text \<open>
  An evaluator that records the steps and the conversions it was asked for, except the
  checksum-preserving ones. It satisfies the laws, so that they are not contradictory.
\<close>

definition text_like :: "celltype \<Rightarrow> celltype \<Rightarrow> bool" where
  "text_like a b \<longleftrightarrow> a = ''text'' \<and> b = ''str''"

definition trace_ev :: "(comp + celltype) list evaluator" where
  "trace_ev a p b v = Some (v @ map Inl p @ (if a = b \<or> text_like a b then [] else [Inr b]))"

lemma trace_ev_laws: "fusion_laws text_like trace_ev"
  by (auto simp: fusion_laws_def trace_ev_def)

section \<open>Properties\<close>

text \<open>The anonymous links of a source recipe partition its path: whatever the celltypes
  and wherever the conversions are written, negative and overlong positions included, the
  paths of the links put together are the path of the recipe.\<close>

theorem anonymous_links_partition:
  "concat (map snd (anonymous_links source_celltype local_path conversion_steps)) = local_path"
  using links_loop_paths [of 0 local_path] by (simp add: anonymous_links_def)

text \<open>C33: Serving the one step below a deep celltype apart from the rest is the same recipe:
  the links of the whole recipe are the conversions before the step, the step to the member,
  and the links of the rest read from the member.\<close>

theorem deep_step_recipe_agrees:
  assumes "split_deep_step ct local_path conversion_steps = Some (prefix, deep, member, rest, rest_steps)"
    and "\<not> is_slice (hd local_path)"
  shows "anonymous_links ct local_path conversion_steps =
    map (\<lambda>c. (c, [])) prefix @ (member, take 1 local_path) # anonymous_links member rest rest_steps"
  using assms by (rule split_deep_step_links)

theorem deep_step_recipe_agrees_witness:
  "anonymous_links ''deepcell'' [KStr ''a'', KStr ''b''] [(1, ''plain'')] =
    (''mixed'', [KStr ''a'']) # anonymous_links ''mixed'' [KStr ''b''] [(0, ''plain'')]"
proof -
  have "split_deep_step ''deepcell'' [KStr ''a'', KStr ''b''] [(1, ''plain'')] =
      Some ([], ''deepcell'', ''mixed'', [KStr ''b''], [(0, ''plain'')])"
    by (simp add: split_deep_step_def is_deep_iff is_slice_def)
  from deep_step_recipe_agrees [OF this] show ?thesis by (simp add: is_slice_def)
qed

text \<open>The runs that fusion makes of a list of links cover the links in order and without
  gaps: each run has the path of its links put together and the celltype of its last link, it
  reads its input at the celltype before it or at one that preserves the checksum, and a link
  into or out of a deep celltype is a run of its own.\<close>

theorem fusible_runs_partition:
  "covers preserving source_celltype 0 links (fusible_runs preserving source_celltype links)"
  by (rule fusible_runs_cover)

text \<open>C26: Fusion preserves values: for every evaluator of single Expressions that obeys the
  laws of fusion, evaluating the fused runs of a well-wired chain one after the other gives
  what evaluating its links one after the other gives, failures included.\<close>

theorem fusion_preserves_value:
  assumes "fusion_laws preserving ev" and "links_wf source_celltype links"
  shows "eval_runs ev (fusible_runs preserving source_celltype links) v = eval_links ev source_celltype links v"
  using assms by (rule fusible_runs_value)

theorem fusion_preserves_value_witness:
  "eval_runs trace_ev (fusible_runs text_like ''plain''
     [(''plain'', [KStr ''a'']), (''plain'', [KInt 0]), (''text'', []), (''str'', [])]) [] =
   Some [Inl (KStr ''a''), Inl (KInt 0), Inr ''text'']
   \<and> length (fusible_runs text_like ''plain''
     [(''plain'', [KStr ''a'']), (''plain'', [KInt 0]), (''text'', []), (''str'', [])]) = 2"
proof -
  have "links_wf ''plain'' [(''plain'', [KStr ''a'']), (''plain'', [KInt 0]), (''text'', []), (''str'', [])]"
    by (simp add: link_miswired_def)
  note fusion_preserves_value [OF trace_ev_laws this, of "[]"]
  moreover have "eval_links trace_ev ''plain''
      [(''plain'', [KStr ''a'']), (''plain'', [KInt 0]), (''text'', []), (''str'', [])] [] =
    Some [Inl (KStr ''a''), Inl (KInt 0), Inr ''text'']"
    by (simp add: trace_ev_def text_like_def)
  moreover have "length (fusible_runs text_like ''plain''
     [(''plain'', [KStr ''a'']), (''plain'', [KInt 0]), (''text'', []), (''str'', [])]) = 2"
    by (simp add: fusible_runs_def fuse_link_def close_run_def is_deep_iff)
  ultimately show ?thesis by (simp only:)
qed

end
