(* ===== verification/Path_Order.thy ===== *)
theory Path_Order
  imports Graph_Links "HOL-Library.List_Lexorder" "HOL-Library.Product_Lexorder" "HOL-Library.Char_ord"
begin

text \<open>
  The orders on paths. Python orders tuples lexicographically and refuses to compare a string
  with a number or a slice: \<open>path_less\<close> is that comparison, with \<open>None\<close> for the
  \<open>TypeError\<close>. Node paths hold keys only, where the comparison is total; the instance of
  \<open>linorder\<close> below is the order the library sorts them by.
\<close>

section \<open>A linear order on components\<close>

definition enc_bound :: "int option \<Rightarrow> int list" where
  "enc_bound b = (case b of None \<Rightarrow> [0, 0] | Some i \<Rightarrow> [1, i])"

fun comp_key :: "comp \<Rightarrow> nat \<times> string \<times> int list" where
  "comp_key (KStr s) = (0, s, [])"
| "comp_key (KInt i) = (1, [], [i])"
| "comp_key (KBool b) = (2, [], [if b then 1 else 0])"
| "comp_key (KSlice a b c) = (3, [], enc_bound a @ enc_bound b @ enc_bound c)"

lemma enc_bound_inj:
  "enc_bound a @ xs = enc_bound b @ ys \<longleftrightarrow> a = b \<and> xs = ys"
  by (cases a; cases b) (auto simp: enc_bound_def)

lemma comp_key_inj [simp]: "comp_key a = comp_key b \<longleftrightarrow> a = b"
proof
  assume "comp_key a = comp_key b"
  then show "a = b"
    using enc_bound_inj [where xs = "[]" and ys = "[]"]
    by (cases a; cases b) (auto simp: enc_bound_inj split: if_splits)
qed simp

instantiation comp :: linorder
begin

definition less_eq_comp :: "comp \<Rightarrow> comp \<Rightarrow> bool" where
  "less_eq_comp a b \<longleftrightarrow> comp_key a \<le> comp_key b"

definition less_comp :: "comp \<Rightarrow> comp \<Rightarrow> bool" where
  "less_comp a b \<longleftrightarrow> comp_key a < comp_key b"

instance
proof
  fix x y z :: comp
  show "(x < y) = (x \<le> y \<and> \<not> y \<le> x)"
    by (simp only: less_eq_comp_def less_comp_def less_le_not_le)
  show "x \<le> x" by (simp add: less_eq_comp_def)
  show "x \<le> y \<Longrightarrow> y \<le> z \<Longrightarrow> x \<le> z"
    unfolding less_eq_comp_def by (rule order_trans)
  show "x \<le> y \<Longrightarrow> y \<le> x \<Longrightarrow> x = y"
    unfolding less_eq_comp_def using comp_key_inj antisym by blast
  show "x \<le> y \<or> y \<le> x" unfolding less_eq_comp_def by (rule linear)
qed

end

section \<open>The comparisons of Python\<close>

fun bound_less :: "(int option \<times> int option) list \<Rightarrow> bool option" where
  "bound_less [] = Some False"
| "bound_less ((a, b) # rest) =
     (if a = b then bound_less rest
      else case (a, b) of (Some i, Some j) \<Rightarrow> Some (i < j) | _ \<Rightarrow> None)"

definition comp_int :: "comp \<Rightarrow> int option" where
  "comp_int c = (case c of KInt i \<Rightarrow> Some i | KBool b \<Rightarrow> Some (if b then 1 else 0) | _ \<Rightarrow> None)"

definition comp_eq :: "comp \<Rightarrow> comp \<Rightarrow> bool" where
  "comp_eq a b \<longleftrightarrow> a = b \<or> (comp_int a \<noteq> None \<and> comp_int a = comp_int b)"

definition comp_less :: "comp \<Rightarrow> comp \<Rightarrow> bool option" where
  "comp_less a b =
     (case (a, b) of
        (KStr s, KStr t) \<Rightarrow> Some (s < t)
      | (KSlice a1 a2 a3, KSlice b1 b2 b3) \<Rightarrow> bound_less [(a1, b1), (a2, b2), (a3, b3)]
      | _ \<Rightarrow> (case (comp_int a, comp_int b) of (Some i, Some j) \<Rightarrow> Some (i < j) | _ \<Rightarrow> None))"

fun path_eq :: "path \<Rightarrow> path \<Rightarrow> bool" where
  "path_eq [] [] = True"
| "path_eq (x # xs) (y # ys) = (comp_eq x y \<and> path_eq xs ys)"
| "path_eq _ _ = False"

fun path_less :: "path \<Rightarrow> path \<Rightarrow> bool option" where
  "path_less [] ys = Some (ys \<noteq> [])"
| "path_less (x # xs) [] = Some False"
| "path_less (x # xs) (y # ys) = (if comp_eq x y then path_less xs ys else comp_less x y)"

definition pair_less :: "path \<times> path \<Rightarrow> path \<times> path \<Rightarrow> bool option" where
  "pair_less p q = (if path_eq (fst p) (fst q) then path_less (snd p) (snd q) else path_less (fst p) (fst q))"

text \<open>
  \<open>sorted(xs, key=key)\<close> for a key of two paths. A comparison sort raises when it compares
  an incomparable pair, and it must compare one whenever there is one: two paths are
  incomparable when they first differ in components of different types, and every path
  that is comparable with both lies on the same side of both.
\<close>

fun insert_by :: "('a \<Rightarrow> path \<times> path) \<Rightarrow> 'a \<Rightarrow> 'a list \<Rightarrow> 'a list" where
  "insert_by key x [] = [x]"
| "insert_by key x (y # ys) =
     (if pair_less (key x) (key y) = Some True then x # y # ys else y # insert_by key x ys)"

definition py_sorted :: "('a \<Rightarrow> path \<times> path) \<Rightarrow> 'a list \<Rightarrow> exc + 'a list" where
  "py_sorted key xs =
     (if list_all (\<lambda>x. list_all (\<lambda>y. pair_less (key x) (key y) \<noteq> None) xs) xs
      then Inr (foldl (\<lambda>acc x. insert_by key x acc) [] xs)
      else Inl Type_Error)"

section \<open>Facts on sorting\<close>

lemma mset_insert_by [simp]: "mset (insert_by key x ys) = add_mset x (mset ys)"
  by (induction key x ys rule: insert_by.induct) auto

lemma mset_foldl_insert_by:
  "mset (foldl (\<lambda>acc x. insert_by key x acc) acc xs) = mset acc + mset xs"
  by (induction xs arbitrary: acc) auto

lemma py_sorted_mset: "py_sorted key xs = Inr ys \<Longrightarrow> mset ys = mset xs"
  by (auto simp: py_sorted_def mset_foldl_insert_by)

lemma py_sorted_set: "py_sorted key xs = Inr ys \<Longrightarrow> set ys = set xs"
  by (metis py_sorted_mset set_mset_mset)

definition key_path :: "path \<Rightarrow> bool" where
  "key_path p \<longleftrightarrow> list_all is_str p"

lemma comp_eq_str [simp]: "comp_eq (KStr s) c \<longleftrightarrow> c = KStr s" "comp_eq c (KStr s) \<longleftrightarrow> c = KStr s"
  by (auto simp: comp_eq_def comp_int_def split: comp.splits)

lemma less_comp_str [simp]: "KStr s < KStr t \<longleftrightarrow> s < t"
  by (simp add: less_comp_def less_prod_def)

lemma is_strE: "is_str c \<Longrightarrow> (\<And>s. c = KStr s \<Longrightarrow> P) \<Longrightarrow> P"
  by (cases c) (auto simp: is_str_def)

text \<open>On node paths the comparison of Python is the linear order of the library.\<close>

lemma path_less_key_path:
  "key_path p \<Longrightarrow> key_path q \<Longrightarrow> path_less p q = Some (p < q)"
proof (induction p q rule: path_less.induct)
  case (1 ys)
  then show ?case by (cases ys) auto
next
  case (3 x xs y ys)
  then obtain s t where "x = KStr s" "y = KStr t"
    by (auto simp: key_path_def elim!: is_strE)
  with 3 show ?case by (auto simp: key_path_def comp_less_def)
qed auto

end
