(* ===== verification/Attach_Policy.thy ===== *)
theory Attach_Policy
  imports WF_Base Complex_Main
begin

text \<open>
  Mount and share specifications, and the pure attachment policy: \<^verbatim>\<open>attachments/spec.py\<close>,
  \<^verbatim>\<open>attachments/share/spec.py\<close>, \<^verbatim>\<open>attachments/share/mime.py\<close> and
  \<^verbatim>\<open>attachments/policy.py\<close>. Strings are read as ASCII. Clock readings are real numbers.
  The extension table of the standard module \<^verbatim>\<open>mimetypes\<close> is the parameter \<open>guess\<close>;
  the celltype tables of the package \<^verbatim>\<open>seamless\<close> are the parameters \<open>file_cts\<close> and
  \<open>directory_cts\<close>.
\<close>

section \<open>Mount specifications\<close>

record attach_spec =
  as_path :: string
  as_mode :: string
  as_authority :: string
  as_persistent :: bool
  as_driver :: string

definition make_attach_spec ::
  "string \<Rightarrow> string \<Rightarrow> string \<Rightarrow> py_value \<Rightarrow> string \<Rightarrow> exc + attach_spec" where
  "make_attach_spec path mode authority persistent driver =
     (if path = [] \<or> List.member path (CHR 0x00) then Inl Value_Error
      else if \<not> List.member [''r'', ''w'', ''rw''] mode then Inl Value_Error
      else if \<not> List.member [''file'', ''cell'', ''file-strict''] authority then Inl Value_Error
      else case persistent of
        PyBool b \<Rightarrow>
          if authority = ''file-strict'' \<and> (\<not> List.member mode (CHR ''r'') \<or> \<not> b) then Inl Value_Error
          else Inr \<lparr>as_path = path, as_mode = mode,
                    as_authority = (if mode = ''w'' \<and> authority = ''file'' then ''cell'' else authority),
                    as_persistent = b, as_driver = driver\<rparr>
      | _ \<Rightarrow> Inl Type_Error)"

definition attach_to_graph :: "attach_spec \<Rightarrow> exc + (string \<times> py_value) list" where
  "attach_to_graph spec =
     (if as_driver spec \<noteq> ''file'' then Inl Value_Error
      else Inr [(''path'', PyStr (as_path spec)), (''mode'', PyStr (as_mode spec)),
                (''authority'', PyStr (as_authority spec)), (''persistent'', PyBool (as_persistent spec))])"

definition validate_mount_celltype ::
  "string list \<Rightarrow> string list \<Rightarrow> string \<Rightarrow> string \<Rightarrow> exc option" where
  "validate_mount_celltype file_cts directory_cts celltype mode =
     (if \<not> List.member (file_cts @ directory_cts) celltype then Some Type_Error
      else if celltype = ''deepfolder'' \<and> mode \<noteq> ''r'' then Some Type_Error
      else None)"

section \<open>MIME types\<close>

definition is_space :: "char \<Rightarrow> bool" where
  "is_space c \<longleftrightarrow> (let n = of_char c :: nat in (9 \<le> n \<and> n \<le> 13) \<or> (28 \<le> n \<and> n \<le> 32))"

definition is_alnum :: "char \<Rightarrow> bool" where
  "is_alnum c \<longleftrightarrow> (let n = of_char c :: nat in
     (48 \<le> n \<and> n \<le> 57) \<or> (65 \<le> n \<and> n \<le> 90) \<or> (97 \<le> n \<and> n \<le> 122))"

definition is_token_char :: "char \<Rightarrow> bool" where
  "is_token_char c \<longleftrightarrow> is_alnum c
     \<or> List.member (map char_of [33, 35, 36, 37, 38, 39, 42, 43, 46, 94, 95, 96, 124, 126, 45 :: nat]) c"

definition strip :: "string \<Rightarrow> string" where
  "strip s = rev (dropWhile is_space (rev (dropWhile is_space s)))"

definition lower_char :: "char \<Rightarrow> char" where
  "lower_char c = (let n = of_char c :: nat in if 65 \<le> n \<and> n \<le> 90 then char_of (n + 32) else c)"

fun starts_with :: "string \<Rightarrow> string \<Rightarrow> bool" where
  "starts_with [] s = True"
| "starts_with (p # ps) [] = False"
| "starts_with (p # ps) (c # cs) = (p = c \<and> starts_with ps cs)"

fun contains :: "string \<Rightarrow> string \<Rightarrow> bool" where
  "contains p [] = (p = [])"
| "contains p (c # cs) = (starts_with p (c # cs) \<or> contains p cs)"

text \<open>
  The parameters of a MIME value, \<^verbatim>\<open>(\s*;\s*TOKEN\s*=\s*(TOKEN|"[^"]*"))*\<close>. The fuel is the
  length of the input; every round consumes at least the semicolon.
\<close>

fun mime_params :: "nat \<Rightarrow> string \<Rightarrow> bool" where
  "mime_params 0 s = (s = [])"
| "mime_params (Suc n) s =
     (s = [] \<or>
      (case dropWhile is_space s of
         CHR '';'' # a \<Rightarrow>
           (let b = dropWhile is_space a; name = takeWhile is_token_char b
            in name \<noteq> [] \<and>
               (case dropWhile is_space (dropWhile is_token_char b) of
                  CHR ''='' # c \<Rightarrow>
                    (case dropWhile is_space c of
                       CHR 0x22 # q \<Rightarrow>
                         (case dropWhile (\<lambda>x. x \<noteq> CHR 0x22) q of
                            [] \<Rightarrow> False | _ # rest \<Rightarrow> mime_params n rest)
                     | d \<Rightarrow> takeWhile is_token_char d \<noteq> [] \<and> mime_params n (dropWhile is_token_char d))
                | _ \<Rightarrow> False))
       | _ \<Rightarrow> False))"

definition mime_value_ok :: "string \<Rightarrow> bool" where
  "mime_value_ok s =
     (takeWhile is_token_char s \<noteq> [] \<and>
      (case dropWhile is_token_char s of
         CHR ''/'' # t \<Rightarrow> takeWhile is_token_char t \<noteq> []
            \<and> mime_params (length s) (dropWhile is_token_char t)
       | _ \<Rightarrow> False))"

definition content_type ::
  "(string \<Rightarrow> string option) \<Rightarrow> string \<Rightarrow> string \<Rightarrow> py_value \<Rightarrow> exc + string" where
  "content_type guess celltype path explicit =
     res_bind
       (case explicit of
          PyNone \<Rightarrow>
            (if celltype = ''text'' then Inr (case guess path of Some t \<Rightarrow> t | None \<Rightarrow> ''text/plain'')
             else if celltype = ''bytes''
               then Inr (case guess path of Some t \<Rightarrow> t | None \<Rightarrow> ''application/octet-stream'')
             else if List.member [''str'', ''plain'', ''int'', ''float'', ''bool'', ''structured'', ''json''] celltype
               then Inr ''application/json''
             else if List.member [''python'', ''ipython''] celltype then Inr ''text/x-python''
             else if celltype = ''yaml'' then Inr ''application/yaml''
             else Inr ''application/octet-stream'')
        | PyStr e \<Rightarrow> (let value = strip e in if mime_value_ok value then Inr value else Inl Value_Error)
        | _ \<Rightarrow> Inl Value_Error)
       (\<lambda>value. Inr (if starts_with ''text/'' (map lower_char value)
                         \<and> \<not> contains ''charset='' (map lower_char value)
                      then value @ ''; charset=utf-8'' else value))"

fun ends_with :: "string \<Rightarrow> string \<Rightarrow> bool" where
  "ends_with p s = starts_with (rev p) (rev s)"

definition is_binary :: "string \<Rightarrow> bool" where
  "is_binary value =
     (let base = map lower_char (strip (takeWhile (\<lambda>c. c \<noteq> CHR '';'') value))
      in if starts_with ''text/'' base then False
         else if List.member [''application/json'', ''application/javascript'', ''application/xml'',
                              ''application/yaml'', ''application/x-yaml''] base then False
         else \<not> (ends_with ''+json'' base \<or> ends_with ''+xml'' base))"

section \<open>Share specifications\<close>

record share_spec =
  ss_path :: string
  ss_readonly :: bool
  ss_mimetype :: py_value
  ss_toplevel :: bool

fun split_slash :: "string \<Rightarrow> string list" where
  "split_slash [] = [[]]"
| "split_slash (c # cs) =
     (if c = CHR ''/'' then [] # split_slash cs
      else case split_slash cs of [] \<Rightarrow> [[c]] | p # ps \<Rightarrow> (c # p) # ps)"

definition safe_char :: "char \<Rightarrow> bool" where
  "safe_char c \<longleftrightarrow> (let n = of_char c :: nat in
     n \<ge> 32 \<and> n \<noteq> 127 \<and> \<not> List.member [CHR ''/'', CHR 0x5C, CHR ''?'', CHR ''#''] c)"

definition safe_segment :: "string \<Rightarrow> bool" where
  "safe_segment s \<longleftrightarrow> s \<noteq> [] \<and> list_all safe_char s"

definition shareable_celltypes :: "string list" where
  "shareable_celltypes =
     [''text'', ''python'', ''ipython'', ''yaml'', ''plain'', ''str'', ''int'', ''float'',
      ''bool'', ''bytes'', ''binary'', ''mixed'']"

definition validate_share_celltype :: "string \<Rightarrow> exc option" where
  "validate_share_celltype celltype =
     (if List.member shareable_celltypes celltype then None else Some Type_Error)"

definition make_share_spec ::
  "(string \<Rightarrow> string option) \<Rightarrow> string \<Rightarrow> py_value \<Rightarrow> py_value \<Rightarrow> py_value \<Rightarrow> exc + share_spec" where
  "make_share_spec guess path readonly mimetype toplevel =
     (if path = [] then Inl Value_Error
      else let parts = split_slash path in
      if list_ex (\<lambda>p. \<not> safe_segment p \<or> List.member [''.'', ''..''] p) parts then Inl Value_Error
      else case readonly of
        PyBool ro \<Rightarrow>
          (case toplevel of
             PyBool toplvl \<Rightarrow>
               if toplvl \<and> length parts \<noteq> 1 then Inl Value_Error
               else if toplvl \<and> List.member [''openapi.json'', ''seamless-client.js''] path then Inl Value_Error
               else if \<not> toplvl \<and> length parts = 1 \<and> List.member [''state-graph''] path then Inl Value_Error
               else res_bind
                 (if mimetype \<noteq> PyNone then content_type guess ''bytes'' path mimetype else Inr [])
                 (\<lambda>_. Inr \<lparr>ss_path = path, ss_readonly = ro, ss_mimetype = mimetype, ss_toplevel = toplvl\<rparr>)
           | _ \<Rightarrow> Inl Type_Error)
      | _ \<Rightarrow> Inl Type_Error)"

definition share_mode :: "share_spec \<Rightarrow> string" where
  "share_mode spec = (if ss_readonly spec then ''w'' else ''rw'')"

datatype spec = FileSpec attach_spec | ShareSpec share_spec

fun spec_path :: "spec \<Rightarrow> string" where
  "spec_path (FileSpec s) = as_path s" | "spec_path (ShareSpec s) = ss_path s"

fun spec_mode :: "spec \<Rightarrow> string" where
  "spec_mode (FileSpec s) = as_mode s" | "spec_mode (ShareSpec s) = share_mode s"

fun spec_authority :: "spec \<Rightarrow> string" where
  "spec_authority (FileSpec s) = as_authority s" | "spec_authority (ShareSpec s) = ''cell''"

fun spec_persistent :: "spec \<Rightarrow> bool" where
  "spec_persistent (FileSpec s) = as_persistent s" | "spec_persistent (ShareSpec s) = True"

fun spec_driver :: "spec \<Rightarrow> string" where
  "spec_driver (FileSpec s) = as_driver s" | "spec_driver (ShareSpec s) = ''share''"

definition sensing :: "spec \<Rightarrow> bool" where
  "sensing s \<longleftrightarrow> List.member (spec_mode s) (CHR ''r'')"

definition writing :: "spec \<Rightarrow> bool" where
  "writing s \<longleftrightarrow> List.member (spec_mode s) (CHR ''w'')"

section \<open>The attachment policy\<close>

text \<open>Checksums of the policy are comparison-only strings, two of them reserved.\<close>

definition ABSENT :: checksum where "ABSENT = ''ABSENT''"
definition INVALID :: checksum where "INVALID = ''INVALID''"

datatype initial_action =
  A_nothing | A_error | A_sense_null_error | A_sense_null | A_sense | A_write

definition decide_initial ::
  "spec \<Rightarrow> checksum \<Rightarrow> checksum option \<Rightarrow> bool \<Rightarrow> bool \<Rightarrow> initial_action" where
  "decide_initial spec disk node no_value node_is_null =
     (case node of
        None \<Rightarrow>
          if \<not> sensing spec then A_nothing
          else if disk = INVALID then A_error
          else if disk = ABSENT \<and> spec_authority spec = ''file-strict'' then A_sense_null_error
          else if no_value \<or> disk = ABSENT then A_sense_null else A_sense
      | Some n \<Rightarrow>
          if disk = ABSENT \<or> no_value then
            (if disk = ABSENT \<and> spec_authority spec = ''file-strict'' then A_error
             else if node_is_null then A_nothing
             else if spec_mode spec = ''w'' then A_write
             else if writing spec then A_write else A_nothing)
          else if spec_mode spec = ''w'' then (if n \<noteq> disk then A_write else A_nothing)
          else if spec_authority spec = ''cell''
            then (if writing spec \<and> n \<noteq> disk then A_write else A_nothing)
          else if disk = INVALID then A_error
          else if disk \<noteq> n then A_sense else A_nothing)"

datatype classification = C_stale | C_unchanged | C_rejected | C_absent | C_echo | C_foreign

definition classify_observation ::
  "int \<Rightarrow> int \<Rightarrow> checksum \<Rightarrow> checksum \<Rightarrow> checksum option \<Rightarrow> string option \<Rightarrow> string option \<Rightarrow> classification" where
  "classify_observation ws processed_ws checksum disk in_flight fingerprint disk_fingerprint =
     (if ws \<le> processed_ws then C_stale
      else if checksum = disk \<and> (\<not> List.member [ABSENT, INVALID] checksum \<or> fingerprint = disk_fingerprint)
        then C_unchanged
      else if checksum = INVALID then C_rejected
      else if checksum = ABSENT then C_absent
      else if Some checksum = in_flight then C_echo
      else C_foreign)"

definition reassert :: "string \<Rightarrow> nstate \<Rightarrow> classification \<Rightarrow> bool" where
  "reassert mode state c =
     (mode = ''w'' \<and> state = Complete \<and> List.member [C_foreign, C_rejected, C_absent] c)"

definition detector :: "real list \<Rightarrow> real \<Rightarrow> real list \<times> bool" where
  "detector timestamps now =
     (let recent = filter (\<lambda>t. now - t \<le> 20) timestamps @ [now]
      in (recent, length recent \<ge> 3))"

section \<open>Well-formed specifications\<close>

text \<open>What the constructor of a specification leaves true of it.\<close>

definition wf_spec :: "spec \<Rightarrow> bool" where
  "wf_spec s \<longleftrightarrow>
     List.member [''r'', ''w'', ''rw''] (spec_mode s)
   \<and> List.member [''file'', ''cell'', ''file-strict''] (spec_authority s)
   \<and> (spec_authority s = ''file-strict'' \<longrightarrow> sensing s \<and> spec_persistent s)
   \<and> (spec_mode s = ''w'' \<longrightarrow> spec_authority s = ''cell'')"

lemma make_attach_spec_InrD:
  assumes "make_attach_spec path mode authority persistent driver = Inr s"
  obtains b where "persistent = PyBool b" "List.member [''r'', ''w'', ''rw''] mode"
    "List.member [''file'', ''cell'', ''file-strict''] authority"
    "authority = ''file-strict'' \<longrightarrow> List.member mode (CHR ''r'') \<and> b"
    "s = \<lparr>as_path = path, as_mode = mode,
          as_authority = (if mode = ''w'' \<and> authority = ''file'' then ''cell'' else authority),
          as_persistent = b, as_driver = driver\<rparr>"
proof (cases persistent)
  case (PyBool b)
  show ?thesis
    by (rule that [OF PyBool])
       (use assms in \<open>simp_all only: make_attach_spec_def PyBool py_value.case split: if_split_asm\<close>, (blast | simp)+)
qed (use assms in \<open>simp_all only: make_attach_spec_def py_value.case split: if_split_asm\<close>, simp_all)

lemma make_attach_spec_wf:
  assumes "make_attach_spec path mode authority persistent driver = Inr s"
  shows "wf_spec (FileSpec s)"
proof -
  from assms obtain b where m: "List.member [''r'', ''w'', ''rw''] mode"
    and a: "List.member [''file'', ''cell'', ''file-strict''] authority"
    and st: "authority = ''file-strict'' \<longrightarrow> List.member mode (CHR ''r'') \<and> b"
    and s: "s = \<lparr>as_path = path, as_mode = mode,
          as_authority = (if mode = ''w'' \<and> authority = ''file'' then ''cell'' else authority),
          as_persistent = b, as_driver = driver\<rparr>"
    by (rule make_attach_spec_InrD)
  from m a st show ?thesis by (auto simp: s wf_spec_def sensing_def)
qed

lemma share_spec_wf: "wf_spec (ShareSpec s)"
  by (auto simp: wf_spec_def share_mode_def sensing_def)

lemma wf_spec_modes:
  assumes "wf_spec s"
  shows "sensing s \<or> writing s" and "\<not> sensing s \<longleftrightarrow> spec_mode s = ''w''"
  using assms by (auto simp: wf_spec_def sensing_def writing_def)

lemma split_slash_no_slash: "p \<in> set (split_slash s) \<Longrightarrow> CHR ''/'' \<notin> set p"
proof (induction s arbitrary: p)
  case Nil
  then show ?case by simp
next
  case (Cons c cs)
  then show ?case by (cases "split_slash cs") (auto split: if_splits)
qed

lemma decide_initial_Some:
  "decide_initial s disk (Some n) False null = A_write \<Longrightarrow> disk \<noteq> ABSENT \<Longrightarrow>
   n \<noteq> disk \<and> (spec_mode s = ''w'' \<or> spec_authority s = ''cell'')"
  by (auto simp: decide_initial_def split: if_splits)

section \<open>The conflict detector over a sequence of reasserts\<close>

definition detector_run :: "real list \<Rightarrow> real list \<times> bool" where
  "detector_run nows = foldl (\<lambda>st now. detector (fst st) now) ([], False) nows"

definition within_window :: "real \<Rightarrow> real list \<Rightarrow> real list" where
  "within_window now ts = filter (\<lambda>t. now - t \<le> 20) ts"

lemma detector_run_snoc:
  "detector_run (ts @ [t]) = detector (fst (detector_run ts)) t"
  by (simp add: detector_run_def)

lemma detector_run_recent:
  "sorted ts \<Longrightarrow> ts \<noteq> [] \<Longrightarrow> fst (detector_run ts) = within_window (last ts) ts"
proof (induction ts rule: rev_induct)
  case Nil
  then show ?case by simp
next
  case (snoc t ts)
  show ?case
  proof (cases "ts = []")
    case True
    then show ?thesis by (simp add: detector_run_def detector_def within_window_def)
  next
    case False
    have le: "last ts \<le> t" "\<forall>x \<in> set ts. x \<le> t"
      using snoc.prems False by (auto simp: sorted_append)
    have "fst (detector_run ts) = within_window (last ts) ts"
      using snoc False by (simp add: sorted_append)
    then show ?thesis
      unfolding detector_run_snoc detector_def within_window_def Let_def
      using le by (auto intro!: filter_cong)
  qed
qed

section \<open>Properties of the policy\<close>

text \<open>The initial action of a well-formed specification goes only in a direction its
  mode allows: a sensing action or a sense error needs a sensing mode, and a write needs a
  writing mode and a node that has a value.\<close>

theorem decide_initial_direction:
  assumes "wf_spec s"
  shows "(List.member [A_sense, A_sense_null, A_sense_null_error, A_error]
            (decide_initial s disk node no_value node_is_null) \<longrightarrow> sensing s)
       \<and> (decide_initial s disk node no_value node_is_null = A_write \<longrightarrow> writing s \<and> node \<noteq> None)"
  using assms wf_spec_modes [OF assms]
  by (auto simp: decide_initial_def wf_spec_def writing_def split: option.splits if_splits)

theorem decide_initial_direction_witness:
  "wf_spec (FileSpec \<lparr>as_path = ''a.txt'', as_mode = ''rw'', as_authority = ''file'',
                       as_persistent = True, as_driver = ''file''\<rparr>)
   \<and> sensing (FileSpec \<lparr>as_path = ''a.txt'', as_mode = ''rw'', as_authority = ''file'',
                       as_persistent = True, as_driver = ''file''\<rparr>)"
proof -
  let ?s = "FileSpec \<lparr>as_path = ''a.txt'', as_mode = ''rw'', as_authority = ''file'',
                       as_persistent = True, as_driver = ''file''\<rparr>"
  have wf: "wf_spec ?s" by (simp add: wf_spec_def sensing_def)
  have "decide_initial ?s ''aa'' (Some ''bb'') False False = A_sense"
    by (simp add: decide_initial_def ABSENT_def INVALID_def)
  with decide_initial_direction [OF wf, of "''aa''" "Some ''bb''" False False] wf
  show ?thesis by simp
qed

text \<open>Mounting a cell that has a value over a file that has content writes the file only
  when the specification gives the cell the authority, and only when the contents differ: a
  file with authority, strict or not, is never overwritten at mount time.\<close>

theorem initial_write_needs_cell_authority:
  assumes "wf_spec s" and "disk \<noteq> ABSENT"
    and "decide_initial s disk (Some n) False node_is_null = A_write"
  shows "spec_authority s = ''cell'' \<and> n \<noteq> disk"
  using assms decide_initial_Some by (auto simp: wf_spec_def)

theorem initial_write_needs_cell_authority_witness:
  "spec_authority (FileSpec \<lparr>as_path = ''a.txt'', as_mode = ''rw'', as_authority = ''cell'',
                       as_persistent = True, as_driver = ''file''\<rparr>) = ''cell'' \<and> ''bb'' \<noteq> ''aa''"
  by (rule initial_write_needs_cell_authority [where node_is_null = False])
     (simp_all add: wf_spec_def sensing_def writing_def decide_initial_def ABSENT_def INVALID_def)

text \<open>Over any sequence of reasserts at non-decreasing times, the detector remembers
  exactly the reasserts of the last 20 seconds and trips at a reassert exactly when that one
  is at least the third of them.\<close>

theorem detector_trips_exactly:
  assumes "sorted (ts @ [now])"
  shows "detector_run (ts @ [now])
       = (within_window now (ts @ [now]), 3 \<le> length (within_window now (ts @ [now])))"
proof -
  have "fst (detector_run (ts @ [now])) = within_window now (ts @ [now])"
    using detector_run_recent [OF assms] by simp
  moreover have "snd (detector_run (ts @ [now])) \<longleftrightarrow> 3 \<le> length (fst (detector_run (ts @ [now])))"
    by (simp add: detector_run_snoc detector_def Let_def)
  ultimately show ?thesis by (simp add: prod_eq_iff)
qed

theorem detector_trips_exactly_witness:
  "snd (detector_run ([0, 15, 25] @ [30]))"
  using detector_trips_exactly [of "[0, 15, 25]" 30] by (simp add: within_window_def)

text \<open>An accepted share path is a sequence of nonempty URL segments: none is a dot or a
  double dot, and none holds a slash, a backslash, a question mark, a number sign or a control
  character. The reserved top-level and namespace routes are never accepted.\<close>

theorem share_path_safe:
  assumes "make_share_spec guess path ro mime toplvl = Inr s"
  shows "ss_path s = path
     \<and> list_all (\<lambda>p. safe_segment p \<and> CHR ''/'' \<notin> set p \<and> p \<noteq> ''.'' \<and> p \<noteq> ''..'') (split_slash path)
     \<and> (ss_toplevel s \<longrightarrow> path \<noteq> ''openapi.json'' \<and> path \<noteq> ''seamless-client.js'')
     \<and> (\<not> ss_toplevel s \<longrightarrow> path \<noteq> ''state-graph'')"
proof (cases ro; cases toplvl)
  fix r t assume ro: "ro = PyBool r" and t: "toplvl = PyBool t"
  have sg: "length (split_slash ''state-graph'') = 1" by code_simp
  have u: "\<not> list_ex (\<lambda>p. \<not> safe_segment p \<or> List.member [''.'', ''..''] p) (split_slash path)"
      "\<not> (t \<and> List.member [''openapi.json'', ''seamless-client.js''] path)"
      "\<not> (\<not> t \<and> length (split_slash path) = 1 \<and> List.member [''state-graph''] path)"
      "s = \<lparr>ss_path = path, ss_readonly = r, ss_mimetype = mime, ss_toplevel = t\<rparr>"
    using assms unfolding make_share_spec_def Let_def ro t py_value.case if_Inl_eq_Inr res_bind_eq_Inr
    by blast+
  have all: "list_all (\<lambda>p. safe_segment p \<and> CHR ''/'' \<notin> set p \<and> p \<noteq> ''.'' \<and> p \<noteq> ''..'') (split_slash path)"
    using u(1) split_slash_no_slash by (auto simp: list_all_iff list_ex_iff)
  have fields: "ss_path s = path" "ss_toplevel s = t" by (simp_all only: u(4) share_spec.simps)
  show ?thesis
    unfolding fields
  proof (intro conjI impI all refl)
    show "path \<noteq> ''openapi.json''" if t
    proof
      assume "path = ''openapi.json''"
      with u(2) that show False by (simp only: List.member_iff list.set insert_iff) blast
    qed
    show "path \<noteq> ''seamless-client.js''" if t
    proof
      assume "path = ''seamless-client.js''"
      with u(2) that show False by (simp only: List.member_iff list.set insert_iff) blast
    qed
    show "path \<noteq> ''state-graph''" if "\<not> t"
    proof
      assume "path = ''state-graph''"
      with u(3) that sg show False by (simp only: List.member_iff list.set insert_iff) blast
    qed
  qed
qed (use assms in \<open>simp_all add: make_share_spec_def Let_def\<close>)

theorem share_path_safe_witness:
  "list_all (\<lambda>p. safe_segment p \<and> CHR ''/'' \<notin> set p \<and> p \<noteq> ''.'' \<and> p \<noteq> ''..'') (split_slash ''a/b'')"
proof -
  have "make_share_spec (\<lambda>_. None) ''a/b'' (PyBool True) PyNone (PyBool False)
      = Inr \<lparr>ss_path = ''a/b'', ss_readonly = True, ss_mimetype = PyNone, ss_toplevel = False\<rparr>"
    by code_simp
  from share_path_safe [OF this] show ?thesis by simp
qed

end
