(* ===== verification/Graph_Store.thy ===== *)
theory Graph_Store
  imports Graph_Links Path_Order Attach_Policy
begin

text \<open>
  The durable graph of \<^verbatim>\<open>graph.py\<close>: node and edge records, and the operations of
  \<open>ContextGraph\<close>: path resolution, node names, the table of anonymous symbols, and the
  derivation of miswiring from an edge's recorded chain of links.

  A node path and a view path are both lists of components; a node path holds keys only.
  \<open>symbol_base\<close> stands for the first five hexadecimal digits of a SHA-1 (\<open>_symbol_base\<close>).
\<close>

section \<open>Records\<close>

datatype node_kind = Cell_kind | Transformer_kind

datatype reason =
    R_miswired | R_unwired | R_blocked_by_miswiring | R_blocked_by_unwired | R_blocked_by_error
  | R_waiting

text \<open>The block reason of a node: none, one reason, or the reasons of a join by slot.\<close>

datatype block_reason = No_reason | Reason reason | Reasons "(comp \<times> reason) list"

record constant_producer =
  cp_checksum :: checksum
  cp_celltype :: celltype

record cell_config =
  cc_celltype :: celltype
  cc_validator :: "string option"
  cc_validator_language :: "string option"
  cc_scratch :: bool

datatype module_value = Module_checksum checksum | Module_other string

text \<open>
  The code object of a transformer: not a callable, a callable whose signature the inspection
  refuses, or one with the given parameter names.
\<close>

datatype callable = Not_callable | No_signature | Signature "string list"

record transformer_config =
  tc_config_token :: string
  tc_schema :: "string option"
  tc_compilation :: "string option"
  tc_objects :: py_value
  tc_header :: "string option"
  tc_code :: py_value
  tc_code_checksum :: "checksum option"
  tc_language :: string
  tc_callable :: callable
  tc_pins :: "string list"
  tc_celltypes :: "(string \<times> celltype) list"
  tc_optional_pins :: "string list"
  tc_modules :: "(string \<times> module_value) list"
  tc_globals :: "(string \<times> py_value) list"
  tc_meta :: "(string \<times> py_value) list"
  tc_environment :: py_value
  tc_scratch :: bool
  tc_local :: "bool option"
  tc_streaming :: bool
  tc_call_mode :: string

text \<open>An error object: its class and an identity, so that the same error can be recognised.\<close>

type_synonym error = "exc \<times> nat"
type_synonym pin_state = "nstate \<times> checksum option \<times> error option"

record node =
  nd_kind :: node_kind
  nd_state :: nstate
  nd_block_reason :: block_reason
  nd_block_pins :: "string list"
  nd_pin_block_reasons :: "(string \<times> reason) list"
  nd_cell_config :: "cell_config option"
  nd_transformer_config :: "transformer_config option"
  nd_root_producer :: "constant_producer option"
  nd_root_expression :: "string option"
  nd_pin_producers :: "(string \<times> constant_producer) list"
  nd_pin_states :: "(string \<times> pin_state) list"
  nd_pin_read_errors :: "(string \<times> (checksum \<times> celltype option \<times> celltype) \<times> error) list"
  nd_current :: "checksum option"
  nd_exception :: "error option"
  nd_mount :: "spec option"
  nd_mount_inactive :: bool
  nd_attachments :: "(string \<times> spec) list"

text \<open>
  The source of an anonymous link: a named node, or the symbol of the link before it. A recipe
  is the source, the celltype and the path of one link.
\<close>

datatype source_key = Src_node path | Src_symbol string

type_synonym recipe = "source_key \<times> celltype \<times> path"

record edge =
  ed_source :: path
  ed_target :: path
  ed_source_celltype :: "celltype option"
  ed_conversion :: bool
  ed_conversion_before :: bool
  ed_conversion_steps :: steps
  ed_chain :: "recipe list"
  ed_deep_member :: bool

record graph =
  g_nodes :: "(path \<times> node) list"
  g_edges :: "edge list"
  g_incoming :: "(path \<times> nat list) list"
  g_outgoing :: "(path \<times> nat list) list"
  g_namespaces :: "path list"
  g_symbols :: "(recipe \<times> string) list"

definition new_node :: "node_kind \<Rightarrow> node" where
  "new_node k =
     \<lparr>nd_kind = k, nd_state = Unwired, nd_block_reason = No_reason, nd_block_pins = [],
      nd_pin_block_reasons = [], nd_cell_config = None, nd_transformer_config = None,
      nd_root_producer = None, nd_root_expression = None, nd_pin_producers = [],
      nd_pin_states = [], nd_pin_read_errors = [], nd_current = None, nd_exception = None,
      nd_mount = None, nd_mount_inactive = False, nd_attachments = []\<rparr>"

definition new_cell :: "celltype \<Rightarrow> node" where
  "new_cell celltype = (new_node Cell_kind)\<lparr>nd_cell_config :=
     Some \<lparr>cc_celltype = celltype, cc_validator = None, cc_validator_language = None, cc_scratch = False\<rparr>\<rparr>"

definition empty_graph :: graph where
  "empty_graph = \<lparr>g_nodes = [], g_edges = [], g_incoming = [], g_outgoing = [],
                   g_namespaces = [], g_symbols = []\<rparr>"

section \<open>Transformer signatures\<close>

definition signature_parameters :: "transformer_config \<Rightarrow> string list option" where
  "signature_parameters cfg =
     (if tc_compilation cfg \<noteq> None then Some (tc_pins cfg)
      else case tc_callable cfg of
        Not_callable \<Rightarrow> None
      | No_signature \<Rightarrow> None
      | Signature ps \<Rightarrow> Some ps)"

definition check_pin_name :: "transformer_config \<Rightarrow> string \<Rightarrow> bool \<Rightarrow> exc option" where
  "check_pin_name cfg name allow_result =
     (if name = ''result'' \<and> \<not> allow_result then Some Attribute_Error
      else if List.member (keys (tc_celltypes cfg)) name \<or> List.member (tc_pins cfg) name then None
      else case signature_parameters cfg of
        None \<Rightarrow> None
      | Some ps \<Rightarrow> if \<not> List.member ps name then Some Attribute_Error else None)"

section \<open>Resolution of view paths\<close>

text \<open>\<open>for size in range(len(view_path), 0, -1)\<close>: the longest prefix that is a node.\<close>

fun resolve_from :: "(path \<times> node) list \<Rightarrow> path \<Rightarrow> nat \<Rightarrow> (path \<times> path) option" where
  "resolve_from nodes view_path 0 = None"
| "resolve_from nodes view_path (Suc n) =
     (if map_of nodes (take (Suc n) view_path) \<noteq> None
      then Some (take (Suc n) view_path, drop (Suc n) view_path)
      else resolve_from nodes view_path n)"

definition resolve_existing :: "graph \<Rightarrow> path \<Rightarrow> (path \<times> path) option" where
  "resolve_existing g view_path = resolve_from (g_nodes g) view_path (length view_path)"

definition has_prefix :: "graph \<Rightarrow> path \<Rightarrow> bool" where
  "has_prefix g prefix \<longleftrightarrow>
     list_ex (\<lambda>p. take (length prefix) p = prefix) (keys (g_nodes g))
     \<or> List.member (g_namespaces g) prefix"

definition descendants :: "graph \<Rightarrow> path \<Rightarrow> path list" where
  "descendants g prefix = sort (filter (\<lambda>p. take (length prefix) p = prefix) (keys (g_nodes g)))"

definition index_insert :: "path \<Rightarrow> nat \<Rightarrow> (path \<times> nat list) list \<Rightarrow> (path \<times> nat list) list" where
  "index_insert k i d =
     AList.update k (case map_of d k of None \<Rightarrow> [i] | Some is \<Rightarrow> List.insert i is) d"

fun index_edges :: "graph \<Rightarrow> nat \<Rightarrow> edge list \<Rightarrow> exc + graph" where
  "index_edges g i [] = Inr g"
| "index_edges g i (e # es) =
     (case resolve_existing g (ed_source e) of
        None \<Rightarrow> Inl Key_Error
      | Some (source_node, _) \<Rightarrow>
          (case resolve_existing g (ed_target e) of
             None \<Rightarrow> Inl Key_Error
           | Some (target_node, _) \<Rightarrow>
               index_edges (g\<lparr>g_outgoing := index_insert source_node i (g_outgoing g),
                              g_incoming := index_insert target_node i (g_incoming g)\<rparr>) (Suc i) es))"

definition rebuild_indexes :: "graph \<Rightarrow> exc + graph" where
  "rebuild_indexes g =
     index_edges (g\<lparr>g_incoming := map (\<lambda>p. (p, [])) (keys (g_nodes g)),
                    g_outgoing := map (\<lambda>p. (p, [])) (keys (g_nodes g))\<rparr>) 0 (g_edges g)"

section \<open>Decimal names\<close>

fun digits_rev :: "nat \<Rightarrow> string" where
  "digits_rev n = (if n < 10 then [char_of (48 + n)] else char_of (48 + n mod 10) # digits_rev (n div 10))"

declare digits_rev.simps [simp del]

definition nat_str :: "nat \<Rightarrow> string" where
  "nat_str n = rev (digits_rev n)"

text \<open>
  The loop of \<open>first_free\<close> and of \<open>assign_symbol\<close>: the first of the candidates from \<open>i\<close> on
  that is not taken. The fuel is one more than the number of taken names; that this is enough
  is \<open>first_untaken_total\<close>.
\<close>

fun first_untaken :: "nat \<Rightarrow> ('a \<Rightarrow> bool) \<Rightarrow> (nat \<Rightarrow> 'a) \<Rightarrow> nat \<Rightarrow> 'a option" where
  "first_untaken 0 taken cand i = None"
| "first_untaken (Suc n) taken cand i =
     (if taken (cand i) then first_untaken n taken cand (Suc i) else Some (cand i))"

definition first_free :: "graph \<Rightarrow> string \<Rightarrow> path option" where
  "first_free g stem =
     first_untaken (Suc (length (g_nodes g) + length (g_namespaces g)))
       (\<lambda>p. map_of (g_nodes g) p \<noteq> None \<or> List.member (g_namespaces g) p)
       (\<lambda>i. [KStr (stem @ nat_str i)]) 1"

definition config_celltype :: "node \<Rightarrow> celltype" where
  "config_celltype nd =
     (case nd_kind nd of
        Cell_kind \<Rightarrow> (case nd_cell_config nd of Some c \<Rightarrow> cc_celltype c | None \<Rightarrow> [])
      | Transformer_kind \<Rightarrow>
          (case nd_transformer_config nd of
             Some c \<Rightarrow> (case map_of (tc_celltypes c) ''result'' of Some t \<Rightarrow> t | None \<Rightarrow> ''mixed'')
           | None \<Rightarrow> []))"

definition node_celltype :: "graph \<Rightarrow> path \<Rightarrow> celltype option" where
  "node_celltype g p = map_option config_celltype (map_of (g_nodes g) p)"

section \<open>Anonymous symbols\<close>

definition symbol_candidate :: "string \<Rightarrow> nat \<Rightarrow> string" where
  "symbol_candidate base i = (if i = 0 then base else base @ ''-'' @ nat_str i)"

definition assign_symbol ::
  "(recipe \<Rightarrow> string) \<Rightarrow> (recipe \<times> string) list \<Rightarrow> recipe \<Rightarrow> (string \<times> (recipe \<times> string) list) option" where
  "assign_symbol symbol_base symbols recipe =
     (case map_of symbols recipe of
        Some s \<Rightarrow> Some (s, symbols)
      | None \<Rightarrow>
          (let used = map snd symbols
           in map_option (\<lambda>s. (s, AList.update recipe s symbols))
                (first_untaken (Suc (length symbols)) (List.member used)
                   (symbol_candidate (symbol_base recipe)) 0)))"

fun assign_chain ::
  "(recipe \<Rightarrow> string) \<Rightarrow> (recipe \<times> string) list \<Rightarrow> source_key \<Rightarrow> link list
   \<Rightarrow> (recipe list \<times> (recipe \<times> string) list) option" where
  "assign_chain symbol_base symbols key [] = Some ([], symbols)"
| "assign_chain symbol_base symbols key ((celltype, path) # links) =
     (case assign_symbol symbol_base symbols (key, celltype, path) of
        None \<Rightarrow> None
      | Some (s, symbols') \<Rightarrow>
          map_option (\<lambda>(rs, syms). ((key, celltype, path) # rs, syms))
            (assign_chain symbol_base symbols' (Src_symbol s) links))"

fun assign_all ::
  "(recipe \<Rightarrow> string) \<Rightarrow> (recipe \<times> string) list \<Rightarrow> recipe list \<Rightarrow> (recipe \<times> string) list option" where
  "assign_all symbol_base symbols [] = Some symbols"
| "assign_all symbol_base symbols (r # rs) =
     (case assign_symbol symbol_base symbols r of
        None \<Rightarrow> None | Some (_, symbols') \<Rightarrow> assign_all symbol_base symbols' rs)"

definition edge_steps :: "edge \<Rightarrow> celltype \<Rightarrow> path \<Rightarrow> steps" where
  "edge_steps e celltype local_path =
     (if ed_conversion e then
        (if ed_conversion_steps e \<noteq> [] then ed_conversion_steps e
         else [(if ed_conversion_before e then 0 else int (length local_path),
                case ed_source_celltype e of Some c \<Rightarrow> if c \<noteq> [] then c else celltype | None \<Rightarrow> celltype)])
      else [])"

definition register_edge_symbols ::
  "(recipe \<Rightarrow> string) \<Rightarrow> graph \<Rightarrow> edge \<Rightarrow> (exc + edge) \<times> graph" where
  "register_edge_symbols symbol_base g e =
     (if ed_chain e \<noteq> [] then
        (case assign_all symbol_base (g_symbols g) (ed_chain e) of
           None \<Rightarrow> (Inl Runtime_Error, g)
         | Some syms \<Rightarrow> (Inr e, g\<lparr>g_symbols := syms\<rparr>))
      else case resolve_existing g (ed_source e) of
        None \<Rightarrow> (Inl Key_Error, g)
      | Some (source_node, local_path) \<Rightarrow>
          (let ct = the (node_celltype g source_node);
               links = anonymous_links ct local_path (edge_steps e ct local_path)
           in if links = [] then (Inr e, g)
              else case assign_chain symbol_base (g_symbols g) (Src_node source_node) links of
                None \<Rightarrow> (Inl Runtime_Error, g)
              | Some (chain, syms) \<Rightarrow> (Inr (e\<lparr>ed_chain := chain\<rparr>), g\<lparr>g_symbols := syms\<rparr>)))"

definition symbol_of :: "graph \<Rightarrow> recipe \<Rightarrow> exc + string" where
  "symbol_of g r = (case map_of (g_symbols g) r of None \<Rightarrow> Inl Assertion_Error | Some s \<Rightarrow> Inr s)"

section \<open>Miswiring\<close>

text \<open>
  The loop of \<open>chain_miswired\<close>. A chain that does not begin at a named node would read
  \<open>None\<close> as its first celltype; the model reads the empty celltype there.
\<close>

fun chain_scan :: "graph \<Rightarrow> celltype \<Rightarrow> recipe list \<Rightarrow> bool" where
  "chain_scan g source_celltype [] = False"
| "chain_scan g source_celltype ((Src_node p, celltype, path) # chain) =
     (case node_celltype g p of
        None \<Rightarrow> False
      | Some ct \<Rightarrow> link_miswired ct celltype path \<or> chain_scan g celltype chain)"
| "chain_scan g source_celltype ((Src_symbol s, celltype, path) # chain) =
     (link_miswired source_celltype celltype path \<or> chain_scan g celltype chain)"

definition chain_miswired :: "graph \<Rightarrow> recipe list \<Rightarrow> bool" where
  "chain_miswired g chain = chain_scan g [] chain"

definition pin_celltype :: "transformer_config \<Rightarrow> comp \<Rightarrow> celltype" where
  "pin_celltype c pin =
     (case pin of
        KStr p \<Rightarrow> (case map_of (tc_celltypes c) p of Some t \<Rightarrow> t | None \<Rightarrow> ''mixed'')
      | _ \<Rightarrow> ''mixed'')"

definition edge_target_celltype :: "graph \<Rightarrow> edge \<Rightarrow> celltype option" where
  "edge_target_celltype g e =
     (case resolve_existing g (ed_target e) of
        None \<Rightarrow> None
      | Some (target_node, target_local) \<Rightarrow>
          (case map_of (g_nodes g) target_node of
             None \<Rightarrow> None
           | Some nd \<Rightarrow>
               if nd_kind nd = Cell_kind
               then Some (projected_celltype (config_celltype nd) target_local)
               else case (nd_transformer_config nd, target_local) of
                 (Some c, [pin]) \<Rightarrow>
                   if pin \<noteq> KStr ''code'' then Some (pin_celltype c pin) else None
               | _ \<Rightarrow> None))"

definition looks_through :: "graph \<Rightarrow> edge \<Rightarrow> bool" where
  "looks_through g e =
     (case ed_chain e of
        [(Src_node p, celltype, path)] \<Rightarrow>
          map_of (g_nodes g) p \<noteq> None \<and>
          (case resolve_existing g (ed_target e) of
             None \<Rightarrow> False
           | Some (target_node, target_local) \<Rightarrow>
               (case map_of (g_nodes g) target_node of
                  None \<Rightarrow> False
                | Some target \<Rightarrow>
                    if ed_conversion e \<and> target_local \<noteq> [] \<and> nd_kind target = Cell_kind
                       \<and> is_deep (config_celltype target) then False
                    else if path \<noteq> [] \<and> \<not> ed_conversion e then True
                    else path = [] \<and> Some celltype = edge_target_celltype g e))
      | _ \<Rightarrow> False)"

definition reads_as_one_link :: "graph \<Rightarrow> edge \<Rightarrow> bool" where
  "reads_as_one_link g e =
     (case ed_chain e of
        (Src_node p, _, path) # _ \<Rightarrow>
          path = [] \<or> length (anonymous_links (the (node_celltype g p)) path []) = 1
      | _ \<Rightarrow> True)"

datatype miswiring = Own_miswired | Source_miswired

definition edge_miswiring :: "graph \<Rightarrow> edge \<Rightarrow> miswiring option" where
  "edge_miswiring g e =
     (if looks_through g e then
        (if \<not> reads_as_one_link g e then Some Own_miswired
         else case ed_chain e of
           (Src_node p, _, path) # _ \<Rightarrow>
             (case edge_target_celltype g e of
                Some ct \<Rightarrow>
                  if path \<noteq> [] \<and> \<not> is_deep ct \<and> link_miswired (the (node_celltype g p)) ct path
                  then Some Own_miswired else None
              | None \<Rightarrow> None)
         | _ \<Rightarrow> None)
      else if chain_miswired g (ed_chain e) then Some Source_miswired
      else None)"

definition collapses_on_save :: "graph \<Rightarrow> edge \<Rightarrow> bool" where
  "collapses_on_save g e \<longleftrightarrow> looks_through g e \<and> reads_as_one_link g e"

definition own_link :: "graph \<Rightarrow> edge \<Rightarrow> edge" where
  "own_link g e =
     (if \<not> looks_through g e then e
      else \<lparr>ed_source = ed_source e, ed_target = ed_target e, ed_source_celltype = None,
             ed_conversion = False, ed_conversion_before = False, ed_conversion_steps = [],
             ed_chain = ed_chain e, ed_deep_member = ed_deep_member e\<rparr>)"

section \<open>Resolution\<close>

lemma resolve_from_Some:
  "resolve_from nodes v n = Some (p, l) \<Longrightarrow>
   p @ l = v \<and> map_of nodes p \<noteq> None
   \<and> (\<exists>k. 0 < k \<and> k \<le> n \<and> p = take k v \<and> (\<forall>m. k < m \<and> m \<le> n \<longrightarrow> map_of nodes (take m v) = None))"
proof (induction nodes v n rule: resolve_from.induct)
  case (1 nodes v)
  then show ?case by simp
next
  case (2 nodes v n)
  show ?case
  proof (cases "map_of nodes (take (Suc n) v)")
    case None
    with "2.prems" have "resolve_from nodes v n = Some (p, l)" by simp
    from "2.IH" [OF _ this] None obtain k where k: "p @ l = v" "map_of nodes p \<noteq> None" "0 < k" "k \<le> n" "p = take k v"
      "\<forall>m. k < m \<and> m \<le> n \<longrightarrow> map_of nodes (take m v) = None"
      by blast
    moreover have "\<forall>m. k < m \<and> m \<le> Suc n \<longrightarrow> map_of nodes (take m v) = None"
      using k(6) None by (auto simp: le_Suc_eq)
    ultimately show ?thesis by (intro conjI exI [where x = k]) auto
  next
    case (Some nd)
    with "2.prems" have "p = take (Suc n) v" "l = drop (Suc n) v" by auto
    with Some show ?thesis by (intro conjI exI [where x = "Suc n"]) auto
  qed
qed

lemma resolve_from_None:
  "resolve_from nodes v n = None \<longleftrightarrow> (\<forall>m. 0 < m \<and> m \<le> n \<longrightarrow> map_of nodes (take m v) = None)"
  by (induction nodes v n rule: resolve_from.induct) (auto simp: le_Suc_eq)

lemma resolve_existing_Some:
  assumes "resolve_existing g v = Some (p, l)"
  shows "p @ l = v" and "map_of (g_nodes g) p \<noteq> None" and "p \<noteq> [] \<or> v = []"
  using resolve_from_Some [OF assms [unfolded resolve_existing_def]] by auto

lemma resolve_existing_node:
  assumes "map_of (g_nodes g) p \<noteq> None" and "p \<noteq> []"
  shows "resolve_existing g p = Some (p, [])"
  using assms by (cases "length p") (auto simp: resolve_existing_def)

text \<open>Resolution depends on the set of node names only.\<close>

lemma resolve_existing_cong:
  assumes "\<And>p. (map_of (g_nodes g) p = None) = (map_of (g_nodes h) p = None)"
  shows "resolve_existing g v = resolve_existing h v"
proof -
  have "resolve_from (g_nodes g) v n = resolve_from (g_nodes h) v n" for n
    by (induction n) (use assms in auto)
  then show ?thesis by (simp add: resolve_existing_def)
qed

section \<open>Decimal names are unique\<close>

fun digits_value :: "string \<Rightarrow> nat" where
  "digits_value [] = 0"
| "digits_value (c # cs) = (of_char c - 48) + 10 * digits_value cs"

lemma digits_value_rev: "digits_value (digits_rev n) = n"
proof (induction n rule: digits_rev.induct)
  case (1 n)
  show ?case
  proof (cases "n < 10")
    case True
    then show ?thesis by (subst digits_rev.simps) simp
  next
    case False
    have "(48 + n mod 10) mod 256 = 48 + n mod 10"
      by (rule mod_less) (use mod_less_divisor [of 10 n] in linarith)
    with False "1.IH" show ?thesis
      by (subst digits_rev.simps) simp
  qed
qed

lemma nat_str_inj [simp]: "nat_str m = nat_str n \<longleftrightarrow> m = n"
  by (metis digits_value_rev nat_str_def rev_rev_ident)

section \<open>The first free candidate\<close>

lemma first_untaken_Some:
  "first_untaken n taken cand i = Some c \<Longrightarrow>
   \<not> taken c \<and> (\<exists>j. c = cand (i + j) \<and> j < n \<and> (\<forall>k < j. taken (cand (i + k))))"
proof (induction n taken cand i rule: first_untaken.induct)
  case (1 taken cand i)
  then show ?case by simp
next
  case (2 n taken cand i)
  show ?case
  proof (cases "taken (cand i)")
    case True
    with 2 obtain j where "\<not> taken c" "c = cand (Suc i + j)" "j < n" "\<forall>k < j. taken (cand (Suc i + k))"
      by auto
    with True show ?thesis
      by (intro conjI exI [where x = "Suc j"]) (auto simp: less_Suc_eq_0_disj)
  next
    case False
    with 2 show ?thesis by (intro conjI exI [where x = 0]) auto
  qed
qed

lemma first_untaken_None:
  "first_untaken n taken cand i = None \<Longrightarrow> j < n \<Longrightarrow> taken (cand (i + j))"
proof (induction n taken cand i arbitrary: j rule: first_untaken.induct)
  case (2 n taken cand i)
  then show ?case
    by (cases j) (auto split: if_splits)
qed simp

lemma first_untaken_total:
  assumes "inj cand" and "\<And>c. taken c \<Longrightarrow> c \<in> set used" and "length used < n"
  shows "\<exists>c. first_untaken n taken cand i = Some c"
proof (rule ccontr)
  assume "\<not> ?thesis"
  then have "first_untaken n taken cand i = None" by auto
  then have "(\<lambda>j. cand (i + j)) ` {..<n} \<subseteq> set used"
    using first_untaken_None assms(2) by fastforce
  then have "card ((\<lambda>j. cand (i + j)) ` {..<n}) \<le> length used"
    by (meson card_length card_mono finite_set le_trans)
  moreover have "inj_on (\<lambda>j. cand (i + j)) {..<n}"
    using assms(1) by (auto intro!: inj_onI dest: injD)
  ultimately show False using assms(3) by (simp add: card_image)
qed

lemma symbol_candidate_inj: "inj (symbol_candidate base)"
  by (rule injI) (auto simp: symbol_candidate_def split: if_splits)

section \<open>Symbols\<close>

text \<open>
  The table of symbols is a dictionary that gives different recipes different symbols.
\<close>

definition symbols_ok :: "(recipe \<times> string) list \<Rightarrow> bool" where
  "symbols_ok symbols \<longleftrightarrow> wf_dict symbols \<and> distinct (map snd symbols)"

definition extends :: "(recipe \<times> string) list \<Rightarrow> (recipe \<times> string) list \<Rightarrow> bool" where
  "extends symbols' symbols \<longleftrightarrow> (\<forall>r s. map_of symbols r = Some s \<longrightarrow> map_of symbols' r = Some s)"

lemma extends_refl [simp, intro]: "extends symbols symbols"
  by (simp add: extends_def)

lemma extends_trans: "extends c b \<Longrightarrow> extends b a \<Longrightarrow> extends c a"
  by (simp add: extends_def)

lemma update_new: "map_of d k = None \<Longrightarrow> AList.update k v d = d @ [(k, v)]"
  by (induction d) (auto split: if_splits)

lemma assign_symbol_total: "\<exists>s syms. assign_symbol base symbols r = Some (s, syms)"
proof (cases "map_of symbols r")
  case None
  have "\<exists>c. first_untaken (Suc (length symbols)) (List.member (map snd symbols))
      (symbol_candidate (base r)) 0 = Some c"
    by (rule first_untaken_total [OF symbol_candidate_inj, where used = "map snd symbols"]) auto
  with None show ?thesis by (auto simp: assign_symbol_def)
qed (simp add: assign_symbol_def)

lemma assign_symbol_cases:
  assumes "assign_symbol base symbols r = Some (s, syms)"
  shows "map_of symbols r = Some s \<and> syms = symbols
    \<or> map_of symbols r = None \<and> s \<notin> set (map snd symbols) \<and> syms = symbols @ [(r, s)]"
proof (cases "map_of symbols r")
  case None
  then obtain c where "first_untaken (Suc (length symbols)) (List.member (map snd symbols))
      (symbol_candidate (base r)) 0 = Some c" "s = c" "syms = AList.update r c symbols"
    using assms by (auto simp: assign_symbol_def Let_def)
  with first_untaken_Some [OF this(1)] None update_new [OF None] show ?thesis
    by simp
qed (use assms in \<open>simp add: assign_symbol_def\<close>)

lemma assign_symbol_ok:
  assumes "assign_symbol base symbols r = Some (s, syms)" and "symbols_ok symbols"
  shows "symbols_ok syms" and "extends syms symbols" and "map_of syms r = Some s"
proof -
  have "map_of syms r = Some s \<and> extends syms symbols \<and> symbols_ok syms"
    using assign_symbol_cases [OF assms(1)]
  proof
    assume n: "map_of symbols r = None \<and> s \<notin> set (map snd symbols) \<and> syms = symbols @ [(r, s)]"
    then have "r \<notin> set (keys symbols)" by (simp add: map_of_eq_None_iff)
    with n assms(2) show ?thesis
      by (auto simp: symbols_ok_def wf_dict_def extends_def map_add_def)
  qed (use assms(2) in auto)
  then show "symbols_ok syms" "extends syms symbols" "map_of syms r = Some s" by blast+
qed

lemma assign_chain_total: "\<exists>rs syms. assign_chain base symbols key links = Some (rs, syms)"
proof (induction links arbitrary: symbols key)
  case (Cons l links)
  obtain ct p where l: "l = (ct, p)" by force
  obtain s syms where "assign_symbol base symbols (key, ct, p) = Some (s, syms)"
    using assign_symbol_total by blast
  with Cons [of syms "Src_symbol s"] show ?case by (auto simp: l)
qed simp

lemma assign_chain_ok:
  "assign_chain base symbols key links = Some (rs, syms) \<Longrightarrow> symbols_ok symbols \<Longrightarrow>
   symbols_ok syms \<and> extends syms symbols \<and> map snd rs = links
   \<and> list_all (\<lambda>r. map_of syms r \<noteq> None) rs"
proof (induction links arbitrary: symbols key rs syms)
  case Nil
  then show ?case by auto
next
  case (Cons l links)
  obtain ct p where l: "l = (ct, p)" by force
  obtain s syms1 where s: "assign_symbol base symbols (key, ct, p) = Some (s, syms1)"
    using assign_symbol_total by blast
  from Cons.prems(1) obtain rs1 where rs1: "assign_chain base syms1 (Src_symbol s) links = Some (rs1, syms)"
    and rs: "rs = (key, ct, p) # rs1"
    by (auto simp: l s)
  note ok = assign_symbol_ok [OF s Cons.prems(2)]
  from Cons.IH [OF rs1 ok(1)] ok show ?case
    by (auto simp: rs l extends_def)
qed

section \<open>Chains\<close>

lemma assign_chain_links:
  "assign_chain base symbols key links = Some (rs, syms) \<Longrightarrow> map snd rs = links"
proof (induction links arbitrary: symbols key rs syms)
  case (Cons l links)
  obtain ct p where "l = (ct, p)" by force
  with Cons show ?case by (auto split: option.splits)
qed simp

text \<open>
  The recipes of an assigned chain begin at the source node and go on at symbols, so the scan
  of the chain reads the node's celltype once and recorded celltypes after that.
\<close>

lemma chain_scan_symbols:
  "assign_chain base symbols (Src_symbol s) links = Some (rs, syms) \<Longrightarrow>
   chain_scan g ct rs \<longleftrightarrow> \<not> links_wf ct links"
proof (induction links arbitrary: symbols s rs syms ct)
  case Nil
  then show ?case by simp
next
  case (Cons l links)
  obtain c p where l: "l = (c, p)" by force
  from Cons.prems show ?case
    by (auto simp: l split: option.splits prod.splits dest!: Cons.IH [where ct = c])
qed

lemma assign_chain_scan:
  assumes "assign_chain base symbols (Src_node n) links = Some (rs, syms)"
    and "node_celltype g n = Some ct"
  shows "chain_miswired g rs \<longleftrightarrow> \<not> links_wf ct links"
proof (cases links)
  case Nil
  with assms show ?thesis by (simp add: chain_miswired_def)
next
  case (Cons l ls)
  obtain c p where l: "l = (c, p)" by force
  from assms show ?thesis
    by (auto simp: chain_miswired_def Cons l split: option.splits prod.splits
        dest!: chain_scan_symbols [where g = g and ct = c])
qed

section \<open>Properties\<close>

text \<open>C34: Resolving a view path finds the longest prefix that is a node, and splits the path
  there; it fails exactly when no prefix is a node.\<close>

theorem resolve_longest_prefix:
  "(\<forall>p l. resolve_existing g v = Some (p, l) \<longrightarrow>
      p @ l = v \<and> map_of (g_nodes g) p \<noteq> None
      \<and> (\<forall>m. length p < m \<and> m \<le> length v \<longrightarrow> map_of (g_nodes g) (take m v) = None))
   \<and> (resolve_existing g v = None \<longleftrightarrow>
      (\<forall>m. 0 < m \<and> m \<le> length v \<longrightarrow> map_of (g_nodes g) (take m v) = None))"
proof (intro conjI allI impI)
  fix p l m
  assume "resolve_existing g v = Some (p, l)"
  note r = resolve_from_Some [OF this [unfolded resolve_existing_def]]
  from r show "p @ l = v" "map_of (g_nodes g) p \<noteq> None" by simp_all
  assume m: "length p < m \<and> m \<le> length v"
  from r obtain k where k: "k \<le> length v" "p = take k v"
    "\<forall>m. k < m \<and> m \<le> length v \<longrightarrow> map_of (g_nodes g) (take m v) = None" by blast
  then have "length p = k" by simp
  with m k(3) show "map_of (g_nodes g) (take m v) = None" by blast
qed (simp add: resolve_existing_def resolve_from_None)

theorem resolve_longest_prefix_witness:
  "resolve_existing (empty_graph\<lparr>g_nodes := [([KStr ''a''], undefined)]\<rparr>) [KStr ''a'', KInt 0] =
     Some ([KStr ''a''], [KInt 0])
   \<and> map_of [([KStr ''a''], undefined)] (take 2 [KStr ''a'', KInt 0]) = None"
proof -
  have r: "resolve_existing (empty_graph\<lparr>g_nodes := [([KStr ''a''], undefined)]\<rparr>) [KStr ''a'', KInt 0] =
     Some ([KStr ''a''], [KInt 0])"
    by (simp add: resolve_existing_def empty_graph_def)
  note resolve_longest_prefix [THEN conjunct1, THEN spec, THEN spec, THEN mp, OF r]
  with r show ?thesis by (simp add: empty_graph_def numeral_2_eq_2)
qed

text \<open>Asking for a free name always gives one: a single-key path with the stem and a
  decimal number from 1 on, in use neither as a node nor as a namespace, and with the smallest
  such number.\<close>

theorem first_free_least:
  "\<exists>i p. first_free g stem = Some p \<and> 1 \<le> i \<and> p = [KStr (stem @ nat_str i)]
     \<and> p \<notin> fst ` set (g_nodes g) \<union> set (g_namespaces g)
     \<and> (\<lambda>j. [KStr (stem @ nat_str j)]) ` {1..<i} \<subseteq> fst ` set (g_nodes g) \<union> set (g_namespaces g)"
proof -
  let ?taken = "\<lambda>p. map_of (g_nodes g) p \<noteq> None \<or> List.member (g_namespaces g) p"
  let ?cand = "\<lambda>i. [KStr (stem @ nat_str i)]"
  have taken: "?taken p \<longleftrightarrow> p \<in> fst ` set (g_nodes g) \<union> set (g_namespaces g)" for p
    by (simp add: in_keys_iff)
  have "\<exists>c. first_free g stem = Some c"
    unfolding first_free_def
  proof (rule first_untaken_total)
    show "inj ?cand" by (rule injI) simp
    show "c \<in> set (keys (g_nodes g) @ g_namespaces g)" if "?taken c" for c
      using that taken by simp
  qed simp
  then obtain c where c: "first_free g stem = Some c" ..
  from first_untaken_Some [OF this [unfolded first_free_def]]
  obtain j where "\<not> ?taken c" "c = ?cand (1 + j)" "\<forall>k < j. ?taken (?cand (1 + k))" by blast
  moreover from this(3) have "?taken (?cand n)" if "1 \<le> n" "n < 1 + j" for n
    using that by (metis le_Suc_ex nat_add_left_cancel_less)
  ultimately show ?thesis
    using c unfolding taken
    by (intro exI [where x = "1 + j"] exI [where x = c] conjI image_subsetI)
       (simp_all only: atLeastLessThan_iff not_False_eq_True le_add1)
qed

text \<open>Naming an anonymous recipe never fails, never renames a recipe that has a symbol, and
  keeps different recipes on different symbols.\<close>

theorem assign_symbol_stable:
  assumes "symbols_ok symbols"
  shows "\<exists>s syms. assign_symbol base symbols r = Some (s, syms) \<and> symbols_ok syms
     \<and> extends syms symbols \<and> map_of syms r = Some s
     \<and> (\<forall>r' s'. map_of syms r' = Some s' \<longrightarrow> s' = s \<longrightarrow> r' = r)"
proof -
  obtain s syms where a: "assign_symbol base symbols r = Some (s, syms)"
    using assign_symbol_total by blast
  note ok = assign_symbol_ok [OF a assms]
  have "r' = r" if "map_of syms r' = Some s" for r'
    using that ok(1,3) unfolding symbols_ok_def
    by (metis distinct_map inj_on_eq_iff map_of_SomeD prod.inject snd_conv)
  with a ok show ?thesis by blast
qed

theorem assign_symbol_stable_witness:
  "\<exists>s syms. assign_symbol (\<lambda>_. ''abcde'') [((Src_node [KStr ''a''], ''mixed'', []), ''abcde'')]
       (Src_node [KStr ''b''], ''mixed'', []) = Some (s, syms) \<and> symbols_ok syms"
  using assign_symbol_stable [of "[((Src_node [KStr ''a''], ''mixed'', []), ''abcde'')]"
      "\<lambda>_. ''abcde''" "(Src_node [KStr ''b''], ''mixed'', [])"]
  by (auto simp: symbols_ok_def wf_dict_def)

text \<open>C32: Recording a new edge whose recipe takes a text key below a deep celltype and converts
  to no deep celltype inside the path gives a chain of links that is not miswired.\<close>

theorem registered_recipe_not_miswired:
  assumes "ed_chain e = []" and "resolve_existing g (ed_source e) = Some (n, local_path)"
    and "node_celltype g n = Some ct"
    and "split_deep_step ct local_path (edge_steps e ct local_path) \<noteq> None \<longrightarrow> is_str (hd local_path)"
    and "\<forall>s \<in> set (edge_steps e ct local_path). 0 < fst s \<longrightarrow> \<not> is_deep (snd s)"
  shows "\<exists>e' g'. register_edge_symbols base g e = (Inr e', g') \<and> g_nodes g' = g_nodes g
     \<and> map snd (ed_chain e') = anonymous_links ct local_path (edge_steps e ct local_path)
     \<and> \<not> chain_miswired g' (ed_chain e')"
proof -
  let ?links = "anonymous_links ct local_path (edge_steps e ct local_path)"
  have wf: "links_wf ct ?links" by (rule anonymous_links_wf) (use assms in auto)
  obtain chain syms where c: "assign_chain base (g_symbols g) (Src_node n) ?links = Some (chain, syms)"
    using assign_chain_total by blast
  have paths: "map snd chain = ?links"
    using c by (rule assign_chain_links)
  have nt: "node_celltype (g\<lparr>g_symbols := syms\<rparr>) n = Some ct"
    using assms(3) by (simp add: node_celltype_def)
  from assign_chain_scan [OF c nt] wf have "\<not> chain_miswired (g\<lparr>g_symbols := syms\<rparr>) chain" by simp
  with assms c paths show ?thesis
    by (cases "?links = []") (auto simp: register_edge_symbols_def Let_def chain_miswired_def)
qed

theorem registered_recipe_not_miswired_witness:
  "\<exists>e' g'. register_edge_symbols (\<lambda>_. ''abcde'')
      (empty_graph\<lparr>g_nodes := [([KStr ''d''], undefined\<lparr>nd_kind := Cell_kind, nd_cell_config :=
         Some \<lparr>cc_celltype = ''deepcell'', cc_validator = None, cc_validator_language = None,
               cc_scratch = False\<rparr>\<rparr>)]\<rparr>)
      \<lparr>ed_source = [KStr ''d'', KStr ''k'', KInt 0], ed_target = [KStr ''t''], ed_source_celltype = None,
        ed_conversion = True, ed_conversion_before = False, ed_conversion_steps = [(2, ''plain'')],
        ed_chain = [], ed_deep_member = False\<rparr> = (Inr e', g')
   \<and> length (ed_chain e') = 3 \<and> \<not> chain_miswired g' (ed_chain e')"
  (is "\<exists>e' g'. register_edge_symbols ?b ?g ?e = _ \<and> _")
proof -
  have r: "resolve_existing ?g (ed_source ?e) = Some ([KStr ''d''], [KStr ''k'', KInt 0])"
    by (simp add: resolve_existing_def empty_graph_def)
  have t: "node_celltype ?g [KStr ''d''] = Some ''deepcell''"
    by (simp add: node_celltype_def empty_graph_def config_celltype_def)
  have st: "edge_steps ?e ''deepcell'' [KStr ''k'', KInt 0] = [(2, ''plain'')]"
    by (simp add: edge_steps_def)
  have "\<exists>e' g'. register_edge_symbols ?b ?g ?e = (Inr e', g') \<and> g_nodes g' = g_nodes ?g
     \<and> map snd (ed_chain e') = anonymous_links ''deepcell'' [KStr ''k'', KInt 0] [(2, ''plain'')]
     \<and> \<not> chain_miswired g' (ed_chain e')"
    by (rule registered_recipe_not_miswired [OF _ r t, unfolded st])
       (simp_all add: is_str_def is_deep_iff)
  moreover have "length (anonymous_links ''deepcell'' [KStr ''k'', KInt 0] [(2, ''plain'')]) = 3"
    by (simp add: anonymous_links_def path_links_def is_deep_iff is_slice_def clamp_position_def Let_def)
  ultimately show ?thesis by (metis length_map)
qed

end
