(* ===== verification/Graph_Edges.thy ===== *)
theory Graph_Edges
  imports Graph_Store
begin

text \<open>
  The questions the Context asks about edges, and the edge list operations that answer to
  them: incoming edges of a target, cycle detection, upstream and downstream cones, removal of
  the edges that target an endpoint (\<^verbatim>\<open>context.py\<close>).

  A Python set of node paths is a list without duplicates here. The worklists keep the order of
  the code's stack, with the top of the stack in front.
\<close>

section \<open>Edges between nodes\<close>

definition edge_ends :: "graph \<Rightarrow> edge \<Rightarrow> (path \<times> path) option" where
  "edge_ends g e =
     (case (resolve_existing g (ed_source e), resolve_existing g (ed_target e)) of
        (Some (s, _), Some (t, _)) \<Rightarrow> Some (s, t)
      | _ \<Rightarrow> None)"

definition edge_pairs :: "graph \<Rightarrow> (path \<times> path) list" where
  "edge_pairs g = List.map_filter (edge_ends g) (g_edges g)"

definition target_node :: "graph \<Rightarrow> edge \<Rightarrow> path option" where
  "target_node g e = map_option fst (resolve_existing g (ed_target e))"

definition targets_at :: "graph \<Rightarrow> path \<Rightarrow> path \<Rightarrow> edge \<Rightarrow> bool" where
  "targets_at g node_path local e = (resolve_existing g (ed_target e) = Some (node_path, local))"

definition incoming_edge :: "graph \<Rightarrow> path \<Rightarrow> path \<Rightarrow> edge option" where
  "incoming_edge g node_path local = map_option (own_link g) (find (targets_at g node_path local) (g_edges g))"

fun incoming_loop :: "graph \<Rightarrow> path \<Rightarrow> edge list \<Rightarrow> (path \<times> edge) list \<Rightarrow> (path \<times> edge) list" where
  "incoming_loop g node_path [] result = result"
| "incoming_loop g node_path (e # es) result =
     incoming_loop g node_path es
       (case resolve_existing g (ed_target e) of
          None \<Rightarrow> result
        | Some (t, l) \<Rightarrow> if t = node_path then AList.update l (own_link g e) result else result)"

definition incoming_for :: "graph \<Rightarrow> path \<Rightarrow> (path \<times> edge) list" where
  "incoming_for g node_path = incoming_loop g node_path (g_edges g) []"

definition check_authority :: "graph \<Rightarrow> path \<Rightarrow> path \<Rightarrow> exc option" where
  "check_authority g node_path local =
     (if incoming_edge g node_path local \<noteq> None then Some Authority_Error else None)"

definition validate_write :: "graph \<Rightarrow> path \<Rightarrow> path \<Rightarrow> bool \<Rightarrow> exc option" where
  "validate_write g node_path local detach =
     (if list_ex (\<lambda>target.
            (length target < length local \<and> take (length target) local = target)
            \<or> (take (length local) target = local \<and> \<not> detach))
          (keys (incoming_for g node_path))
      then Some Authority_Error else None)"

definition replace_edges_to :: "graph \<Rightarrow> path \<Rightarrow> graph" where
  "replace_edges_to g node_path = g\<lparr>g_edges := filter (\<lambda>e. target_node g e \<noteq> Some node_path) (g_edges g)\<rparr>"

definition targets_below :: "graph \<Rightarrow> path \<Rightarrow> path \<Rightarrow> bool \<Rightarrow> edge \<Rightarrow> bool" where
  "targets_below g node_path local below e =
     (case resolve_existing g (ed_target e) of
        None \<Rightarrow> False
      | Some (t, l) \<Rightarrow> t = node_path \<and> (if below then take (length local) l = local else l = local))"

definition remove_edges_targeting :: "graph \<Rightarrow> path \<Rightarrow> path \<Rightarrow> bool \<Rightarrow> graph" where
  "remove_edges_targeting g node_path local below =
     g\<lparr>g_edges := filter (\<lambda>e. \<not> targets_below g node_path local below e) (g_edges g)\<rparr>"

section \<open>Cycles\<close>

definition targets_of :: "('a \<times> 'a) list \<Rightarrow> 'a \<Rightarrow> 'a list" where
  "targets_of pairs c = map snd (filter (\<lambda>e. fst e = c) pairs)"

lemma seen_measure:
  assumes "c \<notin> set seen" and "c \<in> set xs"
  shows "card (set xs - insert c (set seen)) < card (set xs - set seen)"
  using assms by (intro psubset_card_mono) auto

lemma targets_of_Nil: "c \<notin> set (map fst pairs) \<Longrightarrow> targets_of pairs c = []"
  by (induction pairs) (auto simp: targets_of_def)

function cycle_loop :: "('a \<times> 'a) list \<Rightarrow> 'a \<Rightarrow> 'a list \<Rightarrow> 'a list \<Rightarrow> bool" where
  "cycle_loop pairs source seen [] = False"
| "cycle_loop pairs source seen (current # stack) =
     (if current = source then True
      else if List.member seen current then cycle_loop pairs source seen stack
      else cycle_loop pairs source (current # seen) (rev (targets_of pairs current) @ stack))"
  by pat_completeness auto

termination
proof (relation "measures [\<lambda>(pairs, source, seen, stack). card (set (map fst pairs) - set seen),
    \<lambda>(pairs, source, seen, stack). length stack]", goal_cases)
  case 1
  then show ?case by simp
next
  case (2 pairs source seen current stack)
  then show ?case by simp
next
  case (3 pairs source seen current stack)
  show ?case
  proof (cases "current \<in> set (map fst pairs)")
    case True
    have "card (set (map fst pairs) - set (current # seen)) < card (set (map fst pairs) - set seen)"
      using seen_measure [of current seen "map fst pairs"] True 3 by simp
    then show ?thesis by (simp del: set_map list.set(2))
  next
    case False
    then have "set (map fst pairs) - set (current # seen) = set (map fst pairs) - set seen" by auto
    with False show ?thesis by (simp add: targets_of_Nil del: set_map list.set(2))
  qed
qed

definition would_cycle :: "graph \<Rightarrow> path \<Rightarrow> path \<Rightarrow> bool" where
  "would_cycle g source target = cycle_loop (edge_pairs g) source [] [target]"

section \<open>Cones\<close>

fun cone_scan :: "('a \<times> 'a) list \<Rightarrow> 'a \<Rightarrow> 'a list \<times> 'a list \<Rightarrow> 'a list \<times> 'a list" where
  "cone_scan [] current st = st"
| "cone_scan ((a, b) # pairs) current (result, stack) =
     cone_scan pairs current
       (if a = current \<and> \<not> List.member result b then (b # result, b # stack) else (result, stack))"

lemma cone_scan_new:
  "\<exists>new. cone_scan pairs c (result, stack) = (new @ result, new @ stack)
     \<and> set new = {b. (c, b) \<in> set pairs} - set result \<and> distinct new"
proof (induction pairs arbitrary: result stack)
  case Nil
  then show ?case by simp
next
  case (Cons p pairs)
  obtain a b where p: "p = (a, b)" by force
  show ?case
  proof (cases "a = c \<and> b \<notin> set result")
    case True
    obtain new where new: "cone_scan pairs c (b # result, b # stack) = (new @ b # result, new @ b # stack)"
      "set new = {b. (c, b) \<in> set pairs} - set (b # result)" "distinct new"
      using Cons by blast
    then show ?thesis
      using True p by (intro exI [where x = "new @ [b]"]) auto
  next
    case False
    obtain new where "cone_scan pairs c (result, stack) = (new @ result, new @ stack)"
      "set new = {b. (c, b) \<in> set pairs} - set result" "distinct new"
      using Cons by blast
    then show ?thesis using False p by (intro exI [where x = new]) auto
  qed
qed

function cone_loop :: "('a \<times> 'a) list \<Rightarrow> 'a list \<Rightarrow> 'a list \<Rightarrow> 'a list" where
  "cone_loop pairs result [] = result"
| "cone_loop pairs result (current # stack) =
     (case cone_scan pairs current (result, stack) of (result', stack') \<Rightarrow> cone_loop pairs result' stack')"
  by pat_completeness auto

termination
proof (relation "measures [\<lambda>(pairs, result, stack). card (set (map snd pairs) - set result),
    \<lambda>(pairs, result, stack). length stack]", goal_cases)
  case 1
  then show ?case by simp
next
  case (2 pairs result current stack result' stack')
  obtain new where new: "cone_scan pairs current (result, stack) = (new @ result, new @ stack)"
    "set new = {b. (current, b) \<in> set pairs} - set result"
    using cone_scan_new by metis
  with 2 have r: "result' = new @ result" "stack' = new @ stack" by simp_all
  show ?case
  proof (cases "new = []")
    case False
    then obtain b where "b \<in> set new" by (cases new) auto
    moreover have "set new \<subseteq> set (map snd pairs) - set result" using new(2) by force
    ultimately have "card (set (map snd pairs) - set result') < card (set (map snd pairs) - set result)"
      unfolding r by (intro psubset_card_mono) auto
    then show ?thesis by (simp del: set_map)
  qed (use r in simp)
qed

definition downstream_cone :: "graph \<Rightarrow> path \<Rightarrow> path list" where
  "downstream_cone g node_path = cone_loop (edge_pairs g) [] [node_path]"

definition upstream_cone :: "graph \<Rightarrow> path \<Rightarrow> path list" where
  "upstream_cone g node_path =
     removeAll node_path (cone_loop (map (\<lambda>(s, t). (t, s)) (edge_pairs g)) [] [node_path])"

section \<open>Cycle detection is reachability\<close>

lemma targets_of_set [simp]: "set (targets_of pairs c) = {b. (c, b) \<in> set pairs}"
  by (force simp: targets_of_def)

lemma rtrancl_step_or_eq: "(a, b) \<in> r\<^sup>* \<longleftrightarrow> a = b \<or> (\<exists>c. (a, c) \<in> r \<and> (c, b) \<in> r\<^sup>*)"
  by (meson converse_rtrancl_into_rtrancl converse_rtranclE rtrancl.rtrancl_refl)

text \<open>
  What has been seen was pushed with all its successors: from a seen node, the source can only
  be reached through the stack.
\<close>

definition frontier :: "('a \<times> 'a) list \<Rightarrow> 'a \<Rightarrow> 'a list \<Rightarrow> 'a list \<Rightarrow> bool" where
  "frontier pairs source seen stack \<longleftrightarrow>
     source \<notin> set seen \<and> (\<forall>a \<in> set seen. \<forall>b. (a, b) \<in> set pairs \<longrightarrow> b \<in> set seen \<union> set stack)"

lemma frontier_reach:
  assumes "frontier pairs source seen stack" and "(a, source) \<in> (set pairs)\<^sup>*" and "a \<in> set seen"
  shows "\<exists>b \<in> set stack. (b, source) \<in> (set pairs)\<^sup>*"
  using assms(2,3)
proof (induction rule: converse_rtrancl_induct)
  case base
  with assms(1) show ?case by (simp add: frontier_def)
next
  case (step a b)
  then show ?case using assms(1) unfolding frontier_def by blast
qed

lemma cycle_loop_iff:
  "frontier pairs source seen stack \<Longrightarrow>
   cycle_loop pairs source seen stack \<longleftrightarrow> (\<exists>a \<in> set stack. (a, source) \<in> (set pairs)\<^sup>*)"
proof (induction pairs source seen stack rule: cycle_loop.induct)
  case (1 pairs source seen)
  then show ?case by simp
next
  case (2 pairs source seen current stack)
  consider (found) "current = source" | (old) "current \<noteq> source" "current \<in> set seen"
    | (new) "current \<noteq> source" "current \<notin> set seen" by blast
  then show ?case
  proof cases
    case found
    then show ?thesis by auto
  next
    case old
    have f: "frontier pairs source seen stack"
      using 2(3) old unfolding frontier_def by auto
    then have "cycle_loop pairs source seen (current # stack) \<longleftrightarrow> (\<exists>a \<in> set stack. (a, source) \<in> (set pairs)\<^sup>*)"
      using old 2(1) by simp
    moreover have "(current, source) \<in> (set pairs)\<^sup>* \<Longrightarrow> \<exists>a \<in> set stack. (a, source) \<in> (set pairs)\<^sup>*"
      using frontier_reach [OF f] old(2) by blast
    ultimately show ?thesis by (metis list.set_intros(2) set_ConsD)
  next
    case new
    have f: "frontier pairs source (current # seen) (rev (targets_of pairs current) @ stack)"
      using 2(3) new unfolding frontier_def by auto
    then have "cycle_loop pairs source seen (current # stack) \<longleftrightarrow>
        (\<exists>a \<in> {b. (current, b) \<in> set pairs} \<union> set stack. (a, source) \<in> (set pairs)\<^sup>*)"
      using new 2(2) by simp
    also have "\<dots> \<longleftrightarrow> (\<exists>a \<in> set (current # stack). (a, source) \<in> (set pairs)\<^sup>*)"
      using rtrancl_step_or_eq [of current source "set pairs"] new(1) by auto
    finally show ?thesis .
  qed
qed

lemma would_cycle_iff:
  "would_cycle g source target \<longleftrightarrow> (target, source) \<in> (set (edge_pairs g))\<^sup>*"
  using cycle_loop_iff [of "edge_pairs g" source "[]" "[target]"]
  by (simp add: would_cycle_def frontier_def)

section \<open>The cones are reachability\<close>

lemma cone_loop_sound:
  "set (cone_loop pairs result stack) \<subseteq> set result \<union> (set pairs)\<^sup>+ `` set stack"
proof (induction pairs result stack rule: cone_loop.induct)
  case (2 pairs result current stack)
  obtain new where new: "cone_scan pairs current (result, stack) = (new @ result, new @ stack)"
    "set new = {b. (current, b) \<in> set pairs} - set result"
    using cone_scan_new by metis
  have "set (cone_loop pairs (new @ result) (new @ stack)) \<subseteq>
      set (new @ result) \<union> (set pairs)\<^sup>+ `` set (new @ stack)"
    using 2 [OF new(1) [symmetric]] .
  moreover have "set new \<subseteq> (set pairs)\<^sup>+ `` {current}" using new(2) by auto
  moreover from this have "(set pairs)\<^sup>+ `` set new \<subseteq> (set pairs)\<^sup>+ `` {current}"
    by (auto intro: trancl_trans)
  ultimately have "set (cone_loop pairs (new @ result) (new @ stack)) \<subseteq>
      set result \<union> (set pairs)\<^sup>+ `` set (current # stack)"
    unfolding set_append list.set(2) by blast
  then show ?case using new(1) by (simp add: cone_loop.simps)
qed simp

lemma cone_loop_mono: "set result \<subseteq> set (cone_loop pairs result stack)"
proof (induction pairs result stack rule: cone_loop.induct)
  case (2 pairs result current stack)
  obtain new where new: "cone_scan pairs current (result, stack) = (new @ result, new @ stack)"
    using cone_scan_new by metis
  from 2 [OF new [symmetric]] new show ?case by auto
qed simp

lemma cone_loop_closed:
  "\<forall>a \<in> insert p (set result) - set stack. (set pairs) `` {a} \<subseteq> set result \<Longrightarrow>
   set pairs `` insert p (set (cone_loop pairs result stack)) \<subseteq> set (cone_loop pairs result stack)"
proof (induction pairs result stack rule: cone_loop.induct)
  case (1 pairs result)
  then show ?case by auto
next
  case (2 pairs result current stack)
  obtain new where new: "cone_scan pairs current (result, stack) = (new @ result, new @ stack)"
    "set new = {b. (current, b) \<in> set pairs} - set result"
    using cone_scan_new by metis
  have "\<forall>a \<in> insert p (set (new @ result)) - set (new @ stack). (set pairs) `` {a} \<subseteq> set (new @ result)"
  proof
    fix a
    assume a: "a \<in> insert p (set (new @ result)) - set (new @ stack)"
    show "(set pairs) `` {a} \<subseteq> set (new @ result)"
    proof (cases "a = current")
      case True
      then show ?thesis using new(2) by auto
    next
      case False
      with a have "a \<in> insert p (set result) - set (current # stack)" by auto
      with "2.prems" show ?thesis by auto
    qed
  qed
  from "2.IH" [OF new(1) [symmetric] this] new(1) show ?case by simp
qed

lemma closed_trancl:
  assumes "r `` insert p A \<subseteq> A"
  shows "r\<^sup>+ `` {p} \<subseteq> A"
proof -
  have "b \<in> A" if "(p, b) \<in> r\<^sup>+" for b
    using that by (induction rule: trancl_induct) (use assms in auto)
  then show ?thesis by auto
qed

lemma cone_loop_reach: "set (cone_loop pairs [] [p]) = (set pairs)\<^sup>+ `` {p}"
  using cone_loop_sound [of pairs "[]" "[p]"] closed_trancl [OF cone_loop_closed [of p "[]" "[p]" pairs]]
  by auto

text \<open>
  The contract the callers of a cone rely on: it holds exactly the nodes reached in one step or
  more.
\<close>

locale reachable_set =
  fixes search :: "('n \<times> 'n) list \<Rightarrow> 'n \<Rightarrow> 'n list"
    and rel :: "('n \<times> 'n) list \<Rightarrow> ('n \<times> 'n) set"
  assumes search_set: "set (search pairs p) = (rel pairs)\<^sup>+ `` {p}"
begin

lemma search_step: "(p, q) \<in> rel pairs \<Longrightarrow> q \<in> set (search pairs p)"
  by (auto simp: search_set)

lemma search_trans: "q \<in> set (search pairs p) \<Longrightarrow> r \<in> set (search pairs q) \<Longrightarrow> r \<in> set (search pairs p)"
  by (auto simp: search_set)

lemma search_self: "p \<in> set (search pairs p) \<longleftrightarrow> (p, p) \<in> (rel pairs)\<^sup>+"
  by (simp add: search_set)

lemma search_acyclic: "acyclic (rel pairs) \<Longrightarrow> p \<notin> set (search pairs p)"
  by (simp add: search_self acyclic_def)

lemma search_closed:
  "set (search pairs p) \<subseteq> A" if "\<And>a b. a \<in> insert p A \<Longrightarrow> (a, b) \<in> rel pairs \<Longrightarrow> b \<in> A"
  unfolding search_set by (rule closed_trancl) (use that in blast)

end

declare cone_loop.simps [simp del]

abbreviation downstream_pairs :: "('n \<times> 'n) list \<Rightarrow> 'n \<Rightarrow> 'n list" where
  "downstream_pairs pairs p \<equiv> cone_loop pairs [] [p]"

abbreviation upstream_pairs :: "('n \<times> 'n) list \<Rightarrow> 'n \<Rightarrow> 'n list" where
  "upstream_pairs pairs p \<equiv> cone_loop (map (\<lambda>(s, t). (t, s)) pairs) [] [p]"

lemma set_swap: "set (map (\<lambda>(s, t). (t, s)) pairs) = (set pairs)\<inverse>"
  by auto

interpretation down: reachable_set downstream_pairs set
  by unfold_locales (rule cone_loop_reach)

interpretation up: reachable_set upstream_pairs "\<lambda>pairs. (set pairs)\<inverse>"
  by unfold_locales (simp only: cone_loop_reach set_swap)

lemma downstream_cone_iff:
  "q \<in> set (downstream_cone g p) \<longleftrightarrow> (p, q) \<in> (set (edge_pairs g))\<^sup>+"
  using down.search_set [of "edge_pairs g" p] by (simp add: downstream_cone_def del: cone_loop.simps)

lemma upstream_cone_iff:
  "q \<in> set (upstream_cone g p) \<longleftrightarrow> q \<noteq> p \<and> (q, p) \<in> (set (edge_pairs g))\<^sup>+"
  using up.search_set [of "edge_pairs g" p] by (auto simp: upstream_cone_def trancl_converse simp del: cone_loop.simps)

section \<open>Incoming edges\<close>

lemma targets_below_root:
  "targets_below g n [] True e \<longleftrightarrow> target_node g e = Some n"
  by (auto simp: targets_below_def target_node_def split: option.splits)

lemma targets_at_below: "targets_at g n local e \<Longrightarrow> targets_below g n local below e"
  by (auto simp: targets_at_def targets_below_def)

lemma own_link_target [simp]: "ed_target (own_link g e) = ed_target e"
  by (simp add: own_link_def)

lemma incoming_loop_keys:
  "set (keys (incoming_loop g n es result)) =
   set (keys result) \<union> {l. \<exists>e \<in> set es. targets_at g n l e}"
  by (induction g n es result rule: incoming_loop.induct)
     (auto simp: targets_at_def dom_update split: option.splits)

lemma incoming_for_keys:
  "l \<in> set (keys (incoming_for g n)) \<longleftrightarrow> (\<exists>e \<in> set (g_edges g). targets_at g n l e)"
  unfolding incoming_for_def incoming_loop_keys by simp

lemma incoming_edge_None:
  "incoming_edge g n l = None \<longleftrightarrow> (\<forall>e \<in> set (g_edges g). \<not> targets_at g n l e)"
  unfolding incoming_edge_def by (auto simp: find_None_iff)

text \<open>The node names are all that resolution reads, so edge updates do not move targets.\<close>

lemma resolve_existing_same_nodes:
  "g_nodes h = g_nodes g \<Longrightarrow> resolve_existing h v = resolve_existing g v"
  by (simp add: resolve_existing_def)

lemma same_nodes:
  assumes "g_nodes h = g_nodes g"
  shows "edge_ends h e = edge_ends g e" and "target_node h e = target_node g e"
    and "targets_at h n l e = targets_at g n l e" and "targets_below h n l b e = targets_below g n l b e"
  by (simp_all add: edge_ends_def target_node_def targets_at_def targets_below_def
      resolve_existing_same_nodes [OF assms])

lemma remove_edges_pairs:
  "set (edge_pairs (remove_edges_targeting g n l b)) \<subseteq> set (edge_pairs g)"
proof -
  have "edge_ends (remove_edges_targeting g n l b) = edge_ends g"
    by (rule ext, rule same_nodes) (simp add: remove_edges_targeting_def)
  then show ?thesis
    by (auto simp: edge_pairs_def map_filter_def remove_edges_targeting_def)
qed

section \<open>The invariant of the edge list\<close>

text \<open>
  Every edge resolves, no endpoint has two incoming edges, a cell with a root edge has no other
  incoming edge, and the dependencies of nodes have no cycle.
\<close>

definition is_cell :: "graph \<Rightarrow> path \<Rightarrow> bool" where
  "is_cell g n = (case map_of (g_nodes g) n of Some nd \<Rightarrow> nd_cell_config nd \<noteq> None | None \<Rightarrow> False)"

definition edge_targets :: "graph \<Rightarrow> (path \<times> path) option list" where
  "edge_targets g = map (\<lambda>e. resolve_existing g (ed_target e)) (g_edges g)"

definition edges_ok :: "graph \<Rightarrow> bool" where
  "edges_ok g \<longleftrightarrow>
     None \<notin> set (edge_targets g) \<and> distinct (edge_targets g)
     \<and> (\<forall>n l. Some (n, []) \<in> set (edge_targets g) \<longrightarrow> Some (n, l) \<in> set (edge_targets g)
            \<longrightarrow> is_cell g n \<longrightarrow> l = [])
     \<and> acyclic (set (edge_pairs g)) \<and> None \<notin> edge_ends g ` set (g_edges g)"

text \<open>
  The part of \<open>_add_edge\<close> that decides on the edge and rewrites the edge list; the test of the
  sensing mount is its argument \<open>sensing_mount\<close>.
\<close>

definition root_conflict :: "graph \<Rightarrow> path \<Rightarrow> path \<Rightarrow> bool" where
  "root_conflict g t_node t_local \<longleftrightarrow>
     is_cell g t_node \<and>
     (let incoming = keys (incoming_for g t_node) in
        (t_local \<noteq> [] \<and> List.member incoming [])
        \<or> (t_local = [] \<and> list_ex (\<lambda>l. l \<noteq> []) incoming))"

definition link_edge ::
  "(recipe \<Rightarrow> string) \<Rightarrow> bool \<Rightarrow> bool \<Rightarrow> edge \<Rightarrow> graph \<Rightarrow> (exc + unit) \<times> graph" where
  "link_edge symbol_base sensing_mount detach e g =
     (case (resolve_existing g (ed_source e), resolve_existing g (ed_target e)) of
        (Some (s_node, _), Some (t_node, t_local)) \<Rightarrow>
          (if root_conflict g t_node t_local then (Inl Dependency_Error, g)
           else if sensing_mount then (Inl Authority_Error, g)
           else if s_node = t_node then (Inl Dependency_Error, g)
           else if would_cycle g s_node t_node then (Inl Dependency_Error, g)
           else case (if detach then validate_write g t_node t_local True
                      else check_authority g t_node t_local) of
             Some x \<Rightarrow> (Inl x, g)
           | None \<Rightarrow>
               (case register_edge_symbols symbol_base
                       (remove_edges_targeting g t_node t_local True) e of
                  (Inl x, g') \<Rightarrow> (Inl x, g')
                | (Inr e', g') \<Rightarrow> (Inr (), g'\<lparr>g_edges := g_edges g' @ [e']\<rparr>)))
      | _ \<Rightarrow> (Inl Key_Error, g))"

lemma validate_write_detach:
  "validate_write g n l True = None \<longleftrightarrow>
   (\<forall>e \<in> set (g_edges g). \<forall>l'. targets_at g n l' e \<longrightarrow> length l' < length l \<longrightarrow> take (length l') l \<noteq> l')"
  unfolding validate_write_def list_ex_iff Bex_def incoming_for_keys by auto

lemma register_edge_symbols_frame:
  assumes "register_edge_symbols base g e = (r, g')"
  shows "g_nodes g' = g_nodes g" and "g_edges g' = g_edges g"
    and "r = Inr e' \<Longrightarrow> ed_source e' = ed_source e \<and> ed_target e' = ed_target e"
  using assms
  by (auto simp: register_edge_symbols_def Let_def split: if_splits option.splits prod.splits)

lemma edges_ok_filter:
  assumes "edges_ok g" and "g_nodes h = g_nodes g" and "g_edges h = filter P (g_edges g)"
  shows "edges_ok h"
proof -
  have res: "resolve_existing h = resolve_existing g"
    by (rule ext) (simp add: resolve_existing_same_nodes [OF assms(2)])
  have ends: "edge_ends h = edge_ends g"
    by (rule ext) (rule same_nodes [OF assms(2)])
  have pairs: "set (edge_pairs h) \<subseteq> set (edge_pairs g)"
    by (auto simp: edge_pairs_def map_filter_def ends assms(3))
  have sub: "set (edge_targets h) \<subseteq> set (edge_targets g)"
    by (auto simp: edge_targets_def res assms(3))
  have "distinct (edge_targets h)"
    using assms(1) by (simp add: edges_ok_def edge_targets_def res assms(3) distinct_map_filter)
  moreover have "is_cell h = is_cell g" by (rule ext) (simp add: is_cell_def assms(2))
  moreover have "acyclic (set (edge_pairs h))"
    using assms(1) acyclic_subset [OF _ pairs] by (simp add: edges_ok_def)
  moreover have "None \<notin> set (edge_targets h)"
    using assms(1) sub unfolding edges_ok_def by blast
  moreover have "l = []" if "Some (n, []) \<in> set (edge_targets h)" "Some (n, l) \<in> set (edge_targets h)" "is_cell h n" for n l
    using assms(1) subsetD [OF sub that(1)] subsetD [OF sub that(2)] that(3)
    unfolding edges_ok_def \<open>is_cell h = is_cell g\<close> by blast
  moreover have "None \<notin> edge_ends h ` set (g_edges h)"
    using assms(1) unfolding ends assms(3) edges_ok_def by auto
  ultimately show ?thesis unfolding edges_ok_def by blast
qed

lemma targets_in_edge_targets:
  "Some (n, l) \<in> set (edge_targets g) \<longleftrightarrow> (\<exists>e \<in> set (g_edges g). targets_at g n l e)"
  unfolding edge_targets_def targets_at_def set_map image_iff by metis

lemma edges_ok_append:
  assumes ok: "edges_ok g" and e: "resolve_existing g (ed_source e) = Some (s, sl)"
      "resolve_existing g (ed_target e) = Some (t, tc)"
    and nodes: "g_nodes h = g_nodes g" and edges: "g_edges h = g_edges g @ [e]"
    and free: "Some (t, tc) \<notin> set (edge_targets g)"
    and root: "is_cell g t \<Longrightarrow> tc \<noteq> [] \<Longrightarrow> Some (t, []) \<notin> set (edge_targets g)"
    and sub: "\<And>l. is_cell g t \<Longrightarrow> tc = [] \<Longrightarrow> Some (t, l) \<notin> set (edge_targets g)"
    and cyc: "(t, s) \<notin> (set (edge_pairs g))\<^sup>*"
  shows "edges_ok h"
proof -
  have targets: "edge_targets h = edge_targets g @ [Some (t, tc)]"
    by (simp add: edge_targets_def edges resolve_existing_same_nodes [OF nodes] e(2))
  have ends: "edge_ends h = edge_ends g"
    by (rule ext) (rule same_nodes [OF nodes])
  have pairs: "set (edge_pairs h) = insert (s, t) (set (edge_pairs g))"
    using e by (auto simp: edge_pairs_def map_filter_def ends edges edge_ends_def)
  have cell: "is_cell h = is_cell g" by (rule ext) (simp add: is_cell_def nodes)
  have "acyclic (set (edge_pairs h))"
    using ok cyc unfolding pairs edges_ok_def acyclic_insert by simp
  moreover have "\<forall>n l. Some (n, []) \<in> set (edge_targets h) \<longrightarrow> Some (n, l) \<in> set (edge_targets h)
            \<longrightarrow> is_cell h n \<longrightarrow> l = []"
    using ok root sub unfolding targets cell edges_ok_def by auto
  moreover have "None \<notin> edge_ends h ` set (g_edges h)"
    using ok e unfolding ends edges edges_ok_def by (auto simp: edge_ends_def)
  ultimately show ?thesis
    using ok free unfolding edges_ok_def targets by simp
qed

lemma link_edge_cases:
  assumes "link_edge base sm detach e g = (r, g')"
  obtains (refused) x where "r = Inl x" "g' = g"
  | (unnamed) x n l where "r = Inl x" "g_nodes g' = g_nodes g"
      "g_edges g' = g_edges (remove_edges_targeting g n l True)"
  | (linked) s sl t tc e' where "r = Inr ()" "resolve_existing g (ed_source e) = Some (s, sl)"
      "resolve_existing g (ed_target e) = Some (t, tc)" "\<not> root_conflict g t tc" "\<not> sm" "s \<noteq> t"
      "\<not> would_cycle g s t" "ed_source e' = ed_source e" "ed_target e' = ed_target e"
      "g_nodes g' = g_nodes g" "g_edges g' = g_edges (remove_edges_targeting g t tc True) @ [e']"
proof -
  consider (none) "resolve_existing g (ed_source e) = None \<or> resolve_existing g (ed_target e) = None"
    | (some) s sl t tc where "resolve_existing g (ed_source e) = Some (s, sl)"
        "resolve_existing g (ed_target e) = Some (t, tc)"
    by (metis option.exhaust surj_pair)
  then show ?thesis
  proof cases
    case none
    then show ?thesis
      using assms refused by (auto simp: link_edge_def split: option.splits)
  next
    case some
    define check where "check = (if detach then validate_write g t tc True else check_authority g t tc)"
    define bad where "bad \<longleftrightarrow> root_conflict g t tc \<or> sm \<or> s = t \<or> would_cycle g s t \<or> check \<noteq> None"
    define g1 where "g1 = remove_edges_targeting g t tc True"
    have g1: "g_nodes g1 = g_nodes g" by (simp add: g1_def remove_edges_targeting_def)
    show ?thesis
    proof (cases bad)
      case True
      then have "(\<exists>x. r = Inl x) \<and> g' = g"
        using assms [unfolded link_edge_def some option.case prod.case check_def [symmetric]]
        unfolding bad_def by (auto split: if_splits option.splits)
      then show ?thesis using refused by blast
    next
      case False
      obtain r1 g2 where reg: "register_edge_symbols base g1 e = (r1, g2)" by force
      note frame = register_edge_symbols_frame [OF reg]
      have link: "link_edge base sm detach e g =
          (case r1 of Inl x \<Rightarrow> (Inl x, g2) | Inr e' \<Rightarrow> (Inr (), g2\<lparr>g_edges := g_edges g2 @ [e']\<rparr>))"
        using False by (simp add: link_edge_def some bad_def check_def [symmetric] g1_def [symmetric] reg)
      show ?thesis
      proof (cases r1)
        case (Inl x)
        have "g' = g2" "r = Inl x" using assms link Inl by simp_all
        then show ?thesis using frame(1,2) g1 unnamed [of x t tc] by (simp add: g1_def)
      next
        case (Inr e')
        have out: "r = Inr ()" "g' = g2\<lparr>g_edges := g_edges g2 @ [e']\<rparr>"
          using assms link Inr by simp_all
        show ?thesis
          by (rule linked [of s sl t tc e'])
             (use out frame(1,2) frame(3) [OF Inr] g1 some False in \<open>simp_all add: bad_def g1_def\<close>)
      qed
    qed
  qed
qed

lemma link_edge_preserves:
  assumes ok: "edges_ok g" and link: "link_edge base sm detach e g = (r, g')"
  shows "edges_ok g'"
  using link
proof (cases rule: link_edge_cases)
  case refused
  then show ?thesis using ok by simp
next
  case (unnamed x n l)
  then show ?thesis
    by (intro edges_ok_filter [OF ok]) (auto simp: remove_edges_targeting_def)
next
  case (linked s sl t tc e')
  define g1 where "g1 = remove_edges_targeting g t tc True"
  have g1: "g_nodes g1 = g_nodes g" by (simp add: g1_def remove_edges_targeting_def)
  have ok1: "edges_ok g1"
    by (rule edges_ok_filter [OF ok g1]) (simp add: g1_def remove_edges_targeting_def)
  have in1: "Some (n, l) \<in> set (edge_targets g1) \<longleftrightarrow>
      Some (n, l) \<in> set (edge_targets g) \<and> \<not> (n = t \<and> take (length tc) l = tc)" for n l
  proof -
    have "targets_below g t tc True e \<longleftrightarrow> n = t \<and> take (length tc) l = tc" if "targets_at g n l e" for e
      using that by (simp add: targets_at_def targets_below_def)
    moreover have "set (g_edges g1) = {e \<in> set (g_edges g). \<not> targets_below g t tc True e}"
      by (simp add: g1_def remove_edges_targeting_def)
    ultimately show ?thesis
      unfolding targets_in_edge_targets same_nodes(3) [OF g1] by blast
  qed
  have keys: "l \<in> set (keys (incoming_for g t)) \<longleftrightarrow> Some (t, l) \<in> set (edge_targets g)" for l
    by (simp only: incoming_for_keys targets_in_edge_targets)
  show ?thesis
  proof (rule edges_ok_append [OF ok1, where e = e' and s = s and t = t and sl = sl and tc = tc])
    show "resolve_existing g1 (ed_source e') = Some (s, sl)" "resolve_existing g1 (ed_target e') = Some (t, tc)"
      using linked by (simp_all add: resolve_existing_same_nodes [OF g1])
    show "g_nodes g' = g_nodes g1" using linked g1 by simp
    show "g_edges g' = g_edges g1 @ [e']" using linked by (simp add: g1_def)
    show "Some (t, tc) \<notin> set (edge_targets g1)" by (simp add: in1)
    have cell: "is_cell g1 t = is_cell g t" by (simp add: is_cell_def g1)
    show "Some (t, []) \<notin> set (edge_targets g1)" if "is_cell g1 t" "tc \<noteq> []"
    proof
      assume "Some (t, []) \<in> set (edge_targets g1)"
      then have "[] \<in> set (keys (incoming_for g t))" unfolding in1 keys by blast
      then show False using that linked(4) unfolding cell root_conflict_def Let_def by simp
    qed
    show "Some (t, l) \<notin> set (edge_targets g1)" if "is_cell g1 t" "tc = []" for l
      using that by (simp add: in1)
    show "(t, s) \<notin> (set (edge_pairs g1))\<^sup>*"
    proof
      assume "(t, s) \<in> (set (edge_pairs g1))\<^sup>*"
      then have "(t, s) \<in> (set (edge_pairs g))\<^sup>*"
        using rtrancl_mono [OF remove_edges_pairs [of g t tc True]] unfolding g1_def by blast
      then show False using linked(7) by (simp add: would_cycle_iff)
    qed
  qed
qed

lemma assign_all_total: "\<exists>syms. assign_all base symbols rs = Some syms"
proof (induction rs arbitrary: symbols)
  case (Cons r rs)
  obtain s syms where "assign_symbol base symbols r = Some (s, syms)"
    using assign_symbol_total by blast
  with Cons show ?case by simp
qed simp

lemma register_edge_symbols_total:
  assumes "resolve_existing g (ed_source e) \<noteq> None"
  shows "\<exists>e' g'. register_edge_symbols base g e = (Inr e', g')"
proof (cases "ed_chain e = []")
  case True
  obtain n l where r: "resolve_existing g (ed_source e) = Some (n, l)"
    using assms by (metis option.exhaust surj_pair)
  define links where
    "links = anonymous_links (the (node_celltype g n)) l (edge_steps e (the (node_celltype g n)) l)"
  obtain rs syms where "assign_chain base (g_symbols g) (Src_node n) links = Some (rs, syms)"
    using assign_chain_total by blast
  with True r show ?thesis
    unfolding register_edge_symbols_def Let_def r option.case prod.case links_def [symmetric]
    by (cases "links = []") auto
next
  case False
  obtain syms where "assign_all base (g_symbols g) (ed_chain e) = Some syms"
    using assign_all_total by blast
  with False show ?thesis by (simp add: register_edge_symbols_def)
qed

lemma link_edge_refused:
  assumes "link_edge base sm detach e g = (Inl x, g')"
  shows "g' = g"
proof -
  have "g' = g" if "resolve_existing g (ed_source e) = Some (s, sl)" "resolve_existing g (ed_target e) = Some (t, tc)"
    for s sl t tc
  proof -
    have "g_nodes (remove_edges_targeting g t tc True) = g_nodes g"
      by (simp add: remove_edges_targeting_def)
    from resolve_existing_same_nodes [OF this]
    have "resolve_existing (remove_edges_targeting g t tc True) (ed_source e) \<noteq> None"
      using that(1) by simp
    from register_edge_symbols_total [OF this]
    obtain e' g2 where "register_edge_symbols base (remove_edges_targeting g t tc True) e = (Inr e', g2)"
      by blast
    with assms [unfolded link_edge_def that option.case prod.case] show ?thesis
      by (auto split: if_splits option.splits)
  qed
  then show ?thesis
    using assms by (auto simp: link_edge_def split: option.splits)
qed

section \<open>Properties\<close>

text \<open>The test for a dependency cycle is exact: it reports a cycle exactly when the source
  can already be reached from the target over existing edges.\<close>

theorem would_cycle_exact:
  "would_cycle g source target \<longleftrightarrow> (target, source) \<in> (set (edge_pairs g))\<^sup>*"
  by (rule would_cycle_iff)

text \<open>The downstream cone of a node holds exactly the nodes that depend on it over one edge
  or more, and the upstream cone exactly the other nodes it depends on.\<close>

theorem cones_exact:
  "set (downstream_cone g p) = {q. (p, q) \<in> (set (edge_pairs g))\<^sup>+}
   \<and> set (upstream_cone g p) = {q. (q, p) \<in> (set (edge_pairs g))\<^sup>+} - {p}"
  by (auto simp: downstream_cone_iff upstream_cone_iff)

text \<open>C24: Adding an edge keeps the invariant of the edge list, whatever the outcome: every edge
  resolves, no endpoint has two incoming edges, a cell with a root edge has no other incoming
  edge, and there is no dependency cycle.\<close>

theorem add_edge_keeps_invariant:
  assumes "edges_ok g"
  shows "edges_ok (snd (link_edge base sensing_mount detach e g))"
  by (rule link_edge_preserves [OF assms]) (rule prod.collapse [symmetric])

definition two_cells :: graph where
  "two_cells = empty_graph\<lparr>g_nodes := [([KStr ''a''], new_cell ''mixed''), ([KStr ''b''], new_cell ''mixed'')]\<rparr>"

definition plain_edge :: "path \<Rightarrow> path \<Rightarrow> edge" where
  "plain_edge source target =
     \<lparr>ed_source = source, ed_target = target, ed_source_celltype = None, ed_conversion = False,
      ed_conversion_before = False, ed_conversion_steps = [], ed_chain = [], ed_deep_member = False\<rparr>"

lemma two_cells_ok: "edges_ok two_cells"
  by (simp add: edges_ok_def edge_targets_def edge_pairs_def two_cells_def empty_graph_def
      map_filter_simps acyclic_def)

theorem add_edge_keeps_invariant_witness:
  "edges_ok (snd (link_edge (\<lambda>_. ''abcde'') False True (plain_edge [KStr ''a''] [KStr ''b'']) two_cells))
   \<and> length (g_edges (snd (link_edge (\<lambda>_. ''abcde'') False True
       (plain_edge [KStr ''a''] [KStr ''b'']) two_cells))) = 1"
proof
  show "edges_ok (snd (link_edge (\<lambda>_. ''abcde'') False True (plain_edge [KStr ''a''] [KStr ''b'']) two_cells))"
    by (rule add_edge_keeps_invariant [OF two_cells_ok])
  show "length (g_edges (snd (link_edge (\<lambda>_. ''abcde'') False True
       (plain_edge [KStr ''a''] [KStr ''b'']) two_cells))) = 1"
    by code_simp
qed

text \<open>C25: A refused edge leaves the graph as it was, and an accepted one is in the edge list, is
  the only edge at or below its target, and was refused by no sensing mount.\<close>

theorem add_edge_atomic:
  "case link_edge base sensing_mount detach e g of
     (Inl x, g') \<Rightarrow> g' = g
   | (Inr _, g') \<Rightarrow> \<not> sensing_mount \<and> g_nodes g' = g_nodes g \<and>
       (\<exists>t tc e'. resolve_existing g (ed_target e) = Some (t, tc) \<and> ed_target e' = ed_target e
          \<and> ed_source e' = ed_source e \<and> filter (targets_below g' t tc True) (g_edges g') = [e'])"
proof (cases "link_edge base sensing_mount detach e g")
  case (Pair r g')
  show ?thesis
  proof (cases r)
    case (Inl x)
    then have "g' = g" using Pair by (intro link_edge_refused [of base sensing_mount detach e g x]) simp
    then show ?thesis using Inl by (simp add: Pair)
  next
    case (Inr u)
    from Pair show ?thesis
    proof (cases rule: link_edge_cases)
      case (linked s sl t tc e')
      have "targets_below g' t tc True = targets_below g t tc True"
        by (rule ext) (rule same_nodes [OF linked(10)])
      moreover have "targets_below g t tc True e'"
        using linked(3,9) by (simp add: targets_below_def)
      ultimately have "filter (targets_below g' t tc True) (g_edges g') = [e']"
        by (simp add: linked(11) remove_edges_targeting_def filter_empty_conv)
      then show ?thesis
        unfolding Pair Inr prod.case sum.case using linked(3,5,8,9,10) by blast
    qed (use Inr in auto)
  qed
qed

end
