(* ===== verification/Context_State.thy ===== *)
theory Context_State
  imports Graph_Edges
begin

text \<open>
  The state of a Context, as \<open>Context.__init__\<close> builds it: the graph, the run ledger of
  \<^verbatim>\<open>scheduler.py\<close>, the mount sessions of \<^verbatim>\<open>attachments/session.py\<close>, the table of
  evaluated facts and running jobs, the reference claims, and the effects that a turn leaves
  for its end. The functions of the imported package \<^verbatim>\<open>seamless\<close> that the code calls are
  the fields of \<open>ext\<close>.

  A claim on a checksum is counted in \<open>cx_refs\<close>: acquiring adds one, unless it raises,
  and releasing takes one off.
  A lease that is acquired and released by the same operation leaves no trace there.
\<close>

section \<open>The imported package\<close>

record ext =
  x_shape :: shape_check
    \<comment> \<open>\<open>validate_expression_shape\<close>: the error it raises\<close>
  x_expression :: "path \<Rightarrow> celltype \<Rightarrow> celltype \<Rightarrow> string option \<Rightarrow> string option \<Rightarrow> exc option"
    \<comment> \<open>the constructor \<open>Expression\<close>: the error it raises\<close>
  x_preserving :: "celltype \<Rightarrow> celltype \<Rightarrow> bool"
    \<comment> \<open>\<open>conversion_trivial | conversion_reinterpret\<close>\<close>
  x_canonical :: "checksum \<Rightarrow> celltype option \<Rightarrow> checksum"
    \<comment> \<open>\<open>canonicalize_checksum\<close>\<close>
  x_null :: checksum
    \<comment> \<open>\<open>NULL_CHECKSUM\<close>; \<open>is_null\<close> compares with it\<close>
  x_pin_null :: "checksum \<Rightarrow> celltype \<Rightarrow> exc option"
    \<comment> \<open>\<open>validate_pin_null\<close> for a required pin\<close>
  x_celljoin :: "celltype \<Rightarrow> checksum option \<Rightarrow> (comp \<times> checksum option) list \<Rightarrow> exc + checksum"
    \<comment> \<open>\<open>CellJoin.from_inputs\<close>: the identity checksum of the join\<close>
  x_compiled :: "transformer_config \<Rightarrow> exc option"
    \<comment> \<open>\<open>validate_stage1\<close> of a compiled transformer\<close>
  x_compiled_pin :: "transformer_config \<Rightarrow> string \<Rightarrow> celltype \<Rightarrow> checksum \<Rightarrow> (exc \<times> bool) option"
    \<comment> \<open>\<open>validate_pin\<close>; the flag tells a \<open>CompiledMixedValueError\<close>\<close>
  x_resolvable :: "checksum \<Rightarrow> bool"
    \<comment> \<open>whether \<open>Checksum.resolve\<close> finds the buffer\<close>
  x_symbol_base :: "recipe \<Rightarrow> string"
  x_acquire :: "checksum \<Rightarrow> bool \<Rightarrow> exc option"
    \<comment> \<open>\<open>incref_refholder(scratch=...)\<close>: the error it raises\<close>
  x_compute_root :: "string \<Rightarrow> exc + checksum"
    \<comment> \<open>\<open>Expression.compute\<close> of a root expression\<close>
  x_value_checksum :: "py_value \<Rightarrow> celltype \<Rightarrow> exc + checksum"
    \<comment> \<open>the checksum of a \<open>Buffer\<close> of the value\<close>
  x_file_celltypes :: "celltype list"
  x_directory_celltypes :: "celltype list"
    \<comment> \<open>the celltypes a file and a directory can hold\<close>
  x_expression_claims :: "string \<Rightarrow> checksum list"
    \<comment> \<open>\<open>Expression._refheld_checksums\<close> of a root expression\<close>
  x_no_checksum :: exc
    \<comment> \<open>the error of \<open>Checksum(None)\<close>\<close>

text \<open>
  A concrete package, for the examples: every Expression is legal, only \<open>text\<close> and \<open>str\<close>
  share their checksums, every buffer is at hand and every acquisition succeeds.
\<close>

definition plain_ext :: ext where
  "plain_ext =
     \<lparr>x_shape = (\<lambda>_ _ _. None), x_expression = (\<lambda>_ _ _ _ _. None),
      x_preserving = (\<lambda>a b. a = ''text'' \<and> b = ''str''), x_canonical = (\<lambda>c _. c), x_null = ''00'',
      x_pin_null = (\<lambda>c _. if c = ''00'' then Some Type_Error else None),
      x_celljoin = (\<lambda>ct root members. Inr (''join'' @ concat (map (\<lambda>(_, m). case m of None \<Rightarrow> [] | Some c \<Rightarrow> c) members))),
      x_compiled = (\<lambda>_. None), x_compiled_pin = (\<lambda>_ _ _ _. None), x_resolvable = (\<lambda>_. True),
      x_symbol_base = (\<lambda>_. ''abcde''), x_acquire = (\<lambda>_ _. None),
      x_compute_root = (\<lambda>c. Inr c), x_value_checksum = (\<lambda>_ _. Inr ''vv''),
      x_file_celltypes = [''text'', ''mixed''], x_directory_celltypes = [''deepfolder''],
      x_expression_claims = (\<lambda>_. []), x_no_checksum = Value_Error\<rparr>"

section \<open>Runs\<close>

datatype run_phase = P_running | P_superseded | P_cancelled | P_completed
datatype hold_kind = Self_edit | Upstream

type_synonym demand_key = "checksum \<times> (string \<times> checksum) list \<times> string"

record run_record =
  rr_path :: path
  rr_et :: bool
  rr_identity :: "checksum option"
  rr_result :: "checksum option"
  rr_exception :: "error option"
  rr_phase :: run_phase
  rr_generation :: nat
  rr_hold_deadline :: "real option"
  rr_hold_kind :: "hold_kind option"
  rr_demand_key :: "demand_key option"
  rr_error :: "error option"
  rr_dispatch_scratch :: "bool option"

record scheduler =
  sc_superseded_cap :: nat
  sc_self_edit_hold :: real
  sc_upstream_hold :: real

record runtime =
  rt_scheduler :: scheduler
  rt_current :: "(path \<times> run_record) list"
  rt_superseded :: "(path \<times> run_record list) list"
  rt_generation :: nat
  rt_evicted :: "run_record list"

definition init_runtime :: "nat \<Rightarrow> runtime" where
  "init_runtime g =
     \<lparr>rt_scheduler = \<lparr>sc_superseded_cap = 3, sc_self_edit_hold = 30, sc_upstream_hold = 300\<rparr>,
      rt_current = [], rt_superseded = [], rt_generation = g, rt_evicted = []\<rparr>"

section \<open>Mount sessions\<close>

record delivery =
  dl_seq :: nat
  dl_checksum :: checksum
  dl_celltype :: celltype
  dl_fingerprint :: "string option"
  dl_force :: bool

datatype ack_outcome = Ack_written | Ack_error | Ack_conflict

record delivery_ack =
  ak_session :: string
  ak_seq :: nat
  ak_ws :: int
  ak_outcome :: ack_outcome
  ak_checksum :: checksum
  ak_fingerprint :: "string option"

record observation =
  ob_session :: string
  ob_ws :: int
  ob_fingerprint :: "string option"
  ob_checksum :: checksum
  ob_leases :: "checksum list"
  ob_no_value :: bool
  ob_canonical_write :: bool

datatype session_state = S_active | S_tripped | S_closing

record session =
  ms_id :: string
  ms_path :: path
  ms_spec :: spec
  ms_directory :: bool
  ms_celltype :: celltype
  ms_disk :: checksum
  ms_fingerprint :: "string option"
  ms_processed_ws :: int
  ms_last_synced :: "checksum option"
  ms_written_pair :: "(checksum \<times> checksum) option"
  ms_pending :: "delivery option"
  ms_in_flight :: "delivery option"
  ms_delivery_seq :: nat
  ms_reasserts :: "real list"
  ms_sense_error :: "error option"
  ms_error :: "error option"
  ms_state :: session_state
  ms_initial_done :: bool
  ms_retry_at :: real
  ms_retry_delay :: real
  ms_last_delivery_at :: real
  ms_active :: bool

section \<open>Facts, jobs and effects\<close>

datatype job_key =
    Expression_job checksum path celltype celltype "string option" "string option" bool bool
  | Celljoin_job checksum celltype bool

datatype effect =
    E_launch_job job_key
  | E_cancel_job job_key
  | E_launch_run path nat checksum "(string \<times> checksum) list" bool
  | E_cancel_run nat
  | E_expiry path nat real
  | E_finished path nat "checksum option" "checksum option" "error option"
  | E_deliver string delivery
  | E_activate string
  | E_request_cut string nat
  | E_poll string

record sync_predicate =
  sy_cut :: nat
  sy_waiting :: "string list option"
  sy_activity :: int

datatype mount_event =
    Ev_attach string initial_action
  | Ev_observation string classification int
  | Ev_reassert string bool
  | Ev_request string checksum nat
  | Ev_dispatch string nat
  | Ev_ack string ack_outcome nat

section \<open>The Context\<close>

record ctx =
  cx_top_id :: string
  cx_closing :: bool
  cx_graph :: graph
  cx_runtime :: runtime
  cx_refs :: "checksum \<Rightarrow> int"
  cx_refholds_released :: bool
  cx_code_refholds :: "(path \<times> checksum) list"
  cx_module_refholds :: "((path \<times> string) \<times> checksum \<times> bool) list"
  cx_superseded_refholds :: "(nat \<times> checksum \<times> bool) list"
  cx_anonymous_refholds :: "(string \<times> checksum \<times> bool) list"
  cx_edge_pin_refholds :: "((path \<times> string) \<times> checksum \<times> bool) list"
  cx_edge_code_states :: "(path \<times> checksum) list"
  cx_anonymous_updates :: "(string \<times> checksum \<times> bool) list"
  cx_jobs :: "(job_key \<times> bool) list"
  cx_facts :: "(job_key \<times> checksum option \<times> error option) list"
  cx_used_facts :: "job_key list"
  cx_celljoins :: "(path \<times> (celltype \<times> checksum option \<times> (comp \<times> checksum option) list) \<times> checksum) list"
  cx_used_celljoins :: "path list"
  cx_effects :: "effect list"
  cx_done :: "effect list"
  cx_edge_errors :: "(path \<times> error) list"
  cx_sessions :: "((path \<times> string) \<times> session) list"
  cx_node_leaves :: "(path \<times> checksum list) list"
  cx_mount_activity :: int
  cx_mount_cut_seq :: nat
  cx_mount_events :: "mount_event list"
  cx_sync :: "(nat \<times> sync_predicate) list"
  cx_revisions :: "(path \<times> nat) list"
  cx_failure :: "exc option"
  cx_error_seq :: nat

definition init_ctx :: "string \<Rightarrow> ctx" where
  "init_ctx top_id =
     \<lparr>cx_top_id = top_id, cx_closing = False, cx_graph = empty_graph, cx_runtime = init_runtime 0,
      cx_refs = (\<lambda>_. 0), cx_refholds_released = False, cx_code_refholds = [],
      cx_module_refholds = [], cx_superseded_refholds = [], cx_anonymous_refholds = [],
      cx_edge_pin_refholds = [], cx_edge_code_states = [], cx_anonymous_updates = [],
      cx_jobs = [], cx_facts = [], cx_used_facts = [], cx_celljoins = [], cx_used_celljoins = [],
      cx_effects = [], cx_done = [], cx_edge_errors = [], cx_sessions = [], cx_node_leaves = [],
      cx_mount_activity = 0, cx_mount_cut_seq = 0, cx_mount_events = [], cx_sync = [],
      cx_revisions = [], cx_failure = None, cx_error_seq = 0\<rparr>"

section \<open>Small steps on the state\<close>

definition get_node :: "ctx \<Rightarrow> path \<Rightarrow> node option" where
  "get_node s p = map_of (g_nodes (cx_graph s)) p"

definition put_node :: "path \<Rightarrow> node \<Rightarrow> ctx \<Rightarrow> ctx" where
  "put_node p nd s = s\<lparr>cx_graph := (cx_graph s)\<lparr>g_nodes := AList.update p nd (g_nodes (cx_graph s))\<rparr>\<rparr>"

definition upd_node :: "path \<Rightarrow> (node \<Rightarrow> node) \<Rightarrow> ctx \<Rightarrow> ctx" where
  "upd_node p f s = (case get_node s p of None \<Rightarrow> s | Some nd \<Rightarrow> put_node p (f nd) s)"

definition incref :: "checksum \<Rightarrow> ctx \<Rightarrow> ctx" where
  "incref c s = s\<lparr>cx_refs := (cx_refs s)(c := cx_refs s c + 1)\<rparr>"

definition decref :: "checksum \<Rightarrow> ctx \<Rightarrow> ctx" where
  "decref c s = s\<lparr>cx_refs := (cx_refs s)(c := cx_refs s c - 1)\<rparr>"

definition add_effect :: "effect \<Rightarrow> ctx \<Rightarrow> ctx" where
  "add_effect e s = s\<lparr>cx_effects := cx_effects s @ [e]\<rparr>"

definition set_edges :: "edge list \<Rightarrow> ctx \<Rightarrow> ctx" where
  "set_edges es s = s\<lparr>cx_graph := (cx_graph s)\<lparr>g_edges := es\<rparr>\<rparr>"

definition fresh_error :: "exc \<Rightarrow> ctx \<Rightarrow> error \<times> ctx" where
  "fresh_error e s = ((e, cx_error_seq s), s\<lparr>cx_error_seq := Suc (cx_error_seq s)\<rparr>)"

section \<open>The sessions of a state\<close>

text \<open>
  The delivery in flight is older than the pending one and both are numbered up to the last
  request; the retry delay stays between one second and sixty.
\<close>

definition session_ok :: "session \<Rightarrow> bool" where
  "session_ok m \<longleftrightarrow>
     (\<forall>d. ms_pending m = Some d \<longrightarrow> dl_seq d \<le> ms_delivery_seq m)
     \<and> (\<forall>d. ms_in_flight m = Some d \<longrightarrow> dl_seq d \<le> ms_delivery_seq m)
     \<and> (\<forall>d f. ms_pending m = Some d \<longrightarrow> ms_in_flight m = Some f \<longrightarrow> dl_seq f < dl_seq d)
     \<and> 1 \<le> ms_retry_delay m \<and> ms_retry_delay m \<le> 60"

definition sessions_ok :: "ctx \<Rightarrow> bool" where
  "sessions_ok s \<longleftrightarrow> (\<forall>m \<in> snd ` set (cx_sessions s). session_ok m)"

lemma get_put_node [simp]: "get_node (put_node p nd s) q = (if q = p then Some nd else get_node s q)"
  by (simp add: get_node_def put_node_def)

lemma get_node_cong [simp]:
  "get_node (incref c s) = get_node s" "get_node (decref c s) = get_node s"
  "get_node (add_effect e s) = get_node s" "get_node (set_edges es s) = get_node s"
  by (auto simp: get_node_def incref_def decref_def add_effect_def set_edges_def intro!: ext)

end
