(* ===== verification/Refholds.thy ===== *)
theory Refholds
  imports Context_State
begin

text \<open>
  The claims the Context holds on checksums: the operations that take and drop them, and the
  four tables that are brought in line with the graph at the end of a derivation
  (\<open>_sync_module_refholds\<close>, \<open>_sync_edge_pin_refholds\<close>,
  \<open>_sync_anonymous_current_refholds\<close>, \<open>_sync_superseded_refholds\<close>).

  The ledger of a state is, for each checksum, the number of claims acquired and not released
  less the number of claims that the state records. No operation changes it, whether it raises
  or not.
\<close>

section \<open>Taking and dropping claims\<close>

definition acquire :: "ext \<Rightarrow> checksum \<Rightarrow> bool \<Rightarrow> (ctx, unit) oper" where
  "acquire X c scratch s = (case x_acquire X c scratch of Some e \<Rightarrow> (Inl e, s) | None \<Rightarrow> (Inr (), incref c s))"

definition release :: "checksum \<Rightarrow> ctx \<Rightarrow> ctx" where
  "release c s = decref c s"

definition node_scratch :: "node \<Rightarrow> bool" where
  "node_scratch nd =
     (case nd_kind nd of
        Cell_kind \<Rightarrow> (case nd_cell_config nd of Some c \<Rightarrow> cc_scratch c | None \<Rightarrow> False)
      | Transformer_kind \<Rightarrow> (case nd_transformer_config nd of Some c \<Rightarrow> tc_scratch c | None \<Rightarrow> False))"

definition edge_target_scratch :: "node \<Rightarrow> path \<Rightarrow> bool" where
  "edge_target_scratch target target_local =
     (case nd_kind target of
        Cell_kind \<Rightarrow> (case nd_cell_config target of Some c \<Rightarrow> cc_scratch c | None \<Rightarrow> False)
      | Transformer_kind \<Rightarrow>
          (case nd_transformer_config target of
             Some c \<Rightarrow> (case map_of (tc_meta c) ''allow_input_fingertip'' of
                            Some v \<Rightarrow> truthy v | None \<Rightarrow> False)
           | None \<Rightarrow> False))"

definition retain_producer ::
  "ext \<Rightarrow> checksum \<Rightarrow> celltype \<Rightarrow> bool \<Rightarrow> (ctx, constant_producer) oper" where
  "retain_producer X checksum celltype scratch =
     (let c = x_canonical X checksum (Some celltype) in
      bnd (acquire X c scratch) (\<lambda>_.
      ret \<lparr>cp_checksum = c, cp_celltype = celltype\<rparr>))"

definition release_producer :: "constant_producer \<Rightarrow> ctx \<Rightarrow> ctx" where
  "release_producer p = release (cp_checksum p)"

definition release_optional :: "constant_producer option \<Rightarrow> ctx \<Rightarrow> ctx" where
  "release_optional p = (case p of None \<Rightarrow> id | Some q \<Rightarrow> release_producer q)"

definition replace_current_checksum :: "ext \<Rightarrow> path \<Rightarrow> checksum option \<Rightarrow> (ctx, unit) oper" where
  "replace_current_checksum X node_path checksum s =
     (case get_node s node_path of
        None \<Rightarrow> (Inl Key_Error, s)
      | Some nd \<Rightarrow>
          (let new_checksum = map_option (\<lambda>c. x_canonical X c (Some (config_celltype nd))) checksum;
               old_checksum = nd_current nd
           in bnd (case new_checksum of None \<Rightarrow> ret () | Some c \<Rightarrow> acquire X c (node_scratch nd)) (\<lambda>_.
              modify (\<lambda>s. (case old_checksum of None \<Rightarrow> id | Some c \<Rightarrow> release c)
                (put_node node_path (nd\<lparr>nd_current := new_checksum\<rparr>) s))) s))"

definition replace_code_checksum :: "ext \<Rightarrow> path \<Rightarrow> checksum option \<Rightarrow> (ctx, unit) oper" where
  "replace_code_checksum X p checksum s =
     (let old = map_of (cx_code_refholds s) p in
      bnd (case checksum of
             None \<Rightarrow> modify (\<lambda>s. s\<lparr>cx_code_refholds := AList.delete p (cx_code_refholds s)\<rparr>)
           | Some new \<Rightarrow> bnd (acquire X new False) (\<lambda>_.
               modify (\<lambda>s. s\<lparr>cx_code_refholds := AList.update p new (cx_code_refholds s)\<rparr>))) (\<lambda>_.
      modify (case old of None \<Rightarrow> id | Some c \<Rightarrow> release c)) s)"

definition release_code_checksum :: "path \<Rightarrow> ctx \<Rightarrow> ctx" where
  "release_code_checksum p s =
     (case map_of (cx_code_refholds s) p of
        None \<Rightarrow> s
      | Some c \<Rightarrow> release c (s\<lparr>cx_code_refholds := AList.delete p (cx_code_refholds s)\<rparr>))"

section \<open>Tables of claims\<close>

type_synonym 'k claims = "('k \<times> checksum \<times> bool) list"

fun release_all :: "checksum list \<Rightarrow> ctx \<Rightarrow> ctx" where
  "release_all [] s = s"
| "release_all (c # cs) s = release_all cs (release c s)"

text \<open>
  The loop that takes the claims that are new or changed; \<open>acquired\<close> is in reverse order, the
  order in which a failure releases.
\<close>

fun acquire_changed ::
  "ext \<Rightarrow> 'k claims \<Rightarrow> 'k claims \<Rightarrow> checksum list \<Rightarrow> (ctx, unit) oper" where
  "acquire_changed X old [] acquired s = (Inr (), s)"
| "acquire_changed X old ((role, checksum, scratch) # active) acquired s =
     (if map_of old role = Some (checksum, scratch) then acquire_changed X old active acquired s
      else case acquire X checksum scratch s of
        (Inl e, s') \<Rightarrow> (Inl e, release_all acquired s')
      | (Inr _, s') \<Rightarrow> acquire_changed X old active (checksum # acquired) s')"

fun release_stale :: "'k claims \<Rightarrow> 'k claims \<Rightarrow> ctx \<Rightarrow> ctx" where
  "release_stale active [] s = s"
| "release_stale active ((role, checksum, scratch) # old) s =
     release_stale active old
       (if map_of active role \<noteq> Some (checksum, scratch) then release checksum s else s)"

definition modules_of :: "path \<Rightarrow> node \<Rightarrow> ((path \<times> string) \<times> checksum \<times> bool) list" where
  "modules_of p nd =
     (case (nd_kind nd, nd_transformer_config nd) of
        (Transformer_kind, Some c) \<Rightarrow>
          List.map_filter (\<lambda>(name, m). case m of
             Module_checksum checksum \<Rightarrow> Some ((p, name), checksum, False)
           | Module_other _ \<Rightarrow> None) (tc_modules c)
      | _ \<Rightarrow> [])"

definition wanted_modules :: "ctx \<Rightarrow> (path \<times> string) claims" where
  "wanted_modules s = dict_of (concat (map (\<lambda>(p, nd). modules_of p nd) (g_nodes (cx_graph s))))"

definition sync_module_refholds :: "ext \<Rightarrow> (ctx, unit) oper" where
  "sync_module_refholds X s =
     (let active = wanted_modules s; old = cx_module_refholds s in
      bnd (acquire_changed X old active []) (\<lambda>_.
      modify (\<lambda>s. release_stale active old (s\<lparr>cx_module_refholds := active\<rparr>))) s)"

definition pins_of :: "ctx \<Rightarrow> path \<Rightarrow> node \<Rightarrow> ((path \<times> string) \<times> checksum \<times> bool) list" where
  "pins_of s p nd =
     (case nd_kind nd of
        Cell_kind \<Rightarrow> []
      | Transformer_kind \<Rightarrow>
          List.map_filter (\<lambda>(pin, state, checksum, _).
             case checksum of
               None \<Rightarrow> None
             | Some c \<Rightarrow> if state = Complete \<and> incoming_edge (cx_graph s) p [KStr pin] \<noteq> None
                         then Some ((p, pin), c, edge_target_scratch nd [KStr pin]) else None)
            (nd_pin_states nd)
          @ (case map_of (cx_edge_code_states s) p of
               None \<Rightarrow> []
             | Some c \<Rightarrow> [((p, ''code''), c, edge_target_scratch nd [KStr ''code''])]))"

definition wanted_edge_pins :: "ctx \<Rightarrow> (path \<times> string) claims" where
  "wanted_edge_pins s =
     dict_of (concat (map (\<lambda>(p, nd). pins_of s p nd) (g_nodes (cx_graph s))))"

definition sync_edge_pin_refholds :: "ext \<Rightarrow> (ctx, unit) oper" where
  "sync_edge_pin_refholds X s =
     (let wanted = wanted_edge_pins s; old = cx_edge_pin_refholds s in
      bnd (acquire_changed X old wanted []) (\<lambda>_.
      modify (\<lambda>s. (release_stale wanted old s)\<lparr>cx_edge_pin_refholds := wanted\<rparr>)) s)"

definition sync_anonymous_current_refholds :: "ext \<Rightarrow> (ctx, unit) oper" where
  "sync_anonymous_current_refholds X s =
     (let active = cx_anonymous_updates s; old = cx_anonymous_refholds s in
      bnd (acquire_changed X old active []) (\<lambda>_.
      modify (\<lambda>s. (release_stale active old s)\<lparr>cx_anonymous_refholds := active\<rparr>)) s)"

text \<open>
  The claims of superseded runs are keyed by the record, which its generation identifies. Here
  the claims that are no longer wanted go first, and each new claim is recorded as it is taken.
\<close>

definition superseded_of :: "ctx \<Rightarrow> path \<Rightarrow> run_record \<Rightarrow> (nat \<times> checksum \<times> bool) option" where
  "superseded_of s p r =
     (case rr_result r of
        None \<Rightarrow> None
      | Some c \<Rightarrow>
          if rr_phase r = P_cancelled then None
          else Some (rr_generation r, c, case get_node s p of Some nd \<Rightarrow> node_scratch nd | None \<Rightarrow> False))"

definition wanted_superseded :: "ctx \<Rightarrow> nat claims" where
  "wanted_superseded s =
     dict_of (concat (map (\<lambda>(p, rs). List.map_filter (superseded_of s p) rs) (rt_superseded (cx_runtime s))))"

fun drop_superseded :: "nat list \<Rightarrow> nat claims \<Rightarrow> ctx \<Rightarrow> ctx" where
  "drop_superseded active [] s = s"
| "drop_superseded active ((k, checksum, scratch) # old) s =
     drop_superseded active old
       (if List.member active k then s
        else (release checksum s)\<lparr>cx_superseded_refholds := AList.delete k (cx_superseded_refholds s)\<rparr>)"

fun take_superseded :: "ext \<Rightarrow> nat claims \<Rightarrow> (ctx, unit) oper" where
  "take_superseded X [] s = (Inr (), s)"
| "take_superseded X ((k, checksum, scratch) # active) s =
     (if map_of (cx_superseded_refholds s) k \<noteq> None then take_superseded X active s
      else case acquire X checksum scratch s of
        (Inl e, s') \<Rightarrow> (Inl e, s')
      | (Inr _, s') \<Rightarrow> take_superseded X active
          (s'\<lparr>cx_superseded_refholds := AList.update k (checksum, scratch) (cx_superseded_refholds s')\<rparr>))"

definition sync_superseded_refholds :: "ext \<Rightarrow> (ctx, unit) oper" where
  "sync_superseded_refholds X s =
     (let active = wanted_superseded s in
      take_superseded X active (drop_superseded (keys active) (cx_superseded_refholds s) s))"

section \<open>Counting claims in dictionaries\<close>

lemma count_list_append [simp]: "count_list (xs @ ys) c = count_list xs c + count_list ys c"
  by (induction xs) auto

text \<open>The claims of a dictionary's values, when one value is stored or dropped.\<close>

definition value_count :: "('v \<Rightarrow> checksum list) \<Rightarrow> ('k \<times> 'v) list \<Rightarrow> checksum \<Rightarrow> int" where
  "value_count f d c = int (count_list (concat (map (f \<circ> snd) d)) c)"

lemma value_count_update:
  assumes "wf_dict d"
  shows "value_count f (AList.update k v d) c =
    value_count f d c + int (count_list (f v) c)
    - (case map_of d k of None \<Rightarrow> 0 | Some old \<Rightarrow> int (count_list (f old) c))"
  using assms
proof (induction d)
  case (Cons kv d)
  obtain k' v' where kv: "kv = (k', v')" by force
  with Cons show ?case
    by (auto simp: value_count_def wf_dict_def)
qed (simp add: value_count_def)

lemma value_count_delete:
  assumes "wf_dict d"
  shows "value_count f (AList.delete k d) c =
    value_count f d c - (case map_of d k of None \<Rightarrow> 0 | Some old \<Rightarrow> int (count_list (f old) c))"
  using assms
proof (induction d)
  case (Cons kv d)
  obtain k' v' where kv: "kv = (k', v')" by force
  have "k \<notin> fst ` set d \<Longrightarrow> AList.delete k d = d"
    by (induction d) auto
  with kv Cons show ?case
    by (auto simp: value_count_def wf_dict_def)
qed (simp add: value_count_def)

section \<open>The ledger\<close>

text \<open>The claims that a state records, and the ledger.\<close>

definition node_claims :: "node \<Rightarrow> checksum list" where
  "node_claims nd =
     (case nd_root_producer nd of None \<Rightarrow> [] | Some p \<Rightarrow> [cp_checksum p])
     @ map (cp_checksum \<circ> snd) (nd_pin_producers nd)
     @ (case nd_current nd of None \<Rightarrow> [] | Some c \<Rightarrow> [c])"

definition fact_claims :: "checksum option \<times> error option \<Rightarrow> checksum list" where
  "fact_claims f = (case fst f of None \<Rightarrow> [] | Some c \<Rightarrow> [c])"

definition claim_of :: "checksum \<times> bool \<Rightarrow> checksum list" where
  "claim_of r = [fst r]"

definition session_claims :: "session \<Rightarrow> checksum list" where
  "session_claims m =
     (case ms_pending m of None \<Rightarrow> [] | Some d \<Rightarrow> [dl_checksum d])
     @ (case ms_in_flight m of None \<Rightarrow> [] | Some d \<Rightarrow> [dl_checksum d])"

definition held_count :: "ctx \<Rightarrow> checksum \<Rightarrow> int" where
  "held_count s c =
     value_count node_claims (g_nodes (cx_graph s)) c
     + value_count (\<lambda>c. [c]) (cx_code_refholds s) c
     + value_count fact_claims (cx_facts s) c
     + value_count claim_of (cx_module_refholds s) c
     + value_count claim_of (cx_edge_pin_refholds s) c
     + value_count claim_of (cx_anonymous_refholds s) c
     + value_count claim_of (cx_superseded_refholds s) c
     + value_count session_claims (cx_sessions s) c
     + value_count (\<lambda>cs. cs) (cx_node_leaves s) c"

definition ledger :: "ctx \<Rightarrow> checksum \<Rightarrow> int" where
  "ledger s c = cx_refs s c - held_count s c"

text \<open>The dictionaries of the state have distinct keys.\<close>

definition wf_ctx :: "ctx \<Rightarrow> bool" where
  "wf_ctx s \<longleftrightarrow>
     wf_dict (g_nodes (cx_graph s)) \<and> (\<forall>nd \<in> snd ` set (g_nodes (cx_graph s)). wf_dict (nd_pin_producers nd))
     \<and> wf_dict (cx_code_refholds s) \<and> wf_dict (cx_facts s)
     \<and> wf_dict (cx_module_refholds s) \<and> wf_dict (cx_edge_pin_refholds s)
     \<and> wf_dict (cx_anonymous_refholds s) \<and> wf_dict (cx_anonymous_updates s)
     \<and> wf_dict (cx_superseded_refholds s)
     \<and> wf_dict (cx_sessions s) \<and> wf_dict (cx_node_leaves s)"

text \<open>An operation keeps the books: the dictionaries stay well formed and the ledger unchanged.\<close>

definition same_books :: "ctx \<Rightarrow> ctx \<Rightarrow> bool" where
  "same_books s s' \<longleftrightarrow> (wf_ctx s \<longrightarrow> wf_ctx s' \<and> ledger s' = ledger s)"

definition balanced :: "(ctx, 'a) oper \<Rightarrow> bool" where
  "balanced m \<longleftrightarrow> (\<forall>s. same_books s (snd (m s)))"

named_theorems books_intros \<open>operations and steps that keep the books\<close>

lemma same_books_refl [simp, books_intros]: "same_books s s"
  by (simp add: same_books_def)

lemma same_books_trans: "same_books a b \<Longrightarrow> same_books b c \<Longrightarrow> same_books a c"
  by (simp add: same_books_def)

interpretation books: step_relation same_books
  by standard (blast intro: same_books_refl same_books_trans)+

lemma balanced_ret [books_intros]: "balanced (ret x)"
  by (simp add: balanced_def)

lemma balanced_raise [books_intros]: "balanced (raise e)"
  by (simp add: balanced_def)

lemma balanced_bnd [books_intros]:
  assumes "balanced m" and "\<And>x. balanced (f x)"
  shows "balanced (bnd m f)"
  using assms unfolding balanced_def by (intro allI books.bnd_keeps) blast+

lemma balanced_modify [books_intros]: "(\<And>s. same_books s (f s)) \<Longrightarrow> balanced (modify f)"
  by (simp add: balanced_def)

lemma balanced_apply: "balanced m \<Longrightarrow> same_books s (snd (m s))"
  by (simp add: balanced_def)

lemma same_books_ledger: "same_books s s' \<Longrightarrow> wf_ctx s \<Longrightarrow> ledger s' = ledger s"
  by (simp add: same_books_def)

lemma balanced_run: "balanced m \<Longrightarrow> m s = (r, s') \<Longrightarrow> same_books s s'"
  by (metis balanced_def snd_conv)

section \<open>Bringing a table in line\<close>

lemma value_count_set:
  assumes "wf_dict d"
  shows "value_count f d c = (\<Sum>kv \<in> set d. int (count_list (f (snd kv)) c))"
proof -
  have "value_count f d c = sum_list (map (\<lambda>kv. int (count_list (f (snd kv)) c)) d)"
    by (induction d) (simp_all add: value_count_def)
  moreover have "distinct d" using assms by (simp add: wf_dict_def distinct_map)
  ultimately show ?thesis by (simp add: sum_list_distinct_conv_sum_set)
qed

definition changed :: "'k claims \<Rightarrow> 'k claims \<Rightarrow> 'k claims" where
  "changed old active = filter (\<lambda>kv. map_of old (fst kv) \<noteq> Some (snd kv)) active"

lemma wf_changed: "wf_dict active \<Longrightarrow> wf_dict (changed old active)"
  by (simp add: wf_dict_def changed_def distinct_map_filter)

lemma set_changed: "wf_dict old \<Longrightarrow> set (changed old active) = set active - set old"
  by (auto simp: changed_def wf_dict_def)

lemma changed_balance:
  assumes "wf_dict old" and "wf_dict active"
  shows "value_count claim_of (changed old active) c - value_count claim_of (changed active old) c =
    value_count claim_of active c - value_count claim_of old c"
proof -
  let ?g = "\<lambda>kv. int (count_list (claim_of (snd kv)) c)"
  have "sum ?g (set active) = sum ?g (set active \<inter> set old) + sum ?g (set active - set old)"
    by (rule sum.Int_Diff) simp
  moreover have "sum ?g (set old) = sum ?g (set old \<inter> set active) + sum ?g (set old - set active)"
    by (rule sum.Int_Diff) simp
  ultimately show ?thesis
    using assms by (simp add: value_count_set wf_changed set_changed Int_commute)
qed

lemma refs_cong: "(\<And>d. f d = g d) \<Longrightarrow> s\<lparr>cx_refs := f\<rparr> = s\<lparr>cx_refs := g\<rparr>"
  by (metis ext)

lemma incref_refs: "incref c s = s\<lparr>cx_refs := \<lambda>d. cx_refs s d + int (count_list [c] d)\<rparr>"
  unfolding incref_def by (rule refs_cong) simp

lemma release_refs: "release c s = s\<lparr>cx_refs := \<lambda>d. cx_refs s d - int (count_list [c] d)\<rparr>"
  unfolding release_def decref_def by (rule refs_cong) simp

lemma release_all_refs: "release_all cs s = s\<lparr>cx_refs := \<lambda>d. cx_refs s d - int (count_list cs d)\<rparr>"
proof (induction cs arbitrary: s)
  case (Cons c cs)
  show ?case
    unfolding release_all.simps Cons release_refs by (simp, rule refs_cong) simp
qed simp

lemma acquire_cases:
  "acquire X c scratch s = (Inr (), incref c s) \<and> x_acquire X c scratch = None
   \<or> (\<exists>e. acquire X c scratch s = (Inl e, s) \<and> x_acquire X c scratch = Some e)"
  by (simp add: acquire_def split: option.splits)

text \<open>
  The loop acquires the changed claims, or fails and gives back what it acquired.
\<close>

lemma acquire_changed_refs:
  "acquire_changed X old active acquired s =
   (case find (\<lambda>kv. x_acquire X (fst (snd kv)) (snd (snd kv)) \<noteq> None) (changed old active) of
      None \<Rightarrow> (Inr (), s\<lparr>cx_refs := \<lambda>d. cx_refs s d + value_count claim_of (changed old active) d\<rparr>)
    | Some kv \<Rightarrow> (Inl (the (x_acquire X (fst (snd kv)) (snd (snd kv)))),
                   s\<lparr>cx_refs := \<lambda>d. cx_refs s d - int (count_list acquired d)\<rparr>))"
proof (induction X old active acquired s rule: acquire_changed.induct)
  case (1 X old acquired s)
  then show ?case by (simp add: changed_def value_count_def)
next
  case (2 X old role checksum scratch active acquired s)
  show ?case
  proof (cases "map_of old role = Some (checksum, scratch)")
    case True
    then have eq: "changed old ((role, checksum, scratch) # active) = changed old active"
      by (simp add: changed_def)
    show ?thesis unfolding eq using 2(1) [OF True] True by simp
  next
    case False
    have ch: "changed old ((role, checksum, scratch) # active) = (role, checksum, scratch) # changed old active"
      using False by (simp add: changed_def)
    show ?thesis
    proof (cases "x_acquire X checksum scratch")
      case None
      then have "acquire X checksum scratch s = (Inr (), incref checksum s)" by (simp add: acquire_def)
      note IH = 2(2) [OF False this [symmetric] refl]
      have "cx_refs (incref checksum s) d - int (count_list (checksum # acquired) d) =
          cx_refs s d - int (count_list acquired d)"
        "cx_refs (incref checksum s) d + value_count claim_of (changed old active) d =
          cx_refs s d + value_count claim_of (changed old ((role, checksum, scratch) # active)) d" for d
        by (simp_all add: incref_refs ch value_count_def claim_of_def)
      moreover have "(incref checksum s)\<lparr>cx_refs := f\<rparr> = s\<lparr>cx_refs := f\<rparr>" for f
        by (simp add: incref_def)
      ultimately show ?thesis
        using None False IH by (simp add: ch acquire_def cong: option.case_cong)
    next
      case (Some e)
      with False show ?thesis
        by (simp add: acquire_def ch release_all_refs)
    qed
  qed
qed

lemma release_stale_refs:
  "release_stale active old s = s\<lparr>cx_refs := \<lambda>d. cx_refs s d - value_count claim_of (changed active old) d\<rparr>"
proof (induction active old s rule: release_stale.induct)
  case (1 active s)
  then show ?case by (simp add: changed_def value_count_def)
next
  case (2 active role checksum scratch old s)
  show ?case
  proof (cases "map_of active role = Some (checksum, scratch)")
    case True
    then have "changed active ((role, checksum, scratch) # old) = changed active old"
      by (simp add: changed_def)
    with 2 True show ?thesis by simp
  next
    case False
    then have ch: "changed active ((role, checksum, scratch) # old) = (role, checksum, scratch) # changed active old"
      by (simp add: changed_def)
    with 2 False show ?thesis
      unfolding ch by (simp add: release_refs, intro refs_cong) (simp add: value_count_def claim_of_def)
  qed
qed

lemma same_booksI:
  assumes "\<And>c. wf_ctx s \<Longrightarrow> cx_refs s' c - held_count s' c = cx_refs s c - held_count s c"
    and "wf_ctx s \<Longrightarrow> wf_ctx s'"
  shows "same_books s s'"
  unfolding same_books_def ledger_def using assms by auto

lemma changed_refs:
  "wf_dict old \<Longrightarrow> wf_dict active \<Longrightarrow>
   r + value_count claim_of (changed old active) c - value_count claim_of (changed active old) c =
   r + value_count claim_of active c - value_count claim_of old c"
  using changed_balance [of old active c] by simp

text \<open>The first new claim that cannot be acquired.\<close>

definition refusal :: "ext \<Rightarrow> 'k claims \<Rightarrow> 'k claims \<Rightarrow> exc option" where
  "refusal X old active =
     map_option (\<lambda>kv. the (x_acquire X (fst (snd kv)) (snd (snd kv))))
       (find (\<lambda>kv. x_acquire X (fst (snd kv)) (snd (snd kv)) \<noteq> None) (changed old active))"

lemma refusal_settled [simp]: "refusal X old old = None" if "wf_dict old"
proof -
  have "changed old old = []" using set_changed [OF that, of old] by simp
  then show ?thesis by (simp add: refusal_def)
qed

lemma acquire_changed_shape:
  "acquire_changed X old active [] s =
   (case refusal X old active of
      None \<Rightarrow> (Inr (), s\<lparr>cx_refs := \<lambda>d. cx_refs s d + value_count claim_of (changed old active) d\<rparr>)
    | Some e \<Rightarrow> (Inl e, s))"
  by (simp add: acquire_changed_refs refusal_def split: option.splits)

text \<open>What a table of claims promises to the derivation.\<close>

locale claim_ledger =
  fixes sync :: "(ctx, unit) oper"
  assumes books: "same_books s (snd (sync s))"
begin

lemma sync_balanced: "balanced sync"
  by (simp add: balanced_def books)

lemma sync_ledger: "wf_ctx s \<Longrightarrow> sync s = (r, s') \<Longrightarrow> ledger s' = ledger s \<and> wf_ctx s'"
  using books [of s] by (simp add: same_books_def)

end

locale claim_table = claim_ledger sync for sync :: "(ctx, unit) oper" +
  fixes table :: "ctx \<Rightarrow> 'k claims"
    and wanted :: "ctx \<Rightarrow> 'k claims"
  assumes published: "wf_ctx s \<Longrightarrow> sync s = (Inr (), s') \<Longrightarrow> table s' = wanted s \<and> wanted s' = wanted s"
    and atomic: "wf_ctx s \<Longrightarrow> sync s = (Inl e, s') \<Longrightarrow> s' = s"
    and settled: "wf_ctx s \<Longrightarrow> table s = wanted s \<Longrightarrow> sync s = (Inr (), s)"
begin

lemma sync_twice: "wf_ctx s \<Longrightarrow> sync s = (Inr (), s') \<Longrightarrow> sync s' = (Inr (), s')"
  using published settled sync_ledger by metis

end

lemma sync_module_shape:
  assumes "wf_ctx s"
  shows "sync_module_refholds X s =
   (case refusal X (cx_module_refholds s) (wanted_modules s) of
      None \<Rightarrow> (Inr (), s\<lparr>cx_module_refholds := wanted_modules s,
         cx_refs := \<lambda>d. cx_refs s d + value_count claim_of (wanted_modules s) d
                          - value_count claim_of (cx_module_refholds s) d\<rparr>)
    | Some e \<Rightarrow> (Inl e, s))"
proof -
  have wf: "wf_dict (cx_module_refholds s)" "wf_dict (wanted_modules s)"
    using assms by (simp_all add: wf_ctx_def wanted_modules_def)
  show ?thesis
    by (simp add: sync_module_refholds_def Let_def bnd_def release_stale_refs acquire_changed_shape
        changed_refs [OF wf] split: option.splits)
qed

lemma sync_edge_pin_shape:
  assumes "wf_ctx s"
  shows "sync_edge_pin_refholds X s =
   (case refusal X (cx_edge_pin_refholds s) (wanted_edge_pins s) of
      None \<Rightarrow> (Inr (), s\<lparr>cx_edge_pin_refholds := wanted_edge_pins s,
         cx_refs := \<lambda>d. cx_refs s d + value_count claim_of (wanted_edge_pins s) d
                          - value_count claim_of (cx_edge_pin_refholds s) d\<rparr>)
    | Some e \<Rightarrow> (Inl e, s))"
proof -
  have wf: "wf_dict (cx_edge_pin_refholds s)" "wf_dict (wanted_edge_pins s)"
    using assms by (simp_all add: wf_ctx_def wanted_edge_pins_def)
  show ?thesis
    by (simp add: sync_edge_pin_refholds_def Let_def bnd_def release_stale_refs acquire_changed_shape
        changed_refs [OF wf] split: option.splits)
qed

lemma sync_anonymous_shape:
  assumes "wf_ctx s"
  shows "sync_anonymous_current_refholds X s =
   (case refusal X (cx_anonymous_refholds s) (cx_anonymous_updates s) of
      None \<Rightarrow> (Inr (), s\<lparr>cx_anonymous_refholds := cx_anonymous_updates s,
         cx_refs := \<lambda>d. cx_refs s d + value_count claim_of (cx_anonymous_updates s) d
                          - value_count claim_of (cx_anonymous_refholds s) d\<rparr>)
    | Some e \<Rightarrow> (Inl e, s))"
proof -
  have wf: "wf_dict (cx_anonymous_refholds s)" "wf_dict (cx_anonymous_updates s)"
    using assms by (simp_all add: wf_ctx_def)
  show ?thesis
    by (simp add: sync_anonymous_current_refholds_def Let_def bnd_def release_stale_refs
        acquire_changed_shape changed_refs [OF wf] split: option.splits)
qed

lemmas sync_shapes = sync_module_shape sync_edge_pin_shape sync_anonymous_shape

lemma wf_wanted_modules: "wf_dict (wanted_modules s)"
  by (simp add: wanted_modules_def)

lemma wf_wanted_edge_pins: "wf_dict (wanted_edge_pins s)"
  by (simp add: wanted_edge_pins_def)

lemma wanted_cong:
  assumes "cx_graph s' = cx_graph s" and "cx_edge_code_states s' = cx_edge_code_states s"
  shows "wanted_modules s' = wanted_modules s" and "wanted_edge_pins s' = wanted_edge_pins s"
proof -
  have "pins_of s' = pins_of s" by (intro ext) (simp only: pins_of_def assms)
  then show "wanted_modules s' = wanted_modules s" "wanted_edge_pins s' = wanted_edge_pins s"
    by (simp_all add: wanted_modules_def wanted_edge_pins_def assms)
qed

lemma modules_books: "same_books s (snd (sync_module_refholds X s))"
proof (rule same_booksI)
  assume wf: "wf_ctx s"
  show "cx_refs (snd (sync_module_refholds X s)) c - held_count (snd (sync_module_refholds X s)) c =
      cx_refs s c - held_count s c" for c
    unfolding sync_module_shape [OF wf] by (simp add: held_count_def split: option.split)
  show "wf_ctx (snd (sync_module_refholds X s))"
    unfolding sync_module_shape [OF wf] using wf wf_wanted_modules [of s] by (simp add: wf_ctx_def split: option.split)
qed

interpretation modules: claim_table "sync_module_refholds X" cx_module_refholds wanted_modules for X
proof
  fix s s' :: ctx and e
  show "same_books s (snd (sync_module_refholds X s))" by (rule modules_books)
  assume wf: "wf_ctx s"
  show "cx_module_refholds s' = wanted_modules s \<and> wanted_modules s' = wanted_modules s"
    if "sync_module_refholds X s = (Inr (), s')"
  proof -
    have "cx_graph s' = cx_graph s" "cx_edge_code_states s' = cx_edge_code_states s" "cx_module_refholds s' = wanted_modules s"
      using that wf by (auto simp: sync_module_shape split: option.splits)
    then show ?thesis using wanted_cong(1) [of s' s] by simp
  qed
  show "s' = s" if "sync_module_refholds X s = (Inl e, s')"
    using that wf by (auto simp: sync_module_shape split: option.splits)
  show "sync_module_refholds X s = (Inr (), s)" if t: "cx_module_refholds s = wanted_modules s"
  proof -
    have "wf_dict (wanted_modules s)" using wf t by (simp add: wf_ctx_def)
    moreover have "s\<lparr>cx_module_refholds := wanted_modules s\<rparr> = s" using t by simp
    ultimately show ?thesis
      unfolding sync_module_shape [OF wf] t by simp
  qed
qed

lemma edge_pins_books: "same_books s (snd (sync_edge_pin_refholds X s))"
proof (rule same_booksI)
  assume wf: "wf_ctx s"
  show "cx_refs (snd (sync_edge_pin_refholds X s)) c - held_count (snd (sync_edge_pin_refholds X s)) c =
      cx_refs s c - held_count s c" for c
    unfolding sync_edge_pin_shape [OF wf] by (simp add: held_count_def split: option.split)
  show "wf_ctx (snd (sync_edge_pin_refholds X s))"
    unfolding sync_edge_pin_shape [OF wf] using wf wf_wanted_edge_pins [of s] by (simp add: wf_ctx_def split: option.split)
qed

interpretation edge_pins: claim_table "sync_edge_pin_refholds X" cx_edge_pin_refholds wanted_edge_pins for X
proof
  fix s s' :: ctx and e
  show "same_books s (snd (sync_edge_pin_refholds X s))" by (rule edge_pins_books)
  assume wf: "wf_ctx s"
  show "cx_edge_pin_refholds s' = wanted_edge_pins s \<and> wanted_edge_pins s' = wanted_edge_pins s"
    if "sync_edge_pin_refholds X s = (Inr (), s')"
  proof -
    have "cx_graph s' = cx_graph s" "cx_edge_code_states s' = cx_edge_code_states s" "cx_edge_pin_refholds s' = wanted_edge_pins s"
      using that wf by (auto simp: sync_edge_pin_shape split: option.splits)
    then show ?thesis using wanted_cong(2) [of s' s] by simp
  qed
  show "s' = s" if "sync_edge_pin_refholds X s = (Inl e, s')"
    using that wf by (auto simp: sync_edge_pin_shape split: option.splits)
  show "sync_edge_pin_refholds X s = (Inr (), s)" if t: "cx_edge_pin_refholds s = wanted_edge_pins s"
  proof -
    have "wf_dict (wanted_edge_pins s)" using wf t by (simp add: wf_ctx_def)
    moreover have "s\<lparr>cx_edge_pin_refholds := wanted_edge_pins s\<rparr> = s" using t by simp
    ultimately show ?thesis
      unfolding sync_edge_pin_shape [OF wf] t by simp
  qed
qed

lemma anonymous_books: "same_books s (snd (sync_anonymous_current_refholds X s))"
proof (rule same_booksI)
  assume wf: "wf_ctx s"
  show "cx_refs (snd (sync_anonymous_current_refholds X s)) c - held_count (snd (sync_anonymous_current_refholds X s)) c =
      cx_refs s c - held_count s c" for c
    unfolding sync_anonymous_shape [OF wf] by (simp add: held_count_def split: option.split)
  show "wf_ctx (snd (sync_anonymous_current_refholds X s))"
    unfolding sync_anonymous_shape [OF wf] using wf by (simp add: wf_ctx_def split: option.split)
qed

interpretation anonymous: claim_table "sync_anonymous_current_refholds X" cx_anonymous_refholds cx_anonymous_updates for X
proof
  fix s s' :: ctx and e
  show "same_books s (snd (sync_anonymous_current_refholds X s))" by (rule anonymous_books)
  assume wf: "wf_ctx s"
  show "cx_anonymous_refholds s' = cx_anonymous_updates s \<and> cx_anonymous_updates s' = cx_anonymous_updates s"
    if "sync_anonymous_current_refholds X s = (Inr (), s')"
    using that wf by (auto simp: sync_anonymous_shape wanted_cong split: option.splits)
  show "s' = s" if "sync_anonymous_current_refholds X s = (Inl e, s')"
    using that wf by (auto simp: sync_anonymous_shape split: option.splits)
  show "sync_anonymous_current_refholds X s = (Inr (), s)" if t: "cx_anonymous_refholds s = cx_anonymous_updates s"
  proof -
    have "wf_dict (cx_anonymous_updates s)" using wf t by (simp add: wf_ctx_def)
    moreover have "s\<lparr>cx_anonymous_refholds := cx_anonymous_updates s\<rparr> = s" using t by simp
    ultimately show ?thesis
      unfolding sync_anonymous_shape [OF wf] t by simp
  qed
qed

text \<open>
  The table of superseded runs: what goes is released as it is dropped, what comes is recorded
  as it is acquired, so the books are right at every point, also where an acquisition raises.
\<close>

lemma same_books_superseded:
  assumes "cx_graph s' = cx_graph s" "cx_code_refholds s' = cx_code_refholds s"
    "cx_facts s' = cx_facts s" "cx_module_refholds s' = cx_module_refholds s"
    "cx_edge_pin_refholds s' = cx_edge_pin_refholds s" "cx_anonymous_refholds s' = cx_anonymous_refholds s"
    "cx_anonymous_updates s' = cx_anonymous_updates s"
    "cx_sessions s' = cx_sessions s" "cx_node_leaves s' = cx_node_leaves s"
    and "wf_dict (cx_superseded_refholds s) \<Longrightarrow> wf_dict (cx_superseded_refholds s')"
    and "\<And>c. wf_dict (cx_superseded_refholds s) \<Longrightarrow>
      cx_refs s' c - value_count claim_of (cx_superseded_refholds s') c =
      cx_refs s c - value_count claim_of (cx_superseded_refholds s) c"
  shows "same_books s s'"
proof (rule same_booksI)
  assume wf: "wf_ctx s"
  then have w: "wf_dict (cx_superseded_refholds s)" by (simp add: wf_ctx_def)
  from assms(11) [OF w] show "cx_refs s' c - held_count s' c = cx_refs s c - held_count s c" for c
    using assms(1-9) by (simp add: held_count_def algebra_simps)
  from assms(10) [OF w] wf assms(1-9) show "wf_ctx s'" by (simp add: wf_ctx_def)
qed

lemma drop_superseded_books:
  "list_all (\<lambda>(k, v). map_of (cx_superseded_refholds s) k = Some v) old \<Longrightarrow> wf_dict old \<Longrightarrow>
   same_books s (drop_superseded active old s)"
proof (induction active old s rule: drop_superseded.induct)
  case (1 active s)
  then show ?case by simp
next
  case (2 active k checksum scratch old s)
  let ?s = "if List.member active k then s
    else (release checksum s)\<lparr>cx_superseded_refholds := AList.delete k (cx_superseded_refholds s)\<rparr>"
  have k: "map_of (cx_superseded_refholds s) k = Some (checksum, scratch)" and wf: "wf_dict old"
    and new: "k \<notin> fst ` set old"
    using "2.prems" by (auto simp: wf_dict_def)
  have "same_books s ?s"
  proof (cases "List.member active k")
    case False
    have "same_books s ((release checksum s)\<lparr>cx_superseded_refholds := AList.delete k (cx_superseded_refholds s)\<rparr>)"
      by (rule same_books_superseded)
         (simp_all add: release_refs value_count_delete k claim_of_def)
    with False show ?thesis by simp
  qed simp
  moreover have "list_all (\<lambda>(k, v). map_of (cx_superseded_refholds ?s) k = Some v) old"
  proof -
    have "map_of (cx_superseded_refholds ?s) k' = map_of (cx_superseded_refholds s) k'" if "k' \<noteq> k" for k'
      using that by simp
    with "2.prems"(1) new show ?thesis unfolding list_all_iff by (auto simp del: if_split) force+
  qed
  ultimately show ?case
    using "2.IH" wf by (simp only: drop_superseded.simps) (blast intro: same_books_trans)
qed

lemma take_superseded_books: "same_books s (snd (take_superseded X active s))"
proof (induction X active s rule: take_superseded.induct)
  case (1 X s)
  then show ?case by simp
next
  case (2 X k checksum scratch active s)
  show ?case
  proof (cases "map_of (cx_superseded_refholds s) k \<noteq> None \<or> x_acquire X checksum scratch \<noteq> None")
    case True
    with 2 show ?thesis by (auto simp: acquire_def split: option.splits)
  next
    case False
    let ?s = "(incref checksum s)\<lparr>cx_superseded_refholds :=
      AList.update k (checksum, scratch) (cx_superseded_refholds (incref checksum s))\<rparr>"
    have none: "map_of (cx_superseded_refholds s) k = None" using False by blast
    have "same_books s ?s"
      by (rule same_books_superseded)
         (simp_all add: incref_refs value_count_update none claim_of_def)
    moreover have "same_books ?s (snd (take_superseded X active ?s))"
      using False 2(2) by (simp add: acquire_def)
    ultimately show ?thesis
      using False by (simp add: acquire_def) (blast intro: same_books_trans)
  qed
qed

lemma map_of_all: "wf_dict d \<Longrightarrow> list_all (\<lambda>(k, v). map_of d k = Some v) d"
  by (auto simp: list_all_iff wf_dict_def)

interpretation superseded: claim_ledger "sync_superseded_refholds X" for X
proof
  fix s :: ctx
  let ?s1 = "drop_superseded (keys (wanted_superseded s)) (cx_superseded_refholds s) s"
  have "same_books s ?s1" if "wf_ctx s"
    by (rule drop_superseded_books) (use that map_of_all in \<open>auto simp: wf_ctx_def\<close>)
  then have "same_books s ?s1" by (simp add: same_books_def)
  then show "same_books s (snd (sync_superseded_refholds X s))"
    using take_superseded_books
    by (simp add: sync_superseded_refholds_def Let_def) (blast intro: same_books_trans)
qed

section \<open>The claims of a node\<close>

lemma set_update_values: "snd ` set (AList.update k v d) \<subseteq> insert v (snd ` set d)"
  by (induction d) auto

lemma node_step_books:
  assumes node: "get_node s p = Some nd"
    and nodes: "g_nodes (cx_graph s') = AList.update p nd' (g_nodes (cx_graph s))"
    and pins: "wf_dict (nd_pin_producers nd) \<Longrightarrow> wf_dict (nd_pin_producers nd')"
    and refs: "\<And>c. cx_refs s' c - int (count_list (node_claims nd') c) =
        cx_refs s c - int (count_list (node_claims nd) c)"
    and rest: "cx_code_refholds s' = cx_code_refholds s" "cx_facts s' = cx_facts s"
      "cx_module_refholds s' = cx_module_refholds s" "cx_edge_pin_refholds s' = cx_edge_pin_refholds s"
      "cx_anonymous_refholds s' = cx_anonymous_refholds s" "cx_anonymous_updates s' = cx_anonymous_updates s"
      "cx_superseded_refholds s' = cx_superseded_refholds s"
      "cx_sessions s' = cx_sessions s" "cx_node_leaves s' = cx_node_leaves s"
  shows "same_books s s'"
proof (rule same_booksI)
  assume wf: "wf_ctx s"
  then have wfn: "wf_dict (g_nodes (cx_graph s))" by (simp add: wf_ctx_def)
  have m: "map_of (g_nodes (cx_graph s)) p = Some nd" using node by (simp add: get_node_def)
  from refs show "cx_refs s' c - held_count s' c = cx_refs s c - held_count s c" for c
    by (simp add: held_count_def nodes rest value_count_update [OF wfn] m) (simp add: algebra_simps)
  have "nd \<in> snd ` set (g_nodes (cx_graph s))" using map_of_SomeD [OF m] by force
  then have "wf_dict (nd_pin_producers nd)" using wf unfolding wf_ctx_def by blast
  then have pn: "wf_dict (nd_pin_producers nd')" by (rule pins)
  have "\<forall>n \<in> snd ` set (g_nodes (cx_graph s')). wf_dict (nd_pin_producers n)"
    using wf pn set_update_values [of p nd' "g_nodes (cx_graph s)"] unfolding wf_ctx_def nodes by blast
  with wf show "wf_ctx s'" by (simp add: wf_ctx_def nodes rest)
qed

lemma put_node_books [books_intros]:
  assumes "get_node s p = Some nd" and "nd_root_producer nd' = nd_root_producer nd"
    and "nd_pin_producers nd' = nd_pin_producers nd" and "nd_current nd' = nd_current nd"
  shows "same_books s (put_node p nd' s)"
  by (rule node_step_books [OF assms(1), where nd' = nd']) (simp_all add: put_node_def node_claims_def assms(2-4))

lemma upd_node_books [books_intros]:
  assumes "\<And>nd. nd_root_producer (f nd) = nd_root_producer nd"
    and "\<And>nd. nd_pin_producers (f nd) = nd_pin_producers nd" and "\<And>nd. nd_current (f nd) = nd_current nd"
  shows "same_books s (upd_node p f s)"
  using assms by (auto simp: upd_node_def intro: put_node_books split: option.splits)

lemma replace_current_checksum_run:
  "replace_current_checksum X p checksum s =
   (case get_node s p of
      None \<Rightarrow> (Inl Key_Error, s)
    | Some nd \<Rightarrow>
        let new = map_option (\<lambda>c. x_canonical X c (Some (config_celltype nd))) checksum in
        case (case new of None \<Rightarrow> None | Some c \<Rightarrow> x_acquire X c (node_scratch nd)) of
          Some e \<Rightarrow> (Inl e, s)
        | None \<Rightarrow> (Inr (), (put_node p (nd\<lparr>nd_current := new\<rparr>) s)
            \<lparr>cx_refs := \<lambda>c. cx_refs s c + int (count_list (case new of None \<Rightarrow> [] | Some n \<Rightarrow> [n]) c)
                         - int (count_list (case nd_current nd of None \<Rightarrow> [] | Some old \<Rightarrow> [old]) c)\<rparr>))"
  by (auto simp: replace_current_checksum_def bnd_def acquire_def release_refs incref_refs put_node_def Let_def
      intro!: refs_cong split: option.splits)

lemma replace_current_balanced [books_intros]: "balanced (replace_current_checksum X p checksum)"
  unfolding balanced_def
proof
  fix s
  show "same_books s (snd (replace_current_checksum X p checksum s))"
  proof (cases "get_node s p")
    case (Some nd)
    define new where "new = map_option (\<lambda>c. x_canonical X c (Some (config_celltype nd))) checksum"
    let ?refs = "\<lambda>c. cx_refs s c + int (count_list (case new of None \<Rightarrow> [] | Some n \<Rightarrow> [n]) c)
                         - int (count_list (case nd_current nd of None \<Rightarrow> [] | Some old \<Rightarrow> [old]) c)"
    have "same_books s ((put_node p (nd\<lparr>nd_current := new\<rparr>) s)\<lparr>cx_refs := ?refs\<rparr>)"
      by (rule node_step_books [OF Some, where nd' = "nd\<lparr>nd_current := new\<rparr>"])
         (simp_all add: put_node_def node_claims_def)
    then show ?thesis
      by (simp add: replace_current_checksum_run Some Let_def new_def [symmetric] split: option.split)
  qed (simp add: replace_current_checksum_run)
qed

lemma same_books_code:
  assumes "cx_graph s' = cx_graph s" "cx_superseded_refholds s' = cx_superseded_refholds s"
    "cx_facts s' = cx_facts s" "cx_module_refholds s' = cx_module_refholds s"
    "cx_edge_pin_refholds s' = cx_edge_pin_refholds s" "cx_anonymous_refholds s' = cx_anonymous_refholds s"
    "cx_anonymous_updates s' = cx_anonymous_updates s"
    "cx_sessions s' = cx_sessions s" "cx_node_leaves s' = cx_node_leaves s"
    and "wf_dict (cx_code_refholds s) \<Longrightarrow> wf_dict (cx_code_refholds s')"
    and "\<And>c. wf_dict (cx_code_refholds s) \<Longrightarrow>
      cx_refs s' c - value_count (\<lambda>c. [c]) (cx_code_refholds s') c =
      cx_refs s c - value_count (\<lambda>c. [c]) (cx_code_refholds s) c"
  shows "same_books s s'"
proof (rule same_booksI)
  assume wf: "wf_ctx s"
  then have w: "wf_dict (cx_code_refholds s)" by (simp add: wf_ctx_def)
  from assms(11) [OF w] show "cx_refs s' c - held_count s' c = cx_refs s c - held_count s c" for c
    using assms(1-9) by (simp add: held_count_def algebra_simps)
  from assms(10) [OF w] wf assms(1-9) show "wf_ctx s'" by (simp add: wf_ctx_def)
qed

lemma replace_code_balanced [books_intros]: "balanced (replace_code_checksum X p checksum)"
  unfolding balanced_def
proof
  fix s
  show "same_books s (snd (replace_code_checksum X p checksum s))"
  proof (cases "\<exists>new. checksum = Some new \<and> x_acquire X new False \<noteq> None")
    case True
    then show ?thesis
      by (auto simp: replace_code_checksum_def bnd_def acquire_def Let_def)
  next
    case False
    then show ?thesis
      by (intro same_books_code)
         (auto simp: replace_code_checksum_def bnd_def acquire_def Let_def release_refs incref_refs
            value_count_update value_count_delete split: option.splits)
  qed
qed

lemma release_code_books [books_intros]: "same_books s (release_code_checksum p s)"
  by (rule same_books_code)
     (auto simp: release_code_checksum_def release_refs value_count_delete split: option.splits)

lemma all_syncs_balanced [books_intros]:
  "balanced (sync_module_refholds X)" "balanced (sync_edge_pin_refholds X)"
  "balanced (sync_anonymous_current_refholds X)" "balanced (sync_superseded_refholds X)"
  by (rule modules.sync_balanced edge_pins.sync_balanced anonymous.sync_balanced superseded.sync_balanced)+

section \<open>Properties\<close>

text \<open>C27: No operation on claims leaks or loses one: whatever an acquisition raises, and wherever,
  the claims acquired and not released differ from the claims recorded by what they differed
  before, for every checksum.\<close>

theorem claim_operations_keep_books:
  assumes "wf_ctx s"
  shows "ledger (snd (replace_current_checksum X p checksum s)) = ledger s
    \<and> ledger (snd (replace_code_checksum X p checksum s)) = ledger s
    \<and> ledger (release_code_checksum p s) = ledger s
    \<and> ledger (snd (sync_module_refholds X s)) = ledger s
    \<and> ledger (snd (sync_edge_pin_refholds X s)) = ledger s
    \<and> ledger (snd (sync_anonymous_current_refholds X s)) = ledger s
    \<and> ledger (snd (sync_superseded_refholds X s)) = ledger s"
  by (intro conjI same_books_ledger [OF _ assms] balanced_apply replace_current_balanced
      replace_code_balanced release_code_books modules_books edge_pins_books anonymous_books
      superseded.books)

lemma wf_init: "wf_ctx (init_ctx i)"
  by (simp add: wf_ctx_def init_ctx_def empty_graph_def)

theorem claim_operations_keep_books_witness:
  "ledger (snd (replace_code_checksum plain_ext [KStr ''t''] (Some ''aa'') (init_ctx ''top''))) = ledger (init_ctx ''top'')"
  using claim_operations_keep_books [OF wf_init] by blast

text \<open>C28: Bringing a table of claims in line is all or nothing: when it returns, the table is
  exactly the claims wanted; when an acquisition raises, nothing has changed.\<close>

theorem claim_tables_all_or_nothing:
  assumes "wf_ctx s"
  shows "(case sync_module_refholds X s of
            (Inr _, s') \<Rightarrow> cx_module_refholds s' = wanted_modules s | (Inl _, s') \<Rightarrow> s' = s)
    \<and> (case sync_edge_pin_refholds X s of
            (Inr _, s') \<Rightarrow> cx_edge_pin_refholds s' = wanted_edge_pins s | (Inl _, s') \<Rightarrow> s' = s)
    \<and> (case sync_anonymous_current_refholds X s of
            (Inr _, s') \<Rightarrow> cx_anonymous_refholds s' = cx_anonymous_updates s | (Inl _, s') \<Rightarrow> s' = s)"
  unfolding sync_shapes [OF assms] by (simp split: option.splits)

theorem claim_tables_all_or_nothing_witness:
  "snd (sync_anonymous_current_refholds (plain_ext\<lparr>x_acquire := \<lambda>c b. Some Runtime_Error\<rparr>)
     ((init_ctx ''top'')\<lparr>cx_anonymous_updates := [(''abcde'', ''aa'', True)]\<rparr>)) =
   (init_ctx ''top'')\<lparr>cx_anonymous_updates := [(''abcde'', ''aa'', True)]\<rparr>"
proof -
  let ?s = "(init_ctx ''top'')\<lparr>cx_anonymous_updates := [(''abcde'', ''aa'', True)]\<rparr>"
  have "wf_ctx ?s" by (simp add: wf_ctx_def init_ctx_def empty_graph_def wf_dict_def)
  note claim_tables_all_or_nothing [OF this, of "plain_ext\<lparr>x_acquire := \<lambda>c b. Some Runtime_Error\<rparr>"]
  moreover have "fst (sync_anonymous_current_refholds (plain_ext\<lparr>x_acquire := \<lambda>c b. Some Runtime_Error\<rparr>) ?s) =
      Inl Runtime_Error"
    by (simp add: sync_anonymous_current_refholds_def Let_def acquire_def bnd_def init_ctx_def)
  ultimately show ?thesis by (auto split: prod.splits sum.splits)
qed

end
