(* ===== verification/Runs.thy ===== *)
theory Runs
  imports Refholds
begin

text \<open>
  The run ledger: \<open>Scheduler\<close> and \<open>ContextRuntime\<close> of \<^verbatim>\<open>scheduler.py\<close>, the operations of
  \<^verbatim>\<open>reactive.py\<close> that supersede, reinstate, expire and complete runs, and
  \<open>_update_runtime\<close> and \<open>prune\<close> of \<^verbatim>\<open>context.py\<close>.

  A record is one object of the program; here its generation identifies it. The clock is the
  argument \<open>now\<close>.
\<close>

section \<open>The scheduler\<close>

definition hold_deadline :: "scheduler \<Rightarrow> hold_kind option \<Rightarrow> real \<Rightarrow> real option" where
  "hold_deadline sch kind now =
     (case kind of
        Some Self_edit \<Rightarrow> Some (now + sc_self_edit_hold sch)
      | Some Upstream \<Rightarrow> Some (now + sc_upstream_hold sch)
      | None \<Rightarrow> None)"

definition next_generation :: "runtime \<Rightarrow> nat \<times> runtime" where
  "next_generation rt = (Suc (rt_generation rt), rt\<lparr>rt_generation := Suc (rt_generation rt)\<rparr>)"

fun evict_loop :: "nat \<Rightarrow> run_record list \<Rightarrow> run_record list \<Rightarrow> run_record list \<times> run_record list" where
  "evict_loop cap [] evicted = ([], evicted)"
| "evict_loop cap (r # queue) evicted =
     (if length (r # queue) > cap then evict_loop cap queue (evicted @ [r\<lparr>rr_phase := P_cancelled\<rparr>])
      else (r # queue, evicted))"

definition supersede :: "path \<Rightarrow> hold_kind \<Rightarrow> real \<Rightarrow> runtime \<Rightarrow> runtime" where
  "supersede p kind now rt =
     (case map_of (rt_current rt) p of
        None \<Rightarrow> rt
      | Some r \<Rightarrow>
          (let r' = r\<lparr>rr_phase := P_superseded, rr_hold_kind := Some kind,
                      rr_hold_deadline := hold_deadline (rt_scheduler rt) (Some kind) now\<rparr>;
               queue = (case map_of (rt_superseded rt) p of None \<Rightarrow> [] | Some q \<Rightarrow> q) @ [r']
           in case evict_loop (sc_superseded_cap (rt_scheduler rt)) queue (rt_evicted rt) of
                (queue', evicted) \<Rightarrow>
                  rt\<lparr>rt_current := AList.delete p (rt_current rt),
                     rt_superseded := AList.update p queue' (rt_superseded rt),
                     rt_evicted := evicted\<rparr>))"

fun prune_loop :: "path list option \<Rightarrow> (path \<times> run_record list) list \<Rightarrow> nat \<Rightarrow> nat \<times> (path \<times> run_record list) list" where
  "prune_loop paths [] pruned = (pruned, [])"
| "prune_loop paths ((p, queue) # rest) pruned =
     (if (case paths of None \<Rightarrow> False | Some ps \<Rightarrow> \<not> List.member ps p)
      then (case prune_loop paths rest pruned of (n, d) \<Rightarrow> (n, (p, queue) # d))
      else prune_loop paths rest (pruned + length (filter (\<lambda>r. rr_phase r \<noteq> P_cancelled) queue)))"

definition prune_runs :: "path list option \<Rightarrow> runtime \<Rightarrow> nat \<times> runtime" where
  "prune_runs paths rt =
     (case prune_loop paths (rt_superseded rt) 0 of (n, d) \<Rightarrow> (n, rt\<lparr>rt_superseded := d\<rparr>))"

section \<open>Runs of the Context\<close>

definition set_runtime :: "runtime \<Rightarrow> ctx \<Rightarrow> ctx" where
  "set_runtime rt s = s\<lparr>cx_runtime := rt\<rparr>"

definition current_run :: "ctx \<Rightarrow> path \<Rightarrow> run_record option" where
  "current_run s p = map_of (rt_current (cx_runtime s)) p"

definition held_runs :: "ctx \<Rightarrow> path \<Rightarrow> run_record list" where
  "held_runs s p = (case map_of (rt_superseded (cx_runtime s)) p of None \<Rightarrow> [] | Some q \<Rightarrow> q)"

definition put_current :: "path \<Rightarrow> run_record \<Rightarrow> ctx \<Rightarrow> ctx" where
  "put_current p r s =
     set_runtime ((cx_runtime s)\<lparr>rt_current := AList.update p r (rt_current (cx_runtime s))\<rparr>) s"

definition put_held :: "path \<Rightarrow> run_record list \<Rightarrow> ctx \<Rightarrow> ctx" where
  "put_held p q s =
     set_runtime ((cx_runtime s)\<lparr>rt_superseded := AList.update p q (rt_superseded (cx_runtime s))\<rparr>) s"

definition cancel_effects :: "run_record list \<Rightarrow> effect list" where
  "cancel_effects rs = map (\<lambda>r. E_cancel_run (rr_generation r)) (filter rr_et rs)"

definition add_effects :: "effect list \<Rightarrow> ctx \<Rightarrow> ctx" where
  "add_effects es s = s\<lparr>cx_effects := cx_effects s @ es\<rparr>"

definition upstream_unresolved :: "ctx \<Rightarrow> path \<Rightarrow> bool" where
  "upstream_unresolved s p =
     list_ex (\<lambda>(_, e). case resolve_existing (cx_graph s) (ed_source e) of
        None \<Rightarrow> False
      | Some (src, _) \<Rightarrow>
          (case get_node s src of
             None \<Rightarrow> False
           | Some nd \<Rightarrow> nd_state nd = Waiting \<or> nd_state nd = Computing))
       (incoming_for (cx_graph s) p)"

text \<open>
  After the eviction the superseded record is still superseded unless it was evicted itself.
\<close>

definition suspend :: "path \<Rightarrow> real \<Rightarrow> ctx \<Rightarrow> ctx" where
  "suspend p now s =
     (case current_run s p of
        None \<Rightarrow> s
      | Some r \<Rightarrow>
          (let kind = (if upstream_unresolved s p then Upstream else Self_edit);
               s1 = set_runtime (supersede p kind now (cx_runtime s)) s;
               deadline = hold_deadline (rt_scheduler (cx_runtime s)) (Some kind) now;
               delay = (case deadline of Some d \<Rightarrow> max 0 (min 300 (d - now)) | None \<Rightarrow> 300);
               s2 = (if list_ex (\<lambda>q. rr_generation q = rr_generation r) (held_runs s1 p)
                     then add_effect (E_expiry p (rr_generation r) delay) s1 else s1);
               s3 = add_effects (cancel_effects (rt_evicted (cx_runtime s2))) s2
           in set_runtime ((cx_runtime s3)\<lparr>rt_evicted := []\<rparr>) s3))"

definition release_upstream_holds :: "path \<Rightarrow> (run_record \<Rightarrow> bool) \<Rightarrow> ctx \<Rightarrow> ctx" where
  "release_upstream_holds p keep s =
     (case map_of (rt_superseded (cx_runtime s)) p of
        None \<Rightarrow> s
      | Some queue \<Rightarrow>
          (let stays = (\<lambda>r. rr_hold_kind r \<noteq> Some Upstream \<or> rr_phase r = P_cancelled \<or> keep r)
           in add_effects (cancel_effects (filter (\<lambda>r. \<not> stays r) queue))
                (put_held p (filter stays queue) s)))"

definition expires :: "nat \<Rightarrow> real \<Rightarrow> run_record \<Rightarrow> bool" where
  "expires g now r \<longleftrightarrow>
     rr_generation r = g \<and> (case rr_hold_deadline r of None \<Rightarrow> False | Some d \<Rightarrow> d \<le> now)"

definition expire_run :: "ext \<Rightarrow> path \<Rightarrow> nat \<Rightarrow> real \<Rightarrow> (ctx, unit) oper" where
  "expire_run X p g now s =
     sync_superseded_refholds X
       (case map_of (rt_superseded (cx_runtime s)) p of
          None \<Rightarrow> s
        | Some queue \<Rightarrow>
            add_effects (cancel_effects (filter (expires g now) queue))
              (put_held p (filter (\<lambda>r. \<not> expires g now r) queue) s))"

definition find_run :: "ctx \<Rightarrow> path \<Rightarrow> nat \<Rightarrow> run_record option" where
  "find_run s p g =
     (case current_run s p of
        Some r \<Rightarrow> if rr_generation r = g then Some r
                  else find (\<lambda>q. rr_generation q = g \<and> rr_phase q \<noteq> P_cancelled) (held_runs s p)
      | None \<Rightarrow> find (\<lambda>q. rr_generation q = g \<and> rr_phase q \<noteq> P_cancelled) (held_runs s p))"

text \<open>Writing the fields of the record that \<open>find_run\<close> gave.\<close>

definition write_run :: "path \<Rightarrow> nat \<Rightarrow> (run_record \<Rightarrow> run_record) \<Rightarrow> ctx \<Rightarrow> ctx" where
  "write_run p g f s =
     (case find_run s p g of
        None \<Rightarrow> s
      | Some r \<Rightarrow>
          if current_run s p = Some r then put_current p (f r) s
          else put_held p (map (\<lambda>q. if rr_generation q = g then f q else q) (held_runs s p)) s)"

definition set_state :: "path \<Rightarrow> nstate \<Rightarrow> block_reason \<Rightarrow> error option \<Rightarrow> ctx \<Rightarrow> ctx" where
  "set_state p st reason err =
     upd_node p (\<lambda>nd. nd\<lparr>nd_state := st, nd_block_reason := reason, nd_exception := err\<rparr>)"

definition publish_run :: "ext \<Rightarrow> path \<Rightarrow> run_record \<Rightarrow> (ctx, unit) oper" where
  "publish_run X p r =
     (if rr_exception r \<noteq> None then
        bnd (modify (set_state p Failed No_reason (rr_error r))) (\<lambda>_.
        replace_current_checksum X p None)
      else if rr_result r \<noteq> None then
        bnd (replace_current_checksum X p (rr_result r)) (\<lambda>_.
        modify (set_state p Complete No_reason None))
      else
        bnd (modify (set_state p Computing No_reason None)) (\<lambda>_.
        replace_current_checksum X p None))"

definition started_record :: "path \<Rightarrow> nat \<Rightarrow> checksum \<Rightarrow> ctx \<Rightarrow> ctx" where
  "started_record p g tf_checksum s = write_run p g (\<lambda>r. r\<lparr>rr_identity := Some tf_checksum\<rparr>) s"

definition finish_run :: "checksum option \<Rightarrow> checksum option \<Rightarrow> error option \<Rightarrow> run_record \<Rightarrow> run_record" where
  "finish_run tf_checksum result err r =
     (let r1 = (if tf_checksum \<noteq> None then r\<lparr>rr_identity := tf_checksum\<rparr> else r);
          r2 = r1\<lparr>rr_result := result, rr_error := err, rr_exception := err\<rparr>
      in if rr_phase r2 \<noteq> P_superseded then r2\<lparr>rr_phase := P_completed\<rparr> else r2)"

definition cell_record :: "path \<Rightarrow> node \<Rightarrow> nat \<Rightarrow> run_record" where
  "cell_record p nd g =
     \<lparr>rr_path = p, rr_et = False, rr_identity = nd_current nd, rr_result = nd_current nd,
      rr_exception = nd_exception nd,
      rr_phase = (if nd_state nd = Complete \<or> nd_state nd = Failed then P_completed else P_running),
      rr_generation = g, rr_hold_deadline = None, rr_hold_kind = None, rr_demand_key = None,
      rr_error = None, rr_dispatch_scratch = None\<rparr>"

definition start_cell_run :: "path \<Rightarrow> node \<Rightarrow> ctx \<Rightarrow> ctx" where
  "start_cell_run p nd s =
     (if List.member [Complete, Failed, Computing] (nd_state nd)
      then (case next_generation (cx_runtime s) of
              (g, rt) \<Rightarrow> put_current p (cell_record p nd g) (set_runtime rt s))
      else s)"

definition update_runtime :: "path \<Rightarrow> real \<Rightarrow> ctx \<Rightarrow> ctx" where
  "update_runtime p now s =
     (case get_node s p of
        None \<Rightarrow> s
      | Some nd \<Rightarrow>
          if nd_kind nd = Transformer_kind then s
          else case nd_current nd of
            None \<Rightarrow> (if current_run s p \<noteq> None then suspend p now s else s)
          | Some c \<Rightarrow>
              (let s1 = release_upstream_holds p (\<lambda>_. False) s in
               case current_run s p of
                 Some r \<Rightarrow>
                   if rr_identity r = Some c then put_current p (r\<lparr>rr_result := Some c\<rparr>) s1
                   else start_cell_run p nd (suspend p now s1)
               | None \<Rightarrow> start_cell_run p nd s1))"

text \<open>\<open>Context.prune\<close>: the held runs of a node and of everything downstream of it, or all.\<close>

definition prune :: "ext \<Rightarrow> path option \<Rightarrow> (ctx, nat) oper" where
  "prune X node_path s =
     (let paths = map_option (\<lambda>p. p # downstream_cone (cx_graph s) p) node_path;
          wanted = (\<lambda>p. case paths of None \<Rightarrow> True | Some ps \<Rightarrow> List.member ps p);
          s1 = add_effects (cancel_effects (concat (map snd
                 (filter (\<lambda>(p, _). wanted p) (rt_superseded (cx_runtime s)))))) s
      in case prune_runs paths (cx_runtime s1) of
           (n, rt) \<Rightarrow> bnd (sync_superseded_refholds X) (\<lambda>_. ret n) (set_runtime rt s1))"

section \<open>The invariant of the ledger\<close>

definition all_runs :: "runtime \<Rightarrow> run_record list" where
  "all_runs rt = map snd (rt_current rt) @ concat (map snd (rt_superseded rt))"

definition live :: "runtime \<Rightarrow> nat set" where
  "live rt = rr_generation ` set (all_runs rt)"

definition runs_ok :: "runtime \<Rightarrow> bool" where
  "runs_ok rt \<longleftrightarrow>
     wf_dict (rt_current rt) \<and> wf_dict (rt_superseded rt)
     \<and> distinct (map rr_generation (all_runs rt)) \<and> (\<forall>g \<in> live rt. g \<le> rt_generation rt)
     \<and> (\<forall>r \<in> snd ` set (rt_current rt). rr_phase r = P_running \<or> rr_phase r = P_completed)
     \<and> (\<forall>q \<in> snd ` set (rt_superseded rt). length q \<le> sc_superseded_cap (rt_scheduler rt)
          \<and> (\<forall>r \<in> set q. rr_phase r = P_superseded \<and> rr_hold_kind r \<noteq> None \<and> rr_hold_deadline r \<noteq> None))
     \<and> rt_evicted rt = []"

text \<open>
  A step of the ledger keeps the invariant and the scheduler's bounds, never turns the generation
  back, and brings no generation to life but new ones.
\<close>

definition run_step :: "runtime \<Rightarrow> runtime \<Rightarrow> bool" where
  "run_step rt rt' \<longleftrightarrow>
     (runs_ok rt \<longrightarrow> runs_ok rt' \<and> rt_scheduler rt' = rt_scheduler rt
        \<and> rt_generation rt \<le> rt_generation rt' \<and> live rt' \<subseteq> live rt \<union> {rt_generation rt<..})"

definition ledger_step :: "ctx \<Rightarrow> ctx \<Rightarrow> bool" where
  "ledger_step s s' \<longleftrightarrow> run_step (cx_runtime s) (cx_runtime s')"

lemma run_step_refl [simp, intro]: "run_step rt rt"
  by (simp add: run_step_def)

lemma run_step_trans: "run_step a b \<Longrightarrow> run_step b c \<Longrightarrow> run_step a c"
  unfolding run_step_def by fastforce

lemma ledger_step_same: "cx_runtime s' = cx_runtime s \<Longrightarrow> ledger_step s s'"
  by (simp add: ledger_step_def)

lemma ledger_step_trans: "ledger_step a b \<Longrightarrow> ledger_step b c \<Longrightarrow> ledger_step a c"
  unfolding ledger_step_def by (rule run_step_trans)

subsection \<open>Records in dictionaries\<close>

text \<open>
  The records of a dictionary are taken as a multiset, so that moving a record from one place to
  another is visible.
\<close>

definition recs :: "('v \<Rightarrow> run_record list) \<Rightarrow> (path \<times> 'v) list \<Rightarrow> run_record multiset" where
  "recs f d = mset (concat (map (f \<circ> snd) d))"

lemma recs_update:
  assumes "wf_dict d"
  shows "recs f (AList.update k v d) + (case map_of d k of None \<Rightarrow> {#} | Some old \<Rightarrow> mset (f old)) =
    recs f d + mset (f v)"
  using assms
proof (induction d)
  case (Cons kv d)
  obtain k' v' where kv: "kv = (k', v')" by force
  show ?case
  proof (cases "k' = k")
    case False
    with Cons have "recs f (AList.update k v d) + (case map_of d k of None \<Rightarrow> {#} | Some old \<Rightarrow> mset (f old)) =
      recs f d + mset (f v)" by (simp add: wf_dict_def)
    with False show ?thesis by (simp add: kv recs_def ac_simps)
  qed (simp add: kv recs_def)
qed (simp add: recs_def)

lemma recs_delete:
  assumes "wf_dict d"
  shows "recs f (AList.delete k d) + (case map_of d k of None \<Rightarrow> {#} | Some old \<Rightarrow> mset (f old)) = recs f d"
  using assms
proof (induction d)
  case (Cons kv d)
  obtain k' v' where kv: "kv = (k', v')" by force
  have "k \<notin> fst ` set d \<Longrightarrow> AList.delete k d = d" by (induction d) auto
  with Cons kv show ?case by (auto simp: recs_def wf_dict_def ac_simps)
qed (simp add: recs_def)

definition run_set :: "runtime \<Rightarrow> run_record multiset" where
  "run_set rt = recs (\<lambda>r. [r]) (rt_current rt) + recs (\<lambda>q. q) (rt_superseded rt)"

lemma run_set_all: "mset (all_runs rt) = run_set rt"
proof -
  have "concat (map (\<lambda>x. [snd x]) d) = map snd d" for d :: "(path \<times> run_record) list"
    by (induction d) auto
  then show ?thesis by (simp add: run_set_def recs_def all_runs_def comp_def)
qed

definition gens :: "runtime \<Rightarrow> nat multiset" where
  "gens rt = image_mset rr_generation (run_set rt)"

lemma live_gens: "live rt = set_mset (gens rt)"
  by (simp add: live_def gens_def flip: run_set_all)

lemma distinct_subset:
  assumes "mset ys \<subseteq># mset xs" and "distinct xs"
  shows "distinct ys"
proof -
  obtain zs where "mset xs = mset (ys @ zs)"
    using assms(1) by (metis ex_mset mset_append mset_subset_eq_exists_conv)
  then have "distinct (ys @ zs)" using assms(2) mset_eq_imp_distinct_iff by blast
  then show ?thesis by simp
qed

lemma distinct_gens:
  "distinct (map rr_generation (all_runs rt)) \<longleftrightarrow> (\<exists>xs. mset xs = gens rt \<and> distinct xs)"
proof -
  have g: "mset (map rr_generation (all_runs rt)) = gens rt"
    by (simp add: gens_def run_set_all)
  show ?thesis
    using g mset_eq_imp_distinct_iff [of _ "map rr_generation (all_runs rt)"] by metis
qed

definition current_ok :: "run_record \<Rightarrow> bool" where
  "current_ok r \<longleftrightarrow> rr_phase r = P_running \<or> rr_phase r = P_completed"

definition held_ok :: "nat \<Rightarrow> run_record list \<Rightarrow> bool" where
  "held_ok cap q \<longleftrightarrow> length q \<le> cap \<and>
     (\<forall>r \<in> set q. rr_phase r = P_superseded \<and> rr_hold_kind r \<noteq> None \<and> rr_hold_deadline r \<noteq> None)"

lemma runs_ok_alt:
  "runs_ok rt \<longleftrightarrow>
     wf_dict (rt_current rt) \<and> wf_dict (rt_superseded rt)
     \<and> (\<exists>xs. mset xs = gens rt \<and> distinct xs) \<and> (\<forall>g \<in># gens rt. g \<le> rt_generation rt)
     \<and> (\<forall>r \<in> snd ` set (rt_current rt). current_ok r)
     \<and> (\<forall>q \<in> snd ` set (rt_superseded rt). held_ok (sc_superseded_cap (rt_scheduler rt)) q)
     \<and> rt_evicted rt = []"
  by (simp add: runs_ok_def distinct_gens live_gens current_ok_def held_ok_def)

text \<open>
  A step that drops records, and may add a record with the next generation.
\<close>

lemma run_step_moves:
  assumes "runs_ok rt \<Longrightarrow> gens rt' \<subseteq># new + gens rt"
    and "rt_scheduler rt' = rt_scheduler rt"
    and "new = {#} \<and> rt_generation rt' = rt_generation rt
         \<or> new = {#Suc (rt_generation rt)#} \<and> rt_generation rt' = Suc (rt_generation rt)"
    and "runs_ok rt \<Longrightarrow> wf_dict (rt_current rt') \<and> wf_dict (rt_superseded rt') \<and> rt_evicted rt' = []"
    and "runs_ok rt \<Longrightarrow> (\<forall>r \<in> snd ` set (rt_current rt'). current_ok r)
      \<and> (\<forall>q \<in> snd ` set (rt_superseded rt'). held_ok (sc_superseded_cap (rt_scheduler rt)) q)"
  shows "run_step rt rt'"
proof -
  have "runs_ok rt' \<and> live rt' \<subseteq> live rt \<union> {rt_generation rt<..}" if ok: "runs_ok rt"
  proof -
    have sub: "set_mset (gens rt') \<subseteq> set_mset new \<union> set_mset (gens rt)"
      using set_mset_mono [OF assms(1) [OF ok]] by simp
    obtain xs where xs: "mset xs = gens rt" "distinct xs" using ok runs_ok_alt by blast
    obtain ns where ns: "mset ns = new" "distinct (ns @ xs)"
    proof -
      have "Suc (rt_generation rt) \<notin># gens rt" using ok unfolding runs_ok_alt by force
      then have "distinct (Suc (rt_generation rt) # xs)" using xs by (metis distinct.simps(2) set_mset_mset)
      with assms(3) xs that [of "[]"] that [of "[Suc (rt_generation rt)]"] show ?thesis by auto
    qed
    obtain ys where ys: "mset ys = gens rt'" using ex_mset by blast
    have "mset ys \<subseteq># mset (ns @ xs)" using ys xs ns assms(1) [OF ok] by simp
    with ns(2) have "distinct ys" by (rule distinct_subset [rotated])
    with ys have "\<exists>xs. mset xs = gens rt' \<and> distinct xs" by blast
    moreover have "\<forall>g \<in># gens rt'. g \<le> rt_generation rt'"
      using ok sub assms(3) unfolding runs_ok_alt by fastforce
    ultimately have "runs_ok rt'"
      using assms(2) assms(4,5) [OF ok] unfolding runs_ok_alt by simp
    moreover have "live rt' \<subseteq> live rt \<union> {rt_generation rt<..}"
      using sub assms(3) by (auto simp: live_gens)
    ultimately show ?thesis by blast
  qed
  with assms(2,3) show ?thesis by (auto simp: run_step_def)
qed

section \<open>Every operation is a step of the ledger\<close>

lemma evict_loop_eq:
  "evict_loop cap queue evicted =
     (drop (length queue - cap) queue,
      evicted @ map (\<lambda>r. r\<lparr>rr_phase := P_cancelled\<rparr>) (take (length queue - cap) queue))"
  by (induction cap queue evicted rule: evict_loop.induct) (auto simp: Suc_diff_le)

lemma image_values_update: "v \<in> snd ` set (AList.update k w d) \<Longrightarrow> v = w \<or> v \<in> snd ` set d"
  using set_update_values [of k w d] by blast

lemma image_values_delete: "v \<in> snd ` set (AList.delete k d) \<Longrightarrow> v \<in> snd ` set d"
  by (induction d) (auto split: if_splits)

lemma map_of_value: "map_of d k = Some v \<Longrightarrow> v \<in> snd ` set d"
  using map_of_SomeD by force

definition held_gens :: "run_record list \<Rightarrow> nat multiset" where
  "held_gens q = image_mset rr_generation (mset q)"

lemma gens_put_held:
  assumes "wf_dict (rt_superseded rt)"
  shows "gens (rt\<lparr>rt_superseded := AList.update p q (rt_superseded rt)\<rparr>)
      + (case map_of (rt_superseded rt) p of None \<Rightarrow> {#} | Some old \<Rightarrow> held_gens old) =
    gens rt + held_gens q"
  using arg_cong [OF recs_update [OF assms, of "\<lambda>q. q" p q], of "image_mset rr_generation"]
  by (simp add: gens_def run_set_def held_gens_def ac_simps split: option.splits)

lemma gens_put_current:
  assumes "wf_dict (rt_current rt)"
  shows "gens (rt\<lparr>rt_current := AList.update p r (rt_current rt)\<rparr>)
      + (case map_of (rt_current rt) p of None \<Rightarrow> {#} | Some old \<Rightarrow> {#rr_generation old#}) =
    add_mset (rr_generation r) (gens rt)"
  using arg_cong [OF recs_update [OF assms, of "\<lambda>r. [r]" p r], of "image_mset rr_generation"]
  by (simp add: gens_def run_set_def ac_simps split: option.splits)

lemma gens_pop_current:
  assumes "wf_dict (rt_current rt)"
  shows "gens (rt\<lparr>rt_current := AList.delete p (rt_current rt)\<rparr>)
      + (case map_of (rt_current rt) p of None \<Rightarrow> {#} | Some old \<Rightarrow> {#rr_generation old#}) = gens rt"
  using arg_cong [OF recs_delete [OF assms, of "\<lambda>r. [r]" p], of "image_mset rr_generation"]
  by (simp add: gens_def run_set_def ac_simps split: option.splits)

lemma runs_okD:
  assumes "runs_ok rt"
  shows "wf_dict (rt_current rt)" "wf_dict (rt_superseded rt)" "rt_evicted rt = []"
    and "map_of (rt_current rt) p = Some r \<Longrightarrow> current_ok r"
    and "map_of (rt_superseded rt) p = Some q \<Longrightarrow> held_ok (sc_superseded_cap (rt_scheduler rt)) q"
proof -
  show "wf_dict (rt_current rt)" "wf_dict (rt_superseded rt)" "rt_evicted rt = []"
    using assms by (simp_all only: runs_ok_alt)
  show "current_ok r" if "map_of (rt_current rt) p = Some r"
    using assms map_of_value [OF that] unfolding runs_ok_alt by blast
  show "held_ok (sc_superseded_cap (rt_scheduler rt)) q" if "map_of (rt_superseded rt) p = Some q"
    using assms map_of_value [OF that] unfolding runs_ok_alt by blast
qed

lemma subset_exchange: "A + H = G + H' \<Longrightarrow> H' \<subseteq># H \<Longrightarrow> A \<subseteq># (G :: 'a multiset)"
  by (auto simp: mset_subset_eq_exists_conv ac_simps)

lemma run_values:
  assumes "runs_ok rt"
  shows "v \<in> snd ` set (rt_current rt) \<Longrightarrow> current_ok v"
    and "q \<in> snd ` set (rt_superseded rt) \<Longrightarrow> held_ok (sc_superseded_cap (rt_scheduler rt)) q"
  using assms unfolding runs_ok_alt by blast+

text \<open>Replacing a queue by a part of it.\<close>

lemma put_held_step:
  assumes q: "map_of (rt_superseded rt) p = Some q"
    and sub: "held_gens q' \<subseteq># held_gens q"
    and ok: "\<And>cap. held_ok cap q \<Longrightarrow> held_ok cap q'"
  shows "run_step rt (rt\<lparr>rt_superseded := AList.update p q' (rt_superseded rt)\<rparr>)"
proof (rule run_step_moves [where new = "{#}"])
  assume r: "runs_ok rt"
  have "gens (rt\<lparr>rt_superseded := AList.update p q' (rt_superseded rt)\<rparr>) + held_gens q = gens rt + held_gens q'"
    using gens_put_held [OF runs_okD(2) [OF r], of p q'] q by simp
  with sub show "gens (rt\<lparr>rt_superseded := AList.update p q' (rt_superseded rt)\<rparr>) \<subseteq># {#} + gens rt"
    by (simp add: subset_exchange)
  show "(\<forall>r \<in> snd ` set (rt_current (rt\<lparr>rt_superseded := AList.update p q' (rt_superseded rt)\<rparr>)). current_ok r)
      \<and> (\<forall>qa \<in> snd ` set (rt_superseded (rt\<lparr>rt_superseded := AList.update p q' (rt_superseded rt)\<rparr>)).
           held_ok (sc_superseded_cap (rt_scheduler rt)) qa)"
  proof (intro conjI ballI)
    fix v
    assume "v \<in> snd ` set (rt_current (rt\<lparr>rt_superseded := AList.update p q' (rt_superseded rt)\<rparr>))"
    then show "current_ok v" using run_values(1) [OF r] by simp
  next
    fix v
    assume "v \<in> snd ` set (rt_superseded (rt\<lparr>rt_superseded := AList.update p q' (rt_superseded rt)\<rparr>))"
    then have "v = q' \<or> v \<in> snd ` set (rt_superseded rt)"
      by (intro image_values_update [of v p q' "rt_superseded rt"]) simp
    then show "held_ok (sc_superseded_cap (rt_scheduler rt)) v"
      using run_values(2) [OF r] ok [OF runs_okD(5) [OF r q]] by blast
  qed
qed (use runs_okD in auto)

lemma held_filter:
  "held_gens (filter P q) \<subseteq># held_gens q" "held_ok cap q \<Longrightarrow> held_ok cap (filter P q)"
  by (auto simp: held_gens_def held_ok_def image_mset_subseteq_mono multiset_filter_subset
      intro: le_trans [OF length_filter_le])

lemma release_upstream_step: "ledger_step s (release_upstream_holds p keep s)"
proof (cases "map_of (rt_superseded (cx_runtime s)) p")
  case (Some q)
  show ?thesis
    unfolding ledger_step_def release_upstream_holds_def Some option.case Let_def
    by (simp add: add_effects_def put_held_def set_runtime_def put_held_step [OF Some] held_filter)
qed (simp add: release_upstream_holds_def ledger_step_def)

lemma set_runtime_simps [simp]:
  "cx_runtime (set_runtime rt s) = rt" "cx_runtime (add_effects es s) = cx_runtime s"
  "cx_runtime (add_effect e s) = cx_runtime s"
  by (simp_all add: set_runtime_def add_effects_def add_effect_def)

text \<open>Superseding the current run of a path and clearing the list of the evicted.\<close>

lemma supersede_step: "run_step rt ((supersede p kind now rt)\<lparr>rt_evicted := []\<rparr>)"
proof (cases "map_of (rt_current rt) p")
  case None
  have "rt\<lparr>rt_evicted := []\<rparr> = rt" if "runs_ok rt" using runs_okD(3) [OF that] by simp
  with None show ?thesis by (auto simp: supersede_def run_step_def)
next
  case (Some r)
  define r' where "r' = r\<lparr>rr_phase := P_superseded, rr_hold_kind := Some kind,
    rr_hold_deadline := hold_deadline (rt_scheduler rt) (Some kind) now\<rparr>"
  define old where "old = (case map_of (rt_superseded rt) p of None \<Rightarrow> [] | Some q \<Rightarrow> q)"
  define cap where "cap = sc_superseded_cap (rt_scheduler rt)"
  define q where "q = drop (length (old @ [r']) - cap) (old @ [r'])"
  define rt1 where "rt1 = rt\<lparr>rt_current := AList.delete p (rt_current rt)\<rparr>"
  define rt2 where "rt2 = rt1\<lparr>rt_superseded := AList.update p q (rt_superseded rt1)\<rparr>"
  have s: "(supersede p kind now rt)\<lparr>rt_evicted := []\<rparr> = rt2\<lparr>rt_evicted := []\<rparr>"
    unfolding supersede_def Some option.case Let_def r'_def [symmetric] old_def [symmetric]
      cap_def [symmetric] evict_loop_eq prod.case rt2_def rt1_def q_def
    by simp
  have g': "rr_generation r' = rr_generation r" by (simp add: r'_def)
  have hq: "held_gens q \<subseteq># held_gens old + {#rr_generation r#}"
  proof -
    have "held_gens q \<subseteq># held_gens (old @ [r'])"
      unfolding q_def held_gens_def by (intro image_mset_subseteq_mono) (metis append_take_drop_id mset_append mset_subset_eq_add_right)
    then show ?thesis by (simp add: held_gens_def g')
  qed
  show ?thesis
    unfolding s
  proof (rule run_step_moves [where new = "{#}"])
    assume ok: "runs_ok rt"
    note wf = runs_okD(1,2) [OF ok]
    have e1: "gens rt1 + {#rr_generation r#} = gens rt"
      using gens_pop_current [OF wf(1), of p] Some by (simp add: rt1_def)
    have e2: "gens rt2 + held_gens old = gens rt1 + held_gens q"
      using gens_put_held [of rt1 p q] wf(2)
      by (simp add: rt1_def rt2_def old_def held_gens_def split: option.splits)
    have "gens rt1 + held_gens q \<subseteq># gens rt1 + (held_gens old + {#rr_generation r#})"
      using hq by simp
    also have "\<dots> = gens rt + held_gens old" unfolding e1 [symmetric] by simp
    finally have "gens rt2 + held_gens old \<subseteq># gens rt + held_gens old" unfolding e2 .
    moreover have "gens (rt2\<lparr>rt_evicted := []\<rparr>) = gens rt2" by (simp add: gens_def run_set_def)
    ultimately show "gens (rt2\<lparr>rt_evicted := []\<rparr>) \<subseteq># {#} + gens rt" by simp
    have hold: "\<exists>d. hold_deadline sch (Some kind) now = Some d" for sch
      by (cases kind) (simp_all add: hold_deadline_def)
    have "held_ok cap old"
      using runs_okD(5) [OF ok] by (auto simp: old_def held_ok_def cap_def split: option.splits)
    then have okq: "held_ok cap q"
      using hold by (auto simp: held_ok_def q_def r'_def dest!: in_set_dropD)
    show "(\<forall>r \<in> snd ` set (rt_current (rt2\<lparr>rt_evicted := []\<rparr>)). current_ok r)
      \<and> (\<forall>q \<in> snd ` set (rt_superseded (rt2\<lparr>rt_evicted := []\<rparr>)). held_ok (sc_superseded_cap (rt_scheduler rt)) q)"
    proof (intro conjI ballI)
      fix v assume "v \<in> snd ` set (rt_current (rt2\<lparr>rt_evicted := []\<rparr>))"
      then have "v \<in> snd ` set (rt_current rt)"
        by (intro image_values_delete [of v p "rt_current rt"]) (simp add: rt2_def rt1_def)
      then show "current_ok v" by (rule run_values(1) [OF ok])
    next
      fix v assume "v \<in> snd ` set (rt_superseded (rt2\<lparr>rt_evicted := []\<rparr>))"
      then have "v = q \<or> v \<in> snd ` set (rt_superseded rt)"
        by (intro image_values_update [of v p q "rt_superseded rt"]) (simp add: rt2_def rt1_def)
      then show "held_ok (sc_superseded_cap (rt_scheduler rt)) v"
        using run_values(2) [OF ok] okq unfolding cap_def by blast
    qed
    show "wf_dict (rt_current (rt2\<lparr>rt_evicted := []\<rparr>)) \<and> wf_dict (rt_superseded (rt2\<lparr>rt_evicted := []\<rparr>))
       \<and> rt_evicted (rt2\<lparr>rt_evicted := []\<rparr>) = []"
      using wf by (simp add: rt2_def rt1_def)
  qed (simp_all add: rt2_def rt1_def)
qed

lemma suspend_runtime:
  "cx_runtime (suspend p now s) =
     (case current_run s p of None \<Rightarrow> cx_runtime s
      | Some r \<Rightarrow> (supersede p (if upstream_unresolved s p then Upstream else Self_edit) now (cx_runtime s))\<lparr>rt_evicted := []\<rparr>)"
  by (simp add: suspend_def Let_def split: option.splits)

lemma suspend_step: "ledger_step s (suspend p now s)"
  using supersede_step by (auto simp: ledger_step_def suspend_runtime split: option.splits)

text \<open>Storing a record at a path: one with the generation that is there, or a new one.\<close>

lemma put_current_values:
  assumes "runs_ok rt" and "current_ok r"
  shows "(\<forall>v \<in> snd ` set (AList.update p r (rt_current rt)). current_ok v)"
proof
  fix v assume "v \<in> snd ` set (AList.update p r (rt_current rt))"
  then have "v = r \<or> v \<in> snd ` set (rt_current rt)" by (rule image_values_update)
  then show "current_ok v" using run_values(1) [OF assms(1)] assms(2) by blast
qed

lemma write_current_step:
  assumes "map_of (rt_current rt) p = Some r" and "rr_generation r' = rr_generation r"
    and "current_ok r \<Longrightarrow> current_ok r'"
  shows "run_step rt (rt\<lparr>rt_current := AList.update p r' (rt_current rt)\<rparr>)"
proof (rule run_step_moves [where new = "{#}"])
  assume ok: "runs_ok rt"
  have "gens (rt\<lparr>rt_current := AList.update p r' (rt_current rt)\<rparr>) = gens rt"
    using gens_put_current [OF runs_okD(1) [OF ok], of p r'] assms(1,2) by simp
  then show "gens (rt\<lparr>rt_current := AList.update p r' (rt_current rt)\<rparr>) \<subseteq># {#} + gens rt" by simp
  have "current_ok r'" using assms(1,3) runs_okD(4) [OF ok] by blast
  then show "(\<forall>r \<in> snd ` set (rt_current (rt\<lparr>rt_current := AList.update p r' (rt_current rt)\<rparr>)). current_ok r)
      \<and> (\<forall>q \<in> snd ` set (rt_superseded (rt\<lparr>rt_current := AList.update p r' (rt_current rt)\<rparr>)).
            held_ok (sc_superseded_cap (rt_scheduler rt)) q)"
    using put_current_values [OF ok] run_values(2) [OF ok] by simp
qed (use runs_okD in auto)

lemma new_current_step:
  assumes "rr_generation r = Suc (rt_generation rt)" and "current_ok r"
  shows "run_step rt (rt\<lparr>rt_generation := Suc (rt_generation rt),
                        rt_current := AList.update p r (rt_current rt)\<rparr>)"
    (is "run_step rt ?rt")
proof (rule run_step_moves [where new = "{#Suc (rt_generation rt)#}"])
  assume ok: "runs_ok rt"
  have "gens ?rt = gens (rt\<lparr>rt_current := AList.update p r (rt_current rt)\<rparr>)"
    by (simp add: gens_def run_set_def)
  then show "gens ?rt \<subseteq># {#Suc (rt_generation rt)#} + gens rt"
    using gens_put_current [OF runs_okD(1) [OF ok], of p r] assms(1)
    by (metis add_mset_add_single mset_subset_eq_add_left union_commute)
  show "(\<forall>r \<in> snd ` set (rt_current ?rt). current_ok r)
      \<and> (\<forall>q \<in> snd ` set (rt_superseded ?rt). held_ok (sc_superseded_cap (rt_scheduler rt)) q)"
    using put_current_values [OF ok assms(2)] run_values(2) [OF ok] by simp
qed (use runs_okD in auto)

lemma start_cell_step: "ledger_step s (start_cell_run p nd s)"
proof -
  have "current_ok (cell_record p nd g)" "rr_generation (cell_record p nd g) = g" for g
    by (simp_all add: current_ok_def cell_record_def)
  then show ?thesis
    using new_current_step [of "cell_record p nd (Suc (rt_generation (cx_runtime s)))" "cx_runtime s" p]
    by (simp add: ledger_step_def start_cell_run_def next_generation_def put_current_def set_runtime_def)
qed

lemma current_run_release [simp]: "current_run (release_upstream_holds p keep s) q = current_run s q"
  by (simp add: current_run_def release_upstream_holds_def put_held_def Let_def split: option.splits)

lemma put_current_step:
  assumes "current_run s p = Some r" and "rr_generation r' = rr_generation r" and "rr_phase r' = rr_phase r"
  shows "ledger_step s (put_current p r' s)"
  using write_current_step [of "cx_runtime s" p r r'] assms
  by (simp add: ledger_step_def put_current_def current_run_def current_ok_def)

lemma update_runtime_step: "ledger_step s (update_runtime p now s)"
proof (cases "get_node s p")
  case (Some nd)
  let ?s1 = "release_upstream_holds p (\<lambda>_. False) s"
  note rel = release_upstream_step [of s p "\<lambda>_. False"]
  have put: "ledger_step s (put_current p (r\<lparr>rr_result := x\<rparr>) ?s1)" if "current_run s p = Some r" for r x
    by (rule ledger_step_trans [OF rel put_current_step]) (use that in simp_all)
  have start: "ledger_step s (start_cell_run p nd ?s1)"
    by (rule ledger_step_trans [OF rel start_cell_step])
  have again: "ledger_step s (start_cell_run p nd (suspend p now ?s1))"
    by (rule ledger_step_trans [OF rel ledger_step_trans [OF suspend_step start_cell_step]])
  show ?thesis
    unfolding update_runtime_def Some option.case Let_def
    using put start again suspend_step by (auto simp: ledger_step_same split: option.split)
qed (simp add: update_runtime_def ledger_step_same)

subsection \<open>Expiry and pruning\<close>

lemma take_superseded_runtime: "cx_runtime (snd (take_superseded X active s)) = cx_runtime s"
  by (induction X active s rule: take_superseded.induct)
     (auto simp: acquire_def incref_def split: option.splits prod.splits)

lemma drop_superseded_runtime: "cx_runtime (drop_superseded active old s) = cx_runtime s"
  by (induction active old s rule: drop_superseded.induct) (auto simp: release_refs)

lemma sync_superseded_runtime [simp]:
  "cx_runtime (snd (sync_superseded_refholds X s)) = cx_runtime s"
  by (simp add: sync_superseded_refholds_def Let_def take_superseded_runtime drop_superseded_runtime)

lemma expire_runtime:
  "cx_runtime (snd (expire_run X p g now s)) =
     (case map_of (rt_superseded (cx_runtime s)) p of
        None \<Rightarrow> cx_runtime s
      | Some q \<Rightarrow> (cx_runtime s)\<lparr>rt_superseded :=
          AList.update p (filter (\<lambda>r. \<not> expires g now r) q) (rt_superseded (cx_runtime s))\<rparr>)"
  by (simp add: expire_run_def put_held_def split: option.splits)

lemma expire_step: "ledger_step s (snd (expire_run X p g now s))"
  by (auto simp: ledger_step_def expire_runtime put_held_step held_filter split: option.splits)

lemma prune_loop_filter:
  "snd (prune_loop paths d n) =
     filter (\<lambda>(p, _). case paths of None \<Rightarrow> False | Some ps \<Rightarrow> \<not> List.member ps p) d"
  by (induction paths d n rule: prune_loop.induct) (auto split: prod.splits)

lemma prune_loop_count:
  "fst (prune_loop paths d n) = n + length (concat (map (\<lambda>(p, q). filter (\<lambda>r. rr_phase r \<noteq> P_cancelled) q)
     (filter (\<lambda>(p, _). \<not> (case paths of None \<Rightarrow> False | Some ps \<Rightarrow> \<not> List.member ps p)) d)))"
  by (induction paths d n rule: prune_loop.induct) (auto split: prod.splits)

lemma filter_queues_step:
  "run_step rt (rt\<lparr>rt_superseded := filter P (rt_superseded rt)\<rparr>)"
proof (rule run_step_moves [where new = "{#}"])
  have "recs (\<lambda>q. q) (filter P d) \<subseteq># recs (\<lambda>q. q) d" for d :: "(path \<times> run_record list) list"
    by (induction d) (auto simp: recs_def intro: subset_mset.add_increasing)
  then show "gens (rt\<lparr>rt_superseded := filter P (rt_superseded rt)\<rparr>) \<subseteq># {#} + gens rt"
    by (simp add: gens_def run_set_def image_mset_subseteq_mono)
  assume ok: "runs_ok rt"
  show "wf_dict (rt_current (rt\<lparr>rt_superseded := filter P (rt_superseded rt)\<rparr>))
      \<and> wf_dict (rt_superseded (rt\<lparr>rt_superseded := filter P (rt_superseded rt)\<rparr>))
      \<and> rt_evicted (rt\<lparr>rt_superseded := filter P (rt_superseded rt)\<rparr>) = []"
    using runs_okD [OF ok] by (simp add: wf_dict_def distinct_map_filter)
  show "(\<forall>r \<in> snd ` set (rt_current (rt\<lparr>rt_superseded := filter P (rt_superseded rt)\<rparr>)). current_ok r)
      \<and> (\<forall>q \<in> snd ` set (rt_superseded (rt\<lparr>rt_superseded := filter P (rt_superseded rt)\<rparr>)).
            held_ok (sc_superseded_cap (rt_scheduler rt)) q)"
    using run_values [OF ok] by auto
qed simp_all

lemma prune_runtime:
  "cx_runtime (snd (prune X node_path s)) =
     snd (prune_runs (map_option (\<lambda>p. p # downstream_cone (cx_graph s) p) node_path) (cx_runtime s))"
proof -
  have "cx_runtime (snd (bnd (sync_superseded_refholds X) (\<lambda>_. ret n) s)) = cx_runtime s" for n :: nat and s
  proof -
    obtain r s' where r: "sync_superseded_refholds X s = (r, s')" by force
    then have "cx_runtime s' = cx_runtime s" by (metis snd_conv sync_superseded_runtime)
    with r show ?thesis by (cases r) (simp_all add: bnd_def)
  qed
  then show ?thesis by (simp add: prune_def Let_def split: prod.splits)
qed

lemma prune_step: "ledger_step s (snd (prune X node_path s))"
  unfolding ledger_step_def prune_runtime prune_runs_def
  by (simp add: prod.case_eq_if prune_loop_filter filter_queues_step)

subsection \<open>Completions\<close>

lemma held_runs_in: "r \<in> set (held_runs s p) \<Longrightarrow> \<exists>q. map_of (rt_superseded (cx_runtime s)) p = Some q \<and> r \<in> set q"
  by (cases "map_of (rt_superseded (cx_runtime s)) p") (simp_all add: held_runs_def)

lemma find_run_live:
  assumes "find_run s p g = Some r"
  shows "rr_generation r = g" and "g \<in> live (cx_runtime s)"
    and "current_run s p = Some r \<or> r \<in> set (held_runs s p)"
proof -
  have "rr_generation r = g \<and> (current_run s p = Some r \<or> r \<in> set (held_runs s p))"
    using assms by (auto simp: find_run_def find_Some_iff split: option.splits if_splits)
  then show g: "rr_generation r = g" and place: "current_run s p = Some r \<or> r \<in> set (held_runs s p)"
    by blast+
  have "r \<in> set (all_runs (cx_runtime s))"
    using place
  proof
    assume "current_run s p = Some r"
    then show ?thesis using map_of_value by (fastforce simp: current_run_def all_runs_def)
  next
    assume "r \<in> set (held_runs s p)"
    then obtain q where "map_of (rt_superseded (cx_runtime s)) p = Some q" "r \<in> set q"
      using held_runs_in by blast
    then show ?thesis using map_of_SomeD by (fastforce simp: all_runs_def)
  qed
  with g show "g \<in> live (cx_runtime s)" by (auto simp: live_def)
qed

lemma held_map:
  assumes "\<And>r. rr_generation (f r) = rr_generation r"
    and "\<And>r. rr_phase r = P_superseded \<Longrightarrow> rr_phase (f r) = P_superseded"
    and "\<And>r. rr_hold_kind (f r) = rr_hold_kind r" and "\<And>r. rr_hold_deadline (f r) = rr_hold_deadline r"
  shows "held_gens (map (\<lambda>q. if P q then f q else q) qs) = held_gens qs"
    and "held_ok cap qs \<Longrightarrow> held_ok cap (map (\<lambda>q. if P q then f q else q) qs)"
proof -
  show "held_gens (map (\<lambda>q. if P q then f q else q) qs) = held_gens qs"
    by (induction qs) (simp_all add: held_gens_def assms)
  show "held_ok cap (map (\<lambda>q. if P q then f q else q) qs)" if "held_ok cap qs"
    using that assms by (auto simp: held_ok_def)
qed

lemma write_run_step:
  assumes "\<And>r. rr_generation (f r) = rr_generation r"
    and "\<And>r. rr_phase r = P_superseded \<Longrightarrow> rr_phase (f r) = P_superseded"
    and "\<And>r. rr_hold_kind (f r) = rr_hold_kind r" and "\<And>r. rr_hold_deadline (f r) = rr_hold_deadline r"
    and "\<And>r. current_ok r \<Longrightarrow> current_ok (f r)"
  shows "ledger_step s (write_run p g f s)"
proof (cases "find_run s p g")
  case (Some r)
  show ?thesis
  proof (cases "current_run s p = Some r")
    case True
    then show ?thesis
      using write_current_step [of "cx_runtime s" p r "f r"] assms
      by (simp add: write_run_def Some ledger_step_def put_current_def current_run_def)
  next
    case False
    then have "r \<in> set (held_runs s p)" using find_run_live(3) [OF Some] by blast
    then obtain q where q: "map_of (rt_superseded (cx_runtime s)) p = Some q"
      using held_runs_in by blast
    have "run_step (cx_runtime s) ((cx_runtime s)\<lparr>rt_superseded := AList.update p
        (map (\<lambda>q. if rr_generation q = g then f q else q) q) (rt_superseded (cx_runtime s))\<rparr>)"
      by (rule put_held_step [OF q]) (simp_all add: held_map assms)
    then show ?thesis using False
      by (simp add: write_run_def Some ledger_step_def put_held_def held_runs_def q)
  qed
qed (simp add: write_run_def ledger_step_same)

lemma finish_run_step: "ledger_step s (write_run p g (finish_run tf_checksum result err) s)"
  by (rule write_run_step) (auto simp: finish_run_def current_ok_def Let_def)

lemma started_record_step: "ledger_step s (started_record p g tf_checksum s)"
  unfolding started_record_def by (rule write_run_step) (auto simp: current_ok_def)

section \<open>Sequences of steps\<close>

text \<open>
  The operations of the ledger share one contract: a step keeps its invariant and gives no
  retired generation back. A client that runs any of them in any order may rely on that.
\<close>

definition retired :: "runtime \<Rightarrow> nat \<Rightarrow> bool" where
  "retired rt g \<longleftrightarrow> g \<le> rt_generation rt \<and> g \<notin> live rt"

locale run_operation =
  fixes operation :: "ctx \<Rightarrow> ctx"
  assumes step: "ledger_step s (operation s)"
begin

lemma keeps_ok: "runs_ok (cx_runtime s) \<Longrightarrow> runs_ok (cx_runtime (operation s))"
  using step [of s] by (simp add: ledger_step_def run_step_def)

lemma keeps_retired:
  "runs_ok (cx_runtime s) \<Longrightarrow> retired (cx_runtime s) g \<Longrightarrow> retired (cx_runtime (operation s)) g"
  using step [of s] by (fastforce simp: ledger_step_def run_step_def retired_def)

lemma iterate: "ledger_step s ((operation ^^ n) s)"
  by (induction n) (auto intro: ledger_step_trans step ledger_step_same)

end

interpretation suspending: run_operation "suspend p now" for p now
  by unfold_locales (rule suspend_step)

interpretation releasing: run_operation "release_upstream_holds p keep" for p keep
  by unfold_locales (rule release_upstream_step)

interpretation updating: run_operation "update_runtime p now" for p now
  by unfold_locales (rule update_runtime_step)

interpretation expiring: run_operation "\<lambda>s. snd (expire_run X p g now s)" for X p g now
  by unfold_locales (rule expire_step)

interpretation pruning: run_operation "\<lambda>s. snd (prune X node_path s)" for X node_path
  by unfold_locales (rule prune_step)

interpretation finishing: run_operation "write_run p g (finish_run tf_checksum result err)"
    for p g tf_checksum result err
  by unfold_locales (rule finish_run_step)

lemma retired_find: "retired (cx_runtime s) g \<Longrightarrow> find_run s p g = None"
  using find_run_live(2) [of s p g] by (cases "find_run s p g") (auto simp: retired_def)

section \<open>Properties\<close>

definition example_run :: "nat \<Rightarrow> run_record" where
  "example_run g =
     \<lparr>rr_path = [KStr ''t''], rr_et = True, rr_identity = None, rr_result = None, rr_exception = None,
      rr_phase = P_running, rr_generation = g, rr_hold_deadline = None, rr_hold_kind = None,
      rr_demand_key = None, rr_error = None, rr_dispatch_scratch = None\<rparr>"

definition example_ctx :: "nat \<Rightarrow> ctx" where
  "example_ctx cap =
     (init_ctx ''top'')\<lparr>cx_runtime := (init_runtime 1)
        \<lparr>rt_scheduler := \<lparr>sc_superseded_cap = cap, sc_self_edit_hold = 30, sc_upstream_hold = 300\<rparr>,
         rt_current := [([KStr ''t''], example_run 1)]\<rparr>\<rparr>"

lemma example_ok: "runs_ok (cx_runtime (example_ctx cap))"
  by (simp add: runs_ok_def example_ctx_def init_runtime_def wf_dict_def all_runs_def live_def
      example_run_def)

text \<open>C29: The ledger of runs keeps its invariant under every operation: no path holds more
  superseded runs than the cap, generations are unique and never above the counter, a current
  run is running or completed, and a held run is superseded with a reason and a deadline.\<close>

theorem run_operations_keep_invariant:
  assumes "runs_ok (cx_runtime s)"
  shows "runs_ok (cx_runtime (suspend p now s))
    \<and> runs_ok (cx_runtime (release_upstream_holds p keep s))
    \<and> runs_ok (cx_runtime (update_runtime p now s))
    \<and> runs_ok (cx_runtime (snd (expire_run X p g now s)))
    \<and> runs_ok (cx_runtime (snd (prune X node_path s)))
    \<and> runs_ok (cx_runtime (write_run p g (finish_run tf_checksum result err) s))"
  by (intro conjI suspending.keeps_ok releasing.keeps_ok updating.keeps_ok expiring.keeps_ok
      pruning.keeps_ok finishing.keeps_ok assms)

theorem run_operations_keep_invariant_witness:
  "runs_ok (cx_runtime (suspend [KStr ''t''] 0 (example_ctx 3)))"
  using run_operations_keep_invariant [OF example_ok] by blast

lemma supersede_held:
  assumes "map_of (rt_current rt) p = Some r"
    and "q = (case map_of (rt_superseded rt) p of None \<Rightarrow> [] | Some q \<Rightarrow> q) @
      [r\<lparr>rr_phase := P_superseded, rr_hold_kind := Some kind,
         rr_hold_deadline := hold_deadline (rt_scheduler rt) (Some kind) now\<rparr>]"
  shows "map_of (rt_superseded (supersede p kind now rt)) p =
      Some (drop (length q - sc_superseded_cap (rt_scheduler rt)) q)"
    and "map_of (rt_current (supersede p kind now rt)) p = None"
proof -
  let ?rt = "rt\<lparr>rt_current := AList.delete p (rt_current rt),
      rt_superseded := AList.update p (drop (length q - sc_superseded_cap (rt_scheduler rt)) q) (rt_superseded rt),
      rt_evicted := rt_evicted rt @ map (\<lambda>r. r\<lparr>rr_phase := P_cancelled\<rparr>)
        (take (length q - sc_superseded_cap (rt_scheduler rt)) q)\<rparr>"
  have "supersede p kind now rt = ?rt"
    unfolding supersede_def assms(1) option.case Let_def evict_loop_eq prod.case assms(2) ..
  then show "map_of (rt_superseded (supersede p kind now rt)) p =
      Some (drop (length q - sc_superseded_cap (rt_scheduler rt)) q)"
    "map_of (rt_current (supersede p kind now rt)) p = None" by simp_all
qed

lemma held_after_suspend:
  assumes r: "current_run s p = Some r"
    and q: "q = held_runs s p @ [r\<lparr>rr_phase := P_superseded, rr_hold_kind := Some kind,
           rr_hold_deadline := hold_deadline (rt_scheduler (cx_runtime s)) (Some kind) now\<rparr>]"
    and kind: "kind = (if upstream_unresolved s p then Upstream else Self_edit)"
  shows "held_runs (suspend p now s) p =
      drop (length q - sc_superseded_cap (rt_scheduler (cx_runtime s))) q"
    and "current_run (suspend p now s) p = None"
  using supersede_held [OF r [unfolded current_run_def] q [unfolded held_runs_def]]
  by (simp_all add: held_runs_def current_run_def [where s = "suspend p now s"] suspend_runtime r flip: kind)

text \<open>C31: Superseding a run holds it behind the runs held already and keeps the newest ones up to
  the cap, in order: the oldest beyond the cap are given up, the path has no current run left,
  and the hold ends after the upstream limit exactly when an upstream is still being computed.\<close>

theorem suspend_holds_newest:
  assumes "current_run s p = Some r"
  shows "(let q = held_runs s p @ [r\<lparr>rr_phase := P_superseded,
              rr_hold_kind := Some (if upstream_unresolved s p then Upstream else Self_edit),
              rr_hold_deadline := Some (now + (if upstream_unresolved s p
                 then sc_upstream_hold (rt_scheduler (cx_runtime s))
                 else sc_self_edit_hold (rt_scheduler (cx_runtime s))))\<rparr>]
     in held_runs (suspend p now s) p =
        drop (length q - sc_superseded_cap (rt_scheduler (cx_runtime s))) q)
     \<and> current_run (suspend p now s) p = None"
  using held_after_suspend [OF assms refl refl, of now] by (simp add: hold_deadline_def Let_def)

theorem suspend_holds_newest_witness:
  "map rr_generation (held_runs (suspend [KStr ''t''] 10 (example_ctx 3)) [KStr ''t'']) = [1]
   \<and> map rr_hold_deadline (held_runs (suspend [KStr ''t''] 10 (example_ctx 3)) [KStr ''t'']) = [Some 40]"
proof -
  have c: "current_run (example_ctx 3) [KStr ''t''] = Some (example_run 1)"
    by (simp add: current_run_def example_ctx_def)
  have h: "held_runs (example_ctx 3) [KStr ''t''] = []" "sc_superseded_cap (rt_scheduler (cx_runtime (example_ctx 3))) = 3"
    "sc_self_edit_hold (rt_scheduler (cx_runtime (example_ctx 3))) = 30"
    by (simp_all add: held_runs_def example_ctx_def init_runtime_def)
  have u: "\<not> upstream_unresolved (example_ctx 3) [KStr ''t'']"
    by (simp add: upstream_unresolved_def incoming_for_def example_ctx_def init_ctx_def empty_graph_def)
  show ?thesis
    using suspend_holds_newest [OF c, of 10] by (simp add: h u example_run_def)
qed

text \<open>The expiry of a hold takes away exactly the held record of that generation whose
  deadline has passed: a run that was reinstated, renewed or is held at another path stays, and
  the current runs are not touched.\<close>

theorem expiry_exact:
  "held_runs (snd (expire_run X p g now s)) q =
     (if q = p then filter (\<lambda>r. \<not> expires g now r) (held_runs s p) else held_runs s q)
   \<and> current_run (snd (expire_run X p g now s)) q = current_run s q"
  by (auto simp: held_runs_def current_run_def expire_runtime split: option.splits)

end
