(* ===== verification/Derive_Source.thy ===== *)
theory Derive_Source
  imports Runs
begin

text \<open>
  What an edge delivers: demands on side work (\<open>_demand\<close>), the evaluation of one Expression
  (\<open>_projection\<close>), the root of a fused projection (\<open>_fused_projection_source\<close>), the deep
  step (\<open>_evaluate_deep_step\<close>), and the state and checksum at the source of an edge
  (\<open>_source_state\<close>), all of \<^verbatim>\<open>context.py\<close>.

  A demand is answered from the table of facts, or becomes a job of the side loop. The recipe
  objects and the materializers that a demand hands to its job take no part in its key and in
  the answer, and are not modelled; neither are the leases of the job itself.
\<close>

type_synonym outcome = "nstate \<times> checksum option \<times> error option"

section \<open>Small readings\<close>

definition or_else :: "celltype option \<Rightarrow> celltype \<Rightarrow> celltype" where
  "or_else c d = (case c of Some t \<Rightarrow> if t \<noteq> [] then t else d | None \<Rightarrow> d)"

definition node_type :: "ctx \<Rightarrow> path \<Rightarrow> celltype" where
  "node_type s p = (case get_node s p of Some nd \<Rightarrow> config_celltype nd | None \<Rightarrow> [])"

definition celltype_for_path :: "ctx \<Rightarrow> path \<Rightarrow> path \<Rightarrow> celltype" where
  "celltype_for_path s p local = projected_celltype (node_type s p) local"

definition pin_celltypes :: "celltype list" where
  "pin_celltypes = [''plain'', ''mixed'', ''deepcell'', ''deepfolder'', ''folder'']"

definition edge_input_celltype :: "ctx \<Rightarrow> edge \<Rightarrow> (exc + celltype)" where
  "edge_input_celltype s e =
     (case resolve_existing (cx_graph s) (ed_source e) of
        None \<Rightarrow> Inl Key_Error
      | Some (source, source_local) \<Rightarrow>
          (if (source_local \<noteq> [] \<or> ed_conversion e) \<and> ed_source_celltype e \<noteq> None
           then Inr (the (ed_source_celltype e))
           else if source_local \<noteq> [] then Inr (celltype_for_path s source source_local)
           else Inr (node_type s source)))"

fun input_celltype_scan :: "ctx \<Rightarrow> (path \<times> edge) list \<Rightarrow> path \<Rightarrow> nat \<Rightarrow> (exc + celltype) option" where
  "input_celltype_scan s incoming local 0 =
     (case map_of incoming [] of Some e \<Rightarrow> Some (edge_input_celltype s e) | None \<Rightarrow> None)"
| "input_celltype_scan s incoming local (Suc n) =
     (case map_of incoming (take (Suc n) local) of
        Some e \<Rightarrow> Some (edge_input_celltype s e)
      | None \<Rightarrow> input_celltype_scan s incoming local n)"

definition input_celltype_for_path :: "ctx \<Rightarrow> path \<Rightarrow> path \<Rightarrow> exc + celltype option" where
  "input_celltype_for_path s p local =
     (case input_celltype_scan s (incoming_for (cx_graph s) p) local (length local) of
        Some (Inl x) \<Rightarrow> Inl x
      | Some (Inr t) \<Rightarrow> Inr (Some t)
      | None \<Rightarrow> Inr (case get_node s p of
                       None \<Rightarrow> None
                     | Some nd \<Rightarrow> map_option cp_celltype (nd_root_producer nd)))"

definition sessions_for :: "ctx \<Rightarrow> path \<Rightarrow> session list" where
  "sessions_for s p = map snd (filter (\<lambda>k. fst (fst k) = p) (cx_sessions s))"

definition put_edge_error :: "path \<Rightarrow> error option \<Rightarrow> ctx \<Rightarrow> ctx" where
  "put_edge_error target err s =
     (case err of None \<Rightarrow> s | Some x \<Rightarrow> s\<lparr>cx_edge_errors := AList.update target x (cx_edge_errors s)\<rparr>)"

definition pop_edge_error :: "path \<Rightarrow> ctx \<Rightarrow> ctx" where
  "pop_edge_error target s = s\<lparr>cx_edge_errors := AList.delete target (cx_edge_errors s)\<rparr>"

section \<open>Demands\<close>

definition demand :: "job_key \<Rightarrow> (ctx, outcome) oper" where
  "demand key s =
     (let s1 = s\<lparr>cx_used_facts := List.insert key (cx_used_facts s)\<rparr>
      in case map_of (cx_facts s1) key of
           Some (checksum, err) \<Rightarrow> (Inr (if err \<noteq> None then Failed else Complete, checksum, err), s1)
         | None \<Rightarrow>
             (if map_of (cx_jobs s1) key \<noteq> None then (Inr (Waiting, None, None), s1)
              else (Inr (Waiting, None, None),
                    add_effect (E_launch_job key) (s1\<lparr>cx_jobs := AList.update key False (cx_jobs s1)\<rparr>))))"

definition failed_with :: "exc \<Rightarrow> (ctx, outcome) oper" where
  "failed_with x s = (case fresh_error x s of (err, s') \<Rightarrow> (Inr (Failed, None, Some err), s'))"

text \<open>
  An Expression whose path crosses no deep step. The constructor is called before the checksum
  is read.
\<close>

definition projection_step ::
  "ext \<Rightarrow> checksum option \<Rightarrow> path \<Rightarrow> celltype \<Rightarrow> celltype \<Rightarrow> string option \<Rightarrow> string option \<Rightarrow> bool \<Rightarrow> bool
   \<Rightarrow> (ctx, outcome) oper" where
  "projection_step X checksum local celltype target_type validator validator_language scratch materialize =
     (case x_expression X local celltype target_type validator validator_language of
        Some x \<Rightarrow> failed_with x
      | None \<Rightarrow>
          (case checksum of
             None \<Rightarrow> raise Attribute_Error
           | Some c \<Rightarrow> demand (Expression_job c local celltype target_type validator validator_language
                                scratch materialize)))"

definition projection ::
  "ext \<Rightarrow> checksum option \<Rightarrow> path \<Rightarrow> celltype \<Rightarrow> celltype \<Rightarrow> string option \<Rightarrow> string option \<Rightarrow> bool \<Rightarrow> bool
   \<Rightarrow> (ctx, outcome) oper" where
  "projection X checksum local celltype target_type validator validator_language scratch materialize =
     (case deep_barrier celltype local target_type of
        None \<Rightarrow> projection_step X checksum local celltype target_type validator validator_language
                  scratch materialize
      | Some member \<Rightarrow>
          bnd (projection_step X checksum (take 1 local) celltype member None None True False)
            (\<lambda>(state, child, err).
             if state \<noteq> Complete then ret (state, child, err)
             else case x_expression X (take 1 local) celltype member None None of
               Some x \<Rightarrow> failed_with x
             | None \<Rightarrow> projection_step X child (drop 1 local) member target_type validator
                         validator_language scratch materialize))"

text \<open>
  The two inner calls of \<open>_projection\<close> meet no barrier themselves, so one level of
  the recursion is all there is.
\<close>

lemma projection_no_second_barrier:
  assumes "deep_barrier celltype local target_type = Some member"
  shows "deep_barrier celltype (take 1 local) member = None"
    and "deep_barrier member (drop 1 local) target_type = None"
  using assms by (cases local; auto simp: deep_barrier_def Let_def split: if_splits)+

section \<open>The root of a fused projection\<close>

text \<open>
  One step of the walk: the root that the visited cell offers, and the cell to go on at.
\<close>

definition fused_next :: "ctx \<Rightarrow> path \<Rightarrow> node \<Rightarrow> path \<Rightarrow> (path \<times> path) option" where
  "fused_next s p nd path =
     (let incoming = incoming_for (cx_graph s) p
      in case map_of incoming [] of
           None \<Rightarrow> None
         | Some e \<Rightarrow>
             if length incoming > 1 then None
             else if ed_conversion e \<or> ed_conversion_steps e \<noteq> [] then None
             else case resolve_existing (cx_graph s) (ed_source e) of
               None \<Rightarrow> None
             | Some (source_path, source_local) \<Rightarrow>
                 (case get_node s source_path of
                    None \<Rightarrow> None
                  | Some source_node \<Rightarrow>
                      if nd_kind source_node \<noteq> Cell_kind then None
                      else if or_else (ed_source_celltype e) (celltype_for_path s source_path source_local)
                              \<noteq> config_celltype nd then None
                      else if source_local \<noteq> [] \<and> is_deep (node_type s source_path) then None
                      else Some (source_path, source_local @ path)))"

function fused_walk ::
  "ctx \<Rightarrow> path list \<Rightarrow> (checksum \<times> celltype \<times> path) option \<Rightarrow> path \<Rightarrow> path
   \<Rightarrow> (checksum \<times> celltype \<times> path) option" where
  "fused_walk s visited base p path =
     (if List.member visited p then base
      else case get_node s p of
        None \<Rightarrow> base
      | Some nd \<Rightarrow>
          (case nd_current nd of
             None \<Rightarrow> base
           | Some c \<Rightarrow>
               if nd_kind nd \<noteq> Cell_kind then base
               else case fused_next s p nd path of
                 None \<Rightarrow> Some (c, config_celltype nd, path)
               | Some (p', path') \<Rightarrow>
                   fused_walk s (p # visited) (Some (c, config_celltype nd, path)) p' path'))"
  by pat_completeness auto
termination
proof (relation "measure (\<lambda>(s, visited, base, p, path). card (set (keys (g_nodes (cx_graph s))) - set visited))",
    goal_cases)
  case (2 s visited base p path nd c p' path')
  have "p \<in> set (keys (g_nodes (cx_graph s)))"
    using map_of_SomeD [OF 2(2) [unfolded get_node_def]] by force
  with 2(1) show ?case
    using seen_measure [of p visited "keys (g_nodes (cx_graph s))"] by simp
qed simp

definition fused_projection_source :: "ctx \<Rightarrow> path \<Rightarrow> path \<Rightarrow> (checksum \<times> celltype \<times> path) option" where
  "fused_projection_source s node_path local = fused_walk s [] None node_path local"

section \<open>Anonymous links\<close>

definition anonymous_symbol :: "ext \<Rightarrow> edge \<Rightarrow> recipe \<Rightarrow> nat \<Rightarrow> (ctx, string) oper" where
  "anonymous_symbol X e recipe index s =
     (case assign_symbol (x_symbol_base X) (g_symbols (cx_graph s))
             (if length (ed_chain e) > index then ed_chain e ! index else recipe) of
        None \<Rightarrow> (Inl Runtime_Error, s)
      | Some (symbol, symbols) \<Rightarrow> (Inr symbol, s\<lparr>cx_graph := (cx_graph s)\<lparr>g_symbols := symbols\<rparr>\<rparr>))"

definition note_anonymous :: "string \<Rightarrow> checksum \<Rightarrow> ctx \<Rightarrow> ctx" where
  "note_anonymous symbol checksum s =
     s\<lparr>cx_anonymous_updates := AList.update symbol (checksum, True) (cx_anonymous_updates s)\<rparr>"

text \<open>The answer of an evaluation that must be a checksum (\<open>normalize_checksum\<close>).\<close>

definition need_checksum :: "checksum option \<Rightarrow> (ctx, checksum) oper" where
  "need_checksum c = (case c of None \<Rightarrow> raise Type_Error | Some x \<Rightarrow> ret x)"

definition hold_anonymous :: "ext \<Rightarrow> edge \<Rightarrow> recipe \<Rightarrow> nat \<Rightarrow> checksum option \<Rightarrow> (ctx, unit) oper" where
  "hold_anonymous X e recipe index checksum =
     bnd (anonymous_symbol X e recipe index) (\<lambda>symbol.
     bnd (need_checksum checksum) (\<lambda>c.
     modify (note_anonymous symbol c)))"

text \<open>The conversions before a deep step: an outcome that stops, or the checksum after them.\<close>

fun deep_prefix ::
  "ext \<Rightarrow> edge \<Rightarrow> path \<Rightarrow> nat \<Rightarrow> celltype list \<Rightarrow> celltype \<Rightarrow> checksum option
   \<Rightarrow> (ctx, outcome + checksum option) oper" where
  "deep_prefix X e source_node index [] current checksum = ret (Inr checksum)"
| "deep_prefix X e source_node index (converted # prefix) current checksum =
     bnd (if converted \<noteq> current
          then bnd (projection X checksum [] current converted None None True False) (\<lambda>(state, c, err).
               ret (if state \<noteq> Complete then Inl (state, None, err) else Inr c))
          else ret (Inr checksum)) (\<lambda>r.
     case r of
       Inl out \<Rightarrow> ret (Inl out)
     | Inr c \<Rightarrow>
         bnd (hold_anonymous X e (Src_node source_node, converted, []) index c) (\<lambda>_.
         deep_prefix X e source_node (Suc index) prefix converted c))"

definition evaluate_deep_step ::
  "ext \<Rightarrow> edge \<Rightarrow> path \<Rightarrow> checksum option \<Rightarrow> celltype \<Rightarrow> path
   \<Rightarrow> celltype list \<times> celltype \<times> celltype \<times> path \<times> steps \<Rightarrow> bool \<Rightarrow> bool \<Rightarrow> (ctx, outcome) oper" where
  "evaluate_deep_step X e source_node checksum root_type local deep scratch materialize =
     (case deep of (prefix, deep_type, member, rest_local, rest_steps) \<Rightarrow>
      bnd (deep_prefix X e source_node 0 prefix root_type checksum) (\<lambda>r.
      case r of
        Inl out \<Rightarrow> ret out
      | Inr c \<Rightarrow>
          (let last = rest_local = [] \<and> rest_steps = []
           in bnd (projection X c (take 1 local) deep_type member None None
                     (if last then scratch else True) (if last then materialize else False))
                (\<lambda>(state, child, err).
                 if state \<noteq> Complete then ret (state, None, err)
                 else bnd (if last then ret ()
                           else hold_anonymous X e (Src_node source_node, member, take 1 local)
                                  (length prefix) child) (\<lambda>_.
                      ret (Complete, child, None))))))"

section \<open>The state of a source\<close>

definition reserved_keys :: "string list" where
  "reserved_keys = [''<root>'', ''<numeric>'']"

definition member_celltype :: "celltype \<Rightarrow> celltype" where
  "member_celltype target_type = (if target_type = ''deepcell'' then ''mixed'' else ''bytes'')"

text \<open>What an edge into a sub-path of a cell must satisfy.\<close>

definition slot_miswired :: "celltype \<Rightarrow> celltype \<Rightarrow> path \<Rightarrow> bool" where
  "slot_miswired target_type source_type target_local =
     (case target_local of
        [] \<Rightarrow> False
      | [key] \<Rightarrow>
          \<not> List.member pin_celltypes target_type
          \<or> (case key of
               KBool _ \<Rightarrow> True
             | KSlice _ _ _ \<Rightarrow> True
             | KInt i \<Rightarrow> i < 0 \<or> is_deep target_type
             | KStr k \<Rightarrow> List.member reserved_keys k
                 \<or> (is_deep target_type \<and> source_type \<noteq> member_celltype target_type))
      | _ \<Rightarrow> True)"

definition edge_source_type :: "ctx \<Rightarrow> edge \<Rightarrow> path \<Rightarrow> path \<Rightarrow> celltype" where
  "edge_source_type s e source_node source_local =
     (if source_local \<noteq> [] then or_else (ed_source_celltype e) (celltype_for_path s source_node source_local)
      else if ed_conversion e then or_else (ed_source_celltype e) (node_type s source_node)
      else node_type s source_node)"

definition edge_conversion_steps :: "edge \<Rightarrow> path \<Rightarrow> celltype \<Rightarrow> steps" where
  "edge_conversion_steps e source_local source_type =
     (if ed_conversion e \<and> ed_conversion_steps e = []
      then [(if ed_conversion_before e then 0 else int (length source_local), source_type)]
      else ed_conversion_steps e)"

definition target_type_of :: "ctx \<Rightarrow> path \<Rightarrow> node \<Rightarrow> path \<Rightarrow> celltype" where
  "target_type_of s source_node target target_local =
     (case (nd_kind target, nd_transformer_config target) of
        (Cell_kind, _) \<Rightarrow> config_celltype target
      | (Transformer_kind, Some c) \<Rightarrow>
          (if target_local \<noteq> [KStr ''code''] then pin_celltype c (hd target_local)
           else node_type s source_node)
      | _ \<Rightarrow> node_type s source_node)"

text \<open>The static defects that \<open>_source_state\<close> reports as \<open>miswired\<close>, in its order.\<close>

definition static_defect :: "ext \<Rightarrow> ctx \<Rightarrow> edge \<Rightarrow> path \<Rightarrow> path \<Rightarrow> node \<Rightarrow> path \<Rightarrow> bool" where
  "static_defect X s e source_node source_local target target_local =
     (let root_type = node_type s source_node;
          source_type = edge_source_type s e source_node source_local;
          target_type = target_type_of s source_node target target_local;
          cell = (nd_kind target = Cell_kind);
          pin = (nd_kind target = Transformer_kind \<and> target_local \<noteq> [KStr ''code''])
      in (source_local \<noteq> [] \<and> \<not> ed_conversion e \<and> source_type \<noteq> celltype_for_path s source_node source_local)
       \<or> (cell \<and> ed_deep_member e \<and> \<not> is_deep target_type)
       \<or> (cell \<and> slot_miswired target_type source_type target_local)
       \<or> (source_local \<noteq> [] \<and> cell \<and> target_local = [] \<and> \<not> is_deep target_type
            \<and> source_type \<noteq> target_type \<and> \<not> ed_conversion e)
       \<or> (source_local \<noteq> [] \<and> pin \<and> source_type \<noteq> target_type \<and> \<not> ed_conversion e)
       \<or> (source_local = [] \<and> \<not> ed_conversion e \<and> pin \<and> source_type \<noteq> target_type
            \<and> x_shape X [] source_type target_type \<noteq> None)
       \<or> (source_local = [] \<and> cell \<and> target_local = [] \<and> source_type \<noteq> target_type
            \<and> (is_deep source_type \<or> is_deep target_type) \<and> x_shape X [] source_type target_type \<noteq> None)
       \<or> deep_recipe_error (x_shape X) root_type source_local
            (edge_conversion_steps e source_local source_type) \<noteq> None)"

text \<open>What a source that is not complete delivers.\<close>

definition pending_state :: "node \<Rightarrow> nstate option" where
  "pending_state nd =
     (if nd_state nd = Miswired \<or> nd_block_reason nd = Reason R_blocked_by_miswiring
      then Some Blocked_by_miswiring
      else if nd_state nd = Complete then None
      else case (nd_state nd, nd_block_reason nd) of
        (Blocked, Reasons rs) \<Rightarrow>
          Some (if List.member (map snd rs) R_blocked_by_miswiring then Blocked_by_miswiring
                else if List.member (map snd rs) R_blocked_by_unwired then Blocked
                else if List.member (map snd rs) R_blocked_by_error then Failed
                else Blocked)
      | _ \<Rightarrow> Some (if nd_block_reason nd = Reason R_blocked_by_error then Failed else nd_state nd))"

text \<open>The scratch policy of an edge, and whether its target needs the bytes.\<close>

definition edge_policy :: "node \<Rightarrow> path \<Rightarrow> edge \<Rightarrow> path \<Rightarrow> bool \<times> bool" where
  "edge_policy target target_local e source_local =
     (let scratch = edge_target_scratch target target_local;
          materialize = nd_kind target = Transformer_kind \<and> \<not> scratch
      in if nd_kind target = Cell_kind \<and> target_local \<noteq> [] \<and> \<not> is_deep (config_celltype target)
         then (if source_local \<noteq> [] then (False, True)
               else if ed_conversion e then (True, True)
               else (scratch, materialize))
         else (scratch, materialize))"

text \<open>
  One Expression per fusible run, the last under the policy of the edge, the others held under
  the symbol of their last link.
\<close>

fun run_loop ::
  "ext \<Rightarrow> edge \<Rightarrow> path \<Rightarrow> bool \<Rightarrow> bool \<Rightarrow> link list \<Rightarrow> nat \<Rightarrow> run list \<Rightarrow> checksum option
   \<Rightarrow> (ctx, nstate \<times> checksum option) oper" where
  "run_loop X e source_node scratch materialize links chain_offset [] checksum = ret (Complete, checksum)"
| "run_loop X e source_node scratch materialize links chain_offset
     ((input_type, path, next_type, last_link) # runs) checksum =
     (case x_expression X path input_type next_type None None of
        Some x \<Rightarrow> (\<lambda>s. case fresh_error x s of
          (err, s') \<Rightarrow> (Inr (Failed, None), put_edge_error (ed_target e) (Some err) s'))
      | None \<Rightarrow>
          bnd (projection X checksum path input_type next_type None None
                 (if runs = [] then scratch else True) (if runs = [] then materialize else False))
            (\<lambda>(state, c, err).
             if state \<noteq> Complete
             then bnd (modify (put_edge_error (ed_target e) err)) (\<lambda>_. ret (state, None))
             else bnd (if runs = [] then ret ()
                       else hold_anonymous X e (Src_node source_node, fst (links ! last_link), snd (links ! last_link))
                              (chain_offset + last_link) c) (\<lambda>_.
                  run_loop X e source_node scratch materialize links chain_offset runs c)))"

definition deliver_runs ::
  "ext \<Rightarrow> edge \<Rightarrow> path \<Rightarrow> bool \<Rightarrow> bool \<Rightarrow> nat \<Rightarrow> celltype \<Rightarrow> path \<Rightarrow> steps \<Rightarrow> checksum option
   \<Rightarrow> (ctx, nstate \<times> checksum option) oper" where
  "deliver_runs X e source_node scratch materialize chain_offset root_type local steps checksum =
     (if steps \<noteq> [] then
        (if checksum = None then ret (Unwired, None)
         else let links = anonymous_links root_type local steps
              in run_loop X e source_node scratch materialize links chain_offset
                   (fusible_runs (x_preserving X) root_type links) checksum)
      else if local \<noteq> [] then
        bnd (projection X checksum local root_type (projected_celltype root_type local) None None
               scratch materialize) (\<lambda>(state, c, err). ret (state, c))
      else ret (Complete, checksum))"

definition deliver ::
  "ext \<Rightarrow> edge \<Rightarrow> path \<Rightarrow> node \<Rightarrow> path \<Rightarrow> celltype \<Rightarrow> bool \<Rightarrow> bool \<Rightarrow> steps
   \<Rightarrow> (ctx, nstate \<times> checksum option) oper" where
  "deliver X e source_node nd source_local root_type scratch materialize steps =
     (case split_deep_step root_type source_local steps of
        None \<Rightarrow> deliver_runs X e source_node scratch materialize 0 root_type source_local steps (nd_current nd)
      | Some deep \<Rightarrow>
          (if nd_current nd = None then ret (Unwired, None)
           else bnd (evaluate_deep_step X e source_node (nd_current nd) root_type source_local deep
                       scratch materialize) (\<lambda>(state, child, err).
                if state \<noteq> Complete
                then bnd (modify (put_edge_error (ed_target e) err)) (\<lambda>_. ret (state, None))
                else case deep of (prefix, _, member, rest_local, rest_steps) \<Rightarrow>
                  deliver_runs X e source_node scratch materialize (length prefix + 1) member
                    rest_local rest_steps child)))"

definition source_state :: "ext \<Rightarrow> edge \<Rightarrow> (ctx, nstate \<times> checksum option) oper" where
  "source_state X e s =
     (let s1 = pop_edge_error (ed_target e) s
      in case edge_miswiring (cx_graph s1) e of
           Some Own_miswired \<Rightarrow> (Inr (Miswired, None), s1)
         | Some Source_miswired \<Rightarrow> (Inr (Blocked_by_miswiring, None), s1)
         | None \<Rightarrow>
             (case (resolve_existing (cx_graph s1) (ed_source e), resolve_existing (cx_graph s1) (ed_target e)) of
                (Some (source_node, source_local), Some (target_path, target_local)) \<Rightarrow>
                  (case (get_node s1 source_node, get_node s1 target_path) of
                     (Some nd, Some target) \<Rightarrow>
                       (if static_defect X s1 e source_node source_local target target_local
                        then (Inr (Miswired, None), s1)
                        else case pending_state nd of
                          Some st \<Rightarrow> (Inr (st, None), s1)
                        | None \<Rightarrow>
                            (case edge_policy target target_local e source_local of
                               (scratch, materialize) \<Rightarrow>
                                 deliver X e source_node nd source_local (node_type s1 source_node)
                                   scratch materialize
                                   (edge_conversion_steps e source_local
                                      (edge_source_type s1 e source_node source_local)) s1))
                   | _ \<Rightarrow> (Inl Key_Error, s1))
              | _ \<Rightarrow> (Inl Key_Error, s1)))"

section \<open>Asking for a source leaves the graph and the claims alone\<close>

text \<open>
  What an evaluation may write: the marks of used facts, the table of jobs and the effects, the
  errors of edges, the updates of anonymous cells, and new symbols. The rest of the state is its
  core.
\<close>

definition core :: "ctx \<Rightarrow> ctx" where
  "core s = s\<lparr>cx_used_facts := [], cx_jobs := [], cx_effects := [], cx_edge_errors := [],
              cx_error_seq := 0, cx_anonymous_updates := [],
              cx_graph := (cx_graph s)\<lparr>g_symbols := []\<rparr>\<rparr>"

definition symbols_grow :: "(recipe \<times> string) list \<Rightarrow> (recipe \<times> string) list \<Rightarrow> bool" where
  "symbols_grow syms syms' \<longleftrightarrow> (symbols_ok syms \<longrightarrow> symbols_ok syms' \<and> extends syms' syms)"

lemma symbols_grow_refl [simp]: "symbols_grow syms syms"
  by (simp add: symbols_grow_def)

lemma symbols_grow_trans: "symbols_grow a b \<Longrightarrow> symbols_grow b c \<Longrightarrow> symbols_grow a c"
  using extends_trans by (auto simp: symbols_grow_def)

definition quiet :: "ctx \<Rightarrow> ctx \<Rightarrow> bool" where
  "quiet s s' \<longleftrightarrow> core s' = core s
     \<and> (wf_dict (cx_anonymous_updates s) \<longrightarrow> wf_dict (cx_anonymous_updates s'))
     \<and> symbols_grow (g_symbols (cx_graph s)) (g_symbols (cx_graph s'))"

definition quietly :: "(ctx, 'a) oper \<Rightarrow> bool" where
  "quietly m \<longleftrightarrow> (\<forall>s. quiet s (snd (m s)))"

named_theorems quiet_intros \<open>operations that leave the core of the state alone\<close>

lemma quiet_refl [simp, quiet_intros]: "quiet s s"
  by (simp add: quiet_def)

lemma quiet_trans: "quiet a b \<Longrightarrow> quiet b c \<Longrightarrow> quiet a c"
  unfolding quiet_def using symbols_grow_trans by auto

interpretation quiet: step_relation quiet
  by standard (blast intro: quiet_refl quiet_trans)+

lemma quietly_ret [quiet_intros]: "quietly (ret x)"
  by (simp add: quietly_def)

lemma quietly_raise [quiet_intros]: "quietly (raise e)"
  by (simp add: quietly_def)

lemma quietly_modify [quiet_intros]: "(\<And>s. quiet s (f s)) \<Longrightarrow> quietly (modify f)"
  by (simp add: quietly_def)

lemma quietly_bnd [quiet_intros]:
  assumes "quietly m" and "\<And>x. quietly (f x)"
  shows "quietly (bnd m f)"
  using assms unfolding quietly_def by (intro allI quiet.bnd_keeps) blast+

lemma quietly_if [quiet_intros]: "quietly m \<Longrightarrow> quietly n \<Longrightarrow> quietly (if b then m else n)"
  by simp

lemma quietly_case_prod [quiet_intros]:
  "(\<And>a b. quietly (f a b)) \<Longrightarrow> quietly (case p of (a, b) \<Rightarrow> f a b)"
  by (cases p) simp

lemma quietly_case_sum [quiet_intros]:
  "(\<And>a. quietly (f a)) \<Longrightarrow> (\<And>b. quietly (g b)) \<Longrightarrow> quietly (case x of Inl a \<Rightarrow> f a | Inr b \<Rightarrow> g b)"
  by (cases x) simp_all

lemma quietly_case_option [quiet_intros]:
  "quietly m \<Longrightarrow> (\<And>a. quietly (f a)) \<Longrightarrow> quietly (case x of None \<Rightarrow> m | Some a \<Rightarrow> f a)"
  by (cases x) simp_all

lemma quiet_pop_edge_error [quiet_intros]: "quiet s (pop_edge_error t s)"
  by (simp add: quiet_def core_def pop_edge_error_def)

lemma quiet_put_edge_error [quiet_intros]: "quiet s (put_edge_error t err s)"
  by (simp add: quiet_def core_def put_edge_error_def split: option.split)

lemma quiet_fresh_error [quiet_intros]: "quiet s (snd (fresh_error x s))"
  by (simp add: quiet_def core_def fresh_error_def)

lemma quietly_demand [quiet_intros]: "quietly (demand key)"
  by (auto simp: quietly_def quiet_def core_def demand_def Let_def add_effect_def split: option.splits)

lemma quietly_failed_with [quiet_intros]: "quietly (failed_with x)"
  using quiet_fresh_error by (simp add: quietly_def failed_with_def prod.case_eq_if)

lemma quietly_projection_step [quiet_intros]:
  "quietly (projection_step X c local ct t v l scratch materialize)"
  unfolding projection_step_def by (intro quiet_intros)

lemma quietly_projection [quiet_intros]:
  "quietly (projection X c local ct t v l scratch materialize)"
  unfolding projection_def by (intro quiet_intros)

lemma quietly_anonymous_symbol [quiet_intros]: "quietly (anonymous_symbol X e r i)"
proof -
  have "quiet s (s\<lparr>cx_graph := (cx_graph s)\<lparr>g_symbols := symbols\<rparr>\<rparr>)"
    if "assign_symbol (x_symbol_base X) (g_symbols (cx_graph s)) rc = Some (symbol, symbols)"
    for s rc symbol symbols
    using assign_symbol_ok(1) [OF that] assign_symbol_ok(2) [OF that]
    by (simp add: quiet_def core_def symbols_grow_def)
  then show ?thesis
    unfolding quietly_def anonymous_symbol_def by (simp split: option.split prod.split)
qed

lemma quiet_note_anonymous [quiet_intros]: "quiet s (note_anonymous symbol c s)"
  by (simp add: quiet_def core_def note_anonymous_def)

lemma quietly_need_checksum [quiet_intros]: "quietly (need_checksum c)"
  by (simp add: need_checksum_def quiet_intros split: option.split)

lemma quietly_hold_anonymous [quiet_intros]: "quietly (hold_anonymous X e r i c)"
  unfolding hold_anonymous_def by (intro quiet_intros)

lemma quietly_deep_prefix [quiet_intros]: "quietly (deep_prefix X e n i prefix current c)"
proof (induction prefix arbitrary: i current c)
  case (Cons converted prefix)
  show ?case unfolding deep_prefix.simps by (intro quiet_intros Cons.IH)
qed (simp add: quiet_intros)

lemma quietly_evaluate_deep_step [quiet_intros]:
  "quietly (evaluate_deep_step X e n c root_type local deep scratch materialize)"
  unfolding evaluate_deep_step_def Let_def by (intro quiet_intros)

lemma quietly_run_loop [quiet_intros]:
  "quietly (run_loop X e n scratch materialize links offset runs c)"
proof (induction runs arbitrary: c)
  case (Cons r runs)
  obtain i p t l where r: "r = (i, p, t, l)" by (cases r)
  have "quietly (\<lambda>s. case fresh_error x s of
      (err, s') \<Rightarrow> (Inr (Failed, None), put_edge_error (ed_target e) (Some err) s'))" for x
    using quiet_trans [OF quiet_fresh_error quiet_put_edge_error]
    by (simp add: quietly_def prod.case_eq_if)
  then show ?case
    unfolding r run_loop.simps by (intro quiet_intros Cons.IH)
qed (simp add: quiet_intros)

lemma quietly_deliver_runs [quiet_intros]:
  "quietly (deliver_runs X e n scratch materialize offset root_type local steps c)"
  unfolding deliver_runs_def Let_def by (intro quiet_intros)

lemma quietly_deliver [quiet_intros]:
  "quietly (deliver X e n nd local root_type scratch materialize steps)"
  unfolding deliver_def by (intro quiet_intros)

lemma quietly_source_state [quiet_intros]: "quietly (source_state X e)"
proof -
  have d: "quiet s (snd (deliver X e n nd l t sc m steps (pop_edge_error (ed_target e) s)))"
    for s n nd l t sc m steps
    by (rule quiet_trans [OF quiet_pop_edge_error [where t = "ed_target e"]]) (use quietly_deliver in \<open>simp add: quietly_def\<close>)
  show ?thesis
    unfolding quietly_def source_state_def Let_def
    by (simp add: d quiet_pop_edge_error split: option.split prod.split miswiring.split)
qed

end
