(* ===== verification/Derive_Cell.thy ===== *)
theory Derive_Cell
  imports Derive_Source
begin

text \<open>
  The derivation of a cell: \<open>_derive_cell\<close> of \<^verbatim>\<open>context.py\<close> with its joins, its pending
  inputs (\<open>_apply_pending\<close>) and the state it takes over from its source
  (\<open>_apply_upstream_state\<close>).

  The join object of a cell is named by its checksum; \<open>x_celljoin\<close> builds it.
\<close>

section \<open>Writing a result\<close>

definition lift_res :: "exc + 'a \<Rightarrow> ('s, 'a) oper" where
  "lift_res r s = (r, s)"

definition conclude :: "ext \<Rightarrow> path \<Rightarrow> outcome \<Rightarrow> (ctx, unit) oper" where
  "conclude X p out =
     (case out of (state, checksum, err) \<Rightarrow>
      bnd (replace_current_checksum X p checksum) (\<lambda>_.
      modify (set_state p state No_reason err)))"

text \<open>The state and the reason, where the error of the node is left as it is.\<close>

definition set_blocked :: "path \<Rightarrow> nstate \<Rightarrow> block_reason \<Rightarrow> ctx \<Rightarrow> ctx" where
  "set_blocked p state reason = upd_node p (\<lambda>nd. nd\<lparr>nd_state := state, nd_block_reason := reason\<rparr>)"

section \<open>A cell with one source for its root\<close>

definition upstream_state :: "nstate \<Rightarrow> nstate \<times> block_reason" where
  "upstream_state state =
     (if state = Failed then (Blocked, Reason R_blocked_by_error)
      else if state = Miswired \<or> state = Blocked_by_miswiring then (Blocked, Reason R_blocked_by_miswiring)
      else if state = Blocked \<or> state = Unwired then (Blocked, Reason R_blocked_by_unwired)
      else (Waiting, No_reason))"

definition apply_upstream_state :: "ext \<Rightarrow> path \<Rightarrow> nstate \<times> checksum option \<Rightarrow> (ctx, unit) oper" where
  "apply_upstream_state X p upstream =
     (case upstream of (state, checksum) \<Rightarrow>
      if state = Complete then conclude X p (Complete, checksum, None)
      else bnd (replace_current_checksum X p None) (\<lambda>_.
           modify (case upstream_state state of (st, reason) \<Rightarrow> set_blocked p st reason)))"

text \<open>The source is a projection that the Expression of this cell can take over.\<close>

definition takes_projection :: "ctx \<Rightarrow> edge \<Rightarrow> node \<Rightarrow> path \<Rightarrow> bool" where
  "takes_projection s e src source_local \<longleftrightarrow>
     source_local \<noteq> [] \<and> nd_state src = Complete \<and> edge_miswiring (cx_graph s) e = None
     \<and> \<not> ed_conversion_before e \<and> \<not> ed_conversion e"

definition cell_scratch :: "node \<Rightarrow> bool" where
  "cell_scratch nd = (case nd_cell_config nd of Some c \<Rightarrow> cc_scratch c | None \<Rightarrow> False)"

definition cell_validator :: "node \<Rightarrow> string option \<times> string option" where
  "cell_validator nd =
     (case nd_cell_config nd of Some c \<Rightarrow> (cc_validator c, cc_validator_language c) | None \<Rightarrow> (None, None))"

definition own_projection :: "ext \<Rightarrow> path \<Rightarrow> node \<Rightarrow> checksum option \<Rightarrow> path \<Rightarrow> celltype \<Rightarrow> (ctx, unit) oper" where
  "own_projection X p nd checksum local input_type =
     (case cell_validator nd of (validator, language) \<Rightarrow>
      bnd (projection X checksum local input_type (config_celltype nd) validator language
             (cell_scratch nd) False) (conclude X p))"

definition derive_projected :: "ext \<Rightarrow> path \<Rightarrow> node \<Rightarrow> edge \<Rightarrow> path \<Rightarrow> node \<Rightarrow> path \<Rightarrow> (ctx, unit) oper" where
  "derive_projected X p nd e source src source_local s =
     (if deep_recipe_error (x_shape X) (node_type s source) source_local [] \<noteq> None
         \<or> (\<not> is_deep (config_celltype nd) \<and> celltype_for_path s source source_local \<noteq> config_celltype nd
              \<and> \<not> ed_conversion e)
      then conclude X p (Miswired, None, None) s
      else case (case fused_projection_source s source source_local of
                   Some fused \<Rightarrow> (case fused of (c, t, path) \<Rightarrow> (Some c, t, path))
                 | None \<Rightarrow> (nd_current src, node_type s source, source_local)) of
        (checksum, input_type, path) \<Rightarrow>
          bnd (case deep_barrier input_type path (config_celltype nd) of
                 None \<Rightarrow> ret ()
               | Some member \<Rightarrow>
                   bnd (projection X checksum (take 1 path) input_type member None None True False)
                     (\<lambda>(state, child, _).
                      if state = Complete \<and> length path > 1
                      then hold_anonymous X e (Src_node source, member, take 1 path) 0 child
                      else ret ())) (\<lambda>_.
          own_projection X p nd checksum path input_type) s)"

definition derive_sourced :: "ext \<Rightarrow> path \<Rightarrow> node \<Rightarrow> edge \<Rightarrow> path \<Rightarrow> path \<Rightarrow> (ctx, unit) oper" where
  "derive_sourced X p nd e source source_local =
     bnd (source_state X e) (\<lambda>(state, checksum) s.
       if state \<noteq> Complete then
         (let err = map_of (cx_edge_errors s) (ed_target e);
              s1 = pop_edge_error (ed_target e) s
          in if state = Failed \<and> err \<noteq> None then conclude X p (Failed, None, err) s1
             else if state = Miswired then conclude X p (Miswired, None, None) s1
             else apply_upstream_state X p (state, checksum) s1)
       else if \<not> ed_conversion e \<and> source_local = [] \<and> node_type s source \<noteq> config_celltype nd
       then own_projection X p nd checksum [] (node_type s source) s
       else conclude X p (Complete, checksum, None) s)"

definition derive_edge :: "ext \<Rightarrow> path \<Rightarrow> node \<Rightarrow> edge \<Rightarrow> (ctx, unit) oper" where
  "derive_edge X p nd e s =
     (case resolve_existing (cx_graph s) (ed_source e) of
        None \<Rightarrow> (Inl Key_Error, s)
      | Some (source, source_local) \<Rightarrow>
          (case get_node s source of
             None \<Rightarrow> (Inl Key_Error, s)
           | Some src \<Rightarrow>
               (if takes_projection s e src source_local
                then derive_projected X p nd e source src source_local s
                else derive_sourced X p nd e source source_local s)))"

section \<open>A cell without edges\<close>

definition derive_root_expression :: "ext \<Rightarrow> path \<Rightarrow> string \<Rightarrow> (ctx, unit) oper" where
  "derive_root_expression X p expression s =
     (case x_compute_root X expression of
        Inl x \<Rightarrow> (case fresh_error x s of (err, s') \<Rightarrow> conclude X p (Failed, None, Some err) s')
      | Inr checksum \<Rightarrow> conclude X p (Complete, Some checksum, None) s)"

definition derive_root :: "ext \<Rightarrow> path \<Rightarrow> node \<Rightarrow> (ctx, unit) oper" where
  "derive_root X p nd s =
     (let checksum = map_option cp_checksum (nd_root_producer nd);
          state = (if checksum \<noteq> None then Complete else Unwired)
      in bnd (lift_res (input_celltype_for_path s p [])) (\<lambda>input_type.
         case input_type of
           Some t \<Rightarrow>
             (if checksum \<noteq> None \<and> (t \<noteq> config_celltype nd \<or> fst (cell_validator nd) \<noteq> None)
              then own_projection X p nd checksum [] t
              else conclude X p (state, checksum, None))
         | None \<Rightarrow> conclude X p (state, checksum, None)) s)"

section \<open>A join\<close>

text \<open>
  The loop over the incoming edges: the members that are there and the edges that are pending,
  or nothing when a conversion failed and the cell with it.
\<close>

fun join_inputs ::
  "ext \<Rightarrow> path \<Rightarrow> celltype \<Rightarrow> (path \<times> edge) list \<Rightarrow> (comp \<times> checksum option) list \<Rightarrow> edge list
   \<Rightarrow> (ctx, ((comp \<times> checksum option) list \<times> edge list) option) oper" where
  "join_inputs X p celltype [] members pending = ret (Some (members, pending))"
| "join_inputs X p celltype ((local, e) # incoming) members pending =
     bnd (source_state X e) (\<lambda>(state, checksum) s.
       if state \<noteq> Complete then join_inputs X p celltype incoming members (pending @ [e]) s
       else case resolve_existing (cx_graph s) (ed_source e) of
         None \<Rightarrow> (Inl Key_Error, s)
       | Some (source, _) \<Rightarrow>
           (let source_type = or_else (ed_source_celltype e) (node_type s source)
            in if \<not> is_deep celltype \<and> source_type \<noteq> celltype
               then bnd (projection X checksum [] source_type celltype None None True True)
                      (\<lambda>(state, c, err).
                       if state = Failed
                       then bnd (conclude X p (Failed, None, err)) (\<lambda>_. ret None)
                       else if state \<noteq> Complete
                       then join_inputs X p celltype incoming members (pending @ [e])
                       else join_inputs X p celltype incoming (AList.update (hd local) c members) pending) s
               else join_inputs X p celltype incoming (AList.update (hd local) checksum members) pending s))"

definition reason_for :: "nstate \<Rightarrow> reason option" where
  "reason_for state =
     (case state of
        Miswired \<Rightarrow> Some R_miswired
      | Blocked_by_miswiring \<Rightarrow> Some R_blocked_by_miswiring
      | Failed \<Rightarrow> Some R_blocked_by_error
      | Blocked \<Rightarrow> Some R_blocked_by_unwired
      | Unwired \<Rightarrow> Some R_blocked_by_unwired
      | _ \<Rightarrow> None)"

fun source_states :: "ext \<Rightarrow> edge list \<Rightarrow> (ctx, nstate list) oper" where
  "source_states X [] = ret []"
| "source_states X (e # edges) =
     bnd (source_state X e) (\<lambda>(state, _).
     bnd (source_states X edges) (\<lambda>states. ret (state # states)))"

fun pending_reasons :: "graph \<Rightarrow> (edge \<times> nstate) list \<Rightarrow> (comp \<times> reason) list \<Rightarrow> exc + (comp \<times> reason) list" where
  "pending_reasons g [] reasons = Inr reasons"
| "pending_reasons g ((e, state) # edges) reasons =
     (case reason_for state of
        None \<Rightarrow> pending_reasons g edges reasons
      | Some reason \<Rightarrow>
          (case resolve_existing g (ed_target e) of
             None \<Rightarrow> Inl Key_Error
           | Some (_, local) \<Rightarrow>
               pending_reasons g edges
                 (if local \<noteq> [] then AList.update (hd local) reason reasons else reasons)))"

definition scalar_reason :: "nstate list \<Rightarrow> reason option" where
  "scalar_reason states =
     fold (\<lambda>state acc. case reason_for state of None \<Rightarrow> acc | Some r \<Rightarrow> Some r) states None"

text \<open>
  The state of a join with pending inputs. The case for a reason \<open>unwired\<close> is the code's;
  no state has this reason.
\<close>

definition join_state :: "(comp \<times> reason) list \<Rightarrow> nstate" where
  "join_state reasons =
     (if List.member (map snd reasons) R_miswired then Miswired
      else if List.member (map snd reasons) R_unwired then Unwired
      else if reasons \<noteq> [] then Blocked
      else Waiting)"

definition apply_pending :: "ext \<Rightarrow> path \<Rightarrow> edge list \<Rightarrow> bool \<Rightarrow> (ctx, unit) oper" where
  "apply_pending X p edges join =
     bnd (source_states X edges) (\<lambda>states s.
       bnd (if join
            then bnd (lift_res (pending_reasons (cx_graph s) (zip edges states) [])) (\<lambda>reasons.
                   modify (set_blocked p (join_state reasons)
                     (if reasons \<noteq> [] then Reasons reasons else No_reason)))
            else modify (case scalar_reason states of
                   Some r \<Rightarrow> set_blocked p Blocked (Reason r)
                 | None \<Rightarrow> set_blocked p Waiting No_reason)) (\<lambda>_.
       replace_current_checksum X p None) s)"

definition use_celljoin :: "path \<Rightarrow> ctx \<Rightarrow> ctx" where
  "use_celljoin p s = s\<lparr>cx_used_celljoins := List.insert p (cx_used_celljoins s)\<rparr>"

definition celljoin_for ::
  "ext \<Rightarrow> path \<Rightarrow> celltype \<Rightarrow> checksum option \<Rightarrow> (comp \<times> checksum option) list \<Rightarrow> (ctx, checksum) oper" where
  "celljoin_for X p celltype base members s =
     (let fingerprint = (celltype, base, members);
          built = (case x_celljoin X celltype base members of
                     Inl e \<Rightarrow> (Inl e, s)
                   | Inr join \<Rightarrow> (Inr join, use_celljoin p
                       (s\<lparr>cx_celljoins := AList.update p (fingerprint, join) (cx_celljoins s)\<rparr>)))
      in case map_of (cx_celljoins s) p of
           Some (previous, join) \<Rightarrow> (if previous = fingerprint then (Inr join, use_celljoin p s) else built)
         | None \<Rightarrow> built)"

text \<open>The root of a join, converted to the celltype of the join.\<close>

definition join_root :: "ext \<Rightarrow> path \<Rightarrow> node \<Rightarrow> (ctx, checksum option option) oper" where
  "join_root X p nd =
     (case nd_root_producer nd of
        None \<Rightarrow> ret (Some None)
      | Some producer \<Rightarrow>
          (if cp_celltype producer \<noteq> config_celltype nd
           then bnd (projection X (Some (cp_checksum producer)) [] (cp_celltype producer) (config_celltype nd)
                       None None True True) (\<lambda>(state, base, err).
                if state = Failed then bnd (conclude X p (Failed, None, err)) (\<lambda>_. ret None)
                else if state \<noteq> Complete then bnd (conclude X p (Waiting, None, None)) (\<lambda>_. ret None)
                else ret (Some base))
           else ret (Some (Some (cp_checksum producer)))))"

definition finish_join ::
  "ext \<Rightarrow> path \<Rightarrow> node \<Rightarrow> checksum option \<Rightarrow> (comp \<times> checksum option) list \<Rightarrow> (ctx, unit) oper" where
  "finish_join X p nd base members s =
     (let celltype = (if config_celltype nd = ''folder'' then ''deepfolder'' else config_celltype nd)
      in case celljoin_for X p celltype base members s of
           (Inl e, s1) \<Rightarrow>
             (if e = Type_Error
              then case fresh_error e s1 of (err, s2) \<Rightarrow> conclude X p (Failed, None, Some err) s2
              else (Inl e, s1))
         | (Inr join, s1) \<Rightarrow>
             bnd (demand (Celljoin_job join celltype (cell_scratch nd))) (conclude X p) s1)"

definition derive_join :: "ext \<Rightarrow> path \<Rightarrow> node \<Rightarrow> (path \<times> edge) list \<Rightarrow> (ctx, unit) oper" where
  "derive_join X p nd incoming =
     bnd (modify (use_celljoin p)) (\<lambda>_.
     bnd (join_inputs X p (config_celltype nd) incoming [] []) (\<lambda>r.
     case r of
       None \<Rightarrow> ret ()
     | Some (members, pending) \<Rightarrow>
         if pending \<noteq> [] then apply_pending X p pending True
         else bnd (join_root X p nd) (\<lambda>base.
           case base of
             None \<Rightarrow> ret ()
           | Some base \<Rightarrow> finish_join X p nd base members)))"

section \<open>The derivation of a cell\<close>

definition sense_errors :: "ctx \<Rightarrow> path \<Rightarrow> error list" where
  "sense_errors s p = List.map_filter ms_sense_error (sessions_for s p)"

definition derive_cell :: "ext \<Rightarrow> path \<Rightarrow> node \<Rightarrow> (ctx, unit) oper" where
  "derive_cell X p nd s =
     (case sense_errors s p of
        err # _ \<Rightarrow> conclude X p (Failed, None, Some err) s
      | [] \<Rightarrow>
          (let incoming = incoming_for (cx_graph s) p
           in case map_of incoming [] of
                Some e \<Rightarrow> derive_edge X p nd e s
              | None \<Rightarrow>
                  (if incoming = [] then
                     (case nd_root_expression nd of
                        Some expression \<Rightarrow> derive_root_expression X p expression s
                      | None \<Rightarrow> derive_root X p nd s)
                   else derive_join X p nd incoming s)))"

section \<open>What a derivation leaves alone\<close>

text \<open>
  The design of a graph is what the user made: the edges, and of every node all but what a
  derivation computes. A derivation keeps it, keeps the books of the claims, makes steps of the
  run ledger, at most extends the table of symbols, leaves the revisions alone, and keeps
  the protocol of the mount sessions.
\<close>

definition design :: "node \<Rightarrow> node" where
  "design nd = nd\<lparr>nd_state := Unwired, nd_block_reason := No_reason, nd_block_pins := [],
     nd_pin_block_reasons := [], nd_pin_states := [], nd_pin_read_errors := [],
     nd_current := None, nd_exception := None\<rparr>"

definition same_design :: "graph \<Rightarrow> graph \<Rightarrow> bool" where
  "same_design g g' \<longleftrightarrow>
     map (\<lambda>(p, nd). (p, design nd)) (g_nodes g') = map (\<lambda>(p, nd). (p, design nd)) (g_nodes g)
     \<and> g_edges g' = g_edges g \<and> g_namespaces g' = g_namespaces g"

definition derives :: "ctx \<Rightarrow> ctx \<Rightarrow> bool" where
  "derives s s' \<longleftrightarrow>
     same_books s s' \<and> ledger_step s s' \<and> same_design (cx_graph s) (cx_graph s')
     \<and> symbols_grow (g_symbols (cx_graph s)) (g_symbols (cx_graph s'))
     \<and> cx_revisions s' = cx_revisions s \<and> (sessions_ok s \<longrightarrow> sessions_ok s')"

definition deriving :: "(ctx, 'a) oper \<Rightarrow> bool" where
  "deriving m \<longleftrightarrow> (\<forall>s. derives s (snd (m s)))"

named_theorems derive_intros \<open>operations that a derivation may perform\<close>

lemma same_design_refl [simp]: "same_design g g"
  by (simp add: same_design_def)

lemma same_design_trans: "same_design a b \<Longrightarrow> same_design b c \<Longrightarrow> same_design a c"
  by (simp add: same_design_def)

lemma derives_refl [simp, derive_intros]: "derives s s"
  by (simp add: derives_def ledger_step_same)

lemma derives_trans: "derives a b \<Longrightarrow> derives b c \<Longrightarrow> derives a c"
  unfolding derives_def using same_books_trans ledger_step_trans same_design_trans symbols_grow_trans by metis

interpretation derives: step_relation derives
  by standard (blast intro: derives_refl derives_trans)+

lemma deriving_ret [derive_intros]: "deriving (ret x)"
  by (simp add: deriving_def)

lemma deriving_raise [derive_intros]: "deriving (raise e)"
  by (simp add: deriving_def)

lemma deriving_lift [derive_intros]: "deriving (lift_res r)"
  by (simp add: deriving_def lift_res_def)

lemma deriving_modify [derive_intros]: "(\<And>s. derives s (f s)) \<Longrightarrow> deriving (modify f)"
  by (simp add: deriving_def)

lemma deriving_bnd [derive_intros]:
  assumes "deriving m" and "\<And>x. deriving (f x)"
  shows "deriving (bnd m f)"
  using assms unfolding deriving_def by (intro allI derives.bnd_keeps) blast+

lemma deriving_if [derive_intros]: "deriving m \<Longrightarrow> deriving n \<Longrightarrow> deriving (if b then m else n)"
  by simp

lemma deriving_case_prod [derive_intros]:
  "(\<And>a b. deriving (f a b)) \<Longrightarrow> deriving (case p of (a, b) \<Rightarrow> f a b)"
  by (cases p) simp

lemma deriving_case_option [derive_intros]:
  "deriving m \<Longrightarrow> (\<And>a. deriving (f a)) \<Longrightarrow> deriving (case x of None \<Rightarrow> m | Some a \<Rightarrow> f a)"
  by (cases x) simp_all

lemma deriving_run: "deriving m \<Longrightarrow> derives s (snd (m s))"
  by (simp add: deriving_def)

lemma derivingI: "(\<And>s. derives s (snd (m s))) \<Longrightarrow> deriving m"
  by (simp add: deriving_def)

lemma deriving_after: "derives s s1 \<Longrightarrow> deriving m \<Longrightarrow> derives s (snd (m s1))"
  using derives_trans deriving_run by blast

subsection \<open>Evaluations\<close>

lemma quiet_fields:
  assumes "quiet s s'"
  shows "cx_refs s' = cx_refs s" "cx_runtime s' = cx_runtime s" "cx_facts s' = cx_facts s"
    "cx_code_refholds s' = cx_code_refholds s" "cx_module_refholds s' = cx_module_refholds s"
    "cx_edge_pin_refholds s' = cx_edge_pin_refholds s" "cx_anonymous_refholds s' = cx_anonymous_refholds s"
    "cx_superseded_refholds s' = cx_superseded_refholds s"
    "g_nodes (cx_graph s') = g_nodes (cx_graph s)" "g_edges (cx_graph s') = g_edges (cx_graph s)"
    "g_namespaces (cx_graph s') = g_namespaces (cx_graph s)"
    "cx_edge_code_states s' = cx_edge_code_states s" "cx_sessions s' = cx_sessions s"
    "cx_node_leaves s' = cx_node_leaves s" "cx_revisions s' = cx_revisions s"
proof -
  have c: "core s' = core s" using assms by (simp add: quiet_def)
  then have g: "cx_graph (core s') = cx_graph (core s)" by simp
  note cg = c [THEN arg_cong]
  show "cx_refs s' = cx_refs s" using cg [of cx_refs] by (simp add: core_def)
  show "cx_runtime s' = cx_runtime s" using cg [of cx_runtime] by (simp add: core_def)
  show "cx_facts s' = cx_facts s" using cg [of cx_facts] by (simp add: core_def)
  show "cx_code_refholds s' = cx_code_refholds s" using cg [of cx_code_refholds] by (simp add: core_def)
  show "cx_module_refholds s' = cx_module_refholds s" using cg [of cx_module_refholds] by (simp add: core_def)
  show "cx_edge_pin_refholds s' = cx_edge_pin_refholds s" using cg [of cx_edge_pin_refholds] by (simp add: core_def)
  show "cx_anonymous_refholds s' = cx_anonymous_refholds s" using cg [of cx_anonymous_refholds] by (simp add: core_def)
  show "cx_superseded_refholds s' = cx_superseded_refholds s" using cg [of cx_superseded_refholds] by (simp add: core_def)
  show "cx_edge_code_states s' = cx_edge_code_states s" using cg [of cx_edge_code_states] by (simp add: core_def)
  show "cx_sessions s' = cx_sessions s" using cg [of cx_sessions] by (simp add: core_def)
  show "cx_node_leaves s' = cx_node_leaves s" using cg [of cx_node_leaves] by (simp add: core_def)
  show "cx_revisions s' = cx_revisions s" using cg [of cx_revisions] by (simp add: core_def)
  show "g_nodes (cx_graph s') = g_nodes (cx_graph s)" using g [THEN arg_cong, of g_nodes] by (simp add: core_def)
  show "g_edges (cx_graph s') = g_edges (cx_graph s)" using g [THEN arg_cong, of g_edges] by (simp add: core_def)
  show "g_namespaces (cx_graph s') = g_namespaces (cx_graph s)"
    using g [THEN arg_cong, of g_namespaces] by (simp add: core_def)
qed

lemma quiet_books: "quiet s s' \<Longrightarrow> same_books s s'"
  by (rule same_booksI)
     (simp_all add: held_count_def wf_ctx_def quiet_fields, simp add: quiet_def)

lemma quiet_derives: "quiet s s' \<Longrightarrow> derives s s'"
  unfolding derives_def
  by (simp add: quiet_books quiet_fields ledger_step_same same_design_def sessions_ok_def) (simp add: quiet_def)

lemma quietly_deriving: "quietly m \<Longrightarrow> deriving m"
  by (simp add: quietly_def deriving_def quiet_derives)

lemmas deriving_sources [derive_intros] =
  quietly_source_state [THEN quietly_deriving] quietly_projection [THEN quietly_deriving]
  quietly_demand [THEN quietly_deriving] quietly_hold_anonymous [THEN quietly_deriving]

subsection \<open>Writing to a node\<close>

lemma update_design:
  assumes "map_of nodes p = Some nd" and "design nd' = design nd"
  shows "map (\<lambda>(p, nd). (p, design nd)) (AList.update p nd' nodes) = map (\<lambda>(p, nd). (p, design nd)) nodes"
  using assms by (induction nodes) (auto split: if_splits)

lemma put_node_design:
  assumes "get_node s p = Some nd" and "design nd' = design nd"
  shows "same_design (cx_graph s) (cx_graph (put_node p nd' s))"
  using update_design [OF assms(1) [unfolded get_node_def] assms(2)]
  by (simp add: same_design_def put_node_def)

lemma upd_node_derives:
  assumes "\<And>nd. nd_root_producer (f nd) = nd_root_producer nd"
    and "\<And>nd. nd_pin_producers (f nd) = nd_pin_producers nd" and "\<And>nd. nd_current (f nd) = nd_current nd"
    and "\<And>nd. design (f nd) = design nd"
  shows "derives s (upd_node p f s)"
  using upd_node_books [of f s p, OF assms(1-3)] put_node_design [of s p _ "f _", OF _ assms(4)]
  by (auto simp: derives_def upd_node_def ledger_step_def put_node_def sessions_ok_def split: option.split)

lemma set_state_derives [derive_intros]: "derives s (set_state p st r err s)"
  unfolding set_state_def by (rule upd_node_derives) (simp_all add: design_def)

lemma set_blocked_derives [derive_intros]: "derives s (set_blocked p st r s)"
  unfolding set_blocked_def by (rule upd_node_derives) (simp_all add: design_def)

lemma replace_current_deriving [derive_intros]: "deriving (replace_current_checksum X p c)"
proof (rule derivingI)
  fix s
  have "same_books s (snd (replace_current_checksum X p c s))"
    using replace_current_balanced by (rule balanced_apply)
  moreover have "ledger_step s (snd (replace_current_checksum X p c s))"
    by (rule ledger_step_same)
       (simp add: replace_current_checksum_run Let_def put_node_def split: option.split)
  moreover have "same_design (cx_graph s) (cx_graph (snd (replace_current_checksum X p c s)))"
    using put_node_design [of s p _ "_\<lparr>nd_current := _\<rparr>"]
    by (auto simp: replace_current_checksum_run Let_def design_def put_node_def split: option.split)
  moreover have "g_symbols (cx_graph (snd (replace_current_checksum X p c s))) = g_symbols (cx_graph s)"
    "cx_revisions (snd (replace_current_checksum X p c s)) = cx_revisions s"
    "sessions_ok (snd (replace_current_checksum X p c s)) = sessions_ok s"
    by (simp_all add: replace_current_checksum_run Let_def put_node_def sessions_ok_def split: option.split)
  ultimately show "derives s (snd (replace_current_checksum X p c s))"
    by (simp add: derives_def)
qed

lemma conclude_deriving [derive_intros]: "deriving (conclude X p out)"
  unfolding conclude_def by (intro derive_intros)


lemma own_projection_deriving [derive_intros]: "deriving (own_projection X p nd c local t)"
  unfolding own_projection_def by (intro derive_intros)

lemma apply_upstream_deriving [derive_intros]: "deriving (apply_upstream_state X p up)"
  unfolding apply_upstream_state_def by (intro derive_intros) (simp add: derive_intros prod.case_eq_if)

lemma derive_projected_deriving [derive_intros]: "deriving (derive_projected X p nd e src n l)"
proof (rule derivingI)
  fix s
  have m: "deriving (bnd (case deep_barrier t path ct of
                 None \<Rightarrow> ret ()
               | Some member \<Rightarrow>
                   bnd (projection X c (take 1 path) t member None None True False)
                     (\<lambda>(state, child, _).
                      if state = Complete \<and> length path > 1
                      then hold_anonymous X e (Src_node src, member, take 1 path) 0 child
                      else ret ())) (\<lambda>_.
          own_projection X p nd c path t))" for t path ct c
    by (intro derive_intros)
  show "derives s (snd (derive_projected X p nd e src n l s))"
    unfolding derive_projected_def
    by (simp add: conclude_deriving [THEN deriving_run] m [THEN deriving_run] prod.case_eq_if
        split: option.split)
qed

lemma pop_edge_error_derives: "derives s (pop_edge_error t s)"
  by (rule quiet_derives) (rule quiet_pop_edge_error)

lemma derive_sourced_deriving [derive_intros]: "deriving (derive_sourced X p nd e src l)"
proof -
  have a: "derives s (snd (conclude X p out (pop_edge_error t s)))"
    "derives s (snd (apply_upstream_state X p up (pop_edge_error t s)))" for s out up t
    by (intro deriving_after [OF pop_edge_error_derives] derive_intros)+
  show ?thesis
    unfolding derive_sourced_def
    by (intro derive_intros derivingI)
       (simp add: Let_def a deriving_run own_projection_deriving conclude_deriving)
qed

lemma derive_edge_deriving [derive_intros]: "deriving (derive_edge X p nd e)"
  unfolding derive_edge_def
  by (rule derivingI)
     (simp add: deriving_run derive_projected_deriving derive_sourced_deriving split: option.split)

lemma fresh_error_derives: "fresh_error x s = (err, s') \<Longrightarrow> derives s s'"
  using quiet_derives [OF quiet_fresh_error [of s x]] by simp

lemma derive_root_expression_deriving [derive_intros]: "deriving (derive_root_expression X p expr)"
  unfolding derive_root_expression_def
  by (rule derivingI)
     (auto simp: deriving_run conclude_deriving split: sum.split prod.split
        intro: deriving_after [OF fresh_error_derives])

lemma derive_root_deriving [derive_intros]: "deriving (derive_root X p nd)"
proof (rule derivingI)
  fix s
  have "deriving (bnd (lift_res r) (\<lambda>input_type.
         case input_type of
           Some t \<Rightarrow>
             (if b \<and> (t \<noteq> config_celltype nd \<or> fst (cell_validator nd) \<noteq> None)
              then own_projection X p nd c [] t
              else conclude X p (state, c, None))
         | None \<Rightarrow> conclude X p (state, c, None)))" for r b c state
    by (intro derive_intros)
  then show "derives s (snd (derive_root X p nd s))"
    unfolding derive_root_def Let_def by (rule deriving_run)
qed

lemma join_inputs_deriving [derive_intros]: "deriving (join_inputs X p ct incoming members pending)"
proof (induction incoming arbitrary: members pending)
  case (Cons i incoming)
  obtain local e where i: "i = (local, e)" by force
  have m: "deriving (bnd (projection X c [] t ct None None True True)
                      (\<lambda>(state, c, err).
                       if state = Failed
                       then bnd (conclude X p (Failed, None, err)) (\<lambda>_. ret None)
                       else if state \<noteq> Complete
                       then join_inputs X p ct incoming members (pending @ [e])
                       else join_inputs X p ct incoming (AList.update (hd local) c members) pending))"
    for c t members pending
    by (intro derive_intros Cons.IH)
  show ?case
    unfolding i join_inputs.simps
    by (intro derive_intros derivingI)
       (simp add: Let_def deriving_run Cons.IH m split: option.split prod.split)
qed (simp add: derive_intros)

lemma source_states_deriving [derive_intros]: "deriving (source_states X edges)"
proof (induction edges)
  case (Cons e edges)
  show ?case unfolding source_states.simps by (intro derive_intros Cons.IH)
qed (unfold source_states.simps, rule derive_intros)

lemma apply_pending_deriving [derive_intros]: "deriving (apply_pending X p edges join)"
proof -
  have m: "deriving (bnd (if join
            then bnd (lift_res r) (\<lambda>reasons.
                   modify (set_blocked p (join_state reasons)
                     (if reasons \<noteq> [] then Reasons reasons else No_reason)))
            else modify (case sr of
                   Some r \<Rightarrow> set_blocked p Blocked (Reason r)
                 | None \<Rightarrow> set_blocked p Waiting No_reason)) (\<lambda>_.
       replace_current_checksum X p None))" for r sr
    by (intro derive_intros) (simp add: derive_intros split: option.split)
  show ?thesis
    unfolding apply_pending_def by (intro derive_intros derivingI) (rule deriving_run [OF m])
qed

lemma same_books_unbooked:
  assumes "cx_refs s' = cx_refs s" "cx_facts s' = cx_facts s"
    "cx_code_refholds s' = cx_code_refholds s" "cx_module_refholds s' = cx_module_refholds s"
    "cx_edge_pin_refholds s' = cx_edge_pin_refholds s" "cx_anonymous_refholds s' = cx_anonymous_refholds s"
    "cx_superseded_refholds s' = cx_superseded_refholds s" "cx_graph s' = cx_graph s"
    "wf_dict (cx_anonymous_updates s) \<Longrightarrow> wf_dict (cx_anonymous_updates s')"
    "cx_sessions s' = cx_sessions s" "cx_node_leaves s' = cx_node_leaves s"
  shows "same_books s s'"
  by (rule same_booksI) (simp_all add: held_count_def wf_ctx_def assms)

lemma unbooked_derives:
  assumes "cx_refs s' = cx_refs s" "cx_facts s' = cx_facts s"
    "cx_code_refholds s' = cx_code_refholds s" "cx_module_refholds s' = cx_module_refholds s"
    "cx_edge_pin_refholds s' = cx_edge_pin_refholds s" "cx_anonymous_refholds s' = cx_anonymous_refholds s"
    "cx_superseded_refholds s' = cx_superseded_refholds s" "cx_graph s' = cx_graph s"
    "wf_dict (cx_anonymous_updates s) \<Longrightarrow> wf_dict (cx_anonymous_updates s')"
    "cx_sessions s' = cx_sessions s" "cx_node_leaves s' = cx_node_leaves s"
    "cx_revisions s' = cx_revisions s"
    and "ledger_step s s'"
  shows "derives s s'"
  using same_books_unbooked [OF assms(1-11)] by (simp add: derives_def sessions_ok_def assms(8,10,12,13))

lemma use_celljoin_derives [derive_intros]: "derives s (use_celljoin p s)"
  by (rule unbooked_derives) (simp_all add: use_celljoin_def ledger_step_same)

lemma celljoin_for_derives:
  assumes "celljoin_for X p ct base members s = (r, s')"
  shows "derives s s'"
  by (rule unbooked_derives)
     (use assms in \<open>auto simp: celljoin_for_def Let_def use_celljoin_def ledger_step_same
        split: option.splits sum.splits if_splits\<close>)

lemma join_root_deriving [derive_intros]: "deriving (join_root X p nd)"
  unfolding join_root_def by (intro derive_intros)

lemma finish_join_deriving [derive_intros]: "deriving (finish_join X p nd base members)"
proof (rule derivingI)
  fix s
  have m: "deriving (bnd (demand key) (conclude X p))" for key by (intro derive_intros)
  show "derives s (snd (finish_join X p nd base members s))"
    unfolding finish_join_def Let_def
    by (auto split: prod.split sum.split
        intro: celljoin_for_derives deriving_after [OF celljoin_for_derives m]
          deriving_after [OF celljoin_for_derives [THEN derives_trans [OF _ fresh_error_derives]] conclude_deriving])
qed

lemma derive_join_deriving [derive_intros]: "deriving (derive_join X p nd incoming)"
  unfolding derive_join_def by (intro derive_intros)

lemma derive_cell_deriving [derive_intros]: "deriving (derive_cell X p nd)"
  unfolding derive_cell_def Let_def
  by (rule derivingI)
     (simp add: deriving_run conclude_deriving derive_edge_deriving derive_root_expression_deriving
       derive_root_deriving derive_join_deriving split: list.split option.split)

end
