(* ===== verification/Derive_Transformer.thy ===== *)
theory Derive_Transformer
  imports Derive_Cell
begin

text \<open>
  The derivation of a transformer (\<open>_derive_transformer\<close> of \<^verbatim>\<open>reactive.py\<close>): what each pin
  delivers, why the transformer cannot run when it cannot, and which run it has when it can; and
  the question whether a non-scratch holder needs the bytes of its result
  (\<open>_feeds_non_scratch_holder\<close> of \<^verbatim>\<open>context.py\<close>).

  A run is started by the effect \<open>E_launch_run\<close>, which carries what the frozen transformer of
  the code carries and the demand key does not fix: its inputs, its code and its scratch policy.
  The clock of a turn is read once, as \<open>now\<close>.
\<close>

section \<open>Holders of a result\<close>

datatype feed = Feeds | Passes path | Stops | Breaks exc

definition converts :: "ext \<Rightarrow> celltype \<Rightarrow> celltype \<Rightarrow> bool" where
  "converts X a b \<longleftrightarrow> a \<noteq> b \<and> \<not> x_preserving X a b"

definition feed_steps :: "edge \<Rightarrow> celltype \<Rightarrow> steps" where
  "feed_steps e source_type =
     (if ed_conversion e \<and> ed_conversion_steps e = []
      then [(0, or_else (ed_source_celltype e) source_type)] else ed_conversion_steps e)"

definition feed_target :: "ext \<Rightarrow> ctx \<Rightarrow> celltype \<Rightarrow> path \<Rightarrow> path \<Rightarrow> feed" where
  "feed_target X s output_type target local =
     (case get_node s target of
        None \<Rightarrow> Breaks Key_Error
      | Some nd \<Rightarrow>
          (case nd_kind nd of
             Transformer_kind \<Rightarrow>
               (if local = [] then Breaks Index_Error
                else if converts X output_type
                  (case nd_transformer_config nd of Some c \<Rightarrow> pin_celltype c (hd local) | None \<Rightarrow> [])
                then Stops
                else if \<not> edge_target_scratch nd local then Feeds else Stops)
           | Cell_kind \<Rightarrow>
               (if local \<noteq> [] then Stops
                else if converts X output_type (config_celltype nd) then Stops
                else if \<not> cell_scratch nd then Feeds
                else Passes target)))"

definition feed_edge :: "ext \<Rightarrow> ctx \<Rightarrow> path \<Rightarrow> edge \<Rightarrow> feed" where
  "feed_edge X s current e =
     (case (resolve_existing (cx_graph s) (ed_source e), resolve_existing (cx_graph s) (ed_target e)) of
        (Some (source, source_local), Some (target, local)) \<Rightarrow>
          (if source \<noteq> current \<or> source_local \<noteq> [] then Stops
           else
             (let source_type = node_type s source;
                  types = map snd (feed_steps e source_type)
              in if list_ex (\<lambda>(a, b). converts X a b) (zip (source_type # butlast types) types) then Stops
                 else feed_target X s (if types \<noteq> [] then last types else source_type) target local))
      | _ \<Rightarrow> Stops)"

text \<open>One pass over the edges: the answer, or the cells visited and the stack after it.\<close>

fun feed_scan ::
  "ext \<Rightarrow> ctx \<Rightarrow> path \<Rightarrow> edge list \<Rightarrow> path list \<times> path list \<Rightarrow> (exc + bool) + path list \<times> path list" where
  "feed_scan X s current [] st = Inr st"
| "feed_scan X s current (e # edges) (visited, stack) =
     (case feed_edge X s current e of
        Feeds \<Rightarrow> Inl (Inr True)
      | Breaks x \<Rightarrow> Inl (Inl x)
      | Stops \<Rightarrow> feed_scan X s current edges (visited, stack)
      | Passes target \<Rightarrow>
          feed_scan X s current edges
            (if List.member visited target then (visited, stack) else (target # visited, target # stack)))"

lemma feed_edge_node: "feed_edge X s current e = Passes target \<Longrightarrow> target \<in> set (keys (g_nodes (cx_graph s)))"
  by (auto simp: feed_edge_def feed_target_def Let_def get_node_def in_keys_iff
      split: option.splits if_splits node_kind.splits)

lemma feed_scan_measure:
  assumes "feed_scan X s current edges (visited, stack) = Inr (visited', stack')"
  shows "visited' = visited \<and> stack' = stack
    \<or> card (set (keys (g_nodes (cx_graph s))) - set visited') < card (set (keys (g_nodes (cx_graph s))) - set visited)"
  using assms
proof (induction edges arbitrary: visited stack)
  case (Cons e edges)
  show ?case
  proof (cases "\<exists>t. feed_edge X s current e = Passes t \<and> \<not> List.member visited t")
    case True
    then obtain t where t: "feed_edge X s current e = Passes t" "t \<notin> set visited" by auto
    with Cons.prems have "feed_scan X s current edges (t # visited, t # stack) = Inr (visited', stack')" by simp
    from Cons.IH [OF this]
    have "card (set (keys (g_nodes (cx_graph s))) - set visited')
        \<le> card (set (keys (g_nodes (cx_graph s))) - set (t # visited))"
      by auto
    also have "\<dots> < card (set (keys (g_nodes (cx_graph s))) - set visited)"
      using seen_measure [OF t(2) feed_edge_node [OF t(1)]] by simp
    finally show ?thesis ..
  next
    case False
    with Cons show ?thesis by (cases "feed_edge X s current e") (auto split: if_splits)
  qed
qed simp

function feeds_loop :: "ext \<Rightarrow> ctx \<Rightarrow> path list \<Rightarrow> path list \<Rightarrow> exc + bool" where
  "feeds_loop X s visited [] = Inr False"
| "feeds_loop X s visited (current # stack) =
     (case feed_scan X s current (g_edges (cx_graph s)) (visited, stack) of
        Inl r \<Rightarrow> r
      | Inr (visited', stack') \<Rightarrow> feeds_loop X s visited' stack')"
  by pat_completeness auto
termination
proof (relation "measures [\<lambda>(X, s, visited, stack). card (set (keys (g_nodes (cx_graph s))) - set visited),
    \<lambda>(X, s, visited, stack). length stack]", goal_cases)
  case (2 X s visited current stack r visited' stack')
  then show ?case
    using feed_scan_measure [of X s current "g_edges (cx_graph s)" visited stack visited' stack']
    by (auto simp del: set_map)
qed simp

definition feeds_non_scratch_holder :: "ext \<Rightarrow> ctx \<Rightarrow> path \<Rightarrow> exc + bool" where
  "feeds_non_scratch_holder X s p = feeds_loop X s [p] [p]"

section \<open>One pin\<close>

datatype pin_result =
    Pin_skipped
  | Pin_pending reason
  | Pin_ready checksum
  | Pin_refused error

definition unavailable :: "nstate \<Rightarrow> reason" where
  "unavailable state =
     (if state = Miswired then R_miswired
      else if state = Blocked_by_miswiring then R_blocked_by_miswiring
      else if state = Failed then R_blocked_by_error
      else if state = Blocked \<or> state = Unwired then R_blocked_by_unwired
      else R_waiting)"

definition blocked_pin :: "nstate \<Rightarrow> nstate" where
  "blocked_pin state =
     (if List.member [Failed, Blocked, Unwired, Blocked_by_miswiring] state then Blocked else state)"

definition set_pin_state :: "path \<Rightarrow> string \<Rightarrow> pin_state \<Rightarrow> ctx \<Rightarrow> ctx" where
  "set_pin_state p pin ps = upd_node p (\<lambda>nd. nd\<lparr>nd_pin_states := AList.update pin ps (nd_pin_states nd)\<rparr>)"

definition pin_pending :: "path \<Rightarrow> string \<Rightarrow> pin_state \<Rightarrow> reason \<Rightarrow> (ctx, pin_result) oper" where
  "pin_pending p pin ps reason = bnd (modify (set_pin_state p pin ps)) (\<lambda>_. ret (Pin_pending reason))"

text \<open>An exception of the imported package, caught when its class is the given one.\<close>

definition catching :: "exc \<Rightarrow> exc \<Rightarrow> (error \<Rightarrow> (ctx, 'a) oper) \<Rightarrow> (ctx, 'a) oper" where
  "catching caught x handler s =
     (if x = caught then case fresh_error x s of (err, s') \<Rightarrow> handler err s' else (Inl x, s))"

definition pin_failed :: "path \<Rightarrow> string \<Rightarrow> error \<Rightarrow> (ctx, pin_result) oper" where
  "pin_failed p pin err = pin_pending p pin (Failed, None, Some err) R_blocked_by_error"

definition validate_compiled_pin ::
  "ext \<Rightarrow> path \<Rightarrow> transformer_config \<Rightarrow> string \<Rightarrow> celltype \<Rightarrow> checksum \<Rightarrow> (ctx, pin_result) oper" where
  "validate_compiled_pin X p c pin output_type checksum =
     (case x_compiled_pin X c pin output_type checksum of
        None \<Rightarrow> ret (Pin_ready checksum)
      | Some (x, mixed) \<Rightarrow>
          (if mixed then (\<lambda>s. case fresh_error x s of (err, s') \<Rightarrow>
              (Inr (Pin_refused err), set_pin_state p pin (Failed, None, Some err) s'))
           else catching Type_Error x (pin_failed p pin)))"

definition check_read_error ::
  "ext \<Rightarrow> path \<Rightarrow> transformer_config \<Rightarrow> string \<Rightarrow> celltype option \<Rightarrow> celltype \<Rightarrow> checksum
   \<Rightarrow> (ctx, pin_result) oper" where
  "check_read_error X p c pin input_type output_type checksum s =
     (let ready = (if tc_compilation c \<noteq> None then validate_compiled_pin X p c pin output_type checksum
                   else ret (Pin_ready checksum))
      in case (case get_node s p of None \<Rightarrow> None | Some nd \<Rightarrow> map_of (nd_pin_read_errors nd) pin) of
           None \<Rightarrow> ready s
         | Some (identity, err) \<Rightarrow>
             (if identity = (checksum, input_type, output_type) then pin_failed p pin err s
              else ready (upd_node p (\<lambda>nd. nd\<lparr>nd_pin_read_errors :=
                                         AList.delete pin (nd_pin_read_errors nd)\<rparr>) s)))"

definition input_fingertip :: "transformer_config \<Rightarrow> bool" where
  "input_fingertip c = (case map_of (tc_meta c) ''allow_input_fingertip'' of Some v \<Rightarrow> truthy v | None \<Rightarrow> False)"

text \<open>The conversion of a pin's input; a compiled transformer words its error anew.\<close>

definition convert_pin ::
  "ext \<Rightarrow> path \<Rightarrow> transformer_config \<Rightarrow> string \<Rightarrow> bool \<Rightarrow> celltype \<Rightarrow> celltype \<Rightarrow> checksum
   \<Rightarrow> (ctx, pin_result) oper" where
  "convert_pin X p c pin wired input_type output_type checksum =
     (if input_type \<noteq> output_type then
        (let scratch = input_fingertip c \<and> wired
         in bnd (projection X (Some checksum) [] input_type output_type None None scratch (\<not> scratch))
              (\<lambda>(state, converted, err).
               bnd (if tc_compilation c \<noteq> None \<and> err \<noteq> None
                    then (\<lambda>s. case fresh_error Value_Error s of (e, s') \<Rightarrow> (Inr (Some e), s'))
                    else ret err) (\<lambda>err.
               bnd (modify (set_pin_state p pin (state, converted, err))) (\<lambda>_.
               if state \<noteq> Complete then ret (Pin_pending (unavailable state))
               else case converted of
                 None \<Rightarrow> raise Attribute_Error
               | Some x \<Rightarrow> check_read_error X p c pin (Some input_type) output_type x))))
      else bnd (modify (set_pin_state p pin (Complete, Some checksum, None))) (\<lambda>_.
           check_read_error X p c pin (Some input_type) output_type checksum))"

definition check_pin_value ::
  "ext \<Rightarrow> path \<Rightarrow> transformer_config \<Rightarrow> string \<Rightarrow> bool \<Rightarrow> celltype \<Rightarrow> checksum \<Rightarrow> (ctx, pin_result) oper" where
  "check_pin_value X p c pin wired input_type checksum =
     (let output_type = pin_celltype c (KStr pin); canonical = x_canonical X checksum (Some input_type)
      in if canonical = x_null X \<and> List.member (tc_optional_pins c) pin then
           (case (if input_type \<noteq> output_type then x_shape X [] input_type output_type else None) of
              Some x \<Rightarrow> catching Value_Error x (pin_failed p pin)
            | None \<Rightarrow> bnd (modify (set_pin_state p pin (Complete, Some canonical, None))) (\<lambda>_. ret Pin_skipped))
         else case (if tc_compilation c = None then x_pin_null X canonical output_type else None) of
           Some x \<Rightarrow> catching Type_Error x (pin_failed p pin)
         | None \<Rightarrow> convert_pin X p c pin wired input_type output_type canonical)"

text \<open>A pin without a checksum.\<close>

definition unwired_pin :: "path \<Rightarrow> transformer_config \<Rightarrow> string \<Rightarrow> bool \<Rightarrow> (ctx, pin_result) oper" where
  "unwired_pin p c pin wired =
     bnd (modify (set_pin_state p pin (Unwired, None, None))) (\<lambda>_.
     ret (if wired then Pin_pending R_blocked_by_unwired
          else if \<not> List.member (tc_optional_pins c) pin then Pin_pending R_unwired
          else Pin_skipped))"

definition derive_pin ::
  "ext \<Rightarrow> path \<Rightarrow> transformer_config \<Rightarrow> (path \<times> edge) list \<Rightarrow> string \<Rightarrow> (ctx, pin_result) oper" where
  "derive_pin X p c incoming pin =
     (case map_of incoming [KStr pin] of
        Some e \<Rightarrow>
          bnd (source_state X e) (\<lambda>(state, checksum) s.
            if state \<noteq> Complete then pin_pending p pin (blocked_pin state, None, None) (unavailable state) s
            else bnd (lift_res (edge_input_celltype s e)) (\<lambda>input_type.
              case checksum of
                None \<Rightarrow> unwired_pin p c pin True
              | Some x \<Rightarrow> check_pin_value X p c pin True input_type x) s)
      | None \<Rightarrow> (\<lambda>s.
          (case (case get_node s p of None \<Rightarrow> None | Some nd \<Rightarrow> map_of (nd_pin_producers nd) pin) of
             None \<Rightarrow> unwired_pin p c pin False s
           | Some producer \<Rightarrow>
               check_pin_value X p c pin False (cp_celltype producer) (cp_checksum producer) s)))"

section \<open>All pins\<close>

text \<open>
  The loop over the sorted pins: what is pending, the inputs that are ready, and whether a value
  was refused.
\<close>

fun derive_pins ::
  "ext \<Rightarrow> path \<Rightarrow> transformer_config \<Rightarrow> (path \<times> edge) list \<Rightarrow> string list
   \<Rightarrow> (reason \<times> string) list \<Rightarrow> (string \<times> checksum) list
   \<Rightarrow> (ctx, error + (reason \<times> string) list \<times> (string \<times> checksum) list) oper" where
  "derive_pins X p c incoming [] pending pins = ret (Inr (pending, pins))"
| "derive_pins X p c incoming (pin # rest) pending pins =
     bnd (derive_pin X p c incoming pin) (\<lambda>r.
     case r of
       Pin_skipped \<Rightarrow> derive_pins X p c incoming rest pending pins
     | Pin_pending reason \<Rightarrow> derive_pins X p c incoming rest (pending @ [(reason, pin)]) pins
     | Pin_ready checksum \<Rightarrow> derive_pins X p c incoming rest pending (AList.update pin checksum pins)
     | Pin_refused err \<Rightarrow> ret (Inl err))"

definition code_source ::
  "ext \<Rightarrow> path \<Rightarrow> transformer_config \<Rightarrow> (path \<times> edge) list
   \<Rightarrow> (ctx, checksum option \<times> (reason \<times> string) list) oper" where
  "code_source X p c incoming =
     (case map_of incoming [KStr ''code''] of
        Some e \<Rightarrow>
          bnd (source_state X e) (\<lambda>(state, code).
          bnd (if state = Complete \<and> code \<noteq> None
               then modify (\<lambda>s. s\<lparr>cx_edge_code_states := AList.update p (the code) (cx_edge_code_states s)\<rparr>)
               else ret ()) (\<lambda>_.
          ret (code, if state \<noteq> Complete then [(unavailable state, ''code'')] else [])))
      | None \<Rightarrow> ret (tc_code_checksum c, if tc_code_checksum c = None then [(R_unwired, ''code'')] else []))"

definition reason_rank :: "reason \<Rightarrow> nat" where
  "reason_rank r =
     (case r of R_miswired \<Rightarrow> 0 | R_unwired \<Rightarrow> 1 | R_blocked_by_miswiring \<Rightarrow> 2
      | R_blocked_by_unwired \<Rightarrow> 3 | R_blocked_by_error \<Rightarrow> 4 | R_waiting \<Rightarrow> 5)"

text \<open>The first reason of least rank, as \<open>min\<close> finds it.\<close>

definition min_reason :: "reason list \<Rightarrow> reason" where
  "min_reason rs = fold (\<lambda>r best. if reason_rank r < reason_rank best then r else best) (tl rs) (hd rs)"

definition reason_state :: "reason \<Rightarrow> nstate" where
  "reason_state r =
     (case r of R_miswired \<Rightarrow> Miswired | R_unwired \<Rightarrow> Unwired | R_waiting \<Rightarrow> Waiting | _ \<Rightarrow> Blocked)"

definition hold_back :: "ext \<Rightarrow> path \<Rightarrow> real \<Rightarrow> (reason \<times> string) list \<Rightarrow> (ctx, unit) oper" where
  "hold_back X p now pending =
     (let reason = min_reason (map fst pending); state = reason_state reason;
          open_pins = filter (\<lambda>(why, _). why \<noteq> R_waiting) pending
      in bnd (modify (suspend p now)) (\<lambda>_.
         bnd (modify (upd_node p (\<lambda>nd. nd\<lparr>
                nd_state := state,
                nd_block_reason := (if state = Blocked then Reason reason else No_reason),
                nd_pin_block_reasons := dict_of (map (\<lambda>(why, pin). (pin, why)) open_pins),
                nd_block_pins := sort (map snd open_pins),
                nd_exception := None\<rparr>))) (\<lambda>_.
         replace_current_checksum X p None)))"

section \<open>The run\<close>

definition reinstates :: "demand_key \<Rightarrow> nat option \<Rightarrow> run_record \<Rightarrow> bool" where
  "reinstates key forced r \<longleftrightarrow>
     forced \<noteq> Some (rr_generation r) \<and> rr_demand_key r = Some key \<and> rr_phase r \<noteq> P_cancelled"

text \<open>
  A held run with the same key becomes the current run again. What it has already computed
  comes back as a later fact.
\<close>

definition reinstated :: "run_record \<Rightarrow> run_record" where
  "reinstated r =
     (let r1 = (if rr_result r \<noteq> None \<or> rr_exception r \<noteq> None
                then r\<lparr>rr_result := None, rr_exception := None, rr_error := None\<rparr> else r)
      in r1\<lparr>rr_phase := P_running, rr_hold_deadline := None, rr_hold_kind := None\<rparr>)"

definition reinstate :: "ext \<Rightarrow> path \<Rightarrow> run_record \<Rightarrow> (ctx, unit) oper" where
  "reinstate X p r s =
     (let s1 = put_held p (remove1 r (held_runs s p)) s;
          done = rr_result r \<noteq> None \<or> rr_exception r \<noteq> None;
          s2 = (if done then add_effect (E_finished p (rr_generation r) (rr_identity r) (rr_result r) (rr_error r)) s1
                else s1);
          r' = reinstated r
      in publish_run X p r' (put_current p r' s2))"

definition start_run ::
  "ext \<Rightarrow> path \<Rightarrow> transformer_config \<Rightarrow> checksum \<Rightarrow> (string \<times> checksum) list \<Rightarrow> demand_key \<Rightarrow> (ctx, unit) oper" where
  "start_run X p c code pins key s =
     (case next_generation (cx_runtime s) of
        (g, rt) \<Rightarrow>
          bnd (lift_res (if tc_scratch c then map_sum id Not (feeds_non_scratch_holder X (set_runtime rt s) p)
                         else Inr False)) (\<lambda>scratch.
          bnd (modify (put_current p
                 \<lparr>rr_path = p, rr_et = False, rr_identity = None, rr_result = None, rr_exception = None,
                  rr_phase = P_running, rr_generation = g, rr_hold_deadline = None, rr_hold_kind = None,
                  rr_demand_key = Some key, rr_error = None, rr_dispatch_scratch = Some scratch\<rparr>)) (\<lambda>_.
          bnd (replace_current_checksum X p None) (\<lambda>_.
          bnd (modify (set_state p Computing No_reason None)) (\<lambda>_.
          if tc_callable c = No_signature then raise Value_Error
          else modify (add_effect (E_launch_run p g code pins scratch))))))
            (set_runtime rt s))"

definition next_run ::
  "ext \<Rightarrow> path \<Rightarrow> real \<Rightarrow> transformer_config \<Rightarrow> checksum \<Rightarrow> (string \<times> checksum) list \<Rightarrow> demand_key \<Rightarrow> nat option
   \<Rightarrow> (ctx, unit) oper" where
  "next_run X p now c code pins key forced s =
     (let s1 = suspend p now s
      in case find (reinstates key forced) (held_runs s1 p) of
           Some r \<Rightarrow> reinstate X p r s1
         | None \<Rightarrow> start_run X p c code pins key s1)"

text \<open>Whether the current run's result must be computed again as a value.\<close>

definition needs_value :: "ext \<Rightarrow> ctx \<Rightarrow> path \<Rightarrow> run_record \<Rightarrow> exc + bool" where
  "needs_value X s p r =
     (if rr_result r \<noteq> None \<and> rr_dispatch_scratch r = Some True then feeds_non_scratch_holder X s p
      else Inr False)"

definition derive_run ::
  "ext \<Rightarrow> path \<Rightarrow> real \<Rightarrow> transformer_config \<Rightarrow> checksum \<Rightarrow> (string \<times> checksum) list \<Rightarrow> (ctx, unit) oper" where
  "derive_run X p now c code pins s =
     (let key = (code, sort_key fst pins, tc_config_token c);
          s1 = release_upstream_holds p (\<lambda>r. rr_demand_key r = Some key) s
      in case current_run s1 p of
           None \<Rightarrow> next_run X p now c code pins key None s1
         | Some r \<Rightarrow>
             (if rr_demand_key r \<noteq> Some key then next_run X p now c code pins key None s1
              else bnd (lift_res (needs_value X s1 p r)) (\<lambda>needs.
                if needs \<and> \<not> x_resolvable X (the (rr_result r))
                then next_run X p now c code pins key (Some (rr_generation r))
                else publish_run X p r) s1))"

section \<open>The derivation of a transformer\<close>

definition refuse :: "ext \<Rightarrow> path \<Rightarrow> real \<Rightarrow> bool \<Rightarrow> error \<Rightarrow> (ctx, unit) oper" where
  "refuse X p now forget_pins err =
     bnd (modify (suspend p now)) (\<lambda>_.
     bnd (modify (upd_node p (\<lambda>nd. nd\<lparr>
            nd_state := Failed, nd_block_reason := No_reason, nd_exception := Some err,
            nd_block_pins := [], nd_pin_block_reasons := [],
            nd_pin_states := (if forget_pins then [] else nd_pin_states nd)\<rparr>))) (\<lambda>_.
     replace_current_checksum X p None))"

definition reset_pins :: "path \<Rightarrow> ctx \<Rightarrow> ctx" where
  "reset_pins p = upd_node p (\<lambda>nd. nd\<lparr>nd_block_pins := [], nd_pin_block_reasons := [], nd_pin_states := []\<rparr>)"

definition derive_inputs :: "ext \<Rightarrow> path \<Rightarrow> real \<Rightarrow> transformer_config \<Rightarrow> (path \<times> edge) list \<Rightarrow> (ctx, unit) oper" where
  "derive_inputs X p now c incoming =
     bnd (code_source X p c incoming) (\<lambda>(code, pending).
     bnd (derive_pins X p c incoming (sort (tc_pins c)) pending []) (\<lambda>r.
     case r of
       Inl err \<Rightarrow> refuse X p now False err
     | Inr (pending, pins) \<Rightarrow>
         if pending \<noteq> [] then hold_back X p now pending
         else case code of
           None \<Rightarrow> raise Attribute_Error
         | Some code \<Rightarrow> derive_run X p now c code pins))"

definition derive_transformer :: "ext \<Rightarrow> path \<Rightarrow> real \<Rightarrow> transformer_config \<Rightarrow> (ctx, unit) oper" where
  "derive_transformer X p now c s =
     (case (if tc_compilation c \<noteq> None then x_compiled X c else None) of
        Some x \<Rightarrow> (case fresh_error x s of (err, s') \<Rightarrow> refuse X p now True err s')
      | None \<Rightarrow> derive_inputs X p now c (incoming_for (cx_graph s) p) (reset_pins p s))"

section \<open>A transformer's derivation leaves alone what a derivation leaves alone\<close>

text \<open>A step that changes the runs and the effects only.\<close>

definition runs_only :: "ctx \<Rightarrow> ctx \<Rightarrow> bool" where
  "runs_only s s' \<longleftrightarrow> s'\<lparr>cx_runtime := cx_runtime s, cx_effects := cx_effects s\<rparr> = s"

lemma runs_only_derives:
  assumes "runs_only s s'" and "ledger_step s s'"
  shows "derives s s'"
proof -
  note same = assms(1) [unfolded runs_only_def, symmetric, THEN arg_cong]
  show ?thesis
  proof (rule unbooked_derives [OF _ _ _ _ _ _ _ _ _ _ _ _ assms(2)])
    show "cx_revisions s' = cx_revisions s" using same [of cx_revisions] by simp
    show "cx_refs s' = cx_refs s" using same [of cx_refs] by simp
    show "cx_facts s' = cx_facts s" using same [of cx_facts] by simp
    show "cx_code_refholds s' = cx_code_refholds s" using same [of cx_code_refholds] by simp
    show "cx_module_refholds s' = cx_module_refholds s" using same [of cx_module_refholds] by simp
    show "cx_edge_pin_refholds s' = cx_edge_pin_refholds s" using same [of cx_edge_pin_refholds] by simp
    show "cx_anonymous_refholds s' = cx_anonymous_refholds s" using same [of cx_anonymous_refholds] by simp
    show "cx_superseded_refholds s' = cx_superseded_refholds s" using same [of cx_superseded_refholds] by simp
    show "cx_sessions s' = cx_sessions s" using same [of cx_sessions] by simp
    show "cx_node_leaves s' = cx_node_leaves s" using same [of cx_node_leaves] by simp
    show "cx_graph s' = cx_graph s" using same [of cx_graph] by simp
    show "wf_dict (cx_anonymous_updates s')" if "wf_dict (cx_anonymous_updates s)"
      using same [of cx_anonymous_updates] that by simp
  qed
qed

lemma suspend_runs_only: "runs_only s (suspend p now s)"
  by (simp add: runs_only_def suspend_def Let_def add_effects_def add_effect_def set_runtime_def split: option.split)

lemma suspend_derives [derive_intros]: "derives s (suspend p now s)"
  by (rule runs_only_derives [OF suspend_runs_only suspend_step])

lemma release_upstream_runs_only: "runs_only s (release_upstream_holds p keep s)"
  by (simp add: runs_only_def release_upstream_holds_def Let_def add_effects_def put_held_def set_runtime_def
      split: option.split)

lemma release_upstream_derives [derive_intros]: "derives s (release_upstream_holds p keep s)"
  by (rule runs_only_derives [OF release_upstream_runs_only release_upstream_step])

lemma add_effect_derives [derive_intros]: "derives s (add_effect e s)"
  by (rule runs_only_derives) (simp_all add: runs_only_def add_effect_def ledger_step_same)

lemma publish_run_deriving [derive_intros]: "deriving (publish_run X p r)"
  unfolding publish_run_def by (intro derive_intros)

lemma refuse_deriving [derive_intros]: "deriving (refuse X p now b err)"
  unfolding refuse_def by (intro derive_intros upd_node_derives) (simp_all add: design_def)

lemma hold_back_deriving [derive_intros]: "deriving (hold_back X p now pending)"
  unfolding hold_back_def Let_def by (intro derive_intros upd_node_derives) (simp_all add: design_def)

lemma reset_pins_derives [derive_intros]: "derives s (reset_pins p s)"
  unfolding reset_pins_def by (rule upd_node_derives) (simp_all add: design_def)

lemma set_pin_state_derives [derive_intros]: "derives s (set_pin_state p pin ps s)"
  unfolding set_pin_state_def by (rule upd_node_derives) (simp_all add: design_def)

lemma pin_pending_deriving [derive_intros]: "deriving (pin_pending p pin ps r)"
  unfolding pin_pending_def by (intro derive_intros)

lemma fresh_deriving: "(\<And>err. deriving (m err)) \<Longrightarrow> deriving (\<lambda>s. case fresh_error x s of (err, s') \<Rightarrow> m err s')"
  by (rule derivingI) (auto split: prod.split intro: deriving_after [OF fresh_error_derives])

lemma catching_deriving [derive_intros]:
  assumes "\<And>err. deriving (h err)"
  shows "deriving (catching c x h)"
proof (rule derivingI)
  fix s
  have "derives s (snd (case fresh_error y s of (err, s') \<Rightarrow> h err s'))" for y
    using fresh_deriving [of h y] assms by (simp add: deriving_def)
  then show "derives s (snd (catching c x h s))" by (simp add: catching_def)
qed

lemma pin_failed_deriving [derive_intros]: "deriving (pin_failed p pin err)"
  unfolding pin_failed_def by (intro derive_intros)

lemma validate_compiled_deriving [derive_intros]: "deriving (validate_compiled_pin X p c pin t x)"
proof -
  have "deriving (\<lambda>s. case fresh_error x s of (err, s') \<Rightarrow>
      (Inr (Pin_refused err), set_pin_state p pin (Failed, None, Some err) s'))" for x
    using fresh_deriving [of "\<lambda>err s. (Inr (Pin_refused err), set_pin_state p pin (Failed, None, Some err) s)" x]
    by (simp add: deriving_def set_pin_state_derives)
  then show ?thesis
    unfolding validate_compiled_pin_def by (intro derive_intros)
qed

lemma check_read_error_deriving [derive_intros]: "deriving (check_read_error X p c pin i t x)"
proof (rule derivingI)
  fix s
  let ?s = "upd_node p (\<lambda>nd. nd\<lparr>nd_pin_read_errors := AList.delete pin (nd_pin_read_errors nd)\<rparr>) s"
  have upd: "derives s ?s" by (rule upd_node_derives) (simp_all add: design_def)
  note v = validate_compiled_deriving [of X p c pin t x]
  show "derives s (snd (check_read_error X p c pin i t x s))"
    using deriving_after [OF upd v] deriving_run [OF v] deriving_run [OF pin_failed_deriving] upd
    unfolding check_read_error_def Let_def
    by (simp split: option.split prod.split)
qed

lemma convert_pin_deriving [derive_intros]: "deriving (convert_pin X p c pin w i t x)"
proof -
  have f: "deriving (\<lambda>s. case fresh_error Value_Error s of (e, s') \<Rightarrow> (Inr (Some e), s'))"
    using fresh_deriving [of "\<lambda>e. ret (Some e)" Value_Error] by (simp add: deriving_ret)
  show ?thesis
    unfolding convert_pin_def Let_def by (intro derive_intros f)
qed

lemma check_pin_value_deriving [derive_intros]: "deriving (check_pin_value X p c pin w i x)"
  unfolding check_pin_value_def Let_def by (intro derive_intros)

lemma unwired_pin_deriving [derive_intros]: "deriving (unwired_pin p c pin w)"
  unfolding unwired_pin_def by (intro derive_intros)

lemma derive_pin_deriving [derive_intros]: "deriving (derive_pin X p c incoming pin)"
proof -
  have a: "deriving (bnd (lift_res r) (\<lambda>i. case x of
                None \<Rightarrow> unwired_pin p c pin True
              | Some x \<Rightarrow> check_pin_value X p c pin True i x))" for r x
    by (intro derive_intros)
  show ?thesis
    unfolding derive_pin_def
    by (intro derive_intros derivingI)
       (simp_all add: deriving_run a pin_pending_deriving unwired_pin_deriving check_pin_value_deriving
          split: option.split)
qed

lemma derive_pins_deriving [derive_intros]: "deriving (derive_pins X p c incoming names pending pins)"
proof (induction names arbitrary: pending pins)
  case (Cons pin names)
  have "deriving (case r of
       Pin_skipped \<Rightarrow> derive_pins X p c incoming names pending pins
     | Pin_pending reason \<Rightarrow> derive_pins X p c incoming names (pending @ [(reason, pin)]) pins
     | Pin_ready checksum \<Rightarrow> derive_pins X p c incoming names pending (AList.update pin checksum pins)
     | Pin_refused err \<Rightarrow> ret (Inl err))" for r
    by (cases r) (simp_all add: Cons.IH deriving_ret)
  then show ?case unfolding derive_pins.simps by (intro derive_intros)
qed (unfold derive_pins.simps, rule derive_intros)

lemma code_source_deriving [derive_intros]: "deriving (code_source X p c incoming)"
proof -
  have "derives s (s\<lparr>cx_edge_code_states := d\<rparr>)" for s d
    by (rule unbooked_derives) (simp_all add: ledger_step_same)
  then show ?thesis unfolding code_source_def by (intro derive_intros)
qed

subsection \<open>Starting and reinstating a run\<close>

lemma held_gens_remove1: "r \<in> set q \<Longrightarrow> held_gens q = held_gens (remove1 r q) + {#rr_generation r#}"
  by (simp add: held_gens_def image_mset_Diff)

lemma reinstate_step:
  assumes q: "map_of (rt_superseded rt) p = Some q" and r: "r \<in> set q"
    and r': "rr_generation r' = rr_generation r" "current_ok r'"
  shows "run_step rt (rt\<lparr>rt_superseded := AList.update p (remove1 r q) (rt_superseded rt),
                        rt_current := AList.update p r' (rt_current rt)\<rparr>)"
    (is "run_step rt ?rt")
proof (rule run_step_moves [where new = "{#}"])
  assume ok: "runs_ok rt"
  let ?rt1 = "rt\<lparr>rt_superseded := AList.update p (remove1 r q) (rt_superseded rt)\<rparr>"
  have "gens ?rt1 + {#rr_generation r#} = gens rt"
    using gens_put_held [OF runs_okD(2) [OF ok], of p "remove1 r q"] q held_gens_remove1 [OF r]
    by simp
  moreover have "gens ?rt \<subseteq># add_mset (rr_generation r) (gens ?rt1)"
    using gens_put_current [of ?rt1 p r'] runs_okD(1) [OF ok] r'(1)
    by (metis (no_types, lifting) mset_subset_eq_add_left runtime.select_convs(2) runtime.surjective
        runtime.update_convs(2) runtime.update_convs(3))
  ultimately show "gens ?rt \<subseteq># {#} + gens rt" by simp
  have "held_ok (sc_superseded_cap (rt_scheduler rt)) (remove1 r q)"
    using runs_okD(5) [OF ok q] by (auto simp: held_ok_def length_remove1 dest: notin_set_remove1)
  then have held: "held_ok (sc_superseded_cap (rt_scheduler rt)) v"
    if "v \<in> snd ` set (AList.update p (remove1 r q) (rt_superseded rt))" for v
    using image_values_update [OF that] run_values(2) [OF ok] by blast
  show "(\<forall>r \<in> snd ` set (rt_current ?rt). current_ok r)
      \<and> (\<forall>q \<in> snd ` set (rt_superseded ?rt). held_ok (sc_superseded_cap (rt_scheduler rt)) q)"
    using put_current_values [OF ok r'(2), of p] held by simp
qed (use runs_okD in auto)

lemma reinstate_deriving:
  assumes "r \<in> set (held_runs s p)"
  shows "derives s (snd (reinstate X p r s))"
proof -
  obtain q where q: "map_of (rt_superseded (cx_runtime s)) p = Some q" "r \<in> set q"
    using assms by (cases "map_of (rt_superseded (cx_runtime s)) p") (auto simp: held_runs_def)
  have step: "derives s s'"
    if "rr_generation r' = rr_generation r" "rr_phase r' = P_running" "runs_only s s'"
      "cx_runtime s' = (cx_runtime s)\<lparr>rt_superseded := AList.update p (remove1 r q) (rt_superseded (cx_runtime s)),
                    rt_current := AList.update p r' (rt_current (cx_runtime s))\<rparr>" for r' s'
    by (rule runs_only_derives [OF that(3)])
       (simp add: ledger_step_def that(4) reinstate_step [OF q] that(1,2) current_ok_def)
  show ?thesis
    unfolding reinstate_def Let_def held_runs_def q(1) option.case
    by (intro deriving_after [OF _ publish_run_deriving]; rule step [where r' = "reinstated r"])
       (simp_all add: reinstated_def Let_def put_current_def put_held_def set_runtime_def add_effect_def runs_only_def)
qed

lemma new_run_derives:
  assumes "rr_generation r = Suc (rt_generation (cx_runtime s))" and "rr_phase r = P_running"
  shows "derives s (put_current p r (set_runtime ((cx_runtime s)\<lparr>rt_generation := Suc (rt_generation (cx_runtime s))\<rparr>) s))"
proof (rule runs_only_derives)
  let ?s = "set_runtime ((cx_runtime s)\<lparr>rt_generation := Suc (rt_generation (cx_runtime s))\<rparr>) s"
  show "ledger_step s (put_current p r ?s)"
    using new_current_step [of r "cx_runtime s" p]
    by (simp add: ledger_step_def put_current_def set_runtime_def assms current_ok_def)
  show "runs_only s (put_current p r ?s)" by (simp add: runs_only_def put_current_def set_runtime_def)
qed

lemma next_generation_step: "run_step rt (rt\<lparr>rt_generation := Suc (rt_generation rt)\<rparr>)"
proof (rule run_step_moves [where new = "{#Suc (rt_generation rt)#}"])
  show "gens (rt\<lparr>rt_generation := Suc (rt_generation rt)\<rparr>) \<subseteq># {#Suc (rt_generation rt)#} + gens rt"
    by (simp add: gens_def run_set_def)
  assume ok: "runs_ok rt"
  show "(\<forall>r \<in> snd ` set (rt_current (rt\<lparr>rt_generation := Suc (rt_generation rt)\<rparr>)). current_ok r)
      \<and> (\<forall>q \<in> snd ` set (rt_superseded (rt\<lparr>rt_generation := Suc (rt_generation rt)\<rparr>)).
            held_ok (sc_superseded_cap (rt_scheduler rt)) q)"
    using run_values [OF ok] by simp
qed (use runs_okD in auto)

lemma next_generation_derives:
  "derives s (set_runtime ((cx_runtime s)\<lparr>rt_generation := Suc (rt_generation (cx_runtime s))\<rparr>) s)"
  by (rule runs_only_derives)
     (simp_all add: runs_only_def set_runtime_def ledger_step_def next_generation_step)

lemma lift_bnd_derives:
  "derives s s1 \<Longrightarrow> (\<And>x. derives s (snd (f x s1))) \<Longrightarrow> derives s (snd (bnd (lift_res r) f s1))"
  by (cases r) (simp_all add: bnd_def lift_res_def)

lemma start_run_deriving [derive_intros]: "deriving (start_run X p c code pins key)"
proof (rule derivingI)
  fix s
  let ?s = "set_runtime ((cx_runtime s)\<lparr>rt_generation := Suc (rt_generation (cx_runtime s))\<rparr>) s"
  have m: "deriving (bnd (replace_current_checksum X p None) (\<lambda>_.
          bnd (modify (set_state p Computing No_reason None)) (\<lambda>_.
          if b then raise Value_Error else modify (add_effect e))))" for b e
    by (intro derive_intros)
  show "derives s (snd (start_run X p c code pins key s))"
    unfolding start_run_def next_generation_def prod.case
    by (intro lift_bnd_derives next_generation_derives)
       (simp only: bnd_modify, intro deriving_after [OF new_run_derives m], simp_all)
qed

lemma next_run_deriving [derive_intros]: "deriving (next_run X p now c code pins key forced)"
proof (rule derivingI)
  fix s
  let ?s = "suspend p now s"
  have "derives s (snd (reinstate X p r ?s))" if "find (reinstates key forced) (held_runs ?s p) = Some r" for r
    using derives_trans [OF suspend_derives reinstate_deriving] that
    by (auto simp: find_Some_iff)
  then show "derives s (snd (next_run X p now c code pins key forced s))"
    unfolding next_run_def Let_def
    by (auto split: option.split intro: deriving_after [OF suspend_derives start_run_deriving])
qed

lemma derive_run_deriving [derive_intros]: "deriving (derive_run X p now c code pins)"
proof (rule derivingI)
  fix s
  have m: "deriving (bnd (lift_res needs) (\<lambda>needs. if needs \<and> b then next_run X p now c code pins key f
      else publish_run X p r))" for needs b key f r
    by (intro derive_intros)
  show "derives s (snd (derive_run X p now c code pins s))"
    unfolding derive_run_def Let_def
    by (auto split: option.split
        intro: deriving_after [OF release_upstream_derives m] deriving_after [OF release_upstream_derives next_run_deriving])
qed

lemma derive_inputs_deriving [derive_intros]: "deriving (derive_inputs X p now c incoming)"
proof -
  have "deriving (case r of
       Inl err \<Rightarrow> refuse X p now False err
     | Inr (pending, pins) \<Rightarrow>
         if pending \<noteq> [] then hold_back X p now pending
         else case code of
           None \<Rightarrow> raise Attribute_Error
         | Some code \<Rightarrow> derive_run X p now c code pins)" for r code
    by (cases r) (auto intro!: derive_intros)
  then show ?thesis unfolding derive_inputs_def by (intro derive_intros)
qed

lemma derive_transformer_deriving [derive_intros]: "deriving (derive_transformer X p now c)"
  unfolding derive_transformer_def
  by (rule derivingI)
     (auto split: option.split prod.split
        intro: deriving_after [OF fresh_error_derives refuse_deriving]
          deriving_after [OF reset_pins_derives derive_inputs_deriving])

end
