(* ===== verification/Mount_Delivery.thy ===== *)
theory Mount_Delivery
  imports Derive_Transformer
begin

text \<open>
  The delivery protocol of a mount session (\<open>_mount_request\<close>, \<open>_mount_dispatch\<close>,
  \<open>_mount_delivered\<close> of \<^verbatim>\<open>attachments/runtime.py\<close>), and the carrying out of effects.

  A session is found by its key, the node path and the driver. Its Future \<open>initial\<close> is the flag
  \<open>ms_initial_done\<close>; its delivery leases are claims of the ledger and do not raise. The timer
  that wakes the dispatcher is not modelled: a dispatch may be called at any time.
\<close>

section \<open>Sessions\<close>

type_synonym session_key = "path \<times> string"

definition get_session :: "ctx \<Rightarrow> session_key \<Rightarrow> session option" where
  "get_session s k = map_of (cx_sessions s) k"

definition put_session :: "session_key \<Rightarrow> session \<Rightarrow> ctx \<Rightarrow> ctx" where
  "put_session k m s = s\<lparr>cx_sessions := AList.update k m (cx_sessions s)\<rparr>"

definition session_by_id :: "ctx \<Rightarrow> string \<Rightarrow> (session_key \<times> session) option" where
  "session_by_id s i = find (\<lambda>(_, m). ms_id m = i) (cx_sessions s)"

definition mount_event :: "mount_event \<Rightarrow> ctx \<Rightarrow> ctx" where
  "mount_event e s =
     s\<lparr>cx_mount_events := (let es = cx_mount_events s @ [e] in drop (length es - 1024) es)\<rparr>"

definition mount_touch :: "ctx \<Rightarrow> ctx" where
  "mount_touch s = s\<lparr>cx_mount_activity := cx_mount_activity s + 1\<rparr>"

definition release_delivery :: "delivery option \<Rightarrow> ctx \<Rightarrow> ctx" where
  "release_delivery d s = (case d of None \<Rightarrow> s | Some x \<Rightarrow> release (dl_checksum x) s)"

section \<open>Requests and dispatch\<close>

definition delivery_interval :: real where
  "delivery_interval = 2 / 3"

text \<open>A request replaces the one that is pending.\<close>

definition requested :: "checksum \<Rightarrow> bool \<Rightarrow> session \<Rightarrow> session" where
  "requested c force m =
     m\<lparr>ms_delivery_seq := Suc (ms_delivery_seq m),
       ms_pending := Some \<lparr>dl_seq = Suc (ms_delivery_seq m), dl_checksum = c, dl_celltype = ms_celltype m,
                           dl_fingerprint = ms_fingerprint m, dl_force = force\<rparr>,
       ms_last_synced := Some c, ms_retry_at := 0\<rparr>"

definition mount_request :: "session_key \<Rightarrow> checksum option \<Rightarrow> bool \<Rightarrow> ctx \<Rightarrow> ctx" where
  "mount_request k checksum force s =
     (case (get_session s k, checksum) of
        (Some m, Some c) \<Rightarrow>
          (if ms_state m \<noteq> S_active then s
           else mount_event (Ev_request (ms_id m) c (Suc (ms_delivery_seq m)))
                  (mount_touch (put_session k (requested c force m)
                    (incref c (release_delivery (ms_pending m) s)))))
      | _ \<Rightarrow> s)"

definition already_there :: "ext \<Rightarrow> session \<Rightarrow> delivery \<Rightarrow> bool" where
  "already_there X m d \<longleftrightarrow>
     dl_checksum d = ms_disk m
     \<or> (dl_checksum d = x_null X \<and> ms_disk m = ABSENT \<and> spec_driver (ms_spec m) \<noteq> ''share'')
     \<or> (ms_directory m \<and> dl_checksum d = x_null X)"

definition mount_dispatch :: "ext \<Rightarrow> session_key \<Rightarrow> real \<Rightarrow> ctx \<Rightarrow> ctx" where
  "mount_dispatch X k now s =
     (case get_session s k of
        None \<Rightarrow> s
      | Some m \<Rightarrow>
          (case (ms_in_flight m, ms_pending m) of
             (None, Some d) \<Rightarrow>
               (if ms_state m \<noteq> S_active \<or> ms_retry_at m > now then s
                else if already_there X m d \<and> \<not> dl_force d
                then release (dl_checksum d)
                       (put_session k (m\<lparr>ms_pending := None, ms_initial_done := True\<rparr>) s)
                else if now < ms_last_delivery_at m + delivery_interval then s
                else (let d' = d\<lparr>dl_fingerprint := ms_fingerprint m\<rparr>
                      in add_effect (E_deliver (ms_id m) d') (mount_event (Ev_dispatch (ms_id m) (dl_seq d'))
                           (put_session k (m\<lparr>ms_pending := None, ms_in_flight := Some d',
                                             ms_last_delivery_at := now\<rparr>) s))))
           | _ \<Rightarrow> s))"

section \<open>Carrying out effects\<close>

definition perform :: "effect \<Rightarrow> ctx \<Rightarrow> ctx" where
  "perform e s =
     (case e of
        E_launch_job key \<Rightarrow> s\<lparr>cx_jobs := AList.update key True (cx_jobs s)\<rparr>
      | E_launch_run p g _ _ _ \<Rightarrow> write_run p g (\<lambda>r. r\<lparr>rr_et := True\<rparr>) s
      | _ \<Rightarrow> s)"

fun perform_all :: "effect list \<Rightarrow> ctx \<Rightarrow> ctx" where
  "perform_all [] s = s"
| "perform_all (e # es) s = perform_all es (perform e (s\<lparr>cx_done := cx_done s @ [e]\<rparr>))"

definition run_effects :: "ctx \<Rightarrow> ctx" where
  "run_effects s = perform_all (cx_effects s) (s\<lparr>cx_effects := []\<rparr>)"

section \<open>Acknowledgements\<close>

text \<open>
  A written delivery moves the disk forward; a failed one is asked for again after a delay that
  doubles up to a minute, unless something newer is pending; a conflict drops it.
\<close>

definition acknowledged :: "delivery_ack \<Rightarrow> delivery \<Rightarrow> error \<Rightarrow> real \<Rightarrow> session \<Rightarrow> session" where
  "acknowledged ack d err now m =
     (case ak_outcome ack of
        Ack_written \<Rightarrow>
          (let m1 = (if ak_ws ack > ms_processed_ws m
                     then m\<lparr>ms_disk := ak_checksum ack, ms_fingerprint := ak_fingerprint ack,
                            ms_processed_ws := ak_ws ack,
                            ms_written_pair := Some (dl_checksum d, ak_checksum ack)\<rparr>
                     else m)
           in m1\<lparr>ms_error := (if ms_state m1 \<noteq> S_tripped then None else ms_error m1),
                 ms_retry_delay := 1, ms_initial_done := True\<rparr>)
      | Ack_error \<Rightarrow>
          (let m1 = (if ms_state m \<noteq> S_tripped then m\<lparr>ms_error := Some err\<rparr> else m)
           in (if ms_pending m1 = None \<and> ms_state m1 = S_active
               then m1\<lparr>ms_pending := Some d, ms_retry_at := now + ms_retry_delay m1,
                       ms_retry_delay := min 60 (ms_retry_delay m1 * 2)\<rparr>
               else m1)\<lparr>ms_initial_done := True\<rparr>)
      | Ack_conflict \<Rightarrow> m\<lparr>ms_initial_done := True\<rparr>)"

definition keeps_delivery :: "delivery_ack \<Rightarrow> session \<Rightarrow> bool" where
  "keeps_delivery ack m \<longleftrightarrow>
     ak_outcome ack = Ack_error \<and> ms_pending m = None \<and> ms_state m = S_active"

definition after_ack :: "ext \<Rightarrow> session_key \<Rightarrow> real \<Rightarrow> ctx \<Rightarrow> ctx" where
  "after_ack X k now s =
     (if \<not> cx_closing s then mount_dispatch X k now s
      else run_effects
        (case get_session s k of
           Some m \<Rightarrow> (if spec_persistent (ms_spec m) \<and> ms_pending m \<noteq> None \<and> ms_error m = None
                      then mount_dispatch X k now s else s)
         | None \<Rightarrow> s))"

definition mount_delivered :: "ext \<Rightarrow> delivery_ack \<Rightarrow> real \<Rightarrow> ctx \<Rightarrow> ctx" where
  "mount_delivered X ack now s =
     (case session_by_id s (ak_session ack) of
        None \<Rightarrow> s
      | Some (k, m) \<Rightarrow>
          (case ms_in_flight m of
             None \<Rightarrow> s
           | Some d \<Rightarrow>
               (if dl_seq d \<noteq> ak_seq ack then s
                else (let m1 = m\<lparr>ms_in_flight := None\<rparr>;
                          s1 = mount_event (Ev_ack (ms_id m) (ak_outcome ack) (ak_seq ack)) s
                      in case fresh_error Mount_Error s1 of
                        (err, s2) \<Rightarrow>
                          after_ack X k now
                            ((if keeps_delivery ack m1 then id else release (dl_checksum d))
                              (put_session k (acknowledged ack d err now m1) s2))))))"

section \<open>Preparing to close\<close>

text \<open>
  Persistent sessions without an error send what is pending; the others are cut off. The effects
  of the interrupted turn are carried out with it.
\<close>

definition close_session :: "ext \<Rightarrow> real \<Rightarrow> session_key \<Rightarrow> ctx \<Rightarrow> ctx" where
  "close_session X now k s =
     (case get_session s k of
        None \<Rightarrow> s
      | Some m \<Rightarrow>
          (let s1 = (if spec_driver (ms_spec m) \<noteq> ''share'' then put_session k (m\<lparr>ms_active := False\<rparr>) s else s)
           in if spec_persistent (ms_spec m) \<and> ms_error m = None then mount_dispatch X k now s1 else s1))"

definition mount_close_prepare :: "ext \<Rightarrow> real \<Rightarrow> ctx \<Rightarrow> ctx" where
  "mount_close_prepare X now s = run_effects (fold (close_session X now) (keys (cx_sessions s)) s)"

definition mount_close_busy :: "ctx \<Rightarrow> bool" where
  "mount_close_busy s =
     list_ex (\<lambda>(_, m). ms_in_flight m \<noteq> None
       \<or> (ms_pending m \<noteq> None \<and> ms_error m = None \<and> spec_persistent (ms_spec m))) (cx_sessions s)"

section \<open>The sessions of a state\<close>

lemma get_put_session [simp]: "get_session (put_session k m s) j = (if j = k then Some m else get_session s j)"
  by (simp add: get_session_def put_session_def)

lemma put_session_ok: "sessions_ok s \<Longrightarrow> session_ok m \<Longrightarrow> sessions_ok (put_session k m s)"
  unfolding sessions_ok_def
proof
  fix v assume s: "\<forall>m \<in> snd ` set (cx_sessions s). session_ok m" "session_ok m"
    and "v \<in> snd ` set (cx_sessions (put_session k m s))"
  then have "v = m \<or> v \<in> snd ` set (cx_sessions s)"
    by (intro image_values_update [of v k m "cx_sessions s"]) (simp add: put_session_def)
  with s show "session_ok v" by blast
qed

lemma get_session_ok: "sessions_ok s \<Longrightarrow> get_session s k = Some m \<Longrightarrow> session_ok m"
  using map_of_value [of "cx_sessions s" k m] by (auto simp: sessions_ok_def get_session_def)

lemma sessions_ok_cong: "cx_sessions s' = cx_sessions s \<Longrightarrow> sessions_ok s' = sessions_ok s"
  by (simp add: sessions_ok_def)

lemma sessions_frame [simp]:
  "cx_sessions (release c s) = cx_sessions s" "cx_sessions (incref c s) = cx_sessions s"
  "cx_sessions (mount_event e s) = cx_sessions s" "cx_sessions (mount_touch s) = cx_sessions s"
  "cx_sessions (add_effect x s) = cx_sessions s" "cx_sessions (release_delivery d s) = cx_sessions s"
  by (simp_all add: release_refs incref_refs mount_event_def mount_touch_def add_effect_def
      release_delivery_def split: option.split)

lemma requested_ok: "session_ok m \<Longrightarrow> ms_state m = S_active \<Longrightarrow> session_ok (requested c f m)"
  by (auto simp: session_ok_def requested_def)

lemma mount_request_ok: "sessions_ok s \<Longrightarrow> sessions_ok (mount_request k c f s)"
proof (cases "\<exists>m x. get_session s k = Some m \<and> c = Some x \<and> ms_state m = S_active")
  case True
  then obtain m x where m: "get_session s k = Some m" "c = Some x" "ms_state m = S_active" by blast
  assume s: "sessions_ok s"
  have "sessions_ok (put_session k (requested x f m) (incref x (release_delivery (ms_pending m) s)))"
    by (intro put_session_ok requested_ok get_session_ok [OF s m(1)] m(3)) (simp add: sessions_ok_cong [of _ s] s)
  with m show ?thesis
    by (simp add: mount_request_def sessions_ok_cong [of "mount_event _ (mount_touch t)" t for t])
next
  case False
  assume s: "sessions_ok s"
  from False have "mount_request k c f s = s" by (auto simp: mount_request_def split: option.splits)
  with s show ?thesis by simp
qed

text \<open>What a step of the protocol does to the session and to the claims.\<close>

lemma session_step_books:
  assumes k: "get_session s k = Some m"
    and sessions: "cx_sessions s' = AList.update k m' (cx_sessions s)"
    and refs: "\<And>c. cx_refs s' c - int (count_list (session_claims m') c) =
        cx_refs s c - int (count_list (session_claims m) c)"
    and rest: "cx_graph s' = cx_graph s" "cx_code_refholds s' = cx_code_refholds s" "cx_facts s' = cx_facts s"
      "cx_module_refholds s' = cx_module_refholds s" "cx_edge_pin_refholds s' = cx_edge_pin_refholds s"
      "cx_anonymous_refholds s' = cx_anonymous_refholds s" "cx_anonymous_updates s' = cx_anonymous_updates s"
      "cx_superseded_refholds s' = cx_superseded_refholds s" "cx_node_leaves s' = cx_node_leaves s"
  shows "same_books s s'"
proof (rule same_booksI)
  assume wf: "wf_ctx s"
  then have w: "wf_dict (cx_sessions s)" by (simp add: wf_ctx_def)
  have m: "map_of (cx_sessions s) k = Some m" using k by (simp add: get_session_def)
  from refs show "cx_refs s' c - held_count s' c = cx_refs s c - held_count s c" for c
    by (simp add: held_count_def sessions rest value_count_update [OF w] m) (simp add: algebra_simps)
  from wf show "wf_ctx s'" by (simp add: wf_ctx_def sessions rest)
qed

lemma mount_request_books [books_intros]: "same_books s (mount_request k c f s)"
proof (cases "\<exists>m x. get_session s k = Some m \<and> c = Some x \<and> ms_state m = S_active")
  case True
  then obtain m x where m: "get_session s k = Some m" "c = Some x" "ms_state m = S_active" by blast
  show ?thesis
    by (rule session_step_books [OF m(1), where m' = "requested x f m"])
       (simp_all add: mount_request_def m mount_event_def mount_touch_def put_session_def incref_refs
          release_delivery_def release_refs session_claims_def requested_def split: option.split)
next
  case False
  then have "mount_request k c f s = s" by (auto simp: mount_request_def split: option.splits)
  then show ?thesis by simp
qed

lemma mount_dispatch_cases:
  obtains "mount_dispatch X k now s = s"
  | m d where "get_session s k = Some m" and "ms_in_flight m = None" and "ms_pending m = Some d"
      and "ms_state m = S_active"
      and "mount_dispatch X k now s =
        release (dl_checksum d) (put_session k (m\<lparr>ms_pending := None, ms_initial_done := True\<rparr>) s)"
  | m d where "get_session s k = Some m" and "ms_in_flight m = None" and "ms_pending m = Some d"
      and "ms_state m = S_active"
      and "mount_dispatch X k now s =
        add_effect (E_deliver (ms_id m) (d\<lparr>dl_fingerprint := ms_fingerprint m\<rparr>))
          (mount_event (Ev_dispatch (ms_id m) (dl_seq d))
            (put_session k (m\<lparr>ms_pending := None, ms_in_flight := Some (d\<lparr>dl_fingerprint := ms_fingerprint m\<rparr>),
               ms_last_delivery_at := now\<rparr>) s))"
proof (cases "mount_dispatch X k now s = s")
  case False
  then obtain m d where m: "get_session s k = Some m" "ms_in_flight m = None" "ms_pending m = Some d"
      "ms_state m = S_active" "\<not> ms_retry_at m > now"
    by (auto simp: mount_dispatch_def Let_def split: option.splits if_splits)
  note d = False [unfolded mount_dispatch_def m option.case prod.case Let_def]
  show ?thesis
    using that(2,3) [OF m(1-4)] m(5) False
    by (simp add: mount_dispatch_def m Let_def split: if_splits)
qed (rule that)

lemma mount_dispatch_ok: "sessions_ok s \<Longrightarrow> sessions_ok (mount_dispatch X k now s)"
proof (cases rule: mount_dispatch_cases [of X k now s])
  case 1
  assume "sessions_ok s"
  with 1 show ?thesis by simp
next
  case (2 m d)
  assume s: "sessions_ok s"
  have "session_ok (m\<lparr>ms_pending := None, ms_initial_done := True\<rparr>)"
    using get_session_ok [OF s 2(1)] by (simp add: session_ok_def)
  with s 2 show ?thesis by (simp add: sessions_ok_cong [of "release _ _"] put_session_ok)
next
  case (3 m d)
  assume s: "sessions_ok s"
  have "session_ok (m\<lparr>ms_pending := None, ms_in_flight := Some (d\<lparr>dl_fingerprint := ms_fingerprint m\<rparr>),
      ms_last_delivery_at := now\<rparr>)"
    using get_session_ok [OF s 3(1)] 3(3) by (simp add: session_ok_def)
  with s 3 show ?thesis
    by (simp add: sessions_ok_cong [of "add_effect _ (mount_event _ t)" t for t] put_session_ok)
qed

lemma mount_dispatch_books [books_intros]: "same_books s (mount_dispatch X k now s)"
proof (cases rule: mount_dispatch_cases [of X k now s])
  case (2 m d)
  show ?thesis
    by (rule session_step_books [OF 2(1), where m' = "m\<lparr>ms_pending := None, ms_initial_done := True\<rparr>"])
       (simp_all add: 2 release_refs put_session_def session_claims_def)
next
  case (3 m d)
  show ?thesis
    by (rule session_step_books [OF 3(1), where m' = "m\<lparr>ms_pending := None,
          ms_in_flight := Some (d\<lparr>dl_fingerprint := ms_fingerprint m\<rparr>), ms_last_delivery_at := now\<rparr>"])
       (simp_all add: 3 add_effect_def mount_event_def put_session_def session_claims_def)
qed simp

section \<open>Acknowledgements keep the protocol\<close>

text \<open>Carrying out effects changes the runs, the jobs and the two lists of effects only.\<close>

definition side_only :: "ctx \<Rightarrow> ctx \<Rightarrow> bool" where
  "side_only s s' \<longleftrightarrow> s'\<lparr>cx_runtime := cx_runtime s, cx_jobs := cx_jobs s,
     cx_effects := cx_effects s, cx_done := cx_done s\<rparr> = s"

lemma side_only_refl [simp]: "side_only s s"
  by (simp add: side_only_def)

lemma side_only_trans: "side_only a b \<Longrightarrow> side_only b c \<Longrightarrow> side_only a c"
  unfolding side_only_def
proof -
  assume 1: "b\<lparr>cx_runtime := cx_runtime a, cx_jobs := cx_jobs a, cx_effects := cx_effects a, cx_done := cx_done a\<rparr> = a"
    and 2: "c\<lparr>cx_runtime := cx_runtime b, cx_jobs := cx_jobs b, cx_effects := cx_effects b, cx_done := cx_done b\<rparr> = b"
  have "c\<lparr>cx_runtime := cx_runtime a, cx_jobs := cx_jobs a, cx_effects := cx_effects a, cx_done := cx_done a\<rparr> =
      (c\<lparr>cx_runtime := cx_runtime b, cx_jobs := cx_jobs b, cx_effects := cx_effects b, cx_done := cx_done b\<rparr>)
        \<lparr>cx_runtime := cx_runtime a, cx_jobs := cx_jobs a, cx_effects := cx_effects a, cx_done := cx_done a\<rparr>"
    by simp
  also have "\<dots> = a" unfolding 2 by (rule 1)
  finally show "c\<lparr>cx_runtime := cx_runtime a, cx_jobs := cx_jobs a, cx_effects := cx_effects a, cx_done := cx_done a\<rparr> = a" .
qed

lemma perform_side: "side_only s (perform e s)"
  by (cases e) (simp_all add: perform_def side_only_def write_run_def put_current_def put_held_def set_runtime_def
      split: option.split)

lemma perform_all_side: "side_only s (perform_all es s)"
proof (induction es s rule: perform_all.induct)
  case (2 e es s)
  have "side_only s (s\<lparr>cx_done := cx_done s @ [e]\<rparr>)" by (simp add: side_only_def)
  then show ?case
    using 2 perform_side side_only_trans unfolding perform_all.simps by blast
qed simp

lemma run_effects_side: "side_only s (run_effects s)"
proof -
  have "side_only s (s\<lparr>cx_effects := []\<rparr>)" by (simp add: side_only_def)
  then show ?thesis unfolding run_effects_def using perform_all_side side_only_trans by blast
qed

lemma side_only_fields:
  assumes "side_only s s'"
  shows "cx_graph s' = cx_graph s" "cx_refs s' = cx_refs s" "cx_facts s' = cx_facts s"
    "cx_code_refholds s' = cx_code_refholds s" "cx_module_refholds s' = cx_module_refholds s"
    "cx_edge_pin_refholds s' = cx_edge_pin_refholds s" "cx_anonymous_refholds s' = cx_anonymous_refholds s"
    "cx_superseded_refholds s' = cx_superseded_refholds s" "cx_sessions s' = cx_sessions s"
    "cx_anonymous_updates s' = cx_anonymous_updates s" "cx_node_leaves s' = cx_node_leaves s"
    "cx_closing s' = cx_closing s" "cx_revisions s' = cx_revisions s"
proof -
  note same = assms [unfolded side_only_def, symmetric, THEN arg_cong]
  show "cx_graph s' = cx_graph s" using same [of cx_graph] by simp
  show "cx_refs s' = cx_refs s" using same [of cx_refs] by simp
  show "cx_facts s' = cx_facts s" using same [of cx_facts] by simp
  show "cx_code_refholds s' = cx_code_refholds s" using same [of cx_code_refholds] by simp
  show "cx_module_refholds s' = cx_module_refholds s" using same [of cx_module_refholds] by simp
  show "cx_edge_pin_refholds s' = cx_edge_pin_refholds s" using same [of cx_edge_pin_refholds] by simp
  show "cx_anonymous_refholds s' = cx_anonymous_refholds s" using same [of cx_anonymous_refholds] by simp
  show "cx_superseded_refholds s' = cx_superseded_refholds s" using same [of cx_superseded_refholds] by simp
  show "cx_sessions s' = cx_sessions s" using same [of cx_sessions] by simp
  show "cx_anonymous_updates s' = cx_anonymous_updates s" using same [of cx_anonymous_updates] by simp
  show "cx_node_leaves s' = cx_node_leaves s" using same [of cx_node_leaves] by simp
  show "cx_closing s' = cx_closing s" using same [of cx_closing] by simp
  show "cx_revisions s' = cx_revisions s" using same [of cx_revisions] by simp
qed

lemma run_effects_books [books_intros]: "same_books s (run_effects s)"
  by (rule same_books_unbooked) (simp_all add: side_only_fields [OF run_effects_side])

lemma run_effects_ok: "sessions_ok s \<Longrightarrow> sessions_ok (run_effects s)"
  by (simp add: sessions_ok_cong [OF side_only_fields(9) [OF run_effects_side]])

lemma after_ack_ok: "sessions_ok s \<Longrightarrow> sessions_ok (after_ack X k now s)"
  by (simp add: after_ack_def mount_dispatch_ok run_effects_ok split: option.split)

lemma after_ack_books: "same_books s (after_ack X k now s)"
  unfolding after_ack_def
  by (auto intro: mount_dispatch_books run_effects_books same_books_trans [OF mount_dispatch_books run_effects_books]
      split: option.split)

lemma session_by_id_get:
  assumes "session_by_id s i = Some (k, m)" and "wf_dict (cx_sessions s)"
  shows "get_session s k = Some m" and "ms_id m = i"
proof -
  have "(k, m) \<in> set (cx_sessions s)" and i: "ms_id m = i"
    using assms(1) unfolding session_by_id_def find_Some_iff by (metis nth_mem, auto)
  with assms(2) show "get_session s k = Some m" by (simp add: get_session_def wf_dict_def)
  show "ms_id m = i" by (rule i)
qed

lemma acknowledged_ok:
  assumes "session_ok m" and "ms_in_flight m = Some d"
  shows "session_ok (acknowledged ack d err now (m\<lparr>ms_in_flight := None\<rparr>))"
  using assms by (cases "ak_outcome ack") (auto simp: session_ok_def acknowledged_def Let_def)

text \<open>The step between the acknowledgement and the next dispatch.\<close>

definition settle :: "delivery_ack \<Rightarrow> session_key \<Rightarrow> session \<Rightarrow> delivery \<Rightarrow> real \<Rightarrow> ctx \<Rightarrow> ctx" where
  "settle ack k m d now s =
     (case fresh_error Mount_Error (mount_event (Ev_ack (ms_id m) (ak_outcome ack) (ak_seq ack)) s) of
        (err, s2) \<Rightarrow>
          (if keeps_delivery ack m then id else release (dl_checksum d))
            (put_session k (acknowledged ack d err now (m\<lparr>ms_in_flight := None\<rparr>)) s2))"

lemma mount_delivered_cases:
  "mount_delivered X ack now s = s
   \<or> (\<exists>k m d. session_by_id s (ak_session ack) = Some (k, m) \<and> ms_in_flight m = Some d
        \<and> dl_seq d = ak_seq ack \<and> mount_delivered X ack now s = after_ack X k now (settle ack k m d now s))"
  by (auto simp: mount_delivered_def settle_def Let_def keeps_delivery_def split: option.split prod.split)

lemma settle_ok:
  assumes "sessions_ok s" and "get_session s k = Some m" and "ms_in_flight m = Some d"
  shows "sessions_ok (settle ack k m d now s)"
  using put_session_ok [OF assms(1) acknowledged_ok [OF get_session_ok [OF assms(1,2)] assms(3)], of k ack]
  by (simp add: settle_def fresh_error_def sessions_ok_def put_session_def mount_event_def del: set_map)

lemma settle_books:
  assumes "get_session s k = Some m" and "ms_in_flight m = Some d"
  shows "same_books s (settle ack k m d now s)"
  by (rule session_step_books [OF assms(1), where m' =
        "acknowledged ack d (Mount_Error, cx_error_seq s) now (m\<lparr>ms_in_flight := None\<rparr>)"])
     (simp_all add: settle_def fresh_error_def mount_event_def put_session_def keeps_delivery_def
        release_refs session_claims_def assms(2) acknowledged_def Let_def split: ack_outcome.split)

lemma mount_delivered_ok:
  "wf_dict (cx_sessions s) \<Longrightarrow> sessions_ok s \<Longrightarrow> sessions_ok (mount_delivered X ack now s)"
  using mount_delivered_cases [of X ack now s] settle_ok after_ack_ok session_by_id_get by metis

lemma mount_delivered_books: "same_books s (mount_delivered X ack now s)"
proof (cases "wf_ctx s")
  case True
  then have "wf_dict (cx_sessions s)" by (simp add: wf_ctx_def)
  then show ?thesis
    using mount_delivered_cases [of X ack now s] settle_books after_ack_books session_by_id_get same_books_trans
    by (metis same_books_refl)
qed (simp add: same_books_def)

lemma close_session_books: "same_books s (close_session X now k s)"
proof (cases "get_session s k")
  case (Some m)
  have "same_books s (put_session k (m\<lparr>ms_active := False\<rparr>) s)"
    by (rule session_step_books [OF Some, where m' = "m\<lparr>ms_active := False\<rparr>"])
       (simp_all add: put_session_def session_claims_def)
  then show ?thesis
    unfolding close_session_def Some option.case Let_def
    by (auto intro: mount_dispatch_books same_books_trans [OF _ mount_dispatch_books])
qed (simp add: close_session_def)

lemma mount_close_prepare_ok: "sessions_ok s \<Longrightarrow> sessions_ok (mount_close_prepare X now s)"
proof -
  have "sessions_ok (close_session X now k s)" if s: "sessions_ok s" for k s
  proof (cases "get_session s k")
    case (Some m)
    have "session_ok (m\<lparr>ms_active := False\<rparr>)"
      using get_session_ok [OF s Some] by (simp add: session_ok_def)
    with Some s show ?thesis
      by (simp add: close_session_def Let_def mount_dispatch_ok put_session_ok)
  qed (simp add: close_session_def s)
  then have "sessions_ok s \<Longrightarrow> sessions_ok (fold (close_session X now) ks s)" for ks s
    by (induction ks arbitrary: s) simp_all
  then show "sessions_ok s \<Longrightarrow> sessions_ok (mount_close_prepare X now s)"
    by (simp add: mount_close_prepare_def run_effects_ok)
qed

lemma mount_close_prepare_books [books_intros]: "same_books s (mount_close_prepare X now s)"
proof -
  have "same_books s (fold (close_session X now) ks s)" for ks
    by (induction ks arbitrary: s) (auto intro: same_books_trans [OF close_session_books])
  then show ?thesis unfolding mount_close_prepare_def using run_effects_books same_books_trans by blast
qed

section \<open>Properties\<close>

definition file_session :: session where
  "file_session =
     \<lparr>ms_id = ''s1'', ms_path = [KStr ''a''],
      ms_spec = FileSpec \<lparr>as_path = ''a.txt'', as_mode = ''rw'', as_authority = ''file'',
                          as_persistent = True, as_driver = ''file''\<rparr>,
      ms_directory = False, ms_celltype = ''text'', ms_disk = ''d0'', ms_fingerprint = None,
      ms_processed_ws = 0, ms_last_synced = Some ''c1'', ms_written_pair = None, ms_pending = None,
      ms_in_flight = Some \<lparr>dl_seq = 1, dl_checksum = ''c1'', dl_celltype = ''text'',
                            dl_fingerprint = None, dl_force = False\<rparr>,
      ms_delivery_seq = 1, ms_reasserts = [], ms_sense_error = None, ms_error = None,
      ms_state = S_active, ms_initial_done = False, ms_retry_at = 0, ms_retry_delay = 1,
      ms_last_delivery_at = 0, ms_active = True\<rparr>"

definition file_ctx :: ctx where
  "file_ctx = (init_ctx ''top'')\<lparr>cx_sessions := [(([KStr ''a''], ''file''), file_session)]\<rparr>"

definition failed_ack :: delivery_ack where
  "failed_ack = \<lparr>ak_session = ''s1'', ak_seq = 1, ak_ws = 1, ak_outcome = Ack_error,
                 ak_checksum = [], ak_fingerprint = None\<rparr>"

lemma file_ctx_ok: "sessions_ok file_ctx" "wf_dict (cx_sessions file_ctx)"
  by (simp_all add: sessions_ok_def file_ctx_def file_session_def session_ok_def wf_dict_def)

text \<open>C36: The delivery protocol keeps its invariant under requests, dispatches and acknowledgements:
  what is in flight is older than what is pending, both are numbered up to the last request,
  and the retry delay stays between one second and a minute.\<close>

theorem delivery_protocol_invariant:
  assumes "sessions_ok s" and "wf_dict (cx_sessions s)"
  shows "sessions_ok (mount_request k checksum force s) \<and> sessions_ok (mount_dispatch X k now s)
    \<and> sessions_ok (mount_delivered X ack now s)"
  using assms by (intro conjI mount_request_ok mount_dispatch_ok mount_delivered_ok)

theorem delivery_protocol_invariant_witness:
  "sessions_ok (mount_delivered plain_ext failed_ack 5 file_ctx)"
  using delivery_protocol_invariant [OF file_ctx_ok] by blast

text \<open>C37: The protocol never leaks and never loses the claim of a delivery: through requests that
  replace others, dispatches, acknowledgements of every outcome and the flush before a close, the
  claims taken and not given back are the claims of the deliveries on record.\<close>

theorem delivery_claims_balanced:
  "same_books s (mount_request k checksum force s) \<and> same_books s (mount_dispatch X k now s)
   \<and> same_books s (mount_delivered X ack now s) \<and> same_books s (mount_close_prepare X now s)"
  by (intro conjI mount_request_books mount_dispatch_books mount_delivered_books mount_close_prepare_books)

text \<open>An acknowledgement that is not for the delivery in flight changes nothing.\<close>

theorem stale_acknowledgement_ignored:
  "case session_by_id s (ak_session ack) of
     None \<Rightarrow> mount_delivered X ack now s = s
   | Some (k, m) \<Rightarrow>
       (case ms_in_flight m of
          None \<Rightarrow> mount_delivered X ack now s = s
        | Some d \<Rightarrow> dl_seq d = ak_seq ack \<or> mount_delivered X ack now s = s)"
  by (simp add: mount_delivered_def split: option.split prod.split)

text \<open>C38: A delivery that fails while nothing newer is pending is sent again: the first dispatch after
  the retry delay hands the same delivery to the transport.\<close>

theorem failed_delivery_sent_again:
  assumes "wf_dict (cx_sessions s)" and "\<not> cx_closing s"
    and "session_by_id s (ak_session ack) = Some (k, m)" and "session_ok m"
    and "ms_in_flight m = Some d" and "ms_pending m = None" and "ms_state m = S_active"
    and "ak_outcome ack = Ack_error" and "ak_seq ack = dl_seq d"
    and "already_there X m d = False"
    and "now + ms_retry_delay m \<le> t" and "ms_last_delivery_at m + delivery_interval \<le> t"
  shows "E_deliver (ms_id m) (d\<lparr>dl_fingerprint := ms_fingerprint m\<rparr>)
    \<in> set (cx_effects (mount_dispatch X k t (mount_delivered X ack now s)))"
proof -
  let ?m = "acknowledged ack d (Mount_Error, cx_error_seq s) now (m\<lparr>ms_in_flight := None\<rparr>)"
  let ?s = "settle ack k m d now s"
  have m: "?m = m\<lparr>ms_in_flight := None, ms_error := Some (Mount_Error, cx_error_seq s), ms_pending := Some d,
      ms_retry_at := now + ms_retry_delay m, ms_retry_delay := min 60 (ms_retry_delay m * 2),
      ms_initial_done := True\<rparr>"
    using assms by (simp add: acknowledged_def)
  have k: "get_session ?s k = Some ?m"
    using assms by (simp add: settle_def fresh_error_def keeps_delivery_def mount_event_def get_session_def put_session_def)
  have "cx_closing ?s = cx_closing s"
    by (simp add: settle_def fresh_error_def mount_event_def put_session_def release_refs)
  moreover have "mount_dispatch X k now ?s = ?s"
    unfolding mount_dispatch_def k option.case using assms(4) by (simp add: m session_ok_def)
  ultimately have "mount_delivered X ack now s = ?s"
    using assms by (simp add: mount_delivered_def settle_def Let_def keeps_delivery_def after_ack_def fresh_error_def)
  moreover have "already_there X ?m d = already_there X m d" by (simp add: m already_there_def)
  ultimately show ?thesis
    using assms by (simp add: mount_dispatch_def k Let_def) (simp add: m add_effect_def Let_def)
qed

theorem failed_delivery_sent_again_witness:
  "E_deliver ''s1'' \<lparr>dl_seq = 1, dl_checksum = ''c1'', dl_celltype = ''text'', dl_fingerprint = None, dl_force = False\<rparr>
    \<in> set (cx_effects (mount_dispatch plain_ext ([KStr ''a''], ''file'') 9
             (mount_delivered plain_ext failed_ack 5 file_ctx)))"
  using failed_delivery_sent_again [of file_ctx failed_ack "([KStr ''a''], ''file'')" file_session
      "\<lparr>dl_seq = 1, dl_checksum = ''c1'', dl_celltype = ''text'', dl_fingerprint = None, dl_force = False\<rparr>" plain_ext 5 9]
  by (simp add: file_ctx_ok file_ctx_def init_ctx_def file_session_def failed_ack_def session_by_id_def session_ok_def
      already_there_def plain_ext_def delivery_interval_def ABSENT_def wf_dict_def)

end
