(* ===== verification/Derivation.thy ===== *)
theory Derivation
  imports Mount_Delivery
begin

text \<open>
  One derivation of the whole graph (\<open>_derive_all\<close>, \<open>_derive_graph\<close> of \<^verbatim>\<open>context.py\<close>), what a
  failing one does to the Context (\<open>poison\<close> of \<^verbatim>\<open>controller.py\<close>, \<open>_begin_close\<close>), and the
  arrival of facts and of the results of runs (\<open>_accept_fact\<close>, \<open>_transformation_started\<close>,
  \<open>_transformation_finished\<close>).

  The depth of the visit is bounded by the number of nodes: \<open>visit\<close> takes one more than that
  as its fuel. A loop over a Python set visits its elements in the order in which they came in.
\<close>

section \<open>The order of a derivation\<close>

definition sources_of :: "graph \<Rightarrow> path \<Rightarrow> path list" where
  "sources_of g p =
     List.map_filter (\<lambda>(_, e). map_option fst (resolve_existing g (ed_source e))) (incoming_for g p)"

fun visit :: "(path \<Rightarrow> path list) \<Rightarrow> nat \<Rightarrow> path \<Rightarrow> path list \<times> path list \<Rightarrow> path list \<times> path list" where
  "visit srcs 0 p st = st"
| "visit srcs (Suc n) p (visited, order) =
     (if List.member visited p then (visited, order)
      else case fold (visit srcs n) (srcs p) (p # visited, order) of
        (visited', order') \<Rightarrow> (visited', order' @ [p]))"

definition visit_all :: "(path \<Rightarrow> path list) \<Rightarrow> path list \<Rightarrow> path list" where
  "visit_all srcs ps = snd (fold (visit srcs (Suc (length ps))) ps ([], []))"

definition derive_order :: "graph \<Rightarrow> exc + path list" where
  "derive_order g =
     (if list_ex (\<lambda>p. list_ex (\<lambda>(_, e). resolve_existing g (ed_source e) = None) (incoming_for g p))
           (keys (g_nodes g))
      then Inl Key_Error
      else Inr (visit_all (sources_of g) (sort (keys (g_nodes g)))))"

section \<open>One derivation\<close>

definition derive_node :: "ext \<Rightarrow> real \<Rightarrow> path \<Rightarrow> (ctx, unit) oper" where
  "derive_node X now p s =
     (case get_node s p of
        None \<Rightarrow> (Inl Key_Error, s)
      | Some nd \<Rightarrow>
          (case nd_kind nd of
             Cell_kind \<Rightarrow> derive_cell X p nd s
           | Transformer_kind \<Rightarrow>
               (case nd_transformer_config nd of
                  None \<Rightarrow> (Inl Attribute_Error, s)
                | Some c \<Rightarrow> derive_transformer X p now c s)))"

fun derive_nodes :: "ext \<Rightarrow> real \<Rightarrow> path list \<Rightarrow> (ctx, unit) oper" where
  "derive_nodes X now [] = ret ()"
| "derive_nodes X now (p # ps) = bnd (derive_node X now p) (\<lambda>_. derive_nodes X now ps)"

definition begin_derivation :: "ctx \<Rightarrow> ctx" where
  "begin_derivation s =
     s\<lparr>cx_anonymous_updates := [], cx_edge_code_states := [], cx_used_facts := [], cx_used_celljoins := []\<rparr>"

definition drop_jobs :: "ctx \<Rightarrow> ctx" where
  "drop_jobs s =
     (let unused = filter (\<lambda>(key, _). \<not> List.member (cx_used_facts s) key) (cx_jobs s)
      in s\<lparr>cx_jobs := filter (\<lambda>(key, _). List.member (cx_used_facts s) key) (cx_jobs s),
           cx_effects := cx_effects s @ map (\<lambda>(key, _). E_cancel_job key) (filter snd unused)\<rparr>)"

fun drop_facts :: "job_key list \<Rightarrow> (job_key \<times> checksum option \<times> error option) list \<Rightarrow> ctx \<Rightarrow> ctx" where
  "drop_facts used [] s = s"
| "drop_facts used ((key, payload, err) # facts) s =
     drop_facts used facts
       (if List.member used key then s
        else (case payload of None \<Rightarrow> id | Some c \<Rightarrow> release c)
               (s\<lparr>cx_facts := AList.delete key (cx_facts s)\<rparr>))"

definition drop_celljoins :: "ctx \<Rightarrow> ctx" where
  "drop_celljoins s =
     s\<lparr>cx_celljoins := filter (\<lambda>(p, _). List.member (cx_used_celljoins s) p) (cx_celljoins s)\<rparr>"

definition update_runtimes :: "real \<Rightarrow> ctx \<Rightarrow> ctx" where
  "update_runtimes now s = fold (\<lambda>p. update_runtime p now) (sort (keys (g_nodes (cx_graph s)))) s"

definition derive_graph :: "ext \<Rightarrow> real \<Rightarrow> (ctx, unit) oper" where
  "derive_graph X now =
     bnd (sync_module_refholds X) (\<lambda>_.
     bnd (modify begin_derivation) (\<lambda>_ s.
     bnd (lift_res (derive_order (cx_graph s))) (\<lambda>order.
     bnd (derive_nodes X now order) (\<lambda>_.
     bnd (sync_edge_pin_refholds X) (\<lambda>_.
     bnd (sync_anonymous_current_refholds X) (\<lambda>_.
     bnd (modify drop_jobs) (\<lambda>_.
     bnd (modify (\<lambda>s. drop_facts (cx_used_facts s) (cx_facts s) s)) (\<lambda>_.
     bnd (modify drop_celljoins) (\<lambda>_.
     bnd (modify (update_runtimes now)) (\<lambda>_.
     sync_superseded_refholds X)))))))) s))"

section \<open>A derivation that fails\<close>

definition begin_close :: "ext \<Rightarrow> real \<Rightarrow> ctx \<Rightarrow> ctx" where
  "begin_close X now s =
     (let s1 = mount_close_prepare X now (s\<lparr>cx_closing := True, cx_effects := [], cx_sync := []\<rparr>)
      in s1\<lparr>cx_done := cx_done s1 @ map (\<lambda>(key, _). E_cancel_job key) (filter snd (cx_jobs s1))
                        @ cancel_effects (all_runs (cx_runtime s1))\<rparr>)"

definition poison :: "ext \<Rightarrow> real \<Rightarrow> ctx \<Rightarrow> ctx" where
  "poison X now s =
     (if cx_failure s \<noteq> None then s
      else begin_close X now (s\<lparr>cx_failure := Some Controller_Failed_Error\<rparr>))"

definition derive_all :: "ext \<Rightarrow> real \<Rightarrow> (ctx, unit) oper" where
  "derive_all X now s =
     (case derive_graph X now s of
        (Inl e, s') \<Rightarrow> (Inl e, poison X now s')
      | (Inr _, s') \<Rightarrow> (Inr (), s'))"

section \<open>Arrivals\<close>

text \<open>
  A fact or a result comes with a lease, which the arrival takes over or releases.
\<close>

definition release_lease :: "checksum option \<Rightarrow> ctx \<Rightarrow> ctx" where
  "release_lease lease s = (case lease of None \<Rightarrow> s | Some c \<Rightarrow> release c s)"

definition store_fact :: "job_key \<Rightarrow> checksum option \<Rightarrow> error option \<Rightarrow> ctx \<Rightarrow> ctx" where
  "store_fact key lease err s =
     s\<lparr>cx_facts := AList.update key (lease, err) (cx_facts s), cx_jobs := AList.delete key (cx_jobs s)\<rparr>"

definition accept_fact ::
  "ext \<Rightarrow> real \<Rightarrow> job_key \<Rightarrow> checksum option \<Rightarrow> error option \<Rightarrow> (ctx, unit) oper" where
  "accept_fact X now key lease err s =
     (if cx_closing s \<or> map_of (cx_jobs s) key = None then (Inr (), release_lease lease s)
      else derive_all X now (store_fact key lease err s))"

definition transformation_started :: "ext \<Rightarrow> real \<Rightarrow> path \<Rightarrow> nat \<Rightarrow> checksum \<Rightarrow> (ctx, unit) oper" where
  "transformation_started X now p g tf_checksum s =
     (if find_run s p g = None then (Inr (), s)
      else derive_all X now (started_record p g tf_checksum s))"

definition transformation_finished ::
  "ext \<Rightarrow> real \<Rightarrow> path \<Rightarrow> nat \<Rightarrow> checksum option \<Rightarrow> checksum option \<Rightarrow> error option \<Rightarrow> (ctx, unit) oper" where
  "transformation_finished X now p g tf_checksum lease err s =
     (if cx_closing s \<or> find_run s p g = None then (Inr (), release_lease lease s)
      else bnd (sync_superseded_refholds X) (\<lambda>_.
           bnd (derive_all X now) (\<lambda>_.
           modify (release_lease lease)))
             (write_run p g (finish_run tf_checksum lease err) s))"

section \<open>The order is topological\<close>

text \<open>
  Every element of the order comes after its sources. The visited nodes are those of the order
  and those on the way down, each of which the visited node leads to.
\<close>

definition sorted_by :: "(path \<Rightarrow> path list) \<Rightarrow> path list \<Rightarrow> bool" where
  "sorted_by srcs order \<longleftrightarrow>
     distinct order \<and> (\<forall>i < length order. set (srcs (order ! i)) \<subseteq> set (take i order))"

lemma sorted_by_Nil [simp]: "sorted_by srcs []"
  by (simp add: sorted_by_def)

lemma sorted_by_snoc:
  assumes "sorted_by srcs order" and "p \<notin> set order" and "set (srcs p) \<subseteq> set order"
  shows "sorted_by srcs (order @ [p])"
  using assms by (auto simp: sorted_by_def nth_append less_Suc_eq)

definition feeds :: "(path \<Rightarrow> path list) \<Rightarrow> (path \<times> path) set" where
  "feeds srcs = {(q, p). q \<in> set (srcs p)}"

definition visit_inv :: "(path \<Rightarrow> path list) \<Rightarrow> path set \<Rightarrow> path list \<times> path list \<Rightarrow> bool" where
  "visit_inv srcs stk st \<longleftrightarrow>
     set (fst st) = set (snd st) \<union> stk \<and> set (snd st) \<inter> stk = {} \<and> sorted_by srcs (snd st)"

lemma visit_correct:
  assumes ac: "acyclic (feeds srcs)" and nodes: "\<And>p. p \<in> N \<Longrightarrow> set (srcs p) \<subseteq> N" and fin: "finite N"
  shows "p \<in> N \<Longrightarrow> visit_inv srcs stk st \<Longrightarrow> card (N - set (fst st)) < n \<Longrightarrow>
    (\<And>q. q \<in> stk \<Longrightarrow> (p, q) \<in> (feeds srcs)\<^sup>+) \<Longrightarrow>
    visit_inv srcs stk (visit srcs n p st) \<and> p \<in> set (snd (visit srcs n p st))
    \<and> set (snd st) \<subseteq> set (snd (visit srcs n p st)) \<and> set (snd (visit srcs n p st)) \<subseteq> set (snd st) \<union> N"
proof (induction n arbitrary: p stk st)
  case (Suc n)
  obtain visited order where st: "st = (visited, order)" by force
  note inv = Suc.prems(2) [unfolded st visit_inv_def fst_conv snd_conv]
  have fresh: "p \<notin> stk" using Suc.prems(4) ac by (auto simp: acyclic_def)
  show ?case
  proof (cases "p \<in> set visited")
    case True
    with fresh inv have "p \<in> set order" by blast
    with True Suc.prems(2) show ?thesis by (simp add: st)
  next
    case False
    have "card (N - set (p # visited)) < card (N - set visited)"
      using False Suc.prems(1) fin by (intro psubset_card_mono) auto
    with Suc.prems(3) have card: "card (N - set (p # visited)) < n" by (simp add: st)
    have fold: "set qs \<subseteq> set (srcs p) \<Longrightarrow> visit_inv srcs (insert p stk) st1 \<Longrightarrow> card (N - set (fst st1)) < n \<Longrightarrow>
        visit_inv srcs (insert p stk) (fold (visit srcs n) qs st1) \<and> set qs \<subseteq> set (snd (fold (visit srcs n) qs st1))
        \<and> set (snd st1) \<subseteq> set (snd (fold (visit srcs n) qs st1))
        \<and> set (snd (fold (visit srcs n) qs st1)) \<subseteq> set (snd st1) \<union> N" for qs st1
    proof (induction qs arbitrary: st1)
      case (Cons q qs)
      let ?st = "visit srcs n q st1"
      have qp: "(q, p) \<in> feeds srcs" using Cons.prems(1) by (simp add: feeds_def)
      have "q \<in> N" using Cons.prems(1) nodes [OF Suc.prems(1)] by auto
      moreover have "(q, x) \<in> (feeds srcs)\<^sup>+" if "x \<in> insert p stk" for x
        using that qp Suc.prems(4) by (auto intro: trancl_into_trancl2)
      ultimately have q: "visit_inv srcs (insert p stk) ?st" "q \<in> set (snd ?st)"
          "set (snd st1) \<subseteq> set (snd ?st)" "set (snd ?st) \<subseteq> set (snd st1) \<union> N"
        using Suc.IH [of q "insert p stk" st1] Cons.prems by blast+
      have "set (fst st1) \<subseteq> set (fst ?st)" using q(1,3) Cons.prems(2) unfolding visit_inv_def by blast
      then have "card (N - set (fst ?st)) \<le> card (N - set (fst st1))" using fin by (intro card_mono) auto
      with Cons.prems(3) have lt: "card (N - set (fst ?st)) < n" by simp
      have "set qs \<subseteq> set (srcs p)" using Cons.prems(1) by simp
      from Cons.IH [OF this q(1) lt] q(2,3,4) show ?case
        unfolding fold_simps list.set insert_subset by blast
    qed simp
    obtain v o' where r: "fold (visit srcs n) (srcs p) (p # visited, order) = (v, o')" by force
    have "visit_inv srcs (insert p stk) (p # visited, order)"
      using inv False by (simp add: visit_inv_def)
    note F = fold [OF subset_refl this, unfolded fst_conv snd_conv r, OF card]
    then have "p \<notin> set o'" "sorted_by srcs o'" "set (srcs p) \<subseteq> set o'" by (auto simp: visit_inv_def)
    then have "sorted_by srcs (o' @ [p])" by (intro sorted_by_snoc)
    then have "visit_inv srcs stk (v, o' @ [p])"
      using F fresh by (auto simp: visit_inv_def)
    then show ?thesis using F False Suc.prems(1) by (auto simp: st r)
  qed
qed simp

text \<open>The order of all nodes.\<close>

lemma visit_all_correct:
  assumes ac: "acyclic (feeds srcs)" and nodes: "\<And>p. p \<in> set ps \<Longrightarrow> set (srcs p) \<subseteq> set ps"
  shows "sorted_by srcs (visit_all srcs ps)" and "set (visit_all srcs ps) = set ps"
proof -
  have fold: "set qs \<subseteq> set ps \<Longrightarrow> visit_inv srcs {} st \<Longrightarrow> set (snd st) \<subseteq> set ps \<Longrightarrow>
      visit_inv srcs {} (fold (visit srcs (Suc (length ps))) qs st)
      \<and> set qs \<union> set (snd st) \<subseteq> set (snd (fold (visit srcs (Suc (length ps))) qs st))
      \<and> set (snd (fold (visit srcs (Suc (length ps))) qs st)) \<subseteq> set ps" for qs st
  proof (induction qs arbitrary: st)
    case (Cons q qs)
    have "card (set ps - set (fst st)) \<le> card (set ps)" by (intro card_mono) auto
    also have "\<dots> \<le> length ps" by (rule card_length)
    finally have "card (set ps - set (fst st)) < Suc (length ps)" by simp
    then have "visit_inv srcs {} (visit srcs (Suc (length ps)) q st) \<and> q \<in> set (snd (visit srcs (Suc (length ps)) q st))
        \<and> set (snd st) \<subseteq> set (snd (visit srcs (Suc (length ps)) q st))
        \<and> set (snd (visit srcs (Suc (length ps)) q st)) \<subseteq> set (snd st) \<union> set ps"
      using visit_correct [OF ac nodes finite_set, of q "{}" st "Suc (length ps)"] Cons.prems by simp
    with Cons.IH [of "visit srcs (Suc (length ps)) q st"] Cons.prems show ?case
      unfolding fold_simps by (simp del: visit.simps) blast
  qed simp
  have "visit_inv srcs {} ([], [])" by (simp add: visit_inv_def)
  from fold [OF subset_refl this] show "sorted_by srcs (visit_all srcs ps)" "set (visit_all srcs ps) = set ps"
    unfolding visit_all_def visit_inv_def by auto
qed

lemma incoming_for_edges: "(l, e) \<in> set (incoming_for g p) \<Longrightarrow>
  \<exists>e0 \<in> set (g_edges g). e = own_link g e0 \<and> target_node g e0 = Some p"
proof -
  have loop: "(l, e) \<in> set (incoming_loop g p es result) \<Longrightarrow>
      (l, e) \<in> set result \<or> (\<exists>e0 \<in> set es. e = own_link g e0 \<and> target_node g e0 = Some p)" for es result
  proof (induction es arbitrary: result)
    case (Cons e0 es)
    have upd: "(l, e) \<in> set (AList.update k v d) \<Longrightarrow> (l, e) = (k, v) \<or> (l, e) \<in> set d" for k v and d :: "(path \<times> edge) list"
      by (induction d) (auto split: if_splits)
    show ?case
      using Cons.IH [OF Cons.prems [unfolded incoming_loop.simps]] upd
      by (fastforce simp: target_node_def split: option.splits if_splits)
  qed simp
  assume "(l, e) \<in> set (incoming_for g p)"
  then show ?thesis using loop [of "g_edges g" "[]"] by (simp add: incoming_for_def)
qed

lemma own_link_source [simp]: "ed_source (own_link g e) = ed_source e"
  by (simp add: own_link_def)

lemma sources_edge_pairs: "feeds (sources_of g) \<subseteq> set (edge_pairs g)"
proof
  fix qp assume "qp \<in> feeds (sources_of g)"
  then obtain q p l e where qp: "qp = (q, p)" and e: "(l, e) \<in> set (incoming_for g p)"
      "map_option fst (resolve_existing g (ed_source e)) = Some q"
    by (auto simp: feeds_def sources_of_def map_filter_def)
  then obtain e0 where "e0 \<in> set (g_edges g)" "e = own_link g e0" "target_node g e0 = Some p"
    using incoming_for_edges by blast
  with e(2) have "e0 \<in> set (g_edges g)" "edge_ends g e0 = Some (q, p)"
    by (auto simp: edge_ends_def target_node_def)
  then show "qp \<in> set (edge_pairs g)"
    unfolding edge_pairs_def qp map_filter_def by force
qed

lemma sources_are_nodes: "set (sources_of g p) \<subseteq> set (keys (g_nodes g))"
  using resolve_from_Some by (fastforce simp: sources_of_def map_filter_def resolve_existing_def in_keys_iff)

section \<open>What a derivation of the graph leaves alone\<close>

lemma derive_node_deriving [derive_intros]: "deriving (derive_node X now p)"
  unfolding derive_node_def
  by (rule derivingI)
     (simp add: deriving_run derive_cell_deriving derive_transformer_deriving split: option.split node_kind.split)

lemma derive_nodes_deriving [derive_intros]: "deriving (derive_nodes X now ps)"
proof (induction ps)
  case (Cons p ps)
  show ?case unfolding derive_nodes.simps by (intro derive_intros Cons.IH)
qed (unfold derive_nodes.simps, rule derive_intros)

lemma begin_derivation_derives [derive_intros]: "derives s (begin_derivation s)"
  by (rule unbooked_derives) (simp_all add: begin_derivation_def ledger_step_same)

lemma drop_jobs_derives [derive_intros]: "derives s (drop_jobs s)"
  by (rule unbooked_derives) (simp_all add: drop_jobs_def Let_def ledger_step_same)

lemma drop_celljoins_derives [derive_intros]: "derives s (drop_celljoins s)"
  by (rule unbooked_derives) (simp_all add: drop_celljoins_def ledger_step_same)

lemma sync_frames:
  "cx_runtime (snd (sync_module_refholds X s)) = cx_runtime s"
  "cx_graph (snd (sync_module_refholds X s)) = cx_graph s"
  "cx_revisions (snd (sync_module_refholds X s)) = cx_revisions s"
  "cx_sessions (snd (sync_module_refholds X s)) = cx_sessions s"
  "cx_runtime (snd (sync_edge_pin_refholds X s)) = cx_runtime s"
  "cx_graph (snd (sync_edge_pin_refholds X s)) = cx_graph s"
  "cx_revisions (snd (sync_edge_pin_refholds X s)) = cx_revisions s"
  "cx_sessions (snd (sync_edge_pin_refholds X s)) = cx_sessions s"
  "cx_runtime (snd (sync_anonymous_current_refholds X s)) = cx_runtime s"
  "cx_graph (snd (sync_anonymous_current_refholds X s)) = cx_graph s"
  "cx_revisions (snd (sync_anonymous_current_refholds X s)) = cx_revisions s"
  "cx_sessions (snd (sync_anonymous_current_refholds X s)) = cx_sessions s"
  by (simp_all add: sync_module_refholds_def sync_edge_pin_refholds_def sync_anonymous_current_refholds_def
      bnd_def acquire_changed_shape release_stale_refs Let_def split: option.splits)

lemma sync_superseded_graph [simp]: 
  "cx_graph (snd (sync_superseded_refholds X s)) = cx_graph s"
  "cx_revisions (snd (sync_superseded_refholds X s)) = cx_revisions s"
  "cx_sessions (snd (sync_superseded_refholds X s)) = cx_sessions s"
proof -
  have "cx_graph (snd (take_superseded X active s)) = cx_graph s
      \<and> cx_revisions (snd (take_superseded X active s)) = cx_revisions s
      \<and> cx_sessions (snd (take_superseded X active s)) = cx_sessions s" for active s
    by (induction X active s rule: take_superseded.induct)
       (auto simp: acquire_def incref_def split: option.splits prod.splits)
  moreover have "cx_graph (drop_superseded active old s) = cx_graph s
      \<and> cx_revisions (drop_superseded active old s) = cx_revisions s
      \<and> cx_sessions (drop_superseded active old s) = cx_sessions s" for active old s
    by (induction active old s rule: drop_superseded.induct) (auto simp: release_refs)
  ultimately show "cx_graph (snd (sync_superseded_refholds X s)) = cx_graph s"
    "cx_revisions (snd (sync_superseded_refholds X s)) = cx_revisions s"
    "cx_sessions (snd (sync_superseded_refholds X s)) = cx_sessions s"
    by (simp_all add: sync_superseded_refholds_def Let_def)
qed

lemma syncs_deriving [derive_intros]:
  "deriving (sync_module_refholds X)" "deriving (sync_edge_pin_refholds X)"
  "deriving (sync_anonymous_current_refholds X)" "deriving (sync_superseded_refholds X)"
  by (rule derivingI, simp add: derives_def sync_frames ledger_step_same sessions_ok_def
      modules_books edge_pins_books anonymous_books superseded.books)+

lemma facts_step_books:
  assumes "map_of (cx_facts s) key = Some f"
    and "cx_facts s' = AList.delete key (cx_facts s)"
    and "\<And>c. cx_refs s' c = cx_refs s c - int (count_list (fact_claims f) c)"
    and "cx_graph s' = cx_graph s" "cx_code_refholds s' = cx_code_refholds s"
      "cx_module_refholds s' = cx_module_refholds s" "cx_edge_pin_refholds s' = cx_edge_pin_refholds s"
      "cx_anonymous_refholds s' = cx_anonymous_refholds s" "cx_anonymous_updates s' = cx_anonymous_updates s"
      "cx_superseded_refholds s' = cx_superseded_refholds s"
      "cx_sessions s' = cx_sessions s" "cx_node_leaves s' = cx_node_leaves s"
  shows "same_books s s'"
proof (rule same_booksI)
  assume wf: "wf_ctx s"
  then have w: "wf_dict (cx_facts s)" by (simp add: wf_ctx_def)
  show "cx_refs s' c - held_count s' c = cx_refs s c - held_count s c" for c
    by (simp add: held_count_def assms value_count_delete [OF w])
  from wf show "wf_ctx s'" by (simp add: wf_ctx_def assms)
qed

lemma drop_facts_derives:
  "list_all (\<lambda>(k, v). map_of (cx_facts s) k = Some v) facts \<Longrightarrow> wf_dict facts \<Longrightarrow>
   derives s (drop_facts used facts s)"
proof (induction used facts s rule: drop_facts.induct)
  case (1 used s)
  then show ?case by simp
next
  case (2 used key payload err facts s)
  let ?s = "if List.member used key then s
    else (case payload of None \<Rightarrow> id | Some c \<Rightarrow> release c) (s\<lparr>cx_facts := AList.delete key (cx_facts s)\<rparr>)"
  have key: "map_of (cx_facts s) key = Some (payload, err)" and wf: "wf_dict facts"
    and new: "key \<notin> fst ` set facts"
    using "2.prems" by (auto simp: wf_dict_def)
  have "same_books s ?s"
  proof (cases "List.member used key")
    case False
    have "same_books s ((case payload of None \<Rightarrow> id | Some c \<Rightarrow> release c) (s\<lparr>cx_facts := AList.delete key (cx_facts s)\<rparr>))"
      by (rule facts_step_books [OF key]) (simp_all add: fact_claims_def release_refs split: option.split)
    with False show ?thesis by simp
  qed simp
  moreover have "cx_runtime ?s = cx_runtime s" "cx_graph ?s = cx_graph s" "cx_revisions ?s = cx_revisions s"
    "cx_sessions ?s = cx_sessions s"
    by (simp_all add: release_refs split: option.split)
  ultimately have "derives s ?s" by (simp only: derives_def ledger_step_same sessions_ok_def) simp
  moreover have "list_all (\<lambda>(k, v). map_of (cx_facts ?s) k = Some v) facts"
  proof -
    have "map_of (cx_facts ?s) k' = map_of (cx_facts s) k'" if "k' \<noteq> key" for k'
      using that by (simp add: release_refs split: option.split)
    with "2.prems"(1) new show ?thesis unfolding list_all_iff by (auto simp del: if_split) force+
  qed
  ultimately show ?case
    using "2.IH" wf by (simp only: drop_facts.simps) (blast intro: derives_trans)
qed

lemma drop_all_facts_derives: "derives s (drop_facts (cx_used_facts s) (cx_facts s) s)"
proof (cases "wf_dict (cx_facts s)")
  case True
  then show ?thesis by (intro drop_facts_derives map_of_all)
next
  case False
  have "cx_runtime (drop_facts used facts s) = cx_runtime s \<and> cx_graph (drop_facts used facts s) = cx_graph s
      \<and> cx_revisions (drop_facts used facts s) = cx_revisions s
      \<and> cx_sessions (drop_facts used facts s) = cx_sessions s" for used facts
    by (induction used facts s rule: drop_facts.induct) (auto simp: release_refs split: option.splits)
  with False show ?thesis by (simp add: derives_def same_books_def wf_ctx_def ledger_step_same sessions_ok_def)
qed

lemma runs_only_refl: "runs_only s s"
  by (simp add: runs_only_def)

lemma runs_only_trans: "runs_only a b \<Longrightarrow> runs_only b c \<Longrightarrow> runs_only a c"
proof -
  assume 1: "runs_only a b" and 2: "runs_only b c"
  have "c\<lparr>cx_runtime := cx_runtime a, cx_effects := cx_effects a\<rparr> =
      (c\<lparr>cx_runtime := cx_runtime b, cx_effects := cx_effects b\<rparr>)\<lparr>cx_runtime := cx_runtime a, cx_effects := cx_effects a\<rparr>"
    by simp
  also have "\<dots> = a" using 1 2 by (simp add: runs_only_def)
  finally show ?thesis by (simp add: runs_only_def)
qed

lemma update_runtime_runs_only: "runs_only s (update_runtime p now s)"
proof -
  have start: "runs_only s (start_cell_run p nd s)" for s nd
    by (simp add: runs_only_def start_cell_run_def put_current_def set_runtime_def next_generation_def)
  have put: "runs_only s (put_current p r s)" for r s
    by (simp add: runs_only_def put_current_def set_runtime_def)
  let ?s1 = "release_upstream_holds p (\<lambda>_. False) s"
  note rel = release_upstream_runs_only [of s p "\<lambda>_. False"]
  have "runs_only s (start_cell_run p nd ?s1)" "runs_only s (start_cell_run p nd (suspend p now ?s1))"
    "runs_only s (put_current p r ?s1)" for nd r
    by (rule runs_only_trans [OF rel start] runs_only_trans [OF rel runs_only_trans [OF suspend_runs_only start]]
        runs_only_trans [OF rel put])+
  then show ?thesis
    unfolding update_runtime_def Let_def
    by (auto intro: suspend_runs_only runs_only_refl split: option.split)
qed

lemma update_runtimes_derives [derive_intros]: "derives s (update_runtimes now s)"
proof -
  have one: "derives s (update_runtime p now s)" for p s
    by (rule runs_only_derives [OF update_runtime_runs_only update_runtime_step])
  have "derives s (fold (\<lambda>p. update_runtime p now) ps s)" for ps
    by (induction ps arbitrary: s) (auto intro: derives_trans [OF one])
  then show ?thesis by (simp add: update_runtimes_def)
qed

lemma derive_graph_deriving: "deriving (derive_graph X now)"
proof -
  have m: "deriving (bnd (lift_res r) (\<lambda>order.
     bnd (derive_nodes X now order) (\<lambda>_.
     bnd (sync_edge_pin_refholds X) (\<lambda>_.
     bnd (sync_anonymous_current_refholds X) (\<lambda>_.
     bnd (modify drop_jobs) (\<lambda>_.
     bnd (modify (\<lambda>s. drop_facts (cx_used_facts s) (cx_facts s) s)) (\<lambda>_.
     bnd (modify drop_celljoins) (\<lambda>_.
     bnd (modify (update_runtimes now)) (\<lambda>_.
     sync_superseded_refholds X)))))))))" for r
    by (intro derive_intros drop_all_facts_derives)
  show ?thesis
    unfolding derive_graph_def by (intro derive_intros derivingI) (rule deriving_run [OF m])
qed

section \<open>Closing after a failure\<close>

lemma perform_step: "ledger_step s (perform e s)"
proof (cases e)
  case (E_launch_run p g c pins b)
  show ?thesis
    unfolding E_launch_run perform_def effect.case
    by (rule write_run_step) (simp_all add: current_ok_def)
qed (simp_all add: perform_def ledger_step_same)

lemma perform_all_step: "ledger_step s (perform_all es s)"
proof (induction es s rule: perform_all.induct)
  case (2 e es s)
  have "ledger_step s (s\<lparr>cx_done := cx_done s @ [e]\<rparr>)" by (simp add: ledger_step_same)
  with 2 perform_step show ?case unfolding perform_all.simps by (blast intro: ledger_step_trans)
qed (simp add: ledger_step_same)

lemma run_effects_step: "ledger_step s (run_effects s)"
  unfolding run_effects_def
  by (rule ledger_step_trans [OF _ perform_all_step]) (simp add: ledger_step_same)

lemma close_session_frame [simp]:
  "cx_runtime (close_session X now k s) = cx_runtime s" "cx_graph (close_session X now k s) = cx_graph s"
  "cx_revisions (close_session X now k s) = cx_revisions s"
  by (simp_all add: close_session_def mount_dispatch_def Let_def put_session_def add_effect_def mount_event_def
      release_refs split: option.split)

lemma mount_close_prepare_frame:
  "ledger_step s (mount_close_prepare X now s)" "cx_graph (mount_close_prepare X now s) = cx_graph s"
  "cx_revisions (mount_close_prepare X now s) = cx_revisions s"
proof -
  have f: "cx_runtime (fold (close_session X now) ks s) = cx_runtime s
      \<and> cx_graph (fold (close_session X now) ks s) = cx_graph s
      \<and> cx_revisions (fold (close_session X now) ks s) = cx_revisions s" for ks
    by (induction ks arbitrary: s) auto
  show "ledger_step s (mount_close_prepare X now s)"
    unfolding mount_close_prepare_def
    by (rule ledger_step_trans [OF ledger_step_same run_effects_step]) (simp add: f)
  show "cx_graph (mount_close_prepare X now s) = cx_graph s"
    "cx_revisions (mount_close_prepare X now s) = cx_revisions s"
    by (simp_all add: mount_close_prepare_def side_only_fields [OF run_effects_side] f)
qed

lemma begin_close_derives [derive_intros]: "derives s (begin_close X now s)"
proof -
  let ?s0 = "s\<lparr>cx_closing := True, cx_effects := [], cx_sync := []\<rparr>"
  let ?s1 = "mount_close_prepare X now ?s0"
  have "derives s ?s0" by (rule unbooked_derives) (simp_all add: ledger_step_same)
  moreover have "derives ?s0 ?s1"
    by (simp add: derives_def mount_close_prepare_books mount_close_prepare_frame mount_close_prepare_ok)
  moreover have "derives ?s1 (begin_close X now s)"
    unfolding begin_close_def Let_def by (rule unbooked_derives) (simp_all add: ledger_step_same)
  ultimately show ?thesis by (blast intro: derives_trans)
qed

lemma poison_derives [derive_intros]: "derives s (poison X now s)"
proof -
  have "derives s (s\<lparr>cx_failure := Some Controller_Failed_Error\<rparr>)"
    by (rule unbooked_derives) (simp_all add: ledger_step_same)
  then show ?thesis unfolding poison_def using begin_close_derives derives_trans by auto
qed

lemma derive_all_deriving [derive_intros]: "deriving (derive_all X now)"
proof (rule derivingI)
  fix s
  obtain r s' where d: "derive_graph X now s = (r, s')" by force
  have "derives s s'" using deriving_run [OF derive_graph_deriving, of s X now] d by simp
  then show "derives s (snd (derive_all X now s))"
    by (cases r) (simp_all add: derive_all_def d derives_trans [OF _ poison_derives])
qed

lemma begin_close_closes: "cx_closing (begin_close X now s)"
proof -
  have f: "cx_closing (fold (close_session X now) ks s) = cx_closing s" for ks s
    by (induction ks arbitrary: s)
       (simp_all add: close_session_def mount_dispatch_def Let_def put_session_def add_effect_def mount_event_def
          release_refs split: option.split)
  show ?thesis
    by (simp add: begin_close_def mount_close_prepare_def Let_def side_only_fields [OF run_effects_side] f)
qed

section \<open>Arrivals and their leases\<close>

lemma store_fact_wf: "wf_ctx s \<Longrightarrow> wf_ctx (store_fact key lease err s)"
  by (simp add: wf_ctx_def store_fact_def)

lemma release_lease_refs:
  "release_lease lease s = s\<lparr>cx_refs := \<lambda>d. cx_refs s d - int (count_list (fact_claims (lease, None)) d)\<rparr>"
  by (cases lease) (simp_all add: release_lease_def fact_claims_def release_refs)

lemma release_lease_ledger:
  "ledger (release_lease lease s) c = ledger s c - int (count_list (fact_claims (lease, None)) c)"
  by (simp add: release_lease_refs ledger_def held_count_def)

lemma store_fact_ledger:
  assumes "wf_ctx s" and "map_of (cx_facts s) key = None"
  shows "ledger (store_fact key lease err s) c = ledger s c - int (count_list (fact_claims (lease, None)) c)"
proof -
  have "wf_dict (cx_facts s)" using assms(1) by (simp add: wf_ctx_def)
  then show ?thesis
    by (simp add: ledger_def held_count_def store_fact_def value_count_update assms(2) fact_claims_def)
qed

lemma derives_ledger: "derives s s' \<Longrightarrow> wf_ctx s \<Longrightarrow> ledger s' = ledger s \<and> wf_ctx s'"
  by (simp add: derives_def same_books_def)

section \<open>The run of a transformer\<close>

lemma suspend_current [simp]: "current_run (suspend p now s) p = None"
proof (cases "current_run s p")
  case (Some r)
  then have "map_of (rt_current (cx_runtime s)) p = Some r" by (simp add: current_run_def)
  then show ?thesis
    unfolding current_run_def suspend_runtime
    by (simp add: Some current_run_def supersede_def Let_def split: prod.split)
qed (simp add: suspend_def)

lemma current_run_frame [simp]:
  "current_run (upd_node p f s) q = current_run s q" "current_run (set_state p st reason err s) q = current_run s q"
  "current_run (add_effect e s) q = current_run s q" "current_run (put_held p qs s) q = current_run s q"
  "current_run (put_current p r s) q = (if q = p then Some r else current_run s q)"
  by (simp_all add: current_run_def upd_node_def put_node_def set_state_def add_effect_def put_held_def
      put_current_def set_runtime_def split: option.split)

lemma replace_current_frame [simp]:
  "current_run (snd (replace_current_checksum X p c s)) q = current_run s q"
  by (simp add: replace_current_checksum_run Let_def current_run_def put_node_def split: option.split)

lemma publish_run_current: "current_run (snd (publish_run X p r s)) q = current_run s q"
proof -
  have "current_run s' q = current_run s q" if "replace_current_checksum X p c s = (x, s')" for c s s' x
    using replace_current_frame [of X p c s q] that by simp
  then show ?thesis
    unfolding publish_run_def bnd_def by (auto split: sum.split prod.split)
qed

lemma derive_run_current:
  assumes "derive_run X p now c code pins s = (Inr (), s')"
  shows "\<exists>r. current_run s' p = Some r \<and> rr_demand_key r = Some (code, sort_key fst pins, tc_config_token c)"
proof -
  let ?key = "(code, sort_key fst pins, tc_config_token c)"
  have start: "\<exists>r. current_run s' p = Some r \<and> rr_demand_key r = Some ?key"
    if "start_run X p c code pins ?key s1 = (Inr (), s')" for s1 s'
    using that
    by (auto simp: start_run_def next_generation_def lift_res_def bnd_def replace_current_checksum_run Let_def
        current_run_def put_node_def put_current_def set_runtime_def set_state_def upd_node_def add_effect_def
        split: sum.splits option.splits if_splits prod.splits)
  have nxt: "\<exists>r. current_run s' p = Some r \<and> rr_demand_key r = Some ?key"
    if n: "next_run X p now c code pins ?key forced s1 = (Inr (), s')" for s1 s' forced
  proof (cases "find (reinstates ?key forced) (held_runs (suspend p now s1) p)")
    case None
    with n start show ?thesis by (simp add: next_run_def Let_def)
  next
    case (Some r)
    then have "rr_demand_key r = Some ?key" by (auto simp: find_Some_iff reinstates_def)
    moreover have "current_run (snd (reinstate X p r s2)) p = Some (reinstated r)" for s2
      by (simp add: reinstate_def Let_def publish_run_current)
    moreover have "s' = snd (reinstate X p r (suspend p now s1))"
      using n Some by (simp add: next_run_def Let_def)
    ultimately show ?thesis by (simp add: reinstated_def Let_def)
  qed
  let ?s1 = "release_upstream_holds p (\<lambda>r. rr_demand_key r = Some ?key) s"
  show ?thesis
  proof (cases "current_run s p")
    case None
    with assms nxt show ?thesis by (simp add: derive_run_def Let_def)
  next
    case (Some r)
    show ?thesis
    proof (cases "rr_demand_key r = Some ?key")
      case False
      with Some assms nxt show ?thesis by (simp add: derive_run_def Let_def)
    next
      case True
      then obtain needs where "(if needs \<and> \<not> x_resolvable X (the (rr_result r))
            then next_run X p now c code pins ?key (Some (rr_generation r)) else publish_run X p r) ?s1 = (Inr (), s')"
        using Some assms by (cases "needs_value X ?s1 p r") (auto simp: derive_run_def Let_def lift_res_def bnd_def)
      with nxt publish_run_current [of X p r ?s1 p] Some True show ?thesis
        by (auto split: if_splits)
    qed
  qed
qed


lemma bnd_modify_snd [simp]: "bnd (modify f) g s = g () (f s)"
  by simp

lemma hold_back_result:
  "hold_back X p now pending s =
     replace_current_checksum X p None
       (upd_node p (\<lambda>nd. nd\<lparr>
          nd_state := reason_state (min_reason (map fst pending)),
          nd_block_reason := (if reason_state (min_reason (map fst pending)) = Blocked
                              then Reason (min_reason (map fst pending)) else No_reason),
          nd_pin_block_reasons := dict_of (map (\<lambda>(why, pin). (pin, why)) (filter (\<lambda>(why, _). why \<noteq> R_waiting) pending)),
          nd_block_pins := sort (map snd (filter (\<lambda>(why, _). why \<noteq> R_waiting) pending)),
          nd_exception := None\<rparr>) (suspend p now s))"
  by (simp add: hold_back_def Let_def)

lemma hold_back_current: "current_run (snd (hold_back X p now pending s)) p = None"
  by (simp add: hold_back_result)

lemma refuse_current: "current_run (snd (refuse X p now b err s)) p = None"
  by (simp add: refuse_def)

lemma convert_pin_skip: "convert_pin X p c pin w i t x s \<noteq> (Inr Pin_skipped, s')"
proof -
  have v: "validate_compiled_pin X p c pin t x s \<noteq> (Inr Pin_skipped, s')" for x s s'
    by (auto simp: validate_compiled_pin_def catching_def pin_failed_def pin_pending_def bnd_def fresh_error_def
        split: option.splits prod.splits if_splits)
  have r: "check_read_error X p c pin it t x s \<noteq> (Inr Pin_skipped, s')" for it x s s'
    by (auto simp: check_read_error_def Let_def v pin_failed_def pin_pending_def bnd_def
        split: option.splits prod.splits if_splits)
  show ?thesis
    unfolding convert_pin_def Let_def
    by (auto simp: bnd_def r raise_def ret_def modify_def split: sum.splits prod.splits option.splits if_splits)
qed

text \<open>A pin is passed over only when it is optional.\<close>

lemma derive_pin_skip:
  assumes "derive_pin X p c incoming pin s = (Inr Pin_skipped, s')"
  shows "pin \<in> set (tc_optional_pins c)"
proof -
  have u: "unwired_pin p c pin w s = (Inr Pin_skipped, s') \<Longrightarrow> pin \<in> set (tc_optional_pins c)" for w s s'
    by (auto simp: unwired_pin_def bnd_def split: if_splits)
  have v: "check_pin_value X p c pin w i x s = (Inr Pin_skipped, s') \<Longrightarrow> pin \<in> set (tc_optional_pins c)" for w i x s s'
    by (auto simp: check_pin_value_def Let_def convert_pin_skip catching_def pin_failed_def pin_pending_def bnd_def
        split: option.splits prod.splits if_splits)
  from assms show ?thesis
    unfolding derive_pin_def
    by (auto simp: bnd_def lift_res_def pin_pending_def dest: u v split: option.splits sum.splits prod.splits if_splits)
qed

lemma derive_pins_cover:
  assumes "derive_pins X p c incoming names pending pins s = (Inr (Inr ([], pins')), s')"
  shows "pending = []
    \<and> set names - set (tc_optional_pins c) \<union> set (keys pins) \<subseteq> set (keys pins')
    \<and> set (keys pins') \<subseteq> set names \<union> set (keys pins)"
  using assms
proof (induction names arbitrary: pending pins s)
  case (Cons pin names)
  obtain r s1 where d: "derive_pin X p c incoming pin s = (Inr r, s1)"
    using Cons.prems by (auto simp: bnd_def split: sum.splits prod.splits)
  show ?case
  proof (cases r)
    case Pin_skipped
    with Cons.prems d have "derive_pins X p c incoming names pending pins s1 = (Inr (Inr ([], pins')), s')"
      by (simp add: bnd_def)
    from Cons.IH [OF this] derive_pin_skip [OF d [unfolded Pin_skipped]] show ?thesis by auto
  next
    case (Pin_pending reason)
    with Cons.prems d
    have "derive_pins X p c incoming names (pending @ [(reason, pin)]) pins s1 = (Inr (Inr ([], pins')), s')"
      by (simp add: bnd_def)
    from Cons.IH [OF this] show ?thesis by simp
  next
    case (Pin_ready x)
    with Cons.prems d
    have "derive_pins X p c incoming names pending (AList.update pin x pins) s1 = (Inr (Inr ([], pins')), s')"
      by (simp add: bnd_def)
    from Cons.IH [OF this] show ?thesis by auto
  next
    case (Pin_refused err)
    with Cons.prems d show ?thesis by (simp add: bnd_def)
  qed
qed simp

section \<open>Properties\<close>

text \<open>C1: One derivation, whether it ends or raises and closes the Context, keeps everything that is
  not its own: the dictionaries stay well formed, every claim on a checksum is accounted for, the
  run ledger keeps its bounds, the design of the graph is the same, and the table of anonymous
  symbols is at most extended.\<close>

theorem derivation_keeps_state:
  assumes "wf_ctx s" and "runs_ok (cx_runtime s)" and "symbols_ok (g_symbols (cx_graph s))"
  shows "wf_ctx (snd (derive_all X now s)) \<and> ledger (snd (derive_all X now s)) = ledger s
    \<and> runs_ok (cx_runtime (snd (derive_all X now s)))
    \<and> same_design (cx_graph s) (cx_graph (snd (derive_all X now s)))
    \<and> symbols_ok (g_symbols (cx_graph (snd (derive_all X now s))))
    \<and> extends (g_symbols (cx_graph (snd (derive_all X now s)))) (g_symbols (cx_graph s))"
  using deriving_run [OF derive_all_deriving, of s X now] assms
  by (simp add: derives_def same_books_def ledger_step_def run_step_def symbols_grow_def)

lemma init_runs_ok: "runs_ok (cx_runtime (init_ctx i))"
  by (simp add: init_ctx_def init_runtime_def runs_ok_def live_def all_runs_def)

lemma init_symbols_ok: "symbols_ok (g_symbols (cx_graph (init_ctx i)))"
  by (simp add: init_ctx_def empty_graph_def symbols_ok_def)

theorem derivation_keeps_state_witness:
  "ledger (snd (derive_all plain_ext 0 (init_ctx ''top''))) = ledger (init_ctx ''top'')"
  using derivation_keeps_state [OF wf_init init_runs_ok init_symbols_ok] by blast

text \<open>C2: A derivation visits every node once, and every node after all the nodes its incoming edges
  come from.\<close>

theorem derivation_order_topological:
  assumes "edges_ok g" and "derive_order g = Inr order"
  shows "distinct order \<and> set order = set (keys (g_nodes g))
    \<and> (\<forall>i < length order. set (sources_of g (order ! i)) \<subseteq> set (take i order))"
proof -
  have "acyclic (set (edge_pairs g))" using assms(1) by (simp only: edges_ok_def)
  then have ac: "acyclic (feeds (sources_of g))" by (rule acyclic_subset [OF _ sources_edge_pairs])
  have order: "order = visit_all (sources_of g) (sort (keys (g_nodes g)))"
    using assms(2) by (simp add: derive_order_def split: if_splits)
  have "set (sources_of g p) \<subseteq> set (sort (keys (g_nodes g)))" for p
    using sources_are_nodes by simp
  note v = visit_all_correct [OF ac this]
  show ?thesis using v unfolding order sorted_by_def by simp
qed

lemma get_upd_node: "get_node s p = Some nd \<Longrightarrow> get_node (upd_node p f s) p = Some (f nd)"
  by (simp add: upd_node_def)

lemma replaced_none:
  assumes "get_node s p = Some nd"
  shows "get_node (snd (replace_current_checksum X p None s)) p = Some (nd\<lparr>nd_current := None\<rparr>)"
proof -
  have "get_node (t\<lparr>cx_refs := f\<rparr>) p = get_node t p" for t f by (simp add: get_node_def)
  then show ?thesis by (simp add: replace_current_checksum_run assms Let_def)
qed

text \<open>The second cell feeds the first one.\<close>

definition fed_back :: graph where
  "fed_back = snd (link_edge (\<lambda>_. ''abcde'') False False (plain_edge [KStr ''b''] [KStr ''a'']) two_cells)"

lemma fed_back_ok: "edges_ok fed_back"
  unfolding fed_back_def by (rule link_edge_preserves [OF two_cells_ok prod.collapse [symmetric]])

lemma fed_back_order: "derive_order fed_back = Inr [[KStr ''b''], [KStr ''a'']]"
  by code_simp

theorem derivation_order_topological_witness:
  "derive_order fed_back = Inr [[KStr ''b''], [KStr ''a'']] \<and> sources_of fed_back [KStr ''a''] = [[KStr ''b'']]
   \<and> set (sources_of fed_back ([[KStr ''b''], [KStr ''a'']] ! 1)) \<subseteq> set (take 1 [[KStr ''b''], [KStr ''a'']])"
proof -
  have "sources_of fed_back [KStr ''a''] = [[KStr ''b'']]" by code_simp
  moreover have "(1 :: nat) < length [[KStr ''b''], [KStr ''a'']]" by simp
  ultimately show ?thesis
    using derivation_order_topological [OF fed_back_ok fed_back_order] fed_back_order by blast
qed

text \<open>C4: What an edge delivers as complete comes from a node that is complete, over an edge whose
  links are not miswired.\<close>

theorem complete_source_is_sound:
  assumes "source_state X e s = (Inr (Complete, c), s')"
  shows "edge_miswiring (cx_graph s) e = None
    \<and> (case resolve_existing (cx_graph s) (ed_source e) of
         None \<Rightarrow> False
       | Some (p, _) \<Rightarrow> map_option nd_state (get_node s p) = Some Complete)"
proof -
  have pop: "cx_graph (pop_edge_error t s) = cx_graph s" "get_node (pop_edge_error t s) = get_node s" for t
    by (simp_all add: pop_edge_error_def get_node_def fun_eq_iff)
  have pending: "pending_state nd = None \<Longrightarrow> nd_state nd = Complete" for nd
    by (auto simp: pending_state_def split: if_splits prod.splits nstate.splits block_reason.splits)
  have never: "pending_state nd \<noteq> Some Complete" for nd
    by (auto simp: pending_state_def split: nstate.splits block_reason.splits)
  show ?thesis
    using assms
    by (auto simp: source_state_def Let_def pop never dest: pending
        split: option.splits prod.splits miswiring.splits if_splits)
qed

text \<open>C35: A transformer that cannot run reports its gravest reason: the reason that comes first in the
  order of the code among all its pins gives the state and the block reason; it has no result and
  no current run.\<close>

theorem held_back_reports_gravest_reason:
  assumes "pending \<noteq> []" and "get_node s p = Some nd" and "hold_back X p now pending s = (Inr (), s')"
  shows "\<exists>r \<in> set (map fst pending). list_all (\<lambda>(why, _). reason_rank r \<le> reason_rank why) pending
    \<and> map_option nd_state (get_node s' p) = Some (reason_state r)
    \<and> map_option nd_block_reason (get_node s' p) = Some (if reason_state r = Blocked then Reason r else No_reason)
    \<and> map_option nd_current (get_node s' p) = Some None \<and> current_run s' p = None"
proof -
  have fold: "fold (\<lambda>r best. if reason_rank r < reason_rank best then r else best) rs b \<in> insert b (set rs)
      \<and> (\<forall>w \<in> insert b (set rs). reason_rank (fold (\<lambda>r best. if reason_rank r < reason_rank best then r else best) rs b)
            \<le> reason_rank w)" for rs b
  proof (induction rs arbitrary: b)
    case (Cons r rs)
    show ?case
      using Cons.IH [of "if reason_rank r < reason_rank b then r else b"]
      by (cases "reason_rank r < reason_rank b") (simp_all, (meson le_trans less_imp_le not_less)+)
  qed simp
  let ?r = "min_reason (map fst pending)"
  obtain w ws where p: "map fst pending = w # ws" using assms(1) by (cases pending) auto
  have r: "?r \<in> set (map fst pending)" "\<forall>w \<in> set (map fst pending). reason_rank ?r \<le> reason_rank w"
    using fold [of ws w] by (simp_all add: min_reason_def p)
  have sus: "get_node (suspend p now s) p = Some nd"
    using assms(2) by (simp add: suspend_def Let_def get_node_def add_effects_def set_runtime_def add_effect_def
        split: option.split)
  have s': "s' = snd (hold_back X p now pending s)" using assms(3) by simp
  have "list_all (\<lambda>(why, _). reason_rank ?r \<le> reason_rank why) pending"
    using r(2) by (force simp: list_all_iff)
  moreover have "map_option nd_state (get_node s' p) = Some (reason_state ?r)
    \<and> map_option nd_block_reason (get_node s' p) = Some (if reason_state ?r = Blocked then Reason ?r else No_reason)
    \<and> map_option nd_current (get_node s' p) = Some None"
    unfolding s' hold_back_result by (simp add: replaced_none [OF get_upd_node [OF sus]])
  moreover have "current_run s' p = None" using hold_back_current [of X p now pending s] assms(3) by simp
  ultimately show ?thesis using r(1) by blast
qed

lemma failed_derivation_closes:
  assumes "derive_all X now s = (Inl e, s')"
  shows "cx_failure s' \<noteq> None"
proof -
  have f: "cx_failure (begin_close X now s) = cx_failure s" for s
  proof -
    have "cx_failure (fold (close_session X now) ks s) = cx_failure s" for ks s
      by (induction ks arbitrary: s)
         (simp_all add: close_session_def mount_dispatch_def Let_def put_session_def add_effect_def mount_event_def
            release_refs split: option.split)
    moreover have "cx_failure (run_effects s) = cx_failure s" for s
      using run_effects_side [of s, unfolded side_only_def, THEN arg_cong, of cx_failure] by simp
    ultimately show ?thesis by (simp add: begin_close_def mount_close_prepare_def Let_def)
  qed
  from assms show ?thesis
    by (auto simp: derive_all_def poison_def f split: prod.splits sum.splits if_splits)
qed

text \<open>C20: The lease that arrives with a fact is consumed once, stored or released, also when the derivation after
  it raises. So is the lease of a finished run when its handling returns; when the derivation after it raises, the
  lease has not been given back, and every claim stands as it did before.\<close>

theorem arrivals_consume_their_lease:
  assumes "wf_ctx s" and "map_of (cx_facts s) key = None"
  shows "ledger (snd (accept_fact X now key lease err s)) c = ledger s c - int (count_list (fact_claims (lease, err)) c)
    \<and> (case transformation_finished X now p g tf lease err s of
         (Inl _, s') \<Rightarrow> ledger s' c = ledger s c
       | (Inr _, s') \<Rightarrow> ledger s' c = ledger s c - int (count_list (fact_claims (lease, err)) c))"
proof
  have same: "fact_claims (lease, err) = fact_claims (lease, None)" by (simp add: fact_claims_def)
  let ?s = "store_fact key lease err s"
  have "ledger (snd (derive_all X now ?s)) = ledger ?s"
    using derives_ledger [OF deriving_run [OF derive_all_deriving] store_fact_wf [OF assms(1)]] by blast
  then show "ledger (snd (accept_fact X now key lease err s)) c =
      ledger s c - int (count_list (fact_claims (lease, err)) c)"
    unfolding same accept_fact_def
    using release_lease_ledger [of lease s c] store_fact_ledger [OF assms, of lease err c] by simp
  let ?w = "write_run p g (finish_run tf lease err) s"
  have w: "derives s ?w"
    by (rule runs_only_derives [OF _ finish_run_step])
       (simp add: runs_only_def write_run_def put_current_def put_held_def set_runtime_def split: option.split)
  have m: "deriving (bnd (sync_superseded_refholds X) (\<lambda>_. derive_all X now))"
    by (intro derive_intros)
  have assoc: "bnd (sync_superseded_refholds X) (\<lambda>_. bnd (derive_all X now) f) ?w =
      bnd (bnd (sync_superseded_refholds X) (\<lambda>_. derive_all X now)) f ?w" for f
    by (simp add: bnd_def split: sum.split prod.split)
  show "case transformation_finished X now p g tf lease err s of
         (Inl _, s') \<Rightarrow> ledger s' c = ledger s c
       | (Inr _, s') \<Rightarrow> ledger s' c = ledger s c - int (count_list (fact_claims (lease, err)) c)"
  proof (cases "cx_closing s \<or> find_run s p g = None")
    case True
    then show ?thesis
      using release_lease_ledger [of lease s c] by (simp add: transformation_finished_def same)
  next
    case False
    obtain r s1 where d: "bnd (sync_superseded_refholds X) (\<lambda>_. derive_all X now) ?w = (r, s1)" by force
    have "derives s s1" using deriving_after [OF w m] d by simp
    then have l: "ledger s1 = ledger s" using derives_ledger assms(1) by blast
    have "transformation_finished X now p g tf lease err s = bnd (\<lambda>_. (r, s1)) (\<lambda>_. modify (release_lease lease)) ?w"
      unfolding transformation_finished_def assoc if_not_P [OF False]
      by (simp add: bnd_def [of _ "\<lambda>_. modify _"] d)
    then show ?thesis
      using release_lease_ledger [of lease s1 c] l by (cases r) (simp_all add: bnd_def same)
  qed
qed

section \<open>Witnesses\<close>

definition pinned :: transformer_config where
  "pinned =
     \<lparr>tc_config_token = ''tok'', tc_schema = None, tc_compilation = None, tc_objects = PyNone, tc_header = None,
      tc_code = PyNone, tc_code_checksum = Some ''cc'', tc_language = ''python'', tc_callable = Not_callable,
      tc_pins = [''a''], tc_celltypes = [(''a'', ''mixed'')], tc_optional_pins = [], tc_modules = [],
      tc_globals = [], tc_meta = [], tc_environment = PyNone, tc_scratch = False, tc_local = None,
      tc_streaming = False, tc_call_mode = ''call''\<rparr>"

definition pinned_ctx :: ctx where
  "pinned_ctx = (init_ctx ''top'')\<lparr>cx_graph := empty_graph\<lparr>g_nodes :=
     [([KStr ''t''], (new_node Transformer_kind)\<lparr>nd_transformer_config := Some pinned,
        nd_pin_producers := [(''a'', \<lparr>cp_checksum = ''11'', cp_celltype = ''mixed''\<rparr>)]\<rparr>)]\<rparr>\<rparr>"

definition linked_ctx :: ctx where
  "linked_ctx = (init_ctx ''top'')\<lparr>cx_graph := empty_graph\<lparr>
     g_nodes := [([KStr ''a''], (new_cell ''text'')\<lparr>nd_state := Complete, nd_current := Some ''11''\<rparr>),
                 ([KStr ''b''], new_cell ''text'')],
     g_edges := [plain_edge [KStr ''a''] [KStr ''b'']]\<rparr>\<rparr>"

lemma pinned_run: "fst (derive_inputs plain_ext [KStr ''t''] 0 pinned [] pinned_ctx) = Inr ()"
  by code_simp

lemma linked_source:
  "fst (source_state plain_ext (plain_edge [KStr ''a''] [KStr ''b'']) linked_ctx) = Inr (Complete, Some ''11'')"
  by code_simp

theorem complete_source_is_sound_witness:
  "map_option nd_state (get_node linked_ctx [KStr ''a'']) = Some Complete"
proof -
  have "resolve_existing (cx_graph linked_ctx) (ed_source (plain_edge [KStr ''a''] [KStr ''b''])) = Some ([KStr ''a''], [])"
    by code_simp
  with complete_source_is_sound [of plain_ext "plain_edge [KStr ''a''] [KStr ''b'']" linked_ctx "Some ''11''"
      "snd (source_state plain_ext (plain_edge [KStr ''a''] [KStr ''b'']) linked_ctx)"] linked_source
  show ?thesis by (simp add: prod_eq_iff)
qed

theorem held_back_reports_gravest_reason_witness:
  "map_option nd_state (get_node (snd (hold_back plain_ext [KStr ''t''] 0 [(R_waiting, ''a''), (R_unwired, ''b'')] pinned_ctx))
     [KStr ''t'']) = Some Unwired"
proof -
  have h: "fst (hold_back plain_ext [KStr ''t''] 0 [(R_waiting, ''a''), (R_unwired, ''b'')] pinned_ctx) = Inr ()"
    by code_simp
  have "get_node pinned_ctx [KStr ''t''] = Some ((new_node Transformer_kind)\<lparr>nd_transformer_config := Some pinned,
        nd_pin_producers := [(''a'', \<lparr>cp_checksum = ''11'', cp_celltype = ''mixed''\<rparr>)]\<rparr>)"
    by (simp add: pinned_ctx_def get_node_def)
  from held_back_reports_gravest_reason [OF _ this, of "[(R_waiting, ''a''), (R_unwired, ''b'')]" plain_ext 0
      "snd (hold_back plain_ext [KStr ''t''] 0 [(R_waiting, ''a''), (R_unwired, ''b'')] pinned_ctx)"] h
  show ?thesis by (auto simp: prod_eq_iff reason_rank_def reason_state_def)
qed

definition awaiting :: ctx where
  "awaiting = (example_ctx 1)\<lparr>cx_jobs := [(Celljoin_job ''aa'' ''mixed'' False, True)]\<rparr>"

definition astray :: ctx where
  "astray = awaiting\<lparr>cx_graph := empty_graph\<lparr>g_nodes := [([KStr ''b''], new_cell ''text'')],
     g_edges := [plain_edge [KStr ''x''] [KStr ''b'']]\<rparr>\<rparr>"

lemma awaiting_wf: "wf_ctx awaiting" "wf_ctx astray"
  by (simp_all add: wf_ctx_def awaiting_def astray_def example_ctx_def init_ctx_def empty_graph_def new_cell_def
      new_node_def wf_dict_def)

text \<open>A fact that is awaited, a run that finishes, and one after which the derivation fails.\<close>

theorem arrivals_consume_their_lease_witness:
  "ledger (snd (accept_fact plain_ext 0 (Celljoin_job ''aa'' ''mixed'' False) (Some ''bb'') None awaiting)) ''bb''
      = ledger awaiting ''bb'' - 1
   \<and> ledger (snd (transformation_finished plain_ext 0 [KStr ''t''] 1 None (Some ''bb'') None awaiting)) ''bb''
      = ledger awaiting ''bb'' - 1
   \<and> ledger (snd (transformation_finished plain_ext 0 [KStr ''t''] 1 None (Some ''bb'') None astray)) ''bb''
      = ledger astray ''bb''"
proof -
  let ?key = "Celljoin_job ''aa'' ''mixed'' False"
  let ?ok = "transformation_finished plain_ext 0 [KStr ''t''] 1 None (Some ''bb'') None awaiting"
  let ?bad = "transformation_finished plain_ext 0 [KStr ''t''] 1 None (Some ''bb'') None astray"
  have none: "map_of (cx_facts awaiting) ?key = None" "map_of (cx_facts astray) ?key = None" by code_simp+
  have "fst ?ok = Inr ()" by code_simp
  then have ok: "?ok = (Inr (), snd ?ok)" by (metis prod.collapse)
  have "fst ?bad = Inl Key_Error" by code_simp
  then have bad: "?bad = (Inl Key_Error, snd ?bad)" by (metis prod.collapse)
  have c: "count_list (fact_claims (Some ''bb'', None)) ''bb'' = 1" by (simp add: fact_claims_def)
  note a = arrivals_consume_their_lease [where X = plain_ext and now = 0 and key = ?key and lease = "Some ''bb''" and err = None
      and c = "''bb''" and p = "[KStr ''t'']" and g = 1 and tf = None]
  show ?thesis
    using a [OF awaiting_wf(1) none(1)] a [OF awaiting_wf(2) none(2)] unfolding c
    by (subst (asm) ok, subst (asm) bad) simp
qed

end
