(* ===== verification/Edit_Edges.thy ===== *)
theory Edit_Edges
  imports Derivation
begin

text \<open>
  The user's edits of edges, roots and pins (\<^verbatim>\<open>context.py\<close>): connecting an endpoint
  (\<open>_add_endpoint_edge\<close>, \<open>_add_edge\<close>), writing and clearing the root of a cell
  (\<open>_set_cell_root_with_edges\<close>, \<open>_cell_operation\<close>, \<open>_commit_update\<close>), and the code and the
  pins of a transformer.

  A Python handle that names a workflow source is its endpoint. A value that is not prepared
  becomes a checksum by \<open>x_value_checksum\<close>, which stands for the buffers of the imported
  package behind \<open>checksum_for_value\<close>.
\<close>

section \<open>Endpoints\<close>

datatype endpoint_kind =
    Cell_result | Cell_subvalue | Transformer_result | Transformer_input | Transformer_code

record endpoint =
  ep_top_id :: string
  ep_node :: path
  ep_kind :: endpoint_kind
  ep_local :: path
  ep_can_source :: bool
  ep_celltype :: "celltype option"
  ep_conversion :: bool
  ep_conversion_before :: bool
  ep_conversion_steps :: steps

definition cell_endpoint :: "ctx \<Rightarrow> path \<Rightarrow> path \<Rightarrow> endpoint" where
  "cell_endpoint s p local =
     \<lparr>ep_top_id = cx_top_id s, ep_node = p, ep_kind = (if local = [] then Cell_result else Cell_subvalue),
      ep_local = local, ep_can_source = True, ep_celltype = None, ep_conversion = False,
      ep_conversion_before = False, ep_conversion_steps = []\<rparr>"

definition transformer_endpoint :: "ctx \<Rightarrow> path \<Rightarrow> string \<Rightarrow> endpoint" where
  "transformer_endpoint s p pin =
     \<lparr>ep_top_id = cx_top_id s, ep_node = p,
      ep_kind = (if pin = ''code'' then Transformer_code else Transformer_input),
      ep_local = [KStr pin], ep_can_source = False, ep_celltype = None, ep_conversion = False,
      ep_conversion_before = False, ep_conversion_steps = []\<rparr>"

text \<open>\<open>endpoint.celltype or self._node_celltype(...)\<close>, where the node may be gone.\<close>

definition endpoint_type :: "ctx \<Rightarrow> endpoint \<Rightarrow> exc + celltype" where
  "endpoint_type s ep =
     (if or_else (ep_celltype ep) [] \<noteq> [] then Inr (or_else (ep_celltype ep) [])
      else case get_node s (ep_node ep) of
        None \<Rightarrow> Inl Key_Error
      | Some nd \<Rightarrow> Inr (config_celltype nd))"

definition source_celltype :: "ctx \<Rightarrow> endpoint \<Rightarrow> exc + celltype" where
  "source_celltype s ep =
     (if ep_top_id ep \<noteq> cx_top_id s then Inl Dependency_Error else endpoint_type s ep)"

section \<open>Checks of a connection\<close>

definition endpoint_steps :: "endpoint \<Rightarrow> steps" where
  "endpoint_steps ep =
     (if ep_conversion ep \<and> ep_conversion_steps ep = []
      then [(if ep_conversion_before ep then 0 else int (length (ep_local ep)), or_else (ep_celltype ep) [])]
      else ep_conversion_steps ep)"

definition check_deep_link :: "ext \<Rightarrow> ctx \<Rightarrow> endpoint \<Rightarrow> endpoint option \<Rightarrow> exc option" where
  "check_deep_link X s ep target =
     (case get_node s (ep_node ep) of
        None \<Rightarrow> None
      | Some nd \<Rightarrow>
          (let root_type = config_celltype nd;
               implicit =
                 (case target of
                    None \<Rightarrow> []
                  | Some t \<Rightarrow>
                      (case get_node s (ep_node t) of
                         Some tn \<Rightarrow>
                           (if ep_local ep = [] \<and> ep_kind t = Cell_result \<and> ep_local t = []
                               \<and> nd_kind tn = Cell_kind
                               \<and> config_celltype tn \<noteq> or_else (ep_celltype ep) root_type
                            then [(0, config_celltype tn)] else [])
                       | None \<Rightarrow> []))
           in deep_recipe_error (x_shape X) root_type (ep_local ep) (endpoint_steps ep @ implicit)))"

text \<open>The target inside a cell: one key that the celltype can hold.\<close>

definition check_slot :: "ctx \<Rightarrow> endpoint \<Rightarrow> celltype \<Rightarrow> path \<Rightarrow> exc + unit" where
  "check_slot s ep target_type local =
     (case local of
        [key] \<Rightarrow>
          (case key of
             KSlice _ _ _ \<Rightarrow> Inl Path_Error
           | _ \<Rightarrow>
               (if \<not> List.member pin_celltypes target_type then Inl Path_Error
                else case key of
                  KBool _ \<Rightarrow> Inl Type_Error
                | KInt i \<Rightarrow>
                    (if i < 0 then Inl Value_Error
                     else if is_deep target_type
                     then res_bind (endpoint_type s ep) (\<lambda>_. Inl Value_Error)
                     else Inr ())
                | KStr k \<Rightarrow>
                    (if List.member reserved_keys k then Inl Value_Error
                     else if is_deep target_type
                     then res_bind (endpoint_type s ep) (\<lambda>source_type.
                            if source_type \<noteq> member_celltype target_type then Inl Type_Error else Inr ())
                     else Inr ())
                | KSlice _ _ _ \<Rightarrow> Inl Path_Error))
      | _ \<Rightarrow> Inl Path_Error)"

text \<open>A projected source must have the celltype of its target, unless it converts.\<close>

definition check_projected :: "ctx \<Rightarrow> endpoint \<Rightarrow> celltype \<Rightarrow> bool \<Rightarrow> exc + unit" where
  "check_projected s ep target_type may_convert =
     (if ep_local ep = [] then Inr ()
      else res_bind (endpoint_type s ep) (\<lambda>source_type.
        if target_type \<noteq> source_type \<and> \<not> (may_convert \<and> ep_conversion ep) then Inl Type_Error else Inr ()))"

definition check_pin :: "ext \<Rightarrow> ctx \<Rightarrow> endpoint \<Rightarrow> celltype \<Rightarrow> exc + unit" where
  "check_pin X s ep celltype =
     res_bind (endpoint_type s ep) (\<lambda>source_type.
     res_bind (check_projected s ep celltype False) (\<lambda>_.
     if ep_local ep = [] \<and> \<not> ep_conversion ep \<and> source_type \<noteq> celltype
     then (case get_node s (ep_node ep) of
             None \<Rightarrow> Inl Key_Error
           | Some nd \<Rightarrow>
               (case nd_current nd of
                  None \<Rightarrow> Inr ()
                | Some c \<Rightarrow>
                    (if c = x_null X then Inr ()
                     else case x_shape X [] source_type celltype of Some e \<Rightarrow> Inl e | None \<Rightarrow> Inr ())))
     else Inr ()))"

definition check_target :: "ext \<Rightarrow> ctx \<Rightarrow> endpoint \<Rightarrow> endpoint \<Rightarrow> exc + unit" where
  "check_target X s ep target =
     (case ep_kind target of
        Cell_subvalue \<Rightarrow>
          (if length (ep_local target) \<noteq> 1 \<or> list_ex is_slice (ep_local target) then Inl Path_Error
           else case get_node s (ep_node target) of
             None \<Rightarrow> Inl Key_Error
           | Some nd \<Rightarrow>
               res_bind (check_slot s ep (config_celltype nd) (ep_local target)) (\<lambda>_.
               check_projected s ep (projected_celltype (config_celltype nd) (ep_local target)) True))
      | Transformer_input \<Rightarrow>
          (case ep_local target of
             [pin] \<Rightarrow>
               (case get_node s (ep_node target) of
                  None \<Rightarrow> Inl Key_Error
                | Some nd \<Rightarrow>
                    (case nd_transformer_config nd of
                       None \<Rightarrow> Inl Attribute_Error
                     | Some c \<Rightarrow> check_pin X s ep (pin_celltype c pin)))
           | _ \<Rightarrow> Inl Path_Error)
      | Cell_result \<Rightarrow>
          (if ep_local ep = [] then Inr ()
           else case get_node s (ep_node target) of
             None \<Rightarrow> Inl Key_Error
           | Some nd \<Rightarrow> check_projected s ep (config_celltype nd) True)
      | _ \<Rightarrow> Inr ())"

definition check_connection :: "ext \<Rightarrow> ctx \<Rightarrow> endpoint \<Rightarrow> endpoint \<Rightarrow> exc + unit" where
  "check_connection X s ep target =
     (if ep_top_id ep \<noteq> cx_top_id s \<or> ep_top_id target \<noteq> cx_top_id s then Inl Dependency_Error
      else if \<not> ep_can_source ep then Inl Dependency_Error
      else case check_deep_link X s ep (Some target) of
        Some e \<Rightarrow> Inl e
      | None \<Rightarrow> check_target X s ep target)"

section \<open>Adding an edge\<close>

definition mount_has_sensing :: "ctx \<Rightarrow> path \<Rightarrow> bool" where
  "mount_has_sensing s p =
     (case get_node s p of
        None \<Rightarrow> False
      | Some nd \<Rightarrow>
          (case nd_mount nd of Some spec \<Rightarrow> sensing spec | None \<Rightarrow> False)
          \<or> list_ex (\<lambda>(_, spec). sensing spec) (nd_attachments nd)
          \<or> list_ex (\<lambda>m. sensing (ms_spec m)) (sessions_for s p))"

definition set_graph_of :: "ctx \<Rightarrow> graph \<Rightarrow> ctx" where
  "set_graph_of s g = s\<lparr>cx_graph := g\<rparr>"

definition deep_target :: "ctx \<Rightarrow> path \<Rightarrow> bool" where
  "deep_target s target =
     (case resolve_existing (cx_graph s) target of
        None \<Rightarrow> False
      | Some (n, local) \<Rightarrow>
          (case get_node s n of
             None \<Rightarrow> False
           | Some nd \<Rightarrow> local \<noteq> [] \<and> nd_kind nd = Cell_kind \<and> is_deep (config_celltype nd)))"

definition sensing_target :: "ctx \<Rightarrow> path \<Rightarrow> bool" where
  "sensing_target s target =
     (case resolve_existing (cx_graph s) target of
        None \<Rightarrow> False
      | Some (n, _) \<Rightarrow> mount_has_sensing s n)"

definition add_edge :: "ext \<Rightarrow> real \<Rightarrow> edge \<Rightarrow> bool \<Rightarrow> (ctx, unit) oper" where
  "add_edge X now e detach s =
     (case link_edge (x_symbol_base X) (sensing_target s (ed_target e)) detach
             (e\<lparr>ed_deep_member := deep_target s (ed_target e)\<rparr>) (cx_graph s) of
        (Inl x, g) \<Rightarrow> (Inl x, set_graph_of s g)
      | (Inr _, g) \<Rightarrow> derive_all X now (set_graph_of s g))"

definition drop_root_producer :: "path \<Rightarrow> ctx \<Rightarrow> ctx" where
  "drop_root_producer p s =
     (case get_node s p of
        None \<Rightarrow> s
      | Some nd \<Rightarrow> release_optional (nd_root_producer nd) (put_node p (nd\<lparr>nd_root_producer := None\<rparr>) s))"

definition drop_pin_producer :: "path \<Rightarrow> string \<Rightarrow> ctx \<Rightarrow> ctx" where
  "drop_pin_producer p pin s =
     (case get_node s p of
        None \<Rightarrow> s
      | Some nd \<Rightarrow>
          release_optional (map_of (nd_pin_producers nd) pin)
            (put_node p (nd\<lparr>nd_pin_producers := AList.delete pin (nd_pin_producers nd)\<rparr>) s))"

definition drop_replaced_producer :: "endpoint \<Rightarrow> ctx \<Rightarrow> ctx" where
  "drop_replaced_producer target s =
     (case get_node s (ep_node target) of
        None \<Rightarrow> s
      | Some nd \<Rightarrow>
          (case (nd_kind nd, ep_local target) of
             (Cell_kind, []) \<Rightarrow> drop_root_producer (ep_node target) s
           | (Transformer_kind, [KStr pin]) \<Rightarrow> drop_pin_producer (ep_node target) pin s
           | _ \<Rightarrow> s))"

definition endpoint_edge :: "endpoint \<Rightarrow> endpoint \<Rightarrow> edge" where
  "endpoint_edge ep target =
     \<lparr>ed_source = ep_node ep @ ep_local ep, ed_target = ep_node target @ ep_local target,
      ed_source_celltype = ep_celltype ep, ed_conversion = ep_conversion ep,
      ed_conversion_before = ep_conversion_before ep, ed_conversion_steps = ep_conversion_steps ep,
      ed_chain = [], ed_deep_member = False\<rparr>"

definition add_endpoint_edge :: "ext \<Rightarrow> real \<Rightarrow> endpoint \<Rightarrow> endpoint \<Rightarrow> bool \<Rightarrow> (ctx, unit) oper" where
  "add_endpoint_edge X now ep target detach s =
     bnd (lift_res (check_connection X s ep target)) (\<lambda>_.
     bnd (add_edge X now (endpoint_edge ep target) detach) (\<lambda>_.
     modify (drop_replaced_producer target))) s"

section \<open>The root of a cell\<close>

definition bump_revision :: "path \<Rightarrow> ctx \<Rightarrow> ctx" where
  "bump_revision p s =
     s\<lparr>cx_revisions := AList.update p
         (Suc (case map_of (cx_revisions s) p of None \<Rightarrow> 0 | Some n \<Rightarrow> n)) (cx_revisions s)\<rparr>"

definition revision_of :: "ctx \<Rightarrow> path \<Rightarrow> nat" where
  "revision_of s p = (case map_of (cx_revisions s) p of None \<Rightarrow> 0 | Some n \<Rightarrow> n)"

definition forget_sense_errors :: "path \<Rightarrow> ctx \<Rightarrow> ctx" where
  "forget_sense_errors p s =
     s\<lparr>cx_sessions := map (\<lambda>(k, m). (k, if fst k = p then m\<lparr>ms_sense_error := None\<rparr> else m)) (cx_sessions s)\<rparr>"

definition drop_node_leaves :: "path \<Rightarrow> ctx \<Rightarrow> ctx" where
  "drop_node_leaves p s =
     (case map_of (cx_node_leaves s) p of
        None \<Rightarrow> s
      | Some leaves \<Rightarrow> release_all leaves (s\<lparr>cx_node_leaves := AList.delete p (cx_node_leaves s)\<rparr>))"

definition remove_edges :: "path \<Rightarrow> path \<Rightarrow> ctx \<Rightarrow> ctx" where
  "remove_edges p local s = set_graph_of s (remove_edges_targeting (cx_graph s) p local True)"

definition put_root_producer :: "path \<Rightarrow> constant_producer option \<Rightarrow> ctx \<Rightarrow> ctx" where
  "put_root_producer p new s =
     (case get_node s p of
        None \<Rightarrow> s
      | Some nd \<Rightarrow> release_optional (nd_root_producer nd)
          (bump_revision p (put_node p (nd\<lparr>nd_root_producer := new\<rparr>) s)))"

definition set_cell_root_with_edges ::
  "ext \<Rightarrow> path \<Rightarrow> checksum option \<Rightarrow> celltype \<Rightarrow> bool \<Rightarrow> (ctx, unit) oper" where
  "set_cell_root_with_edges X p checksum celltype clear_edges s =
     (if sessions_for s p \<noteq> [] \<and> checksum = None then (Inl Authority_Error, s)
      else
        (let s1 = forget_sense_errors p s;
             s2 = (if checksum = None then drop_node_leaves p s1 else s1)
         in case get_node s2 p of
              None \<Rightarrow> (Inl Key_Error, s2)
            | Some nd \<Rightarrow>
                bnd (case checksum of
                       None \<Rightarrow> ret None
                     | Some c \<Rightarrow> bnd (retain_producer X c celltype (cell_scratch nd)) (\<lambda>producer. ret (Some producer)))
                  (\<lambda>producer.
                bnd (modify (put_root_producer p producer)) (\<lambda>_.
                modify (if clear_edges then remove_edges p [] else id))) s2))"

datatype cell_value = From_endpoint endpoint | From_checksum "checksum option"

definition cell_operation ::
  "ext \<Rightarrow> real \<Rightarrow> path \<Rightarrow> path \<Rightarrow> cell_value \<Rightarrow> bool \<Rightarrow> celltype option \<Rightarrow> (ctx, unit) oper" where
  "cell_operation X now p local v detach input_celltype s =
     (case get_node s p of
        None \<Rightarrow> (Inl Key_Error, s)
      | Some nd \<Rightarrow>
          bnd (case v of
                 From_endpoint ep \<Rightarrow> add_endpoint_edge X now ep (cell_endpoint s p local) detach
               | From_checksum c \<Rightarrow>
                   (case validate_write (cx_graph s) p local detach of
                      Some e \<Rightarrow> raise e
                    | None \<Rightarrow>
                        (if local \<noteq> [] then raise Runtime_Error
                         else set_cell_root_with_edges X p c (or_else input_celltype (config_celltype nd)) detach)))
            (\<lambda>_. derive_all X now) s)"

text \<open>A prepared update is committed only on the state it was prepared for.\<close>

definition commit_update ::
  "ext \<Rightarrow> real \<Rightarrow> path \<Rightarrow> path \<Rightarrow> checksum option \<Rightarrow> checksum option \<Rightarrow> nat \<Rightarrow> bool \<Rightarrow> (ctx, bool) oper" where
  "commit_update X now p local checksum base revision detach s =
     (case validate_write (cx_graph s) p local detach of
        Some e \<Rightarrow> (Inl e, s)
      | None \<Rightarrow>
          (case get_node s p of
             None \<Rightarrow> (Inl Key_Error, s)
           | Some nd \<Rightarrow>
               (if nd_current nd \<noteq> base \<or> revision_of s p \<noteq> revision then (Inr False, s)
                else bnd (set_cell_root_with_edges X p checksum (config_celltype nd) False) (\<lambda>_.
                     bnd (modify (if detach then remove_edges p local else id)) (\<lambda>_.
                     bnd (derive_all X now) (\<lambda>_. ret True))) s)))"

definition cell_delete_path :: "ext \<Rightarrow> real \<Rightarrow> path \<Rightarrow> path \<Rightarrow> (ctx, unit) oper" where
  "cell_delete_path X now p local s =
     (if local \<noteq> [] then (Inl Runtime_Error, s)
      else case get_node s p of
        None \<Rightarrow> (Inl Key_Error, s)
      | Some _ \<Rightarrow> derive_all X now (remove_edges p [] (drop_root_producer p s)))"

section \<open>Code and pins of a transformer\<close>

definition upd_config :: "path \<Rightarrow> (transformer_config \<Rightarrow> transformer_config) \<Rightarrow> ctx \<Rightarrow> ctx" where
  "upd_config p f = upd_node p (\<lambda>nd. nd\<lparr>nd_transformer_config := map_option f (nd_transformer_config nd)\<rparr>)"

definition get_config :: "ctx \<Rightarrow> path \<Rightarrow> exc + transformer_config" where
  "get_config s p =
     (case get_node s p of
        None \<Rightarrow> Inl Key_Error
      | Some nd \<Rightarrow> (case nd_transformer_config nd of None \<Rightarrow> Inl Attribute_Error | Some c \<Rightarrow> Inr c))"

text \<open>A pin that a new configuration no longer has loses its producer and its edges.\<close>

fun drop_pins :: "path \<Rightarrow> string list \<Rightarrow> ctx \<Rightarrow> ctx" where
  "drop_pins p [] s = s"
| "drop_pins p (pin # pins) s = drop_pins p pins (remove_edges p [KStr pin] (drop_pin_producer p pin s))"

definition removed_pins :: "transformer_config \<Rightarrow> transformer_config \<Rightarrow> string list" where
  "removed_pins old new = filter (\<lambda>pin. \<not> List.member (tc_pins new) pin) (tc_pins old)"

datatype code_value = Code_endpoint endpoint | Code_config transformer_config

definition set_transformer_code :: "ext \<Rightarrow> real \<Rightarrow> path \<Rightarrow> code_value \<Rightarrow> (ctx, unit) oper" where
  "set_transformer_code X now p v =
     (case v of
        Code_endpoint ep \<Rightarrow>
          (\<lambda>s. bnd (add_endpoint_edge X now ep (transformer_endpoint s p ''code'') False) (\<lambda>_.
               bnd (modify (release_code_checksum p)) (\<lambda>_.
               bnd (modify (upd_config p (\<lambda>c. c\<lparr>tc_code_checksum := None\<rparr>))) (\<lambda>_.
               derive_all X now))) s)
      | Code_config new \<Rightarrow>
          (\<lambda>s. bnd (lift_res (get_config s p)) (\<lambda>old.
               bnd (modify (upd_config p (\<lambda>_. new))) (\<lambda>_.
               bnd (modify (drop_pins p (removed_pins old new))) (\<lambda>_.
               bnd (modify (remove_edges p [KStr ''code''])) (\<lambda>_.
               bnd (modify (bump_revision p)) (\<lambda>_.
               bnd (replace_code_checksum X p (tc_code_checksum new)) (\<lambda>_.
               derive_all X now)))))) s))"

datatype pin_value = Pin_endpoint endpoint | Pin_checksum checksum | Pin_clear | Pin_value py_value

definition declare_pin :: "string \<Rightarrow> transformer_config \<Rightarrow> transformer_config" where
  "declare_pin pin c =
     c\<lparr>tc_pins := (if List.member (tc_pins c) pin then tc_pins c else tc_pins c @ [pin]),
       tc_celltypes := (if map_of (tc_celltypes c) pin = None then tc_celltypes c @ [(pin, ''mixed'')]
                        else tc_celltypes c)\<rparr>"

definition clear_transformer_pin :: "ext \<Rightarrow> real \<Rightarrow> path \<Rightarrow> string \<Rightarrow> (ctx, unit) oper" where
  "clear_transformer_pin X now p pin s =
     (case get_node s p of
        None \<Rightarrow> (Inl Key_Error, s)
      | Some _ \<Rightarrow>
          derive_all X now
            (upd_node p (\<lambda>nd. nd\<lparr>nd_pin_states := AList.delete pin (nd_pin_states nd)\<rparr>)
              (remove_edges p [KStr pin] (drop_pin_producer p pin s))))"

definition put_pin_producer :: "path \<Rightarrow> string \<Rightarrow> constant_producer \<Rightarrow> ctx \<Rightarrow> ctx" where
  "put_pin_producer p pin new s =
     (case get_node s p of
        None \<Rightarrow> s
      | Some nd \<Rightarrow>
          release_optional (map_of (nd_pin_producers nd) pin)
            (put_node p (nd\<lparr>nd_pin_producers := AList.update pin new (nd_pin_producers nd)\<rparr>) s))"

definition store_pin ::
  "ext \<Rightarrow> real \<Rightarrow> path \<Rightarrow> string \<Rightarrow> (celltype \<Rightarrow> exc + checksum) \<Rightarrow> celltype option \<Rightarrow> (ctx, unit) oper" where
  "store_pin X now p pin checksum_of input_celltype s =
     bnd (lift_res (get_config s p)) (\<lambda>c.
     bnd (lift_res (checksum_of (pin_celltype c (KStr pin)))) (\<lambda>checksum.
     bnd (retain_producer X checksum (or_else input_celltype (pin_celltype c (KStr pin))) False) (\<lambda>producer.
     bnd (modify (put_pin_producer p pin producer)) (\<lambda>_.
     bnd (modify (remove_edges p [KStr pin])) (\<lambda>_.
     derive_all X now))))) s"

definition set_transformer_pin ::
  "ext \<Rightarrow> real \<Rightarrow> path \<Rightarrow> string \<Rightarrow> pin_value \<Rightarrow> celltype option \<Rightarrow> bool \<Rightarrow> (ctx, unit) oper" where
  "set_transformer_pin X now p pin v input_celltype detach s =
     (if pin = [] then (Inl Path_Error, s)
      else
        bnd (lift_res (get_config s p)) (\<lambda>c.
        bnd (lift_res (case (if detach then None else check_authority (cx_graph s) p [KStr pin]) of
                         Some e \<Rightarrow> Inl e | None \<Rightarrow> Inr ())) (\<lambda>_.
        bnd (lift_res (case check_pin_name c pin False of Some e \<Rightarrow> Inl e | None \<Rightarrow> Inr ())) (\<lambda>_.
        bnd (modify (upd_node p (\<lambda>nd. nd\<lparr>nd_pin_read_errors := AList.delete pin (nd_pin_read_errors nd)\<rparr>))) (\<lambda>_.
        bnd (modify (upd_config p (declare_pin pin))) (\<lambda>_.
        case v of
          Pin_endpoint ep \<Rightarrow>
            bnd (add_endpoint_edge X now ep (transformer_endpoint s p pin) True) (\<lambda>_. derive_all X now)
        | Pin_clear \<Rightarrow> clear_transformer_pin X now p pin
        | Pin_checksum checksum \<Rightarrow> store_pin X now p pin (\<lambda>_. Inr checksum) input_celltype
        | Pin_value x \<Rightarrow> store_pin X now p pin (x_value_checksum X x) input_celltype))))) s)"

definition delete_transformer_pin :: "ext \<Rightarrow> real \<Rightarrow> path \<Rightarrow> string \<Rightarrow> (ctx, unit) oper" where
  "delete_transformer_pin X now p pin s =
     bnd (lift_res (get_config s p)) (\<lambda>c.
     if \<not> List.member (tc_pins c) pin \<or> signature_parameters c \<noteq> None then raise Attribute_Error
     else bnd (modify (upd_config p (\<lambda>c. c\<lparr>tc_pins := removeAll pin (tc_pins c),
                 tc_celltypes := AList.delete pin (tc_celltypes c),
                 tc_optional_pins := removeAll pin (tc_optional_pins c)\<rparr>))) (\<lambda>_.
          clear_transformer_pin X now p pin)) s"

definition pin_snapshot :: "ctx \<Rightarrow> path \<Rightarrow> string \<Rightarrow> exc + nstate \<times> error option \<times> celltype option \<times> checksum option \<times> celltype" where
  "pin_snapshot s p pin =
     (case get_node s p of
        None \<Rightarrow> Inl Stale_Handle_Error
      | Some nd \<Rightarrow>
          (case (nd_kind nd, nd_transformer_config nd) of
             (Transformer_kind, Some c) \<Rightarrow>
               (if \<not> List.member (tc_pins c) pin then Inl Attribute_Error
                else
                  res_bind (case incoming_edge (cx_graph s) p [KStr pin] of
                              Some e \<Rightarrow> res_bind (edge_input_celltype s e) (\<lambda>t. Inr (Some t))
                            | None \<Rightarrow> Inr (map_option cp_celltype (map_of (nd_pin_producers nd) pin))) (\<lambda>input_type.
                  case (case map_of (nd_pin_states nd) pin of None \<Rightarrow> (Unwired, None, None) | Some st \<Rightarrow> st) of
                    (state, checksum, err) \<Rightarrow>
                      Inr (state, err, input_type, checksum, pin_celltype c (KStr pin))))
           | _ \<Rightarrow> Inl Attribute_Error))"

definition record_pin_read_error ::
  "ext \<Rightarrow> real \<Rightarrow> path \<Rightarrow> string \<Rightarrow> checksum \<times> celltype option \<times> celltype \<Rightarrow> error \<Rightarrow> (ctx, unit) oper" where
  "record_pin_read_error X now p pin identity err s =
     (case pin_snapshot s p pin of
        Inl e \<Rightarrow> (Inl e, s)
      | Inr (state, _, input_type, checksum, celltype) \<Rightarrow>
          (case checksum of
             None \<Rightarrow> (Inr (), s)
           | Some c \<Rightarrow>
               (if state \<noteq> Complete \<or> (c, input_type, celltype) \<noteq> identity then (Inr (), s)
                else derive_all X now
                  (upd_node p (\<lambda>nd. nd\<lparr>nd_pin_read_errors :=
                       AList.update pin (identity, err) (nd_pin_read_errors nd)\<rparr>) s))))"

section \<open>What an edit keeps\<close>

text \<open>
  Every edit, whether it raises or not, keeps the books of the claims and the invariant of the
  edge list, makes steps of the run ledger, at most extends the table of symbols, and keeps the
  protocol of the mount sessions.
\<close>

definition edits :: "ctx \<Rightarrow> ctx \<Rightarrow> bool" where
  "edits s s' \<longleftrightarrow>
     same_books s s' \<and> ledger_step s s' \<and> (edges_ok (cx_graph s) \<longrightarrow> edges_ok (cx_graph s'))
     \<and> symbols_grow (g_symbols (cx_graph s)) (g_symbols (cx_graph s'))
     \<and> (sessions_ok s \<longrightarrow> sessions_ok s')"

definition editing :: "(ctx, 'a) oper \<Rightarrow> bool" where
  "editing m \<longleftrightarrow> (\<forall>s. edits s (snd (m s)))"

named_theorems edit_intros \<open>operations that an edit may perform\<close>

lemma edits_refl [simp, edit_intros]: "edits s s"
  by (simp add: edits_def ledger_step_same)

lemma edits_trans: "edits a b \<Longrightarrow> edits b c \<Longrightarrow> edits a c"
  unfolding edits_def using same_books_trans ledger_step_trans symbols_grow_trans by blast

interpretation edits: step_relation edits
  by standard (blast intro: edits_refl edits_trans)+

lemma editing_run: "editing m \<Longrightarrow> edits s (snd (m s))"
  by (simp add: editing_def)

lemma editingI: "(\<And>s. edits s (snd (m s))) \<Longrightarrow> editing m"
  by (simp add: editing_def)

lemma editing_after: "edits s s1 \<Longrightarrow> editing m \<Longrightarrow> edits s (snd (m s1))"
  using edits_trans editing_run by blast

lemma editing_basic [edit_intros]: "editing (ret x)" "editing (raise e)" "editing (lift_res r)"
  by (simp_all add: editing_def lift_res_def)

lemma editing_modify [edit_intros]: "(\<And>s. edits s (f s)) \<Longrightarrow> editing (modify f)"
  by (simp add: editing_def)

lemma editing_bnd [edit_intros]:
  assumes "editing m" and "\<And>x. editing (f x)"
  shows "editing (bnd m f)"
  using assms unfolding editing_def by (intro allI edits.bnd_keeps) blast+

lemma editing_cases [edit_intros]:
  "editing m \<Longrightarrow> editing n \<Longrightarrow> editing (if b then m else n)"
  "editing m \<Longrightarrow> (\<And>a. editing (f a)) \<Longrightarrow> editing (case x of None \<Rightarrow> m | Some a \<Rightarrow> f a)"
  by (simp_all split: option.split)

subsection \<open>Nodes whose names and kinds stay\<close>

lemma edges_ok_cong:
  assumes ok: "edges_ok g" and edges: "g_edges h = g_edges g"
    and nodes: "map (\<lambda>(p, nd). (p, nd_cell_config nd \<noteq> None)) (g_nodes h) =
      map (\<lambda>(p, nd). (p, nd_cell_config nd \<noteq> None)) (g_nodes g)"
  shows "edges_ok h"
proof -
  have m: "map_option (\<lambda>nd. nd_cell_config nd \<noteq> None) (map_of (g_nodes h) p) =
      map_option (\<lambda>nd. nd_cell_config nd \<noteq> None) (map_of (g_nodes g) p)" for p
    using arg_cong [OF nodes, of "\<lambda>d. map_of d p"] by (simp only: map_of_map o_apply)
  then have none: "map_of (g_nodes h) p = None \<longleftrightarrow> map_of (g_nodes g) p = None" for p
    by (metis option.map_disc_iff)
  have "resolve_from (g_nodes h) v n = resolve_from (g_nodes g) v n" for v n
    by (induction n) (auto simp: none in_keys_iff)
  then have res: "resolve_existing h = resolve_existing g"
    by (intro ext) (simp add: resolve_existing_def)
  have ends: "edge_ends h = edge_ends g"
    by (intro ext) (simp add: edge_ends_def res)
  have "is_cell h = is_cell g"
  proof
    fix p
    show "is_cell h p = is_cell g p"
      using m [of p] by (auto simp: is_cell_def split: option.splits)
  qed
  with ok show ?thesis
    by (simp add: edges_ok_def edge_targets_def edge_pairs_def ends res edges)
qed

lemma same_design_edges_ok: "same_design g h \<Longrightarrow> edges_ok g \<Longrightarrow> edges_ok h"
proof (erule edges_ok_cong)
  assume d: "same_design g h"
  then show "g_edges h = g_edges g" by (simp add: same_design_def)
  let ?f = "\<lambda>(p, nd). (p, nd_cell_config nd \<noteq> None)"
  have "map ?f (map (\<lambda>(p, nd). (p, design nd)) (g_nodes h)) = map ?f (map (\<lambda>(p, nd). (p, design nd)) (g_nodes g))"
    using d by (simp add: same_design_def)
  then show "map ?f (g_nodes h) = map ?f (g_nodes g)"
    by (simp add: design_def case_prod_unfold comp_def)
qed

lemma derives_edits: "derives s s' \<Longrightarrow> edits s s'"
  using same_design_edges_ok by (auto simp: derives_def edits_def)

lemma deriving_editing: "deriving m \<Longrightarrow> editing m"
  by (simp add: deriving_def editing_def derives_edits)

lemma put_node_edges_ok:
  assumes "get_node s p = Some nd" and "nd_cell_config nd' \<noteq> None \<longleftrightarrow> nd_cell_config nd \<noteq> None"
    and "edges_ok (cx_graph s)"
  shows "edges_ok (cx_graph (put_node p nd' s))"
proof (rule edges_ok_cong [OF assms(3)])
  have "map (\<lambda>(p, nd). (p, nd_cell_config nd \<noteq> None)) (AList.update p nd' d) =
      map (\<lambda>(p, nd). (p, nd_cell_config nd \<noteq> None)) d" if "map_of d p = Some nd" for d
    using that assms(2) by (induction d) auto
  then show "map (\<lambda>(p, nd). (p, nd_cell_config nd \<noteq> None)) (g_nodes (cx_graph (put_node p nd' s))) =
      map (\<lambda>(p, nd). (p, nd_cell_config nd \<noteq> None)) (g_nodes (cx_graph s))"
    using assms(1) by (simp add: put_node_def get_node_def)
qed (simp add: put_node_def)

lemma put_node_edits:
  assumes "get_node s p = Some nd" and "nd_root_producer nd' = nd_root_producer nd"
    and "nd_pin_producers nd' = nd_pin_producers nd" and "nd_current nd' = nd_current nd"
    and "nd_cell_config nd' \<noteq> None \<longleftrightarrow> nd_cell_config nd \<noteq> None"
  shows "edits s (put_node p nd' s)"
  using put_node_books [OF assms(1-4)] put_node_edges_ok [OF assms(1,5)]
  by (simp add: edits_def ledger_step_same put_node_def sessions_ok_def)

lemma upd_node_edits:
  assumes "\<And>nd. nd_root_producer (f nd) = nd_root_producer nd"
    and "\<And>nd. nd_pin_producers (f nd) = nd_pin_producers nd" and "\<And>nd. nd_current (f nd) = nd_current nd"
    and "\<And>nd. nd_cell_config (f nd) \<noteq> None \<longleftrightarrow> nd_cell_config nd \<noteq> None"
  shows "edits s (upd_node p f s)"
  using put_node_edits [of s p _ "f _"] assms by (auto simp: upd_node_def split: option.split)

lemma upd_config_edits [edit_intros]: "edits s (upd_config p f s)"
  unfolding upd_config_def by (rule upd_node_edits) simp_all

text \<open>A step that puts a node with another producer and settles the claims.\<close>

lemma producer_step_edits:
  assumes node: "get_node s p = Some nd"
    and step: "s' = (put_node p nd' s)\<lparr>cx_refs := refs, cx_revisions := revs\<rparr>"
    and pins: "wf_dict (nd_pin_producers nd) \<Longrightarrow> wf_dict (nd_pin_producers nd')"
    and refs: "\<And>c. wf_dict (nd_pin_producers nd) \<Longrightarrow>
        refs c - int (count_list (node_claims nd') c) = cx_refs s c - int (count_list (node_claims nd) c)"
    and cell: "nd_cell_config nd' = nd_cell_config nd"
  shows "edits s s'"
proof -
  have "same_books s s'" if wf: "wf_ctx s"
  proof -
    have "nd \<in> snd ` set (g_nodes (cx_graph s))"
      using node unfolding get_node_def by (force dest: map_of_SomeD)
    then have w: "wf_dict (nd_pin_producers nd)" using wf unfolding wf_ctx_def by blast
    show ?thesis
      by (rule node_step_books [OF node, where nd' = nd'])
         (use pins refs [OF w] in \<open>simp_all add: step put_node_def\<close>)
  qed
  then have "same_books s s'" by (simp add: same_books_def)
  then show ?thesis
    using put_node_edges_ok [OF node, of nd'] cell
    by (simp add: edits_def ledger_step_same step put_node_def sessions_ok_def)
qed

lemma release_optional_refs:
  "release_optional x s =
   s\<lparr>cx_refs := \<lambda>d. cx_refs s d - int (count_list (case x of None \<Rightarrow> [] | Some q \<Rightarrow> [cp_checksum q]) d)\<rparr>"
  by (cases x) (simp_all add: release_optional_def release_producer_def release_refs)

lemma pin_claims_update:
  assumes "wf_dict d"
  shows "int (count_list (map (cp_checksum \<circ> snd) (AList.update k v d)) c) =
    int (count_list (map (cp_checksum \<circ> snd) d) c) + int (count_list [cp_checksum v] c)
    - int (count_list (case map_of d k of None \<Rightarrow> [] | Some q \<Rightarrow> [cp_checksum q]) c)"
  using value_count_update [OF assms, of "\<lambda>q. [cp_checksum q]" k v c]
  by (simp add: value_count_def comp_def concat_map_singleton split: option.splits)

lemma pin_claims_delete:
  assumes "wf_dict d"
  shows "int (count_list (map (cp_checksum \<circ> snd) (AList.delete k d)) c) =
    int (count_list (map (cp_checksum \<circ> snd) d) c)
    - int (count_list (case map_of d k of None \<Rightarrow> [] | Some q \<Rightarrow> [cp_checksum q]) c)"
  using value_count_delete [OF assms, of "\<lambda>q. [cp_checksum q]" k c]
  by (simp add: value_count_def comp_def concat_map_singleton split: option.splits)

lemma drop_root_producer_edits [edit_intros]: "edits s (drop_root_producer p s)"
proof (cases "get_node s p")
  case (Some nd)
  show ?thesis
    by (rule producer_step_edits [OF Some, where nd' = "nd\<lparr>nd_root_producer := None\<rparr>" and revs = "cx_revisions s"
          and refs = "\<lambda>d. cx_refs s d - int (count_list
            (case nd_root_producer nd of None \<Rightarrow> [] | Some q \<Rightarrow> [cp_checksum q]) d)"])
       (simp_all add: drop_root_producer_def Some release_optional_refs put_node_def node_claims_def)
qed (simp add: drop_root_producer_def)

lemma drop_pin_producer_edits [edit_intros]: "edits s (drop_pin_producer p pin s)"
proof (cases "get_node s p")
  case (Some nd)
  show ?thesis
    by (rule producer_step_edits [OF Some, where revs = "cx_revisions s"
          and nd' = "nd\<lparr>nd_pin_producers := AList.delete pin (nd_pin_producers nd)\<rparr>"
          and refs = "\<lambda>d. cx_refs s d - int (count_list
            (case map_of (nd_pin_producers nd) pin of None \<Rightarrow> [] | Some q \<Rightarrow> [cp_checksum q]) d)"])
       (simp_all add: drop_pin_producer_def Some release_optional_refs put_node_def node_claims_def
          pin_claims_delete)
qed (simp add: drop_pin_producer_def)

lemma drop_replaced_producer_edits [edit_intros]: "edits s (drop_replaced_producer t s)"
  unfolding drop_replaced_producer_def
  by (auto simp: edit_intros split: option.split node_kind.split list.split comp.split)

text \<open>A producer is acquired before it is put in place, so the two steps are one for the books.\<close>

lemma retain_producer_cases:
  obtains (error) e where "retain_producer X c t b s = (Inl e, s)"
  | (held) producer where "retain_producer X c t b s = (Inr producer, incref (cp_checksum producer) s)"
  by (cases "x_acquire X (x_canonical X c (Some t)) b")
     (simp_all add: retain_producer_def Let_def bnd_def acquire_def)

lemma put_root_edits:
  assumes "get_node s p = Some nd"
  shows "edits s (put_root_producer p None s)"
    and "edits s (put_root_producer p (Some q) (incref (cp_checksum q) s))"
proof -
  have m: "edits s (put_root_producer p new (s\<lparr>cx_refs := refs\<rparr>))"
    if "\<And>c. refs c = cx_refs s c + int (count_list (case new of None \<Rightarrow> [] | Some q \<Rightarrow> [cp_checksum q]) c)" for new refs
  proof -
    have "get_node (s\<lparr>cx_refs := refs\<rparr>) p = Some nd" using assms by (simp add: get_node_def)
    then show ?thesis
      by (intro producer_step_edits [OF assms, where nd' = "nd\<lparr>nd_root_producer := new\<rparr>"
            and revs = "cx_revisions (bump_revision p s)"
            and refs = "\<lambda>d. refs d - int (count_list
              (case nd_root_producer nd of None \<Rightarrow> [] | Some q \<Rightarrow> [cp_checksum q]) d)"])
         (simp_all add: put_root_producer_def release_optional_refs put_node_def node_claims_def
            bump_revision_def that)
  qed
  show "edits s (put_root_producer p None s)" using m [of "cx_refs s" None] by simp
  show "edits s (put_root_producer p (Some q) (incref (cp_checksum q) s))"
    unfolding incref_refs by (rule m) simp
qed

lemma put_pin_edits:
  assumes "get_node s p = Some nd"
  shows "edits s (put_pin_producer p pin q (incref (cp_checksum q) s))"
  by (rule producer_step_edits [OF assms, where revs = "cx_revisions s"
        and nd' = "nd\<lparr>nd_pin_producers := AList.update pin q (nd_pin_producers nd)\<rparr>"
        and refs = "\<lambda>d. cx_refs s d + int (count_list [cp_checksum q] d) - int (count_list
          (case map_of (nd_pin_producers nd) pin of None \<Rightarrow> [] | Some q \<Rightarrow> [cp_checksum q]) d)"])
     (simp_all add: put_pin_producer_def release_optional_refs put_node_def node_claims_def
        pin_claims_update assms [unfolded get_node_def] get_node_def incref_refs)

lemma retain_put_root:
  assumes "get_node s p = Some nd" and "editing k"
  shows "edits s (snd (bnd (case c of
           None \<Rightarrow> ret None
         | Some c \<Rightarrow> bnd (retain_producer X c t b) (\<lambda>producer. ret (Some producer)))
       (\<lambda>producer. bnd (modify (put_root_producer p producer)) (\<lambda>_. k)) s))"
proof (cases c)
  case None
  then show ?thesis
    using editing_after [OF put_root_edits(1) [OF assms(1)] assms(2)] by simp
next
  case (Some c)
  show ?thesis
  proof (cases rule: retain_producer_cases [of X c t b s])
    case (error e)
    then show ?thesis by (simp add: Some bnd_def)
  next
    case (held q)
    then show ?thesis
      using editing_after [OF put_root_edits(2) [OF assms(1)] assms(2)] by (simp add: Some bnd_def)
  qed
qed

lemma retain_put_pin:
  assumes "get_node s p = Some nd" and "editing k"
  shows "edits s (snd (bnd (retain_producer X c t b)
       (\<lambda>producer. bnd (modify (put_pin_producer p pin producer)) (\<lambda>_. k)) s))"
proof (cases rule: retain_producer_cases [of X c t b s])
  case (error e)
  then show ?thesis by (simp add: bnd_def)
next
  case (held q)
  then show ?thesis
    using editing_after [OF put_pin_edits [OF assms(1)] assms(2)] by (simp add: bnd_def)
qed

subsection \<open>The edge list\<close>

lemma same_books_graph:
  assumes "s' = s\<lparr>cx_graph := g\<rparr>" and "g_nodes g = g_nodes (cx_graph s)"
  shows "same_books s s'"
  by (rule same_booksI) (simp_all add: held_count_def wf_ctx_def assms)

lemma remove_edges_edits [edit_intros]: "edits s (remove_edges p local s)"
proof -
  let ?g = "remove_edges_targeting (cx_graph s) p local True"
  have "edges_ok ?g" if "edges_ok (cx_graph s)"
    using that by (rule edges_ok_filter) (simp_all add: remove_edges_targeting_def)
  moreover have "same_books s (s\<lparr>cx_graph := ?g\<rparr>)"
    by (rule same_books_graph [OF refl]) (simp add: remove_edges_targeting_def)
  ultimately show ?thesis
    by (simp add: edits_def remove_edges_def set_graph_of_def ledger_step_same sessions_ok_def)
       (simp add: remove_edges_targeting_def)
qed

lemma assign_all_ok:
  "assign_all base symbols rs = Some syms \<Longrightarrow> symbols_grow symbols syms"
proof (induction rs arbitrary: symbols)
  case (Cons r rs)
  from Cons.prems obtain s syms1 where a: "assign_symbol base symbols r = Some (s, syms1)"
    and rest: "assign_all base syms1 rs = Some syms"
    by (auto split: option.splits)
  have "symbols_grow symbols syms1"
    using assign_symbol_ok(1,2) [OF a] by (simp add: symbols_grow_def)
  then show ?case using Cons.IH [OF rest] by (rule symbols_grow_trans)
qed simp

lemma register_edge_symbols_grow:
  assumes "register_edge_symbols base g e = (r, g')"
  shows "symbols_grow (g_symbols g) (g_symbols g')"
  using assms assign_all_ok assign_chain_ok
  by (auto simp: register_edge_symbols_def Let_def symbols_grow_def
      split: if_splits option.splits prod.splits)

lemma link_edge_nodes:
  assumes "link_edge base sm detach e g = (r, g')"
  shows "g_nodes g' = g_nodes g" and "symbols_grow (g_symbols g) (g_symbols g')"
proof -
  show "g_nodes g' = g_nodes g"
    using assms by (cases rule: link_edge_cases) simp_all
  have "g_symbols (remove_edges_targeting g t l True) = g_symbols g" for t l
    by (simp add: remove_edges_targeting_def)
  then show "symbols_grow (g_symbols g) (g_symbols g')"
    using assms register_edge_symbols_grow [of base "remove_edges_targeting g _ _ True" e]
    by (auto simp: link_edge_def split: if_splits option.splits prod.splits sum.splits)
qed

lemma add_edge_editing [edit_intros]: "editing (add_edge X now e detach)"
proof (rule editingI)
  fix s
  let ?e = "e\<lparr>ed_deep_member := deep_target s (ed_target e)\<rparr>"
  obtain r g where l: "link_edge (x_symbol_base X) (sensing_target s (ed_target e)) detach ?e (cx_graph s) = (r, g)"
    by force
  have "same_books s (set_graph_of s g)"
    by (rule same_books_graph [where g = g]) (simp_all add: set_graph_of_def link_edge_nodes [OF l])
  then have "edits s (set_graph_of s g)"
    using link_edge_preserves [OF _ l] link_edge_nodes(2) [OF l]
    by (simp add: edits_def set_graph_of_def ledger_step_same sessions_ok_def)
  then show "edits s (snd (add_edge X now e detach s))"
    using editing_after [OF _ derive_all_deriving [THEN deriving_editing]]
    by (cases r) (simp_all add: add_edge_def l)
qed

lemmas derive_all_editing [edit_intros] = derive_all_deriving [THEN deriving_editing]

lemma add_endpoint_edge_editing [edit_intros]: "editing (add_endpoint_edge X now ep target detach)"
proof -
  have "editing (bnd (lift_res r) (\<lambda>_. bnd (add_edge X now (endpoint_edge ep target) detach) (\<lambda>_.
      modify (drop_replaced_producer target))))" for r :: "exc + unit"
    by (intro edit_intros)
  then show ?thesis unfolding add_endpoint_edge_def by (intro editingI) (rule editing_run)
qed

subsection \<open>Roots, code and pins\<close>

lemma unbooked_code_edits:
  assumes "same_books s s'" and "cx_graph s' = cx_graph s" and "cx_runtime s' = cx_runtime s"
    and "sessions_ok s \<Longrightarrow> sessions_ok s'"
  shows "edits s s'"
  using assms by (simp add: edits_def ledger_step_same)

lemma bump_revision_edits [edit_intros]: "edits s (bump_revision p s)"
  by (rule unbooked_code_edits [OF same_books_unbooked]) (simp_all add: bump_revision_def sessions_ok_def)

lemma value_count_map:
  assumes "\<And>k v. f (g k v) = f v"
  shows "value_count f (map (\<lambda>(k, v). (k, g k v)) d) c = value_count f d c"
  using assms by (simp add: value_count_def comp_def case_prod_unfold)

lemma forget_sense_errors_edits [edit_intros]: "edits s (forget_sense_errors p s)"
proof -
  have "same_books s (forget_sense_errors p s)"
  proof (rule same_booksI)
    have "value_count session_claims (cx_sessions (forget_sense_errors p s)) c =
        value_count session_claims (cx_sessions s) c" for c
      unfolding forget_sense_errors_def by (simp, rule value_count_map) (simp add: session_claims_def)
    then show "cx_refs (forget_sense_errors p s) c - held_count (forget_sense_errors p s) c =
        cx_refs s c - held_count s c" for c
      by (simp add: held_count_def) (simp add: forget_sense_errors_def)
    have "keys (cx_sessions (forget_sense_errors p s)) = keys (cx_sessions s)"
      by (simp add: forget_sense_errors_def comp_def case_prod_unfold)
    then show "wf_ctx (forget_sense_errors p s)" if "wf_ctx s"
      using that by (simp add: wf_ctx_def wf_dict_def) (simp add: forget_sense_errors_def)
  qed
  moreover have "sessions_ok s \<Longrightarrow> sessions_ok (forget_sense_errors p s)"
  proof -
    have "session_ok (m\<lparr>ms_sense_error := None\<rparr>) = session_ok m" for m by (simp add: session_ok_def)
    then show "sessions_ok s \<Longrightarrow> sessions_ok (forget_sense_errors p s)"
      by (auto simp: forget_sense_errors_def sessions_ok_def)
  qed
  ultimately show ?thesis by (intro unbooked_code_edits) (simp_all add: forget_sense_errors_def)
qed

lemma drop_node_leaves_edits [edit_intros]: "edits s (drop_node_leaves p s)"
proof -
  have "same_books s (drop_node_leaves p s)"
  proof (rule same_booksI)
    assume "wf_ctx s"
    then have wf: "wf_dict (cx_node_leaves s)" by (simp add: wf_ctx_def)
    show "cx_refs (drop_node_leaves p s) c - held_count (drop_node_leaves p s) c =
        cx_refs s c - held_count s c" for c
      using value_count_delete [OF wf, of "\<lambda>cs. cs" p c]
      by (simp add: drop_node_leaves_def held_count_def release_all_refs split: option.splits)
    show "wf_ctx (drop_node_leaves p s)"
      using \<open>wf_ctx s\<close> by (simp add: drop_node_leaves_def wf_ctx_def release_all_refs split: option.split)
  qed
  then show ?thesis
    by (simp add: edits_def) (simp add: drop_node_leaves_def release_all_refs ledger_step_same sessions_ok_def split: option.split)
qed

lemma release_code_edits [edit_intros]: "edits s (release_code_checksum p s)"
  by (rule unbooked_code_edits [OF release_code_books])
     (simp_all add: release_code_checksum_def release_refs sessions_ok_def split: option.splits)

lemma replace_code_editing [edit_intros]: "editing (replace_code_checksum X p c)"
  by (intro editingI unbooked_code_edits balanced_apply [OF replace_code_balanced])
     (auto simp: replace_code_checksum_def bnd_def acquire_def Let_def release_refs incref_def sessions_ok_def
        split: option.splits)

lemma drop_pins_edits [edit_intros]: "edits s (drop_pins p pins s)"
proof (induction pins arbitrary: s)
  case (Cons pin pins)
  show ?case
    unfolding drop_pins.simps
    by (rule edits_trans [OF edits_trans [OF drop_pin_producer_edits remove_edges_edits] Cons.IH])
qed simp

lemma remove_or_stay [edit_intros]: "edits s ((if b then remove_edges p local else id) s)"
  by (simp add: edit_intros)

lemma set_cell_root_editing [edit_intros]: "editing (set_cell_root_with_edges X p c t b)"
proof (rule editingI)
  fix s
  let ?s1 = "forget_sense_errors p s"
  let ?s2 = "if c = None then drop_node_leaves p ?s1 else ?s1"
  have s2: "edits s ?s2"
    using edits_trans [OF forget_sense_errors_edits drop_node_leaves_edits] by (simp add: edit_intros)
  have k: "editing (modify (if b then remove_edges p [] else id))"
    by (simp add: edit_intros)
  show "edits s (snd (set_cell_root_with_edges X p c t b s))"
  proof (cases "get_node ?s2 p")
    case None
    then show ?thesis using s2 by (auto simp: set_cell_root_with_edges_def Let_def)
  next
    case (Some nd)
    show ?thesis
      unfolding set_cell_root_with_edges_def Let_def Some option.case
      using edits_trans [OF s2 retain_put_root [OF Some k]] by simp
  qed
qed

lemma cell_operation_editing [edit_intros]: "editing (cell_operation X now p local v detach t)"
proof -
  have m: "editing (bnd (case v of
             From_endpoint ep \<Rightarrow> add_endpoint_edge X now ep target detach
           | From_checksum c \<Rightarrow>
               (case e of Some e \<Rightarrow> raise e
                | None \<Rightarrow> (if local \<noteq> [] then raise Runtime_Error
                           else set_cell_root_with_edges X p c ct detach))) (\<lambda>_. derive_all X now))"
    for target e ct
    by (cases v; simp; intro edit_intros conjI impI)
  show ?thesis
    unfolding cell_operation_def
    by (rule editingI) (simp add: editing_run [OF m] split: option.split)
qed

lemma commit_update_editing [edit_intros]: "editing (commit_update X now p local c base revision detach)"
proof -
  have m: "editing (bnd (set_cell_root_with_edges X p c t False) (\<lambda>_.
      bnd (modify f) (\<lambda>_. bnd (derive_all X now) (\<lambda>_. ret True))))" if "\<And>s. edits s (f s)" for t f
    by (intro edit_intros that)
  have "editing (bnd (set_cell_root_with_edges X p c t False) (\<lambda>_.
      bnd (modify id) (\<lambda>_. bnd (derive_all X now) (\<lambda>_. ret True))))" for t
    by (rule m) simp
  moreover have "editing (bnd (set_cell_root_with_edges X p c t False) (\<lambda>_.
      bnd (modify (remove_edges p local)) (\<lambda>_. bnd (derive_all X now) (\<lambda>_. ret True))))" for t
    by (rule m) (rule remove_edges_edits)
  ultimately show ?thesis
    unfolding commit_update_def
    by (intro editingI) (simp add: editing_run split: option.split)
qed

lemma cell_delete_path_editing [edit_intros]: "editing (cell_delete_path X now p local)"
  unfolding cell_delete_path_def
  by (rule editingI)
     (simp add: editing_after [OF edits_trans [OF drop_root_producer_edits remove_edges_edits] derive_all_editing]
      split: option.split)

lemma set_transformer_code_editing [edit_intros]: "editing (set_transformer_code X now p v)"
proof (cases v)
  case (Code_endpoint ep)
  have m: "editing (bnd (add_endpoint_edge X now ep target False) (\<lambda>_.
      bnd (modify (release_code_checksum p)) (\<lambda>_.
      bnd (modify (upd_config p f)) (\<lambda>_. derive_all X now))))" for target f
    by (intro edit_intros)
  show ?thesis unfolding set_transformer_code_def Code_endpoint by (simp add: editing_def editing_run [OF m])
next
  case (Code_config new)
  have m: "editing (bnd (lift_res r) (\<lambda>old. bnd (modify (upd_config p (\<lambda>_. new))) (\<lambda>_.
      bnd (modify (drop_pins p (removed_pins old new))) (\<lambda>_.
      bnd (modify (remove_edges p [KStr ''code''])) (\<lambda>_.
      bnd (modify (bump_revision p)) (\<lambda>_.
      bnd (replace_code_checksum X p (tc_code_checksum new)) (\<lambda>_. derive_all X now)))))))" for r
    by (intro edit_intros)
  show ?thesis unfolding set_transformer_code_def Code_config by (simp add: editing_def editing_run [OF m])
qed

lemma clear_pin_editing [edit_intros]: "editing (clear_transformer_pin X now p pin)"
proof (rule editingI)
  fix s
  have u: "edits s (upd_node p (\<lambda>nd. nd\<lparr>nd_pin_states := AList.delete pin (nd_pin_states nd)\<rparr>) s)" for s
    by (rule upd_node_edits) simp_all
  show "edits s (snd (clear_transformer_pin X now p pin s))"
    using editing_after [OF edits_trans [OF edits_trans [OF drop_pin_producer_edits remove_edges_edits] u]
        derive_all_editing]
    by (simp add: clear_transformer_pin_def split: option.split)
qed

lemma bnd_lift [simp]:
  "bnd (lift_res (Inr x)) f s = f x s" "bnd (lift_res (Inl e)) f s = (Inl e, s)"
  by (simp_all add: bnd_def lift_res_def)

lemma store_pin_editing [edit_intros]: "editing (store_pin X now p pin f t)"
proof (rule editingI)
  fix s
  have k: "editing (bnd (modify (remove_edges p [KStr pin])) (\<lambda>_. derive_all X now))"
    by (intro edit_intros)
  show "edits s (snd (store_pin X now p pin f t s))"
  proof (cases "get_config s p")
    case (Inl e)
    then show ?thesis by (simp add: store_pin_def)
  next
    case (Inr c)
    then obtain nd where nd: "get_node s p = Some nd" by (auto simp: get_config_def split: option.splits)
    show ?thesis
      by (cases "f (pin_celltype c (KStr pin))")
         (simp_all add: store_pin_def Inr retain_put_pin [OF nd k])
  qed
qed

lemma set_transformer_pin_editing [edit_intros]: "editing (set_transformer_pin X now p pin v t detach)"
proof -
  have u: "edits s (upd_node p (\<lambda>nd. nd\<lparr>nd_pin_read_errors := AList.delete pin (nd_pin_read_errors nd)\<rparr>) s)" for s
    by (rule upd_node_edits) simp_all
  have m: "editing (bnd (lift_res r1) (\<lambda>c. bnd (lift_res r2) (\<lambda>_. bnd (lift_res (r3 c)) (\<lambda>_.
      bnd (modify (upd_node p (\<lambda>nd. nd\<lparr>nd_pin_read_errors := AList.delete pin (nd_pin_read_errors nd)\<rparr>))) (\<lambda>_.
      bnd (modify (upd_config p (declare_pin pin))) (\<lambda>_.
      case v of
        Pin_endpoint ep \<Rightarrow> bnd (add_endpoint_edge X now ep target True) (\<lambda>_. derive_all X now)
      | Pin_clear \<Rightarrow> clear_transformer_pin X now p pin
      | Pin_checksum checksum \<Rightarrow> store_pin X now p pin (\<lambda>_. Inr checksum) t
      | Pin_value x \<Rightarrow> store_pin X now p pin (x_value_checksum X x) t))))))"
    for r1 :: "exc + transformer_config" and r2 :: "exc + unit" and r3 :: "transformer_config \<Rightarrow> exc + unit" and target
    by (intro edit_intros u) (cases v; simp; intro edit_intros)
  show ?thesis unfolding set_transformer_pin_def by (rule editingI) (simp add: editing_run [OF m])
qed

lemma delete_pin_editing [edit_intros]: "editing (delete_transformer_pin X now p pin)"
proof -
  have m: "editing (bnd (lift_res r) (\<lambda>c. if b c then raise Attribute_Error
      else bnd (modify (upd_config p f)) (\<lambda>_. clear_transformer_pin X now p pin)))"
    for r :: "exc + transformer_config" and b f
    by (intro edit_intros)
  show ?thesis unfolding delete_transformer_pin_def by (rule editingI) (rule editing_run [OF m])
qed

lemma record_read_error_editing [edit_intros]: "editing (record_pin_read_error X now p pin identity err)"
proof -
  have u: "edits s (upd_node p (\<lambda>nd. nd\<lparr>nd_pin_read_errors := f (nd_pin_read_errors nd)\<rparr>) s)" for s f
    by (rule upd_node_edits) simp_all
  show ?thesis
    unfolding record_pin_read_error_def
    by (rule editingI) (auto simp: editing_after [OF u derive_all_editing] split: sum.split option.split)
qed

section \<open>The wiring that an edge list stands for\<close>

text \<open>
  What the edges say, abstractly: which view of which node feeds an endpoint. Connecting an
  endpoint is one update of that map, after everything at or below the endpoint is gone.
\<close>

type_synonym wiring = "path \<times> path \<Rightarrow> (path \<times> path) option"

definition wiring_of :: "graph \<Rightarrow> wiring" where
  "wiring_of g = (\<lambda>(n, l). case incoming_edge g n l of
     None \<Rightarrow> None | Some e \<Rightarrow> resolve_existing g (ed_source e))"

definition unplug :: "path \<times> path \<Rightarrow> wiring \<Rightarrow> wiring" where
  "unplug t w = (\<lambda>(n, l). if n = fst t \<and> take (length (snd t)) l = snd t then None else w (n, l))"

definition plug :: "path \<times> path \<Rightarrow> path \<times> path \<Rightarrow> wiring \<Rightarrow> wiring" where
  "plug source t w = (unplug t w)(t \<mapsto> source)"

lemma find_filter: "(\<And>x. x \<in> set xs \<Longrightarrow> P x \<Longrightarrow> Q x) \<Longrightarrow> find P (filter Q xs) = find P xs"
  by (induction xs) auto

lemma find_none: "find P xs = None \<longleftrightarrow> (\<forall>x \<in> set xs. \<not> P x)"
  by (auto simp: find_None_iff)

lemma resolve_same_keys:
  assumes "set (keys (g_nodes h)) = set (keys (g_nodes g))"
  shows "resolve_existing h v = resolve_existing g v"
proof -
  have none: "map_of (g_nodes h) p = None \<longleftrightarrow> map_of (g_nodes g) p = None" for p
    using assms by (simp add: map_of_eq_None_iff)
  have "resolve_from (g_nodes h) v n = resolve_from (g_nodes g) v n" for n
    by (induction n) (simp_all only: resolve_from.simps none)
  then show ?thesis by (simp add: resolve_existing_def)
qed

lemma find_append: "find P (xs @ ys) = (case find P xs of None \<Rightarrow> find P ys | Some x \<Rightarrow> Some x)"
  by (induction xs) auto

lemma wiring_find:
  "wiring_of g (n, l) = (case find (targets_at g n l) (g_edges g) of
     None \<Rightarrow> None | Some e \<Rightarrow> resolve_existing g (ed_source e))"
  by (simp add: wiring_of_def incoming_edge_def split: option.split)

lemma wiring_cong:
  assumes "\<And>v. resolve_existing h v = resolve_existing g v" and "g_edges h = g_edges g"
  shows "wiring_of h = wiring_of g"
proof -
  have "targets_at h n l = targets_at g n l" for n l
    by (rule ext) (simp add: targets_at_def assms(1))
  then have "wiring_of h (n, l) = wiring_of g (n, l)" for n l
    by (simp only: wiring_find assms)
  then show ?thesis by (intro ext) (metis surj_pair)
qed

lemma targets_below_at: "targets_at g n l e \<Longrightarrow> targets_below g t tc True e \<longleftrightarrow> n = t \<and> take (length tc) l = tc"
  by (simp add: targets_at_def targets_below_def)

lemma wiring_remove: "wiring_of (remove_edges_targeting g t tc True) = unplug (t, tc) (wiring_of g)"
proof (rule ext, clarify)
  fix n l
  let ?h = "remove_edges_targeting g t tc True"
  have nodes: "g_nodes ?h = g_nodes g" and edges: "g_edges ?h = filter (\<lambda>e. \<not> targets_below g t tc True e) (g_edges g)"
    by (simp_all add: remove_edges_targeting_def)
  have at: "targets_at ?h n l = targets_at g n l" by (rule ext) (rule same_nodes(3) [OF nodes])
  show "wiring_of ?h (n, l) = unplug (t, tc) (wiring_of g) (n, l)"
  proof (cases "n = t \<and> take (length tc) l = tc")
    case True
    then have "find (targets_at g n l) (g_edges ?h) = None"
      using targets_below_at by (auto simp: find_none edges)
    with True at show ?thesis by (simp add: wiring_find unplug_def)
  next
    case False
    then have "find (targets_at g n l) (g_edges ?h) = find (targets_at g n l) (g_edges g)"
      unfolding edges by (intro find_filter) (simp add: targets_below_at)
    with False show ?thesis
      by (auto simp: wiring_find at unplug_def resolve_existing_same_nodes [OF nodes] split: option.split)
  qed
qed

lemma wiring_link:
  assumes "link_edge base sm detach e g = (Inr (), g')"
  obtains src t where "resolve_existing g (ed_source e) = Some src" "resolve_existing g (ed_target e) = Some t"
    "wiring_of g' = plug src t (wiring_of g)"
  using assms
proof (cases rule: link_edge_cases)
  case (linked s sl t tc e')
  define h where "h = remove_edges_targeting g t tc True"
  have nodes: "g_nodes g' = g_nodes h" "g_nodes h = g_nodes g" using linked(10) by (simp_all add: h_def remove_edges_targeting_def)
  have at: "targets_at g' n l = targets_at h n l" for n l by (rule ext) (rule same_nodes(3) [OF nodes(1)])
  have own: "targets_at h n l e' \<longleftrightarrow> (n, l) = (t, tc)" for n l
    using linked(3,9) by (auto simp: targets_at_def resolve_existing_same_nodes [OF nodes(2)])
  have "wiring_of g' (n, l) = plug (s, sl) (t, tc) (wiring_of g) (n, l)" for n l
  proof -
    have w: "wiring_of h (n, l) = unplug (t, tc) (wiring_of g) (n, l)" by (simp add: h_def wiring_remove)
    have f: "find (targets_at h n l) (g_edges g') = (case find (targets_at h n l) (g_edges h) of
        None \<Rightarrow> if (n, l) = (t, tc) then Some e' else None | Some x \<Rightarrow> Some x)"
      by (simp add: linked(11) h_def [symmetric] find_append own split: option.split)
    show ?thesis
    proof (cases "(n, l) = (t, tc)")
      case True
      have "find (targets_at h t tc) (g_edges h) = None"
        by (auto simp: find_none h_def remove_edges_targeting_def targets_at_def targets_below_def
            resolve_existing_def)
      with True f show ?thesis
        using linked(2,8) by (simp add: wiring_find at plug_def resolve_existing_same_nodes [OF linked(10)])
    next
      case False
      with f w show ?thesis
        by (auto simp: wiring_find at plug_def resolve_existing_same_nodes [OF nodes(1)] split: option.splits)
    qed
  qed
  then show ?thesis using that linked(2,3) by (metis ext surj_pair)
qed simp_all

lemma same_design_wiring:
  assumes d: "same_design g h"
  shows "wiring_of h = wiring_of g"
proof (rule wiring_cong)
  have "keys (map (\<lambda>(p, nd). (p, design nd)) (g_nodes h)) = keys (map (\<lambda>(p, nd). (p, design nd)) (g_nodes g))"
    using d by (simp add: same_design_def)
  then have k: "keys (g_nodes h) = keys (g_nodes g)" by (simp add: comp_def case_prod_unfold)
  show "resolve_existing h v = resolve_existing g v" for v by (rule resolve_same_keys) (simp only: k)
  show "g_edges h = g_edges g" using d by (simp add: same_design_def)
qed

lemma put_node_wiring: "get_node s p \<noteq> None \<Longrightarrow> wiring_of (cx_graph (put_node p nd s)) = wiring_of (cx_graph s)"
proof (rule wiring_cong)
  assume p: "get_node s p \<noteq> None"
  have "keys (AList.update p nd d) = keys d" if "map_of d p \<noteq> None" for d
    using that by (induction d) auto
  then have k: "keys (g_nodes (cx_graph (put_node p nd s))) = keys (g_nodes (cx_graph s))"
    using p by (simp add: put_node_def get_node_def)
  show "resolve_existing (cx_graph (put_node p nd s)) v = resolve_existing (cx_graph s) v" for v
    by (rule resolve_same_keys) (simp only: k)
qed (simp add: put_node_def)

lemma drop_replaced_wiring: "wiring_of (cx_graph (drop_replaced_producer t s)) = wiring_of (cx_graph s)"
proof -
  have root: "wiring_of (cx_graph (drop_root_producer p s)) = wiring_of (cx_graph s)" for p
    by (simp add: drop_root_producer_def release_optional_refs put_node_wiring split: option.split)
  have pin: "wiring_of (cx_graph (drop_pin_producer p pin s)) = wiring_of (cx_graph s)" for p pin
    by (simp add: drop_pin_producer_def release_optional_refs put_node_wiring split: option.split)
  show ?thesis
    unfolding drop_replaced_producer_def
    by (auto simp: root pin split: option.split node_kind.split list.split comp.split)
qed

text \<open>The three ways an attempt to connect ends.\<close>

lemma add_endpoint_edge_cases:
  obtains (refused) x where "add_endpoint_edge X now ep target detach s = (Inl x, s)"
  | (poisoned) x s' where "add_endpoint_edge X now ep target detach s = (Inl x, s')" "cx_failure s' \<noteq> None"
  | (connected) g s1 where "link_edge (x_symbol_base X) (sensing_target s (ed_target (endpoint_edge ep target))) detach
        ((endpoint_edge ep target)\<lparr>ed_deep_member := deep_target s (ed_target (endpoint_edge ep target))\<rparr>)
        (cx_graph s) = (Inr (), g)"
      "derive_all X now (set_graph_of s g) = (Inr (), s1)"
      "add_endpoint_edge X now ep target detach s = (Inr (), drop_replaced_producer target s1)"
proof (cases "check_connection X s ep target")
  case (Inl x)
  then show ?thesis using refused by (simp add: add_endpoint_edge_def)
next
  case (Inr u)
  let ?e = "endpoint_edge ep target"
  let ?link = "link_edge (x_symbol_base X) (sensing_target s (ed_target ?e)) detach
      (?e\<lparr>ed_deep_member := deep_target s (ed_target ?e)\<rparr>) (cx_graph s)"
  have a: "add_endpoint_edge X now ep target detach s =
      bnd (add_edge X now ?e detach) (\<lambda>_. modify (drop_replaced_producer target)) s"
    by (simp add: add_endpoint_edge_def Inr)
  obtain r g where l: "?link = (r, g)" by force
  show ?thesis
  proof (cases r)
    case (Inl x)
    have "g = cx_graph s" using l Inl by (simp add: link_edge_refused)
    then have "add_edge X now ?e detach s = (Inl x, s)"
      using l Inl by (simp add: add_edge_def set_graph_of_def)
    then show ?thesis using refused by (simp add: a bnd_def)
  next
    case (Inr u)
    obtain d s1 where d: "derive_all X now (set_graph_of s g) = (d, s1)" by force
    have add: "add_edge X now ?e detach s = (d, s1)" using l Inr d by (simp add: add_edge_def)
    show ?thesis
    proof (cases d)
      case (Inl x)
      then show ?thesis
        using poisoned [of x s1] add d failed_derivation_closes [of X now "set_graph_of s g" x s1]
        by (simp add: a bnd_def)
    next
      case Inr': (Inr u')
      then show ?thesis
        using connected [of g s1] l Inr d add by (simp add: a bnd_def)
    qed
  qed
qed

section \<open>Properties\<close>

definition healthy :: "ctx \<Rightarrow> bool" where
  "healthy s \<longleftrightarrow> wf_ctx s \<and> runs_ok (cx_runtime s) \<and> edges_ok (cx_graph s) \<and> symbols_ok (g_symbols (cx_graph s))
     \<and> sessions_ok s"

lemma edits_healthy: "edits s s' \<Longrightarrow> healthy s \<Longrightarrow> healthy s' \<and> ledger s' = ledger s"
  by (auto simp: edits_def healthy_def same_books_def ledger_step_def run_step_def symbols_grow_def)

text \<open>C6: Every edit of a cell or a transformer by its user, whether it raises or not, keeps the Context
  healthy and its claims in the books: for every checksum, what the Context claims and what its nodes,
  tables and deliveries account for move together, the run ledger stays within its bounds, and the edge
  list free of conflicts and cycles.\<close>

theorem edits_keep_health:
  assumes "healthy s"
  shows "(healthy (snd (cell_operation X now p local v detach t s)) \<and> ledger (snd (cell_operation X now p local v detach t s)) = ledger s)
    \<and> (healthy (snd (commit_update X now p local c base revision detach s)) \<and> ledger (snd (commit_update X now p local c base revision detach s)) = ledger s)
    \<and> (healthy (snd (cell_delete_path X now p local s)) \<and> ledger (snd (cell_delete_path X now p local s)) = ledger s)
    \<and> (healthy (snd (set_transformer_code X now p code s)) \<and> ledger (snd (set_transformer_code X now p code s)) = ledger s)
    \<and> (healthy (snd (set_transformer_pin X now p pin w t detach s)) \<and> ledger (snd (set_transformer_pin X now p pin w t detach s)) = ledger s)
    \<and> (healthy (snd (delete_transformer_pin X now p pin s)) \<and> ledger (snd (delete_transformer_pin X now p pin s)) = ledger s)
    \<and> (healthy (snd (record_pin_read_error X now p pin identity err s)) \<and> ledger (snd (record_pin_read_error X now p pin identity err s)) = ledger s)"
  by (intro conjI edits_healthy [OF editing_run assms, THEN conjunct1] edits_healthy [OF editing_run assms, THEN conjunct2]
      cell_operation_editing commit_update_editing cell_delete_path_editing set_transformer_code_editing
      set_transformer_pin_editing delete_pin_editing record_read_error_editing)

lemma init_healthy: "healthy (init_ctx i)"
  by (simp add: healthy_def wf_init init_runs_ok init_symbols_ok)
     (simp add: init_ctx_def empty_graph_def edges_ok_def edge_targets_def edge_pairs_def map_filter_simps acyclic_def sessions_ok_def)

text \<open>A cell gets a root and then another one. The root and the value of the cell are a claim each; after the
  second edit only the superseded run still holds the first checksum.\<close>

definition lone_cell :: ctx where
  "lone_cell = (init_ctx ''top'')\<lparr>cx_graph := empty_graph\<lparr>g_nodes := [([KStr ''a''], new_cell ''text'')]\<rparr>\<rparr>"

lemma lone_cell_healthy: "healthy lone_cell"
proof -
  have "runs_ok (cx_runtime lone_cell)" using init_runs_ok by (simp add: lone_cell_def)
  moreover have "symbols_ok (g_symbols (cx_graph lone_cell))" using init_symbols_ok [of "''top''"] by (simp add: lone_cell_def init_ctx_def)
  moreover have "wf_ctx lone_cell" "edges_ok (cx_graph lone_cell)" "sessions_ok lone_cell"
    by (simp_all add: lone_cell_def init_ctx_def empty_graph_def new_cell_def new_node_def wf_ctx_def wf_dict_def
        edges_ok_def edge_targets_def edge_pairs_def map_filter_simps acyclic_def sessions_ok_def)
  ultimately show ?thesis by (simp add: healthy_def)
qed

definition first_edit :: ctx where
  "first_edit = snd (cell_operation plain_ext 0 [KStr ''a''] [] (From_checksum (Some ''11'')) False None lone_cell)"

theorem edits_keep_health_witness:
  "healthy first_edit
   \<and> ledger (snd (cell_operation plain_ext 0 [KStr ''a''] [] (From_checksum (Some ''22'')) False None first_edit)) = ledger lone_cell
   \<and> cx_refs first_edit ''11'' = 2
   \<and> cx_refs (snd (cell_operation plain_ext 0 [KStr ''a''] [] (From_checksum (Some ''22'')) False None first_edit)) ''11'' = 1"
proof -
  have 1: "healthy first_edit" "ledger first_edit = ledger lone_cell"
    unfolding first_edit_def using edits_keep_health [OF lone_cell_healthy] by blast+
  have "ledger (snd (cell_operation plain_ext 0 [KStr ''a''] [] (From_checksum (Some ''22'')) False None first_edit)) = ledger first_edit"
    using edits_keep_health [OF 1(1)] by blast
  moreover have "cx_refs first_edit ''11'' = 2" by code_simp
  moreover have "cx_refs (snd (cell_operation plain_ext 0 [KStr ''a''] [] (From_checksum (Some ''22'')) False None first_edit)) ''11'' = 1"
    by code_simp
  ultimately show ?thesis using 1 by simp
qed

text \<open>C5: A connection is refused without a trace: when connecting an endpoint raises, either nothing
  at all has changed or the derivation after it has failed and the controller with it. When it does
  not raise, the new wiring is the old one with the one endpoint plugged in and all that was at or
  below it unplugged.\<close>

theorem connection_refines_wiring:
  "case add_endpoint_edge X now ep target detach s of
     (Inl _, s') \<Rightarrow> s' = s \<or> (\<exists>x. cx_failure s' = Some x)
   | (Inr _, s') \<Rightarrow>
       (\<exists>src t. resolve_existing (cx_graph s) (ep_node ep @ ep_local ep) = Some src
          \<and> resolve_existing (cx_graph s) (ep_node target @ ep_local target) = Some t
          \<and> wiring_of (cx_graph s') = plug src t (wiring_of (cx_graph s)))"
proof (cases rule: add_endpoint_edge_cases [of X now ep target detach s])
  case (connected g s1)
  from connected(1) obtain src t
    where r: "resolve_existing (cx_graph s) (ep_node ep @ ep_local ep) = Some src"
      "resolve_existing (cx_graph s) (ep_node target @ ep_local target) = Some t"
      and w: "wiring_of g = plug src t (wiring_of (cx_graph s))"
    by (rule wiring_link) (simp add: endpoint_edge_def)
  have "derives (set_graph_of s g) s1"
    using deriving_run [OF derive_all_deriving, of "set_graph_of s g" X now] connected(2) by simp
  then have "wiring_of (cx_graph s1) = wiring_of g"
    using same_design_wiring [of g "cx_graph s1"] by (simp add: derives_def set_graph_of_def)
  with r w show ?thesis
    by (simp add: connected(3) drop_replaced_wiring)
qed auto

lemma set_cell_root_bumps:
  assumes "set_cell_root_with_edges X p c t b s = (Inr u, s')"
  shows "revision_of s' p = Suc (revision_of s p)"
proof -
  define s2 where "s2 = (if c = None then drop_node_leaves p (forget_sense_errors p s) else forget_sense_errors p s)"
  have rev2: "cx_revisions s2 = cx_revisions s"
    by (simp add: s2_def drop_node_leaves_def forget_sense_errors_def release_all_refs split: option.split)
  have put: "revision_of (put_root_producer p new s1) p = Suc (revision_of s1 p)"
    if "get_node s1 p = Some nd" for s1 new nd
    by (simp add: that put_root_producer_def release_optional_refs revision_of_def bump_revision_def put_node_def)
  have edges: "revision_of ((if b then remove_edges p [] else id) s1) p = revision_of s1 p" for s1
    by (simp add: revision_of_def remove_edges_def set_graph_of_def)
  from assms obtain nd where nd: "get_node s2 p = Some nd"
    and run: "bnd (case c of None \<Rightarrow> ret None
        | Some c \<Rightarrow> bnd (retain_producer X c t (cell_scratch nd)) (\<lambda>producer. ret (Some producer)))
      (\<lambda>producer. bnd (modify (put_root_producer p producer)) (\<lambda>_.
        modify (if b then remove_edges p [] else id))) s2 = (Inr u, s')"
    unfolding set_cell_root_with_edges_def Let_def s2_def [symmetric] by (auto split: if_splits option.splits)
  obtain new refs where "s' = (if b then remove_edges p [] else id) (put_root_producer p new (s2\<lparr>cx_refs := refs\<rparr>))"
  proof (cases c)
    case None
    then show ?thesis using run that [of None "cx_refs s2"] by simp
  next
    case (Some k)
    show ?thesis
    proof (cases rule: retain_producer_cases [of X k t "cell_scratch nd" s2])
      case (error e)
      then show ?thesis using run by (simp add: Some bnd_def)
    next
      case (held q)
      then show ?thesis
        using run that [of "Some q" "cx_refs (incref (cp_checksum q) s2)"]
        by (simp add: Some bnd_def incref_def)
    qed
  qed
  moreover have "get_node (s2\<lparr>cx_refs := refs\<rparr>) p = Some nd" using nd by (simp add: get_node_def)
  ultimately show ?thesis using rev2 by (simp add: edges put) (simp add: revision_of_def)
qed

text \<open>C16: No update is lost: an update of a cell that was prepared before another write of its root
  went through is refused, and changes nothing.\<close>

theorem update_not_lost:
  assumes "commit_update X now p local c base revision detach s = (Inr True, s1)
    \<or> cell_operation X now p [] (From_checksum c) detach t s = (Inr (), s1) \<and> revision = revision_of s p"
  shows "snd (commit_update X now' p local' c' base' revision detach' s1) = s1
    \<and> fst (commit_update X now' p local' c' base' revision detach' s1) \<in> {Inr False} \<union> range Inl"
proof -
  have rest: "revision_of s' p = revision_of s0 p"
    if "derive_all X now s0 = (r, s')" for s0 s' r
    using deriving_run [OF derive_all_deriving, of s0 X now] that by (simp add: derives_def revision_of_def)
  have edges: "revision_of ((if b then remove_edges q l else id) s0) p = revision_of s0 p" for b q l s0
    by (simp add: revision_of_def remove_edges_def set_graph_of_def)
  have "revision_of s1 p = Suc revision"
    using assms
  proof
    assume commit: "commit_update X now p local c base revision detach s = (Inr True, s1)"
    then obtain nd where nd: "get_node s p = Some nd" and r: "revision_of s p = revision"
      and run: "bnd (set_cell_root_with_edges X p c (config_celltype nd) False) (\<lambda>_.
         bnd (modify (if detach then remove_edges p local else id)) (\<lambda>_.
         bnd (derive_all X now) (\<lambda>_. ret True))) s = (Inr True, s1)"
      unfolding commit_update_def by (auto split: option.splits if_splits)
    from run obtain s2 where root: "set_cell_root_with_edges X p c (config_celltype nd) False s = (Inr (), s2)"
      and "derive_all X now ((if detach then remove_edges p local else id) s2) = (Inr (), s1)"
      by (elim bnd_Inr_cases) (auto simp del: if_split)
    then have "revision_of s1 p = revision_of ((if detach then remove_edges p local else id) s2) p"
      using rest by simp
    then show ?thesis using set_cell_root_bumps [OF root] r edges by simp
  next
    assume op: "cell_operation X now p [] (From_checksum c) detach t s = (Inr (), s1) \<and> revision = revision_of s p"
    then obtain ct s2 where root: "set_cell_root_with_edges X p c ct detach s = (Inr (), s2)"
      and "derive_all X now s2 = (Inr (), s1)"
      unfolding cell_operation_def by (auto split: option.splits elim!: bnd_Inr_cases)
    then show ?thesis using set_cell_root_bumps [OF root] op rest by simp
  qed
  then show ?thesis by (auto simp: commit_update_def split: option.split)
qed

definition one_cell_ctx :: ctx where
  "one_cell_ctx = (init_ctx ''top'')\<lparr>cx_graph := empty_graph\<lparr>g_nodes := [([KStr ''a''], new_cell ''mixed'')]\<rparr>\<rparr>"

theorem update_not_lost_witness:
  "snd (commit_update plain_ext 0 [KStr ''a''] [] (Some ''bb'') None 0 False
     (snd (commit_update plain_ext 0 [KStr ''a''] [] (Some ''aa'') None 0 False one_cell_ctx))) =
   snd (commit_update plain_ext 0 [KStr ''a''] [] (Some ''aa'') None 0 False one_cell_ctx)"
proof -
  have "fst (commit_update plain_ext 0 [KStr ''a''] [] (Some ''aa'') None 0 False one_cell_ctx) = Inr True"
    by code_simp
  then have "commit_update plain_ext 0 [KStr ''a''] [] (Some ''aa'') None 0 False one_cell_ctx =
      (Inr True, snd (commit_update plain_ext 0 [KStr ''a''] [] (Some ''aa'') None 0 False one_cell_ctx))"
    by (metis prod.collapse)
  from update_not_lost [OF disjI1, OF this] show ?thesis by blast
qed

end
