(* ===== verification/Mount_Runtime.thy ===== *)
theory Mount_Runtime
  imports Edit_Edges
begin

text \<open>
  Attachments of a Context (\<^verbatim>\<open>attachments/runtime.py\<close>): attaching a mount or a share to a cell,
  what an observation of the file does to the cell, detaching, the work at the end of a turn,
  the barriers of \<open>sync\<close>, and the status of a session.

  What an operation asks of a transport is an effect of the turn; what a transport reports
  arrives as an argument. The leases that come with an observation are released at its end.
\<close>

section \<open>Sessions of a cell\<close>

definition upd_session :: "session_key \<Rightarrow> (session \<Rightarrow> session) \<Rightarrow> ctx \<Rightarrow> ctx" where
  "upd_session k f s = (case get_session s k of None \<Rightarrow> s | Some m \<Rightarrow> put_session k (f m) s)"

definition mount_has_attachments :: "ctx \<Rightarrow> path \<Rightarrow> bool" where
  "mount_has_attachments s p \<longleftrightarrow>
     (case get_node s p of None \<Rightarrow> False | Some nd \<Rightarrow> nd_mount nd \<noteq> None \<or> nd_attachments nd \<noteq> [])
     \<or> sessions_for s p \<noteq> []"

definition is_share :: "spec \<Rightarrow> bool" where
  "is_share sp \<longleftrightarrow> spec_driver sp = ''share''"

definition read_only :: "spec \<Rightarrow> bool" where
  "read_only sp = (case sp of ShareSpec x \<Rightarrow> ss_readonly x | FileSpec _ \<Rightarrow> False)"

definition mount_validate :: "ext \<Rightarrow> ctx \<Rightarrow> path \<Rightarrow> spec \<Rightarrow> exc + celltype" where
  "mount_validate X s p sp =
     (case get_node s p of
        None \<Rightarrow> Inl Node_Error
      | Some nd \<Rightarrow>
          (if nd_kind nd \<noteq> Cell_kind then Inl Node_Error
           else if (if spec_driver sp = ''file'' then nd_mount nd \<noteq> None
                    else map_of (nd_attachments nd) (spec_driver sp) \<noteq> None)
                   \<or> get_session s (p, spec_driver sp) \<noteq> None then Inl Value_Error
           else if is_share sp then
             (if \<not> read_only sp \<and> incoming_for (cx_graph s) p \<noteq> [] then Inl Authority_Error
              else case validate_share_celltype (config_celltype nd) of
                Some e \<Rightarrow> Inl e
              | None \<Rightarrow> Inr (config_celltype nd))
           else if sensing sp \<and> incoming_for (cx_graph s) p \<noteq> [] then Inl Authority_Error
           else case validate_mount_celltype (x_file_celltypes X) (x_directory_celltypes X)
                       (config_celltype nd) (spec_mode sp) of
             Some e \<Rightarrow> Inl e
           | None \<Rightarrow> Inr (config_celltype nd)))"

section \<open>Sensing\<close>

definition mount_sense_error :: "session_key \<Rightarrow> ctx \<Rightarrow> ctx" where
  "mount_sense_error k s =
     (case fresh_error Mount_Error s of
        (err, s1) \<Rightarrow> upd_session k (\<lambda>m. m\<lparr>ms_sense_error := Some err\<rparr>) s1)"

definition sense_root :: "ext \<Rightarrow> session_key \<Rightarrow> checksum \<Rightarrow> celltype \<Rightarrow> (ctx, unit) oper" where
  "sense_root X k c ct s =
     bnd (lift_res (case validate_write (cx_graph s) (fst k) [] False of Some e \<Rightarrow> Inl e | None \<Rightarrow> Inr ()))
       (\<lambda>_. set_cell_root_with_edges X (fst k) (Some c) ct False) s"

definition mount_sense_null :: "ext \<Rightarrow> session_key \<Rightarrow> celltype \<Rightarrow> (ctx, unit) oper" where
  "mount_sense_null X k ct =
     bnd (sense_root X k (x_null X) ct) (\<lambda>_.
     modify (\<lambda>s. mount_touch (upd_session k (\<lambda>m. m\<lparr>ms_last_synced := Some (x_null X)\<rparr>) s)))"

fun incref_all :: "checksum list \<Rightarrow> ctx \<Rightarrow> ctx" where
  "incref_all [] s = s"
| "incref_all (c # cs) s = incref_all cs (incref c s)"

definition mount_hold_leaves :: "session_key \<Rightarrow> celltype \<Rightarrow> observation \<Rightarrow> ctx \<Rightarrow> ctx" where
  "mount_hold_leaves k ct ob s =
     (if \<not> List.member [''folder'', ''deepfolder''] ct then s
      else (let leaves = drop 1 (ob_leases ob);
                s1 = release_all (case map_of (cx_node_leaves s) (fst k) of None \<Rightarrow> [] | Some old \<Rightarrow> old)
                       (incref_all leaves s)
            in s1\<lparr>cx_node_leaves := AList.update (fst k) leaves (cx_node_leaves s1)\<rparr>))"

definition drop_pending :: "session_key \<Rightarrow> ctx \<Rightarrow> ctx" where
  "drop_pending k s =
     (case get_session s k of
        None \<Rightarrow> s
      | Some m \<Rightarrow> put_session k (m\<lparr>ms_pending := None\<rparr>) (release_delivery (ms_pending m) s))"

text \<open>A newer sensed value supersedes a user edit that was not dispatched.\<close>

definition mount_sense :: "ext \<Rightarrow> session_key \<Rightarrow> celltype \<Rightarrow> observation \<Rightarrow> (ctx, unit) oper" where
  "mount_sense X k ct ob =
     bnd (sense_root X k (ob_checksum ob) ct) (\<lambda>_.
     modify (\<lambda>s. mount_touch (drop_pending k
       (upd_session k (\<lambda>m. m\<lparr>ms_last_synced := Some (ob_checksum ob)\<rparr>) (mount_hold_leaves k ct ob s)))))"

section \<open>Attaching\<close>

record registration =
  rg_id :: string
  rg_celltype :: celltype
  rg_directory :: bool

definition node_value :: "ctx \<Rightarrow> path \<Rightarrow> checksum option" where
  "node_value s p =
     (case get_node s p of
        None \<Rightarrow> None | Some nd \<Rightarrow> if nd_state nd = Complete then nd_current nd else None)"

definition new_session :: "path \<Rightarrow> spec \<Rightarrow> registration \<Rightarrow> observation \<Rightarrow> checksum option \<Rightarrow> session" where
  "new_session p sp reg ob seen =
     \<lparr>ms_id = rg_id reg, ms_path = p, ms_spec = sp, ms_directory = rg_directory reg,
      ms_celltype = rg_celltype reg, ms_disk = ob_checksum ob, ms_fingerprint = ob_fingerprint ob,
      ms_processed_ws = ob_ws ob, ms_last_synced = seen, ms_written_pair = None, ms_pending = None,
      ms_in_flight = None, ms_delivery_seq = 0, ms_reasserts = [], ms_sense_error = None,
      ms_error = None, ms_state = S_active, ms_initial_done = False, ms_retry_at = 0,
      ms_retry_delay = 1, ms_last_delivery_at = 0, ms_active = True\<rparr>"

definition attached_node :: "spec \<Rightarrow> node \<Rightarrow> node" where
  "attached_node sp nd =
     (if spec_driver sp = ''file'' then nd\<lparr>nd_mount_inactive := False, nd_mount := Some sp\<rparr>
      else nd\<lparr>nd_attachments := AList.update (spec_driver sp) sp (nd_attachments nd)\<rparr>)"

definition initial_step ::
  "ext \<Rightarrow> session_key \<Rightarrow> spec \<Rightarrow> celltype \<Rightarrow> observation \<Rightarrow> checksum option \<Rightarrow> initial_action \<Rightarrow> (ctx, unit) oper" where
  "initial_step X k sp ct ob seen action =
     (case action of
        A_sense \<Rightarrow> mount_sense X k ct ob
      | A_sense_null \<Rightarrow>
          bnd (mount_sense_null X k ct) (\<lambda>_.
          modify (if is_share sp \<and> spec_mode sp = ''rw'' then mount_request k (Some (x_null X)) True else id))
      | A_sense_null_error \<Rightarrow> bnd (mount_sense_null X k ct) (\<lambda>_. modify (mount_sense_error k))
      | A_error \<Rightarrow> modify (mount_sense_error k)
      | A_write \<Rightarrow> modify (mount_request k seen False)
      | A_nothing \<Rightarrow> ret ())"

definition initial_rest ::
  "ext \<Rightarrow> session_key \<Rightarrow> spec \<Rightarrow> celltype \<Rightarrow> observation \<Rightarrow> checksum option \<Rightarrow> initial_action \<Rightarrow> ctx \<Rightarrow> ctx" where
  "initial_rest X k sp ct ob seen action s =
     (let s1 = (if is_share sp \<and> ob_checksum ob = ABSENT \<and> seen = Some (x_null X)
                then mount_request k (Some (x_null X)) True s else s);
          s2 = (if seen = Some (ob_checksum ob) then mount_hold_leaves k ct ob s1 else s1);
          s3 = (if spec_mode sp = ''rw'' \<and> ob_canonical_write ob \<and> List.member [A_sense, A_nothing] action
                then mount_request k (if action = A_sense then Some (ob_checksum ob) else seen) True s2 else s2);
          s4 = (if action \<noteq> A_write
                then upd_session k (\<lambda>m. if ms_pending m = None then m\<lparr>ms_initial_done := True\<rparr> else m) s3 else s3)
      in s4)"

definition announce :: "session_key \<Rightarrow> initial_action \<Rightarrow> ctx \<Rightarrow> ctx" where
  "announce k action s =
     (case get_session s k of
        None \<Rightarrow> s
      | Some m \<Rightarrow> mount_event (Ev_attach (ms_id m) action) (add_effect (E_activate (ms_id m)) s))"

definition attach_body ::
  "ext \<Rightarrow> real \<Rightarrow> path \<Rightarrow> spec \<Rightarrow> registration \<Rightarrow> observation \<Rightarrow> (ctx, unit) oper" where
  "attach_body X now p sp reg ob s =
     (case mount_validate X s p sp of
        Inl e \<Rightarrow> (Inl e, s)
      | Inr ct \<Rightarrow>
          (if ct \<noteq> rg_celltype reg then (Inl Value_Error, s)
           else
             (let k = (p, spec_driver sp);
                  seen = node_value s p;
                  action = decide_initial sp (ob_checksum ob) seen (ob_no_value ob) (seen = Some (x_null X))
              in bnd (modify (\<lambda>s. put_session k (new_session p sp reg ob seen) (upd_node p (attached_node sp) s))) (\<lambda>_.
                 bnd (initial_step X k sp ct ob seen action) (\<lambda>_.
                 bnd (modify (initial_rest X k sp ct ob seen action)) (\<lambda>_.
                 bnd (modify (announce k action)) (\<lambda>_.
                 derive_all X now)))) s)))"

definition mount_attach ::
  "ext \<Rightarrow> real \<Rightarrow> path \<Rightarrow> spec \<Rightarrow> registration \<Rightarrow> observation \<Rightarrow> (ctx, unit) oper" where
  "mount_attach X now p sp reg ob s =
     (case attach_body X now p sp reg ob s of (r, s') \<Rightarrow> (r, release_all (ob_leases ob) s'))"

section \<open>Observations\<close>

text \<open>What an observation of this kind does to the root of the cell.\<close>

definition observed_root :: "ext \<Rightarrow> session_key \<Rightarrow> session \<Rightarrow> observation \<Rightarrow> classification \<Rightarrow> (ctx, unit) oper" where
  "observed_root X k m ob kind =
     (if kind = C_foreign \<and> sensing (ms_spec m) then mount_sense X k (ms_celltype m) ob
      else if kind = C_rejected \<and> sensing (ms_spec m) then modify (mount_sense_error k)
      else if kind = C_absent \<and> spec_authority (ms_spec m) = ''file-strict'' then modify (mount_sense_error k)
      else if kind = C_absent then modify (upd_session k (\<lambda>m. m\<lparr>ms_sense_error := None\<rparr>))
      else if kind = C_unchanged \<and> sensing (ms_spec m) \<and> ms_sense_error m \<noteq> None
              \<and> \<not> List.member [ABSENT, INVALID] (ob_checksum ob)
      then mount_sense X k (ms_celltype m) ob
      else ret ())"

definition has_sense_error :: "ctx \<Rightarrow> session_key \<Rightarrow> bool" where
  "has_sense_error s k = (case get_session s k of None \<Rightarrow> False | Some m \<Rightarrow> ms_sense_error m \<noteq> None)"

definition canonical_write ::
  "session_key \<Rightarrow> session \<Rightarrow> observation \<Rightarrow> classification \<Rightarrow> node \<Rightarrow> (ctx, unit) oper" where
  "canonical_write k m ob kind nd s =
     (if spec_mode (ms_spec m) = ''rw'' \<and> ob_canonical_write ob \<and> List.member [C_foreign, C_unchanged] kind
         \<and> \<not> has_sense_error s k
      then (if kind = C_foreign \<or> nd_state nd \<noteq> Complete
            then (Inr (), mount_request k (Some (ob_checksum ob)) True s)
            else case nd_current nd of
              None \<Rightarrow> (Inl Attribute_Error, s)
            | Some c \<Rightarrow> (Inr (), mount_request k (Some c) True s))
      else (Inr (), s))"

definition tripped :: "session_key \<Rightarrow> ctx \<Rightarrow> ctx" where
  "tripped k s =
     (case fresh_error Conflict_Error s of
        (err, s1) \<Rightarrow> drop_pending k (upd_session k (\<lambda>m. m\<lparr>ms_state := S_tripped, ms_error := Some err\<rparr>) s1))"

definition reassert_step :: "real \<Rightarrow> session_key \<Rightarrow> classification \<Rightarrow> node \<Rightarrow> (ctx, unit) oper" where
  "reassert_step now k kind nd s =
     (case get_session s k of
        None \<Rightarrow> (Inr (), s)
      | Some m \<Rightarrow>
          (if reassert (spec_mode (ms_spec m)) (nd_state nd) kind \<and> ms_state m = S_active
           then (case detector (ms_reasserts m) now of
              (recent, trips) \<Rightarrow>
                (let s1 = mount_event (Ev_reassert (ms_id m) trips)
                            (put_session k (m\<lparr>ms_reasserts := recent\<rparr>) s)
                 in if trips then (if nd_current nd = None then (Inl Attribute_Error,
                                      upd_session k (\<lambda>m. m\<lparr>ms_state := S_tripped\<rparr>) s1)
                                   else (Inr (), tripped k s1))
                    else case nd_current nd of
                      None \<Rightarrow> (Inl Attribute_Error, s1)
                    | Some c \<Rightarrow> (Inr (), mount_request k (Some c) False s1)))
           else (Inr (), s)))"

definition observed_body ::
  "ext \<Rightarrow> real \<Rightarrow> session_key \<Rightarrow> session \<Rightarrow> observation \<Rightarrow> (ctx, unit) oper" where
  "observed_body X now k m ob =
     (let kind = classify_observation (ob_ws ob) (ms_processed_ws m) (ob_checksum ob) (ms_disk m)
                   (map_option dl_checksum (ms_in_flight m)) (ob_fingerprint ob) (ms_fingerprint m)
      in bnd (modify (mount_event (Ev_observation (ms_id m) kind (ob_ws ob)))) (\<lambda>_.
         if kind = C_stale then ret ()
         else
           bnd (modify (upd_session k (\<lambda>m. m\<lparr>ms_processed_ws := ob_ws ob, ms_disk := ob_checksum ob,
                                            ms_fingerprint := ob_fingerprint ob\<rparr>))) (\<lambda>_.
           bnd (observed_root X k m ob kind) (\<lambda>_ s.
             case get_node s (fst k) of
               None \<Rightarrow> (Inl Key_Error, s)
             | Some nd \<Rightarrow>
                 bnd (canonical_write k m ob kind nd) (\<lambda>_.
                 bnd (modify (if nd_current nd = Some (ob_checksum ob)
                              then mount_hold_leaves k (ms_celltype m) ob else id)) (\<lambda>_.
                 bnd (reassert_step now k kind nd) (\<lambda>_.
                 derive_all X now))) s))))"

definition mount_observed :: "ext \<Rightarrow> real \<Rightarrow> observation \<Rightarrow> ctx \<Rightarrow> ctx" where
  "mount_observed X now ob s =
     release_all (ob_leases ob)
       (case session_by_id s (ob_session ob) of
          None \<Rightarrow> s
        | Some (k, m) \<Rightarrow>
            (case observed_body X now k m ob s of
               (Inr _, s') \<Rightarrow> s'
             | (Inl _, s') \<Rightarrow>
                 (case fresh_error Mount_Error s' of
                    (err, s2) \<Rightarrow> upd_session k (\<lambda>m. m\<lparr>ms_error := Some err\<rparr>) s2)))"

section \<open>Detaching\<close>

definition detached_node :: "string \<Rightarrow> node \<Rightarrow> node" where
  "detached_node driver nd =
     (if driver = ''file'' then nd\<lparr>nd_mount := None, nd_mount_inactive := False\<rparr>
      else nd\<lparr>nd_attachments := AList.delete driver (nd_attachments nd)\<rparr>)"

definition drop_session :: "session_key \<Rightarrow> ctx \<Rightarrow> ctx" where
  "drop_session k s =
     (case get_session s k of
        None \<Rightarrow> s
      | Some m \<Rightarrow>
          upd_node (fst k) (detached_node (snd k))
            (release_delivery (ms_in_flight m) (release_delivery (ms_pending m)
              (s\<lparr>cx_sessions := AList.delete k (cx_sessions s)\<rparr>))))"

definition mount_detach :: "ext \<Rightarrow> real \<Rightarrow> session_key \<Rightarrow> bool \<Rightarrow> (ctx, unit) oper" where
  "mount_detach X now k derive s =
     (case get_session s k of
        None \<Rightarrow> (Inr (), s)
      | Some _ \<Rightarrow> (if derive then derive_all X now (drop_session k s) else (Inr (), drop_session k s)))"

definition session_keys :: "ctx \<Rightarrow> path \<Rightarrow> session_key list" where
  "session_keys s p = filter (\<lambda>k. fst k = p) (keys (cx_sessions s))"

definition drop_sessions :: "path \<Rightarrow> ctx \<Rightarrow> ctx" where
  "drop_sessions p s = fold drop_session (session_keys s p) s"

definition mount_detach_all :: "ext \<Rightarrow> real \<Rightarrow> path \<Rightarrow> bool \<Rightarrow> (ctx, unit) oper" where
  "mount_detach_all X now p derive s =
     (if derive then derive_all X now (drop_sessions p s) else (Inr (), drop_sessions p s))"

definition mount_close_finish :: "ctx \<Rightarrow> ctx" where
  "mount_close_finish s = fold drop_session (keys (cx_sessions s)) s"

section \<open>The end of a turn\<close>

definition push_value :: "session_key \<Rightarrow> session \<Rightarrow> node \<Rightarrow> ctx \<Rightarrow> ctx" where
  "push_value k m nd s =
     (if writing (ms_spec m) \<and> nd_state nd = Complete then
        (case nd_current nd of
           None \<Rightarrow> s
         | Some c \<Rightarrow>
             (if Some c \<noteq> ms_last_synced m
              then (let s1 = upd_session k (\<lambda>m. m\<lparr>ms_last_synced := Some c\<rparr>) s
                    in if c \<noteq> ms_disk m then mount_request k (Some c) False s1 else s1)
              else s))
      else s)"

fun after_turn_loop :: "ext \<Rightarrow> real \<Rightarrow> session_key list \<Rightarrow> (ctx, unit) oper" where
  "after_turn_loop X now [] s = (Inr (), s)"
| "after_turn_loop X now (k # ks) s =
     (case get_session s k of
        None \<Rightarrow> after_turn_loop X now ks s
      | Some m \<Rightarrow>
          (case get_node s (fst k) of
             Some nd \<Rightarrow>
               (if nd_kind nd = Cell_kind
                then after_turn_loop X now ks (mount_dispatch X k now (push_value k m nd s))
                else bnd (mount_detach X now k True) (\<lambda>_. after_turn_loop X now ks) s)
           | None \<Rightarrow> bnd (mount_detach X now k True) (\<lambda>_. after_turn_loop X now ks) s))"

definition mount_after_turn :: "ext \<Rightarrow> real \<Rightarrow> (ctx, unit) oper" where
  "mount_after_turn X now s = after_turn_loop X now (keys (cx_sessions s)) s"

definition mount_tick :: "ext \<Rightarrow> real \<Rightarrow> ctx \<Rightarrow> ctx" where
  "mount_tick X now s =
     (if cx_closing s
      then run_effects
        (fold (\<lambda>k s. case get_session s k of
             None \<Rightarrow> s
           | Some m \<Rightarrow> (if spec_persistent (ms_spec m) \<and> ms_pending m \<noteq> None \<and> ms_error m = None
                       then mount_dispatch X k now s else s)) (keys (cx_sessions s)) s)
      else s)"

section \<open>Barriers\<close>

text \<open>
  A barrier waits for a cut of every session, and starts over when a session has been active
  since. A cut that arrives is taken off the barriers of its number.
\<close>

definition session_ids :: "ctx \<Rightarrow> string list" where
  "session_ids s = map (ms_id \<circ> snd) (cx_sessions s)"

definition mount_sync :: "nat \<Rightarrow> ctx \<Rightarrow> ctx" where
  "mount_sync i s =
     s\<lparr>cx_sync := cx_sync s @ [(i, \<lparr>sy_cut = 0, sy_waiting = None, sy_activity = -1\<rparr>)]\<rparr>"

definition mount_cut :: "string \<Rightarrow> nat \<Rightarrow> ctx \<Rightarrow> ctx" where
  "mount_cut i cut_id s =
     s\<lparr>cx_sync := map (\<lambda>(f, b). (f, if sy_cut b = cut_id
          then b\<lparr>sy_waiting := map_option (removeAll i) (sy_waiting b)\<rparr> else b)) (cx_sync s)\<rparr>"

definition start_barrier :: "sync_predicate \<Rightarrow> ctx \<Rightarrow> sync_predicate \<times> ctx" where
  "start_barrier b s =
     (let cut_id = Suc (cx_mount_cut_seq s);
          s1 = s\<lparr>cx_mount_cut_seq := cut_id\<rparr>
      in (\<lparr>sy_cut = cut_id, sy_waiting = Some (session_ids s), sy_activity = cx_mount_activity s\<rparr>,
          fold (\<lambda>i. add_effect (E_request_cut i cut_id)) (session_ids s) s1))"

definition mount_busy :: "ctx \<Rightarrow> bool" where
  "mount_busy s =
     list_ex (\<lambda>(_, m). ms_in_flight m \<noteq> None
       \<or> (ms_pending m \<noteq> None \<and> (ms_error m = None \<or> ms_retry_at m = 0))) (cx_sessions s)"

definition nodes_unsettled :: "ctx \<Rightarrow> bool" where
  "nodes_unsettled s = list_ex (\<lambda>(_, nd). List.member [Waiting, Computing] (nd_state nd)) (g_nodes (cx_graph s))"

definition check_barrier :: "sync_predicate \<Rightarrow> ctx \<Rightarrow> bool \<times> sync_predicate \<times> ctx" where
  "check_barrier b s =
     (case sy_waiting b of
        None \<Rightarrow> (case start_barrier b s of (b', s') \<Rightarrow> (False, b', s'))
      | Some waiting \<Rightarrow>
          (let left = filter (List.member (session_ids s)) waiting;
               b1 = b\<lparr>sy_waiting := Some left\<rparr>
           in if left \<noteq> [] \<or> nodes_unsettled s \<or> mount_busy s then (False, b1, s)
              else if sy_activity b \<noteq> cx_mount_activity s
              then (case start_barrier b1 s of (b', s') \<Rightarrow> (False, b', s'))
              else (True, b1, s)))"

section \<open>Status\<close>

record mount_status =
  st_state :: session_state
  st_node :: "checksum option"
  st_disk :: checksum
  st_in_sync :: bool
  st_pending :: bool
  st_in_flight :: bool
  st_sense_error :: "error option"
  st_error :: "error option"

definition session_status :: "ext \<Rightarrow> ctx \<Rightarrow> session_key \<Rightarrow> session \<Rightarrow> mount_status" where
  "session_status X s k m =
     (let c = node_value s (fst k);
          equivalent = (c = Some (ms_disk m)
             \<or> (case (ms_written_pair m, c) of (Some w, Some x) \<Rightarrow> w = (x, ms_disk m) | _ \<Rightarrow> False)
             \<or> c = Some (x_null X) \<and> ms_disk m = ABSENT)
      in \<lparr>st_state = ms_state m, st_node = c, st_disk = ms_disk m,
          st_in_sync = (c \<noteq> None \<and> equivalent \<and> ms_sense_error m = None),
          st_pending = (ms_pending m \<noteq> None), st_in_flight = (ms_in_flight m \<noteq> None),
          st_sense_error = ms_sense_error m, st_error = ms_error m\<rparr>)"

definition mount_report :: "ext \<Rightarrow> ctx \<Rightarrow> (session_key \<times> mount_status) list" where
  "mount_report X s = map (\<lambda>(k, m). (k, session_status X s k m)) (cx_sessions s)"

definition mount_clear_error :: "session_key \<Rightarrow> (ctx, unit) oper" where
  "mount_clear_error k s =
     (case get_session s k of
        None \<Rightarrow> (Inl Key_Error, s)
      | Some m \<Rightarrow>
          (let s1 = put_session k (m\<lparr>ms_error := None, ms_state := S_active, ms_reasserts := [], ms_retry_at := 0\<rparr>) s
           in case get_node s1 (fst k) of
                None \<Rightarrow> (Inl Key_Error, s1)
              | Some nd \<Rightarrow>
                  (if writing (ms_spec m) \<and> nd_state nd = Complete \<and> nd_current nd \<noteq> None
                   then (Inr (), mount_request k (nd_current nd) False s1) else (Inr (), s1))))"

section \<open>What the operations on sessions keep\<close>

lemma session_edits:
  assumes k: "get_session s k = Some m"
    and step: "s' = s\<lparr>cx_sessions := AList.update k m' (cx_sessions s), cx_refs := refs, cx_error_seq := n,
      cx_mount_activity := act, cx_mount_events := ev, cx_effects := eff\<rparr>"
    and refs: "\<And>c. refs c - int (count_list (session_claims m') c) =
        cx_refs s c - int (count_list (session_claims m) c)"
    and m': "session_ok m \<Longrightarrow> session_ok m'"
  shows "edits s s'"
proof (rule unbooked_code_edits)
  show "same_books s s'"
    by (rule session_step_books [OF k, where m' = m']) (simp_all add: step refs)
  show "sessions_ok s'" if "sessions_ok s"
    using put_session_ok [OF that m' [OF get_session_ok [OF that k]], of k]
    by (simp add: sessions_ok_def step put_session_def)
qed (simp_all add: step)

lemma upd_session_edits:
  assumes "\<And>m. session_claims (f m) = session_claims m" and "\<And>m. session_ok m \<Longrightarrow> session_ok (f m)"
  shows "edits s (upd_session k f s)"
proof (cases "get_session s k")
  case (Some m)
  show ?thesis
    by (rule session_edits [OF Some, where m' = "f m" and refs = "cx_refs s" and n = "cx_error_seq s"
          and act = "cx_mount_activity s" and ev = "cx_mount_events s" and eff = "cx_effects s"])
       (simp_all add: assms upd_session_def put_session_def Some)
qed (simp add: upd_session_def)

lemma side_edits:
  assumes "s' = s\<lparr>cx_error_seq := n, cx_mount_activity := act, cx_mount_events := ev, cx_effects := eff,
      cx_sync := sy, cx_mount_cut_seq := cu\<rparr>"
  shows "edits s s'"
  by (rule unbooked_code_edits, rule same_books_unbooked) (simp_all add: assms sessions_ok_def)

lemma side_steps [edit_intros]:
  "edits s (mount_event e s)" "edits s (mount_touch s)" "edits s (add_effect x s)"
  "edits s (s\<lparr>cx_error_seq := n\<rparr>)" "edits s (s\<lparr>cx_sync := sy\<rparr>)" "edits s (s\<lparr>cx_mount_cut_seq := q\<rparr>)"
proof -
  show "edits s (mount_event e s)"
    by (rule side_edits [where n = "cx_error_seq s" and act = "cx_mount_activity s" and eff = "cx_effects s"
          and sy = "cx_sync s" and cu = "cx_mount_cut_seq s"]) (simp add: mount_event_def)
  show "edits s (mount_touch s)"
    by (rule side_edits [where n = "cx_error_seq s" and ev = "cx_mount_events s" and eff = "cx_effects s"
          and sy = "cx_sync s" and cu = "cx_mount_cut_seq s"]) (simp add: mount_touch_def)
  show "edits s (add_effect x s)"
    by (rule side_edits [where n = "cx_error_seq s" and act = "cx_mount_activity s" and ev = "cx_mount_events s"
          and sy = "cx_sync s" and cu = "cx_mount_cut_seq s"]) (simp add: add_effect_def)
  show "edits s (s\<lparr>cx_error_seq := n\<rparr>)"
    by (rule side_edits [where act = "cx_mount_activity s" and ev = "cx_mount_events s" and eff = "cx_effects s"
          and sy = "cx_sync s" and cu = "cx_mount_cut_seq s"]) simp
  show "edits s (s\<lparr>cx_sync := sy\<rparr>)"
    by (rule side_edits [where n = "cx_error_seq s" and act = "cx_mount_activity s" and ev = "cx_mount_events s"
          and eff = "cx_effects s" and cu = "cx_mount_cut_seq s"]) simp
  show "edits s (s\<lparr>cx_mount_cut_seq := q\<rparr>)"
    by (rule side_edits [where n = "cx_error_seq s" and act = "cx_mount_activity s" and ev = "cx_mount_events s"
          and eff = "cx_effects s" and sy = "cx_sync s"]) simp
qed

lemma request_edits [edit_intros]: "edits s (mount_request k c force s)"
  by (rule unbooked_code_edits [OF mount_request_books])
     (simp_all add: mount_request_ok, simp_all add: mount_request_def mount_event_def mount_touch_def put_session_def
        incref_def release_delivery_def release_refs split: option.split)

lemma dispatch_edits [edit_intros]: "edits s (mount_dispatch X k now s)"
  by (rule unbooked_code_edits [OF mount_dispatch_books])
     (simp_all add: mount_dispatch_ok, simp_all add: mount_dispatch_def Let_def put_session_def add_effect_def
        mount_event_def release_refs split: option.split)

lemma run_effects_edits [edit_intros]: "edits s (run_effects s)"
  using run_effects_books [of s] run_effects_step [of s] run_effects_ok [of s]
  by (simp add: edits_def side_only_fields [OF run_effects_side])

lemma mount_sense_error_edits [edit_intros]: "edits s (mount_sense_error k s)"
proof -
  have "edits s1 (upd_session k (\<lambda>m. m\<lparr>ms_sense_error := e\<rparr>) s1)" for e s1
    by (rule upd_session_edits) (simp_all add: session_claims_def session_ok_def)
  then show ?thesis
    unfolding mount_sense_error_def fresh_error_def prod.case using side_steps(4) edits_trans by blast
qed

lemma release_delivery_refs:
  "release_delivery d s =
   s\<lparr>cx_refs := \<lambda>c. cx_refs s c - int (count_list (case d of None \<Rightarrow> [] | Some x \<Rightarrow> [dl_checksum x]) c)\<rparr>"
  by (cases d) (simp_all add: release_delivery_def release_refs)

lemma drop_pending_edits [edit_intros]: "edits s (drop_pending k s)"
proof (cases "get_session s k")
  case (Some m)
  show ?thesis
    by (rule session_edits [OF Some, where m' = "m\<lparr>ms_pending := None\<rparr>" and n = "cx_error_seq s"
          and refs = "\<lambda>c. cx_refs s c - int (count_list (case ms_pending m of None \<Rightarrow> [] | Some x \<Rightarrow> [dl_checksum x]) c)"
          and act = "cx_mount_activity s" and ev = "cx_mount_events s" and eff = "cx_effects s"])
       (simp_all add: drop_pending_def Some put_session_def release_delivery_refs session_claims_def session_ok_def)
qed (simp add: drop_pending_def)

lemma incref_all_refs: "incref_all cs s = s\<lparr>cx_refs := \<lambda>d. cx_refs s d + int (count_list cs d)\<rparr>"
proof (induction cs arbitrary: s)
  case (Cons c cs)
  show ?case unfolding incref_all.simps Cons incref_refs by (simp, rule refs_cong) simp
qed simp

lemma hold_leaves_edits [edit_intros]: "edits s (mount_hold_leaves k ct ob s)"
proof (cases "List.member [''folder'', ''deepfolder''] ct")
  case True
  let ?new = "drop 1 (ob_leases ob)"
  let ?s = "mount_hold_leaves k ct ob s"
  have s: "?s = s\<lparr>cx_refs := \<lambda>d. cx_refs s d + int (count_list ?new d)
        - int (count_list (case map_of (cx_node_leaves s) (fst k) of None \<Rightarrow> [] | Some old \<Rightarrow> old) d),
      cx_node_leaves := AList.update (fst k) ?new (cx_node_leaves s)\<rparr>"
    using True by (simp add: mount_hold_leaves_def Let_def incref_all_refs release_all_refs)
  have "same_books s ?s"
  proof (rule same_booksI)
    assume "wf_ctx s"
    then have wf: "wf_dict (cx_node_leaves s)" by (simp add: wf_ctx_def)
    show "cx_refs ?s c - held_count ?s c = cx_refs s c - held_count s c" for c
      using value_count_update [OF wf, of "\<lambda>cs. cs" "fst k" ?new c]
      by (simp add: s held_count_def split: option.splits)
    show "wf_ctx ?s" using \<open>wf_ctx s\<close> by (simp add: s wf_ctx_def)
  qed
  then show ?thesis by (rule unbooked_code_edits) (simp_all add: s sessions_ok_def)
qed (simp add: mount_hold_leaves_def)

lemma upd_session_steps [edit_intros]:
  "edits s (upd_session k (\<lambda>m. m\<lparr>ms_last_synced := v\<rparr>) s)"
  "edits s (upd_session k (\<lambda>m. m\<lparr>ms_sense_error := e\<rparr>) s)"
  "edits s (upd_session k (\<lambda>m. m\<lparr>ms_error := e\<rparr>) s)"
  "edits s (upd_session k (\<lambda>m. m\<lparr>ms_processed_ws := w, ms_disk := d, ms_fingerprint := f\<rparr>) s)"
  "edits s (upd_session k (\<lambda>m. if ms_pending m = None then m\<lparr>ms_initial_done := b\<rparr> else m) s)"
  by (rule upd_session_edits; simp add: session_claims_def session_ok_def)+

lemma edits_if [edit_intros]: "edits s a \<Longrightarrow> edits s b \<Longrightarrow> edits s (if c then a else b)"
  by simp

lemma edits_if_id [edit_intros]: "edits s (f s) \<Longrightarrow> edits s ((if c then f else id) s)"
  by simp

lemma sense_root_editing [edit_intros]: "editing (sense_root X k c ct)"
proof -
  have "editing (bnd (lift_res r) (\<lambda>_. set_cell_root_with_edges X (fst k) (Some c) ct False))" for r :: "exc + unit"
    by (intro edit_intros)
  then show ?thesis unfolding sense_root_def by (intro editingI) (rule editing_run)
qed

lemma sense_null_editing [edit_intros]: "editing (mount_sense_null X k ct)"
  unfolding mount_sense_null_def
  by (intro edit_intros edits_trans [OF upd_session_steps(1) side_steps(2)])

lemma mount_sense_editing [edit_intros]: "editing (mount_sense X k ct ob)"
  unfolding mount_sense_def
  by (intro edit_intros edits_trans [OF edits_trans [OF edits_trans [OF hold_leaves_edits upd_session_steps(1)]
        drop_pending_edits] side_steps(2)])

lemma initial_step_editing [edit_intros]: "editing (initial_step X k sp ct ob seen action)"
  unfolding initial_step_def by (cases action) (auto intro!: edit_intros simp del: modify_run)

lemma initial_rest_edits [edit_intros]: "edits s (initial_rest X k sp ct ob seen action s)"
  unfolding initial_rest_def Let_def
  by (intro edits_trans [OF _ edits_if [OF upd_session_steps(5) edits_refl]]
      edits_trans [OF _ edits_if [OF request_edits edits_refl]]
      edits_trans [OF _ edits_if [OF hold_leaves_edits edits_refl]] edits_if request_edits edits_refl)

lemma announce_edits [edit_intros]: "edits s (announce k action s)"
  by (simp add: announce_def edits_trans [OF side_steps(3) side_steps(1)] split: option.split)

lemma new_session_edits:
  assumes "get_session s k = None"
  shows "edits s (put_session k (new_session p sp reg ob seen) s)"
proof (rule unbooked_code_edits)
  let ?m = "new_session p sp reg ob seen"
  show "same_books s (put_session k ?m s)"
  proof (rule same_booksI)
    assume "wf_ctx s"
    then have wf: "wf_dict (cx_sessions s)" by (simp add: wf_ctx_def)
    have "map_of (cx_sessions s) k = None" using assms by (simp add: get_session_def)
    then have "value_count session_claims (AList.update k ?m (cx_sessions s)) c = value_count session_claims (cx_sessions s) c" for c
      using value_count_update [OF wf, of session_claims k ?m c] by (simp add: new_session_def session_claims_def)
    then show "cx_refs (put_session k ?m s) c - held_count (put_session k ?m s) c = cx_refs s c - held_count s c" for c
      by (simp add: held_count_def put_session_def)
    show "wf_ctx (put_session k ?m s)" using \<open>wf_ctx s\<close> by (simp add: wf_ctx_def put_session_def)
  qed
  show "sessions_ok (put_session k ?m s)" if "sessions_ok s"
    using that by (rule put_session_ok) (simp add: session_ok_def new_session_def)
qed (simp_all add: put_session_def)

lemma attached_node_edits: "edits s (upd_node p (attached_node sp) s)" "edits s (upd_node p (detached_node d) s)"
  by (rule upd_node_edits; simp add: attached_node_def detached_node_def)+

lemma sessions_upd_node [simp]: "cx_sessions (upd_node p f s) = cx_sessions s"
  by (simp add: upd_node_def put_node_def split: option.split)

lemma attach_body_editing: "editing (attach_body X now p sp reg ob)"
proof (rule editingI)
  fix s
  show "edits s (snd (attach_body X now p sp reg ob s))"
  proof (cases "mount_validate X s p sp")
    case (Inl e)
    then show ?thesis by (simp add: attach_body_def)
  next
    case (Inr ct)
    define k where "k = (p, spec_driver sp)"
    have "get_session s k = None"
      using Inr by (auto simp: mount_validate_def k_def split: option.splits if_splits)
    then have "get_session (upd_node p (attached_node sp) s) k = None"
      by (simp add: get_session_def)
    from edits_trans [OF attached_node_edits(1) new_session_edits [OF this]]
    have new: "edits s (put_session k (new_session p sp reg ob seen) (upd_node p (attached_node sp) s))" for seen .
    have rest: "editing (bnd (initial_step X k sp ct ob seen action) (\<lambda>_.
        bnd (modify (initial_rest X k sp ct ob seen action)) (\<lambda>_.
        bnd (modify (announce k action)) (\<lambda>_. derive_all X now))))" for seen action ct
      by (intro edit_intros)
    show ?thesis
      using editing_after [OF new rest] by (simp add: attach_body_def Inr k_def Let_def)
  qed
qed

lemma observed_root_editing [edit_intros]: "editing (observed_root X k m ob kind)"
  unfolding observed_root_def by (intro edit_intros)

lemma canonical_write_editing [edit_intros]: "editing (canonical_write k m ob kind nd)"
  unfolding canonical_write_def by (rule editingI) (auto intro: edit_intros split: option.split)

lemma tripped_edits: "edits s (tripped k s)"
proof -
  have "edits s1 (drop_pending k (upd_session k (\<lambda>m. m\<lparr>ms_state := S_tripped, ms_error := e\<rparr>) s1))" for e s1
  proof (cases "get_session s1 k")
    case (Some m)
    have eq: "drop_pending k (upd_session k (\<lambda>m. m\<lparr>ms_state := S_tripped, ms_error := e\<rparr>) s1) =
        put_session k (m\<lparr>ms_state := S_tripped, ms_error := e, ms_pending := None\<rparr>)
          (release_delivery (ms_pending m) (put_session k (m\<lparr>ms_state := S_tripped, ms_error := e\<rparr>) s1))"
      by (simp add: drop_pending_def upd_session_def Some)
    show ?thesis
      by (rule session_edits [OF Some, where n = "cx_error_seq s1" and act = "cx_mount_activity s1"
            and m' = "m\<lparr>ms_state := S_tripped, ms_error := e, ms_pending := None\<rparr>"
            and refs = "\<lambda>c. cx_refs s1 c - int (count_list (case ms_pending m of None \<Rightarrow> [] | Some x \<Rightarrow> [dl_checksum x]) c)"
            and ev = "cx_mount_events s1" and eff = "cx_effects s1"])
         (simp_all add: eq put_session_def release_delivery_refs session_claims_def session_ok_def)
  qed (simp add: drop_pending_def upd_session_def)
  then show ?thesis unfolding tripped_def fresh_error_def prod.case using side_steps(4) edits_trans by blast
qed

lemma reassert_step_editing [edit_intros]: "editing (reassert_step now k kind nd)"
proof (rule editingI)
  fix s
  show "edits s (snd (reassert_step now k kind nd s))"
  proof (cases "get_session s k")
    case (Some m)
    obtain recent trips where d: "detector (ms_reasserts m) now = (recent, trips)" by force
    let ?s1 = "mount_event (Ev_reassert (ms_id m) trips) (put_session k (m\<lparr>ms_reasserts := recent\<rparr>) s)"
    have p: "edits s (put_session k (m\<lparr>ms_reasserts := recent\<rparr>) s)"
      by (rule session_edits [OF Some, where m' = "m\<lparr>ms_reasserts := recent\<rparr>" and n = "cx_error_seq s"
            and act = "cx_mount_activity s" and ev = "cx_mount_events s" and eff = "cx_effects s" and refs = "cx_refs s"])
         (simp_all add: put_session_def session_claims_def session_ok_def)
    have s1: "edits s ?s1" by (rule edits_trans [OF p side_steps(1)])
    have t: "edits s (tripped k ?s1)" "edits s (mount_request k c False ?s1)" for c
      using s1 tripped_edits request_edits edits_trans by blast+
    have lone: "edits s (upd_session k (\<lambda>m. m\<lparr>ms_state := S_tripped\<rparr>) ?s1)"
      by (rule edits_trans [OF s1 upd_session_edits]) (simp_all add: session_claims_def session_ok_def)
    show ?thesis
      using s1 t lone by (auto simp: reassert_step_def Some d Let_def split: option.split)
  qed (simp add: reassert_step_def)
qed

lemma observed_body_editing: "editing (observed_body X now k m ob)"
proof -
  have a: "editing (bnd (canonical_write k m ob kind nd) (\<lambda>_.
      bnd (modify (if nd_current nd = Some (ob_checksum ob) then mount_hold_leaves k ct ob else id)) (\<lambda>_.
      bnd (reassert_step now k kind nd) (\<lambda>_. derive_all X now))))" for kind nd ct
    by (intro edit_intros)
  have b: "editing (\<lambda>s. case get_node s (fst k) of None \<Rightarrow> (Inl Key_Error, s)
      | Some nd \<Rightarrow> bnd (canonical_write k m ob kind nd) (\<lambda>_.
          bnd (modify (if nd_current nd = Some (ob_checksum ob) then mount_hold_leaves k ct ob else id)) (\<lambda>_.
          bnd (reassert_step now k kind nd) (\<lambda>_. derive_all X now))) s)" for kind ct
    by (rule editingI) (simp add: editing_run [OF a] split: option.split)
  show ?thesis
    unfolding observed_body_def Let_def by (intro edit_intros b)
qed

text \<open>Releasing leases takes exactly them off the ledger and keeps the rest.\<close>

definition takes :: "checksum list \<Rightarrow> ctx \<Rightarrow> ctx \<Rightarrow> bool" where
  "takes leases s s' \<longleftrightarrow>
     (wf_ctx s \<longrightarrow> wf_ctx s' \<and> (\<forall>c. ledger s' c = ledger s c - int (count_list leases c)))
     \<and> ledger_step s s' \<and> (edges_ok (cx_graph s) \<longrightarrow> edges_ok (cx_graph s'))
     \<and> symbols_grow (g_symbols (cx_graph s)) (g_symbols (cx_graph s'))
     \<and> (sessions_ok s \<longrightarrow> sessions_ok s')"

lemma release_all_frame:
  "wf_ctx (release_all cs s) = wf_ctx s" "sessions_ok (release_all cs s) = sessions_ok s"
  "cx_graph (release_all cs s) = cx_graph s" "cx_runtime (release_all cs s) = cx_runtime s"
  "ledger (release_all cs s) c = ledger s c - int (count_list cs c)"
  by (simp_all add: release_all_refs wf_ctx_def sessions_ok_def ledger_def held_count_def)

lemma release_leases: "edits s s' \<Longrightarrow> takes leases s (release_all leases s')"
  by (simp add: takes_def edits_def same_books_def release_all_frame ledger_step_def)

lemma takes_healthy: "takes leases s s' \<Longrightarrow> healthy s \<Longrightarrow>
    healthy s' \<and> ledger s' c = ledger s c - int (count_list leases c)"
  by (simp add: takes_def healthy_def symbols_grow_def ledger_step_def run_step_def)

lemma mount_attach_takes: "takes (ob_leases ob) s (snd (mount_attach X now p sp reg ob s))"
  using release_leases [OF editing_run [OF attach_body_editing], of "ob_leases ob" s X now p sp reg ob]
  by (simp add: mount_attach_def prod.case_eq_if)

lemma mount_observed_takes: "takes (ob_leases ob) s (mount_observed X now ob s)"
proof -
  have "edits s (case observed_body X now k m ob s of
      (Inr _, s') \<Rightarrow> s'
    | (Inl _, s') \<Rightarrow> (case fresh_error Mount_Error s' of (err, s2) \<Rightarrow> upd_session k (\<lambda>m. m\<lparr>ms_error := Some err\<rparr>) s2))"
    for k m
  proof -
    obtain r s' where b: "observed_body X now k m ob s = (r, s')" by force
    have "edits s s'" using editing_run [OF observed_body_editing, of s X now k m ob] b by simp
    then show ?thesis
      using edits_trans [OF edits_trans [OF _ side_steps(4)] upd_session_steps(3)]
      by (cases r) (simp_all add: b fresh_error_def)
  qed
  then show ?thesis
    unfolding mount_observed_def by (intro release_leases) (simp split: option.split)
qed

lemma session_drop_books:
  assumes "get_session s k = Some m"
    and "s' = s\<lparr>cx_sessions := AList.delete k (cx_sessions s),
      cx_refs := \<lambda>c. cx_refs s c - int (count_list (session_claims m) c)\<rparr>"
  shows "edits s s'"
proof (rule unbooked_code_edits)
  have m: "map_of (cx_sessions s) k = Some m" using assms(1) by (simp add: get_session_def)
  show "same_books s s'"
  proof (rule same_booksI)
    assume "wf_ctx s"
    then have wf: "wf_dict (cx_sessions s)" by (simp add: wf_ctx_def)
    show "cx_refs s' c - held_count s' c = cx_refs s c - held_count s c" for c
      using value_count_delete [OF wf, of session_claims k c] m by (simp add: assms(2) held_count_def)
    show "wf_ctx s'" using \<open>wf_ctx s\<close> by (simp add: wf_ctx_def assms(2))
  qed
  have "set (AList.delete k (cx_sessions s)) \<subseteq> set (cx_sessions s)"
    by (simp add: AList.delete_eq)
  then show "sessions_ok s \<Longrightarrow> sessions_ok s'" by (auto simp: sessions_ok_def assms(2))
qed (simp_all add: assms(2))

lemma drop_session_edits [edit_intros]: "edits s (drop_session k s)"
proof (cases "get_session s k")
  case (Some m)
  have "edits s (release_delivery (ms_in_flight m) (release_delivery (ms_pending m)
      (s\<lparr>cx_sessions := AList.delete k (cx_sessions s)\<rparr>)))"
    by (rule session_drop_books [OF Some])
       (simp add: release_delivery_refs session_claims_def, rule refs_cong, simp add: algebra_simps)
  then show ?thesis
    unfolding drop_session_def Some option.case by (rule edits_trans [OF _ attached_node_edits(2)])
qed (simp add: drop_session_def)

lemma fold_edits: "(\<And>x s. edits s (f x s)) \<Longrightarrow> edits s (fold f xs s)"
  by (induction xs arbitrary: s) (auto intro: edits_trans)

lemma drop_sessions_edits [edit_intros]: "edits s (drop_sessions p s)"
  unfolding drop_sessions_def by (intro fold_edits drop_session_edits)

lemma close_finish_edits [edit_intros]: "edits s (mount_close_finish s)"
  unfolding mount_close_finish_def by (intro fold_edits drop_session_edits)

lemma mount_detach_editing [edit_intros]:
  "editing (mount_detach X now k derive)" "editing (mount_detach_all X now p derive)"
  by (intro editingI; simp add: mount_detach_def mount_detach_all_def editing_after drop_session_edits
      drop_sessions_edits derive_all_editing split: option.split)+

lemma push_value_edits [edit_intros]: "edits s (push_value k m nd s)"
  by (auto simp: push_value_def Let_def edit_intros edits_trans [OF upd_session_steps(1) request_edits]
      split: option.split)

lemma after_turn_loop_editing [edit_intros]: "editing (after_turn_loop X now ks)"
proof (induction ks)
  case Nil
  show ?case by (rule editingI) simp
next
  case (Cons k ks)
  have "editing (bnd (mount_detach X now k True) (\<lambda>_. after_turn_loop X now ks))"
    by (intro edit_intros Cons)
  then show ?case
    by (intro editingI)
       (simp add: editing_run editing_run [OF Cons]
          editing_after [OF edits_trans [OF push_value_edits dispatch_edits] Cons] split: option.split)
qed

lemma mount_after_turn_editing [edit_intros]: "editing (mount_after_turn X now)"
  unfolding mount_after_turn_def by (rule editingI) (rule editing_run [OF after_turn_loop_editing])

lemma mount_tick_edits [edit_intros]: "edits s (mount_tick X now s)"
proof -
  have "edits s (fold (\<lambda>k s. case get_session s k of None \<Rightarrow> s
      | Some m \<Rightarrow> (if spec_persistent (ms_spec m) \<and> ms_pending m \<noteq> None \<and> ms_error m = None
                  then mount_dispatch X k now s else s)) ks s)" for ks
    by (rule fold_edits) (simp add: dispatch_edits split: option.split)
  then show ?thesis
    unfolding mount_tick_def using edits_trans [OF _ run_effects_edits] by simp
qed

lemma start_barrier_edits: "start_barrier b s = (b', s') \<Longrightarrow> edits s s'"
  using edits_trans [OF side_steps(6) fold_edits [OF side_steps(3)]]
  by (auto simp: start_barrier_def Let_def)

lemma check_barrier_edits: "check_barrier b s = (ready, b', s') \<Longrightarrow> edits s s'"
  by (auto simp: check_barrier_def Let_def start_barrier_edits split: option.splits if_splits prod.splits)

lemma barrier_edits [edit_intros]: "edits s (mount_sync i s)" "edits s (mount_cut j n s)"
  by (simp_all add: mount_sync_def mount_cut_def side_steps(5))

lemma clear_error_editing [edit_intros]: "editing (mount_clear_error k)"
proof (rule editingI)
  fix s
  show "edits s (snd (mount_clear_error k s))"
  proof (cases "get_session s k")
    case (Some m)
    let ?m = "m\<lparr>ms_error := None, ms_state := S_active, ms_reasserts := [], ms_retry_at := 0\<rparr>"
    have "edits s (put_session k ?m s)"
      by (rule session_edits [OF Some, where m' = ?m and n = "cx_error_seq s"
            and act = "cx_mount_activity s" and ev = "cx_mount_events s" and eff = "cx_effects s" and refs = "cx_refs s"])
         (simp_all add: put_session_def session_claims_def session_ok_def)
    then show ?thesis
      using edits_trans [OF _ request_edits]
      by (auto simp: mount_clear_error_def Some Let_def split: option.split)
  qed (simp add: mount_clear_error_def)
qed

section \<open>Properties\<close>

text \<open>C21: Whatever a transport reports, the Context stays healthy and the leases that came with the
  report are given back exactly once: attaching, also where it is refused or fails half-way, and an
  observation, also where its handling raises.\<close>

theorem reports_consume_their_leases:
  assumes "healthy s"
  shows "healthy (mount_observed X now ob s)
    \<and> ledger (mount_observed X now ob s) c = ledger s c - int (count_list (ob_leases ob) c)
    \<and> healthy (snd (mount_attach X now p sp reg ob s))
    \<and> ledger (snd (mount_attach X now p sp reg ob s)) c = ledger s c - int (count_list (ob_leases ob) c)"
  using takes_healthy [OF mount_observed_takes assms] takes_healthy [OF mount_attach_takes assms] by blast

definition seen_file :: observation where
  "seen_file = \<lparr>ob_session = ''s1'', ob_ws = 1, ob_fingerprint = Some ''f'', ob_checksum = ''dd'',
     ob_leases = [''dd''], ob_no_value = False, ob_canonical_write = False\<rparr>"

theorem reports_consume_their_leases_witness:
  "ledger (mount_observed plain_ext 0 seen_file (init_ctx ''top'')) ''dd'' = ledger (init_ctx ''top'') ''dd'' - 1"
  using reports_consume_their_leases [OF init_healthy, of plain_ext 0 seen_file _ "''dd''"]
  by (simp add: seen_file_def)

lemma get_upd_session: "get_session (upd_session k f s) k = map_option f (get_session s k)"
  by (simp add: upd_session_def split: option.split)

lemma get_drop_pending: "get_session (drop_pending k s) k = map_option (\<lambda>m. m\<lparr>ms_pending := None\<rparr>) (get_session s k)"
  by (simp add: drop_pending_def split: option.split)

lemma get_session_touch [simp]: "get_session (mount_touch s) k = get_session s k"
  by (simp add: get_session_def)

text \<open>Sensing a value replaces the delivery that was pending before, and the plain push that follows it requests
  none of the sensed value. Only a file whose bytes are not the canonical form of the value is written again: the end
  of the turn requests that delivery by itself, with force.\<close>

theorem sensed_value_not_echoed:
  assumes "mount_sense X k ct ob s = (Inr (), s')" and "get_session s' k = Some m"
    and "get_node s' (fst k) = Some nd" and "nd_current nd = Some (ob_checksum ob)"
  shows "push_value k m nd s' = s' \<and> ms_pending m = None"
proof -
  from assms(1) obtain s1 where
    "s' = mount_touch (drop_pending k
       (upd_session k (\<lambda>m. m\<lparr>ms_last_synced := Some (ob_checksum ob)\<rparr>) (mount_hold_leaves k ct ob s1)))"
    unfolding mount_sense_def by (elim bnd_Inr_cases) (auto dest: sym)
  with assms(2) have "ms_last_synced m = Some (ob_checksum ob) \<and> ms_pending m = None"
    by (auto simp: get_drop_pending get_upd_session)
  with assms(4) show ?thesis by (simp add: push_value_def)
qed

definition sensed_ctx :: ctx where
  "sensed_ctx = (init_ctx ''top'')\<lparr>
     cx_graph := empty_graph\<lparr>g_nodes := [([KStr ''a''],
       (new_cell ''text'')\<lparr>nd_current := Some ''dd'', nd_state := Complete\<rparr>)]\<rparr>,
     cx_sessions := [(([KStr ''a''], ''file''), file_session)]\<rparr>"

theorem sensed_value_not_echoed_witness:
  "ms_pending (the (get_session (snd (mount_sense plain_ext ([KStr ''a''], ''file'') ''text'' seen_file sensed_ctx))
     ([KStr ''a''], ''file''))) = None"
proof -
  let ?k = "([KStr ''a''], ''file'')"
  let ?r = "mount_sense plain_ext ?k ''text'' seen_file sensed_ctx"
  have "fst ?r = Inr ()" by code_simp
  then have r: "?r = (Inr (), snd ?r)" by (metis prod.collapse)
  have "get_session (snd ?r) ?k \<noteq> None" by code_simp
  then have m: "get_session (snd ?r) ?k = Some (the (get_session (snd ?r) ?k))" by simp
  have "get_node (snd ?r) (fst ?k) \<noteq> None" by code_simp
  then have n: "get_node (snd ?r) (fst ?k) = Some (the (get_node (snd ?r) (fst ?k)))" by simp
  have "nd_current (the (get_node (snd ?r) (fst ?k))) = Some (ob_checksum seen_file)" by code_simp
  from sensed_value_not_echoed [OF r m n this] show ?thesis by blast
qed

end
