(* ===== verification/Edit_Nodes.thy ===== *)
theory Edit_Nodes
  imports Mount_Runtime
begin

text \<open>
  Assigning to and deleting the nodes of a Context (\<^verbatim>\<open>context.py\<close>): deleting a subtree, creating
  and replacing cells and transformers from prepared builders, publishing a configuration,
  clearing an exception, and giving everything up when the Context closes.

  What ingress prepares outside the controller is the argument of these operations: a prepared
  cell with its input, and a prepared transformer with its configuration and its arguments. An
  Expression that cannot be unfolded into links is its token.
\<close>

section \<open>Deleting\<close>

definition add_node :: "path \<Rightarrow> node \<Rightarrow> ctx \<Rightarrow> ctx" where
  "add_node = put_node"

definition create_cell :: "path \<Rightarrow> celltype \<Rightarrow> (ctx, unit) oper" where
  "create_cell p celltype s =
     (if get_node s p \<noteq> None then (Inl Node_Error, s) else (Inr (), add_node p (new_cell celltype) s))"

definition release_node_producers :: "node \<Rightarrow> ctx \<Rightarrow> ctx" where
  "release_node_producers nd s =
     fold (\<lambda>(_, producer). release_producer producer) (nd_pin_producers nd)
       (release_optional (nd_root_producer nd) s)"

text \<open>The runs of a node are taken out of the ledger and cancelled.\<close>

definition drop_runs :: "path \<Rightarrow> ctx \<Rightarrow> ctx" where
  "drop_runs p s =
     (let records = held_runs s p @ (case current_run s p of None \<Rightarrow> [] | Some r \<Rightarrow> [r]);
          rt = cx_runtime s
      in add_effects (cancel_effects records)
           (set_runtime (rt\<lparr>rt_superseded := AList.delete p (rt_superseded rt),
                            rt_current := AList.delete p (rt_current rt)\<rparr>) s))"

definition take_node :: "path \<Rightarrow> ctx \<Rightarrow> ctx" where
  "take_node p s = s\<lparr>cx_graph := (cx_graph s)\<lparr>g_nodes := AList.delete p (g_nodes (cx_graph s))\<rparr>\<rparr>"

definition release_current :: "checksum option \<Rightarrow> ctx \<Rightarrow> ctx" where
  "release_current c = (case c of None \<Rightarrow> id | Some x \<Rightarrow> release x)"

definition delete_node :: "path \<Rightarrow> ctx \<Rightarrow> ctx" where
  "delete_node p s =
     (let s1 = drop_node_leaves p (drop_sessions p s)
      in case get_node s1 p of
           None \<Rightarrow> s1
         | Some nd \<Rightarrow>
             drop_runs p (release_code_checksum p
               (release_node_producers nd (release_current (nd_current nd) (take_node p s1)))))"

definition prune_edges :: "path \<Rightarrow> ctx \<Rightarrow> ctx" where
  "prune_edges p s =
     s\<lparr>cx_graph := (cx_graph s)\<lparr>
         g_namespaces := filter (\<lambda>q. take (length p) q \<noteq> p) (g_namespaces (cx_graph s)),
         g_edges := filter (\<lambda>e. take (length p) (ed_source e) \<noteq> p \<and> take (length p) (ed_target e) \<noteq> p)
                      (g_edges (cx_graph s))\<rparr>\<rparr>"

definition delete_subtree :: "ext \<Rightarrow> real \<Rightarrow> path \<Rightarrow> (ctx, unit) oper" where
  "delete_subtree X now p s =
     (let s1 = prune_edges p (fold delete_node (descendants (cx_graph s) p) s)
      in bnd (sync_module_refholds X) (\<lambda>_.
         bnd (sync_superseded_refholds X) (\<lambda>_.
         derive_all X now)) s1)"

definition delete_path :: "ext \<Rightarrow> real \<Rightarrow> path \<Rightarrow> (ctx, unit) oper" where
  "delete_path X now p s =
     (if take 1 p = [KStr ''shares''] then (Inl Path_Error, s)
      else if get_node s p \<noteq> None \<or> List.member (g_namespaces (cx_graph s)) p \<or> has_prefix (cx_graph s) p
      then delete_subtree X now p s
      else case resolve_existing (cx_graph s) p of
        None \<Rightarrow> (Inr (), s)
      | Some (n, local) \<Rightarrow>
          (case get_node s n of
             None \<Rightarrow> (Inr (), s)
           | Some nd \<Rightarrow>
               (if nd_kind nd = Cell_kind then cell_delete_path X now n local s
                else case local of
                  [KStr pin] \<Rightarrow> delete_transformer_pin X now n pin s
                | [_] \<Rightarrow> (Inl Attribute_Error, s)
                | _ \<Rightarrow> (Inr (), s))))"

section \<open>Prepared cells\<close>

text \<open>A chain of Expressions over a Checksum is the list of its links, the first one first.\<close>

datatype prepared_cell = Prepared (pc_config: cell_config) (pc_input_type: "celltype option") (pc_input: input_ref)
and input_ref =
    In_none
  | In_endpoint endpoint
  | In_cell prepared_cell
  | In_checksum checksum
  | In_chain checksum celltype "(path \<times> celltype) list"
  | In_expression string
  | In_other

text \<open>
  The path of a chain, its conversion steps, and the celltype it ends in.
\<close>

fun chain_steps :: "(path \<times> celltype) list \<Rightarrow> path \<Rightarrow> steps \<Rightarrow> celltype \<Rightarrow> path \<times> steps \<times> celltype" where
  "chain_steps [] local steps current = (local, steps, current)"
| "chain_steps ((components, celltype) # links) local steps current =
     (let local1 = local @ components;
          current1 = (if components \<noteq> [] then projected_celltype current components else current)
      in if celltype \<noteq> current1
         then chain_steps links local1 (steps @ [(int (length local1), celltype)]) celltype
         else chain_steps links local1 steps current1)"

definition chain_edge :: "path \<Rightarrow> path \<Rightarrow> celltype \<Rightarrow> (path \<times> celltype) list \<Rightarrow> edge" where
  "chain_edge source p root_type links =
     (case chain_steps links [] [] root_type of
        (local, steps, current) \<Rightarrow>
          \<lparr>ed_source = source @ local, ed_target = p, ed_source_celltype = Some current,
           ed_conversion = (steps \<noteq> []),
           ed_conversion_before = (case steps of (n, _) # _ \<Rightarrow> n = 0 | [] \<Rightarrow> False),
           ed_conversion_steps = steps, ed_chain = [], ed_deep_member = False\<rparr>)"

definition set_cell_config :: "path \<Rightarrow> cell_config \<Rightarrow> ctx \<Rightarrow> ctx" where
  "set_cell_config p cfg = upd_node p (\<lambda>nd. nd\<lparr>nd_cell_config := Some cfg\<rparr>)"

definition strip_mounts :: "path \<Rightarrow> ctx \<Rightarrow> ctx" where
  "strip_mounts p s =
     upd_node p (\<lambda>nd. nd\<lparr>nd_mount := None, nd_attachments := [], nd_mount_inactive := False\<rparr>) (drop_sessions p s)"

text \<open>The root is given up, or replaced by one that has been acquired.\<close>

definition give_up_root :: "path \<Rightarrow> cell_config \<Rightarrow> string option \<Rightarrow> ctx \<Rightarrow> ctx" where
  "give_up_root p cfg expression s =
     remove_edges p [] (put_root_producer p None
       (upd_node p (\<lambda>nd. nd\<lparr>nd_cell_config := Some cfg,
          nd_root_expression := (case expression of None \<Rightarrow> nd_root_expression nd | Some x \<Rightarrow> Some x)\<rparr>) s))"

definition bind_checksum :: "ext \<Rightarrow> path \<Rightarrow> cell_config \<Rightarrow> celltype \<Rightarrow> checksum \<Rightarrow> (ctx, unit) oper" where
  "bind_checksum X p cfg input_type checksum =
     bnd (retain_producer X checksum input_type (cc_scratch cfg)) (\<lambda>producer.
     modify (\<lambda>s. remove_edges p [] (put_root_producer p (Some producer) (set_cell_config p cfg s))))"

definition bind_chain ::
  "ext \<Rightarrow> real \<Rightarrow> path \<Rightarrow> cell_config \<Rightarrow> checksum \<Rightarrow> celltype \<Rightarrow> (path \<times> celltype) list \<Rightarrow> (ctx, unit) oper" where
  "bind_chain X now p cfg checksum root_type links s =
     (case first_free (cx_graph s) ''cell'' of
        None \<Rightarrow> (Inl Runtime_Error, s)
      | Some source \<Rightarrow>
          bnd (create_cell source root_type) (\<lambda>_.
          bnd (modify (upd_node source (\<lambda>nd. nd\<lparr>nd_cell_config :=
                 map_option (\<lambda>c. c\<lparr>cc_scratch := True\<rparr>) (nd_cell_config nd)\<rparr>))) (\<lambda>_.
          bnd (retain_producer X checksum root_type True) (\<lambda>producer.
          bnd (modify (upd_node source (\<lambda>nd. nd\<lparr>nd_root_producer := Some producer\<rparr>))) (\<lambda>_.
          bnd (modify (give_up_root p cfg None)) (\<lambda>_.
          add_edge X now (chain_edge source p root_type links) False))))) s)"

definition drop_root :: "path \<Rightarrow> cell_config \<Rightarrow> ctx \<Rightarrow> ctx" where
  "drop_root p cfg s = remove_edges p [] (drop_root_producer p (set_cell_config p cfg s))"

definition undo_with :: "('s, 'a) oper \<Rightarrow> ('s, unit) oper \<Rightarrow> ('s, 'a) oper" where
  "undo_with m undo s =
     (case m s of
        (Inr x, s') \<Rightarrow> (Inr x, s')
      | (Inl e, s') \<Rightarrow> bnd undo (\<lambda>_. raise e) s')"

definition plain_link :: "path \<Rightarrow> path \<Rightarrow> edge" where
  "plain_link source target =
     \<lparr>ed_source = source, ed_target = target, ed_source_celltype = None, ed_conversion = False,
      ed_conversion_before = False, ed_conversion_steps = [], ed_chain = [], ed_deep_member = False\<rparr>"

text \<open>
  The cell of an upstream builder gets a free name; when building it fails, it goes again. The
  configuration is put in place before the root, except where the root is an edge.
\<close>

definition feed_from ::
  "ext \<Rightarrow> real \<Rightarrow> path \<Rightarrow> celltype \<Rightarrow> (path \<Rightarrow> (ctx, unit) oper) \<Rightarrow> (ctx, unit) oper" where
  "feed_from X now p celltype build s =
     (case first_free (cx_graph s) ''cell'' of
        None \<Rightarrow> (Inl Runtime_Error, s)
      | Some upstream \<Rightarrow>
          bnd (create_cell upstream celltype) (\<lambda>_.
          bnd (undo_with (build upstream) (delete_subtree X now upstream)) (\<lambda>_.
          add_edge X now (plain_link upstream p) False)) s)"

definition prepare_replacement :: "path \<Rightarrow> ctx \<Rightarrow> ctx" where
  "prepare_replacement p s =
     upd_node p (\<lambda>nd. nd\<lparr>nd_root_expression := None\<rparr>)
       (if mount_has_attachments s p then strip_mounts p s else s)"

fun replace_cell :: "ext \<Rightarrow> real \<Rightarrow> prepared_cell \<Rightarrow> path \<Rightarrow> (ctx, unit) oper" where
  "replace_cell X now (Prepared cfg input_type ref) p s =
     (case get_node s p of
        None \<Rightarrow> (Inl Key_Error, s)
      | Some nd \<Rightarrow>
          (if mount_has_attachments s p \<and> cc_celltype cfg \<noteq> config_celltype nd then (Inl Value_Error, s)
           else bnd (modify (prepare_replacement p)) (\<lambda>_.
             case ref of
               In_none \<Rightarrow> modify (drop_root p cfg)
             | In_endpoint ep \<Rightarrow>
                 (\<lambda>s. bnd (add_endpoint_edge X now ep (cell_endpoint s p []) False) (\<lambda>_.
                      modify (set_cell_config p cfg)) s)
             | In_cell upstream \<Rightarrow>
                 bnd (feed_from X now p (cc_celltype (pc_config upstream)) (replace_cell X now upstream)) (\<lambda>_.
                 modify (set_cell_config p cfg))
             | In_checksum checksum \<Rightarrow>
                 bind_checksum X p cfg (if or_else input_type [] \<noteq> [] then or_else input_type [] else cc_celltype cfg) checksum
             | In_chain checksum root_type links \<Rightarrow> bind_chain X now p cfg checksum root_type links
             | In_expression expression \<Rightarrow> modify (give_up_root p cfg (Some expression))
             | In_other \<Rightarrow> raise Type_Error) s))"

definition create_cell_from_builder :: "ext \<Rightarrow> real \<Rightarrow> path \<Rightarrow> prepared_cell \<Rightarrow> (ctx, unit) oper" where
  "create_cell_from_builder X now p cell =
     bnd (create_cell p (cc_celltype (pc_config cell))) (\<lambda>_.
     undo_with (replace_cell X now cell p) (delete_subtree X now p))"

section \<open>Where views resolve\<close>

lemma resolve_from_cong:
  assumes "\<And>k. k \<le> n \<Longrightarrow> map_of (g_nodes h) (take k v) = None \<longleftrightarrow> map_of (g_nodes g) (take k v) = None"
  shows "resolve_from (g_nodes h) v n = resolve_from (g_nodes g) v n"
  using assms by (induction n) simp_all

text \<open>An edge list stays well formed when it loses edges and the others resolve as they did.\<close>

lemma edges_ok_sub:
  assumes ok: "edges_ok g" and edges: "g_edges h = filter P (g_edges g)"
    and src: "\<And>e. e \<in> set (g_edges h) \<Longrightarrow> resolve_existing h (ed_source e) = resolve_existing g (ed_source e)"
    and tgt: "\<And>e. e \<in> set (g_edges h) \<Longrightarrow> resolve_existing h (ed_target e) = resolve_existing g (ed_target e)"
    and cell: "\<And>n l. Some (n, l) \<in> set (edge_targets g) \<Longrightarrow> is_cell h n \<Longrightarrow> is_cell g n"
  shows "edges_ok h"
proof -
  have ends: "edge_ends h e = edge_ends g e" if "e \<in> set (g_edges h)" for e
    using src [OF that] tgt [OF that] by (simp add: edge_ends_def)
  have targets: "edge_targets h = map (\<lambda>e. resolve_existing g (ed_target e)) (filter P (g_edges g))"
    using tgt unfolding edge_targets_def edges by (intro map_cong) simp_all
  then have "set (edge_targets h) = (\<lambda>e. resolve_existing g (ed_target e)) ` {e \<in> set (g_edges g). P e}"
    by simp
  then have sub: "set (edge_targets h) \<subseteq> set (edge_targets g)"
    by (auto simp: edge_targets_def [of g])
  have "set (edge_pairs h) \<subseteq> set (edge_pairs g)"
    using ends unfolding edge_pairs_def List.map_filter_def edges by (auto simp: image_iff)
  then have "acyclic (set (edge_pairs h))"
    using ok acyclic_subset unfolding edges_ok_def by blast
  moreover have "distinct (edge_targets h)"
    using ok unfolding targets edges_ok_def edge_targets_def [of g] by (simp add: distinct_map_filter)
  moreover have "None \<notin> set (edge_targets h)" using ok sub unfolding edges_ok_def by blast
  moreover have "None \<notin> edge_ends h ` set (g_edges h)"
    using ok ends edges unfolding edges_ok_def by (auto simp: image_iff)
  moreover have "l = []" if "Some (n, []) \<in> set (edge_targets h)" "Some (n, l) \<in> set (edge_targets h)" "is_cell h n" for n l
    using ok subsetD [OF sub that(1)] subsetD [OF sub that(2)] cell that(3) unfolding edges_ok_def by blast
  ultimately show ?thesis unfolding edges_ok_def by blast
qed

lemma resolve_from_prefix:
  "resolve_from nodes v n = Some (p, l) \<Longrightarrow> \<exists>k. p = take k v \<and> k \<le> n \<and> 0 < k \<and> map_of nodes p \<noteq> None \<and> v = p @ l"
  by (induction n) (auto split: if_splits intro: le_SucI)

lemma resolve_from_none_iff: "resolve_from nodes v n = None \<longleftrightarrow> (\<forall>k \<le> n. 0 < k \<longrightarrow> map_of nodes (take k v) = None)"
proof (induction n)
  case (Suc n)
  then show ?case by (auto simp: le_Suc_eq)
qed simp

lemma edge_ends_resolve:
  assumes "edge_ends g e \<noteq> None"
  shows "(\<exists>a. resolve_existing g (ed_source e) = Some a) \<and> (\<exists>b. resolve_existing g (ed_target e) = Some b)"
  using assms
  by (cases "resolve_existing g (ed_source e)"; cases "resolve_existing g (ed_target e)")
     (simp_all add: edge_ends_def split: prod.splits)

text \<open>A new node whose name resolves nowhere takes no view away from another node.\<close>

lemma resolve_add:
  assumes fresh: "resolve_existing g p = None" and nodes: "g_nodes h = AList.update p nd (g_nodes g)"
    and v: "resolve_existing g v = Some r" and p: "p \<noteq> []"
  shows "resolve_existing h v = Some r"
proof -
  obtain n l where r: "r = (n, l)" by force
  have free: "map_of (g_nodes g) (take k p) = None" if "0 < k" for k
  proof -
    have "take k p = take (min k (length p)) p" by (cases "k \<le> length p") (simp_all add: min_def)
    moreover have "0 < min k (length p)" using that p by simp
    ultimately show ?thesis
      using fresh unfolding resolve_existing_def resolve_from_none_iff by (metis min.cobounded2)
  qed
  have m: "map_of (g_nodes h) q = None \<longleftrightarrow> map_of (g_nodes g) q = None \<and> q \<noteq> p" for q
    by (simp add: nodes)
  have "resolve_from (g_nodes h) v k = Some (n, l)" if "resolve_from (g_nodes g) v k = Some (n, l)" "k \<le> length v" for k
    using that
  proof (induction k)
    case (Suc k)
    show ?case
    proof (cases "map_of (g_nodes g) (take (Suc k) v) = None")
      case True
      with Suc.prems have below: "resolve_from (g_nodes g) v k = Some (n, l)" by simp
      then obtain j where j: "n = take j v" "j \<le> k" "0 < j" "map_of (g_nodes g) n \<noteq> None"
        using resolve_from_prefix by blast
      have "take (Suc k) v \<noteq> p"
      proof
        assume "take (Suc k) v = p"
        then have "take j p = n" using j Suc.prems(2) by (auto simp: min_def)
        with free [OF j(3)] j show False by simp
      qed
      with True m below Suc show ?thesis by simp
    next
      case False
      with Suc.prems m show ?thesis by (auto simp: nodes)
    qed
  qed simp
  with v show ?thesis by (simp add: resolve_existing_def r)
qed

lemma add_node_edges_ok:
  assumes ok: "edges_ok (cx_graph s)" and fresh: "resolve_existing (cx_graph s) p = None" and p: "p \<noteq> []"
  shows "edges_ok (cx_graph (add_node p nd s))"
proof (rule edges_ok_sub [OF ok, where P = "\<lambda>_. True"])
  let ?g = "cx_graph s" and ?h = "cx_graph (add_node p nd s)"
  have nodes: "g_nodes ?h = AList.update p nd (g_nodes ?g)" and edges: "g_edges ?h = g_edges ?g"
    by (simp_all add: add_node_def put_node_def)
  then show "g_edges ?h = filter (\<lambda>_. True) (g_edges ?g)" by simp
  have ends: "edge_ends ?g e \<noteq> None" if "e \<in> set (g_edges ?h)" for e
  proof
    assume "edge_ends ?g e = None"
    then have "None \<in> edge_ends ?g ` set (g_edges ?g)" using that unfolding edges by (metis imageI)
    then show False using ok unfolding edges_ok_def by blast
  qed
  show "resolve_existing ?h (ed_source e) = resolve_existing ?g (ed_source e)"
    "resolve_existing ?h (ed_target e) = resolve_existing ?g (ed_target e)" if e: "e \<in> set (g_edges ?h)" for e
  proof -
    obtain a b where ab: "resolve_existing ?g (ed_source e) = Some a" "resolve_existing ?g (ed_target e) = Some b"
      using edge_ends_resolve [OF ends [OF e]] by blast
    then show "resolve_existing ?h (ed_source e) = resolve_existing ?g (ed_source e)"
      "resolve_existing ?h (ed_target e) = resolve_existing ?g (ed_target e)"
      unfolding ab using resolve_add [OF fresh nodes ab(1) p] resolve_add [OF fresh nodes ab(2) p] by simp_all
  qed
  show "is_cell ?g n" if "Some (n, l) \<in> set (edge_targets ?g)" "is_cell ?h n" for n l
  proof -
    from that(1) obtain v where "resolve_existing ?g v = Some (n, l)" by (auto simp: edge_targets_def)
    then have "map_of (g_nodes ?g) n \<noteq> None"
      using resolve_from_prefix unfolding resolve_existing_def by blast
    moreover have "map_of (g_nodes ?g) p = None"
      using fresh p unfolding resolve_existing_def resolve_from_none_iff by (auto dest: spec [of _ "length p"])
    ultimately have "n \<noteq> p" by auto
    then show ?thesis using that(2) by (simp add: is_cell_def nodes)
  qed
qed

lemma add_node_edits:
  assumes "resolve_existing (cx_graph s) p = None" and "p \<noteq> []" and "node_claims nd = []"
    and "wf_dict (nd_pin_producers nd)"
  shows "edits s (add_node p nd s)"
proof -
  have none: "map_of (g_nodes (cx_graph s)) p = None"
    using assms(1,2) unfolding resolve_existing_def resolve_from_none_iff by (auto dest: spec [of _ "length p"])
  have "same_books s (add_node p nd s)"
  proof (rule same_booksI)
    assume wf: "wf_ctx s"
    then have wfn: "wf_dict (g_nodes (cx_graph s))" by (simp add: wf_ctx_def)
    show "cx_refs (add_node p nd s) c - held_count (add_node p nd s) c = cx_refs s c - held_count s c" for c
      using value_count_update [OF wfn, of node_claims p nd c] none assms(3)
      by (simp add: held_count_def add_node_def put_node_def)
    have "\<forall>n \<in> snd ` set (AList.update p nd (g_nodes (cx_graph s))). wf_dict (nd_pin_producers n)"
      using wf assms(4) set_update_values [of p nd "g_nodes (cx_graph s)"] unfolding wf_ctx_def by blast
    then show "wf_ctx (add_node p nd s)" using wf by (simp add: wf_ctx_def add_node_def put_node_def)
  qed
  then show ?thesis
    using add_node_edges_ok [OF _ assms(1,2)]
    by (simp add: edits_def) (simp add: add_node_def put_node_def ledger_step_same sessions_ok_def)
qed

lemma new_cell_claims [simp]: "node_claims (new_cell ct) = []" "nd_pin_producers (new_cell ct) = []"
  by (simp_all add: node_claims_def new_cell_def new_node_def)

lemma create_cell_edits:
  assumes "resolve_existing (cx_graph s) p = None" and "p \<noteq> []"
  shows "edits s (snd (create_cell p ct s))"
  using add_node_edits [OF assms, of "new_cell ct"] by (simp add: create_cell_def)

section \<open>Deleting nodes\<close>

lemma filter_current_step: "run_step rt (rt\<lparr>rt_current := filter P (rt_current rt)\<rparr>)"
proof (rule run_step_moves [where new = "{#}"])
  have "recs (\<lambda>r. [r]) (filter P d) \<subseteq># recs (\<lambda>r. [r]) d" for d :: "(path \<times> run_record) list"
  proof (induction d)
    case (Cons kr d)
    have "A \<subseteq># B \<Longrightarrow> A \<subseteq># add_mset b B" for A B :: "run_record multiset" and b
      by (metis add_mset_add_single empty_le subset_mset.add_increasing2)
    with Cons show ?case by (cases kr) (simp add: recs_def)
  qed (simp add: recs_def)
  then show "gens (rt\<lparr>rt_current := filter P (rt_current rt)\<rparr>) \<subseteq># {#} + gens rt"
    by (simp add: gens_def run_set_def image_mset_subseteq_mono)
  assume ok: "runs_ok rt"
  show "wf_dict (rt_current (rt\<lparr>rt_current := filter P (rt_current rt)\<rparr>))
      \<and> wf_dict (rt_superseded (rt\<lparr>rt_current := filter P (rt_current rt)\<rparr>))
      \<and> rt_evicted (rt\<lparr>rt_current := filter P (rt_current rt)\<rparr>) = []"
    using runs_okD [OF ok] by (simp add: wf_dict_def distinct_map_filter)
  show "(\<forall>r \<in> snd ` set (rt_current (rt\<lparr>rt_current := filter P (rt_current rt)\<rparr>)). current_ok r)
      \<and> (\<forall>q \<in> snd ` set (rt_superseded (rt\<lparr>rt_current := filter P (rt_current rt)\<rparr>)).
            held_ok (sc_superseded_cap (rt_scheduler rt)) q)"
    using run_values [OF ok] by auto
qed simp_all

lemma drop_runs_step: "ledger_step s (drop_runs p s)"
proof -
  have "run_step (cx_runtime s) ((cx_runtime s)\<lparr>rt_superseded := filter P (rt_superseded (cx_runtime s)),
      rt_current := filter Q (rt_current (cx_runtime s))\<rparr>)" for P Q
    using run_step_trans [OF filter_queues_step [of "cx_runtime s" P] filter_current_step] by simp
  then show ?thesis
    by (simp add: ledger_step_def drop_runs_def Let_def AList.delete_eq)
qed

lemma drop_runs_frame [simp]:
  "cx_graph (drop_runs p s) = cx_graph s" "cx_sessions (drop_runs p s) = cx_sessions s"
  by (simp_all add: drop_runs_def Let_def add_effects_def set_runtime_def)

lemma drop_runs_books: "same_books s (drop_runs p s)"
  by (rule same_books_unbooked) (simp_all add: drop_runs_def Let_def add_effects_def set_runtime_def)

lemma release_node_producers_refs:
  "release_node_producers nd s = s\<lparr>cx_refs := \<lambda>c. cx_refs s c
     - int (count_list (case nd_root_producer nd of None \<Rightarrow> [] | Some q \<Rightarrow> [cp_checksum q]) c)
     - int (count_list (map (cp_checksum \<circ> snd) (nd_pin_producers nd)) c)\<rparr>"
proof -
  have "fold (\<lambda>(_, producer). release_producer producer) d s = release_all (map (cp_checksum \<circ> snd) d) s"
    for d :: "(string \<times> constant_producer) list" and s
    by (induction d arbitrary: s) (auto simp: release_producer_def)
  then show ?thesis by (simp add: release_node_producers_def release_optional_refs release_all_refs)
qed

lemma take_node_books:
  assumes "get_node s p = Some nd"
  shows "same_books s (release_node_producers nd (release_current (nd_current nd) (take_node p s)))"
proof (rule same_booksI)
  let ?s = "release_node_producers nd (release_current (nd_current nd) (take_node p s))"
  assume wf: "wf_ctx s"
  then have wfn: "wf_dict (g_nodes (cx_graph s))" by (simp add: wf_ctx_def)
  have s: "?s = (take_node p s)\<lparr>cx_refs := \<lambda>c. cx_refs s c - int (count_list (node_claims nd) c)\<rparr>"
    by (simp add: release_node_producers_refs release_current_def release_refs take_node_def node_claims_def
        split: option.split) (auto intro!: refs_cong)
  show "cx_refs ?s c - held_count ?s c = cx_refs s c - held_count s c" for c
    unfolding s using value_count_delete [OF wfn, of node_claims p c] assms
    by (simp add: held_count_def take_node_def get_node_def)
  have "set (AList.delete p (g_nodes (cx_graph s))) \<subseteq> set (g_nodes (cx_graph s))"
    by (simp add: AList.delete_eq)
  then have "\<forall>n \<in> snd ` set (AList.delete p (g_nodes (cx_graph s))). wf_dict (nd_pin_producers n)"
    using wf unfolding wf_ctx_def by blast
  then show "wf_ctx ?s" unfolding s using wf by (simp add: wf_ctx_def take_node_def)
qed

definition node_shapes :: "graph \<Rightarrow> (path \<times> bool) list" where
  "node_shapes g = map (\<lambda>(q, nd). (q, nd_cell_config nd \<noteq> None)) (g_nodes g)"

lemma shape_of: "map_of (node_shapes g) q = map_option (\<lambda>nd. nd_cell_config nd \<noteq> None) (map_of (g_nodes g) q)"
  unfolding node_shapes_def by (simp only: map_of_map o_apply)

lemma shape_None: "map_of (node_shapes g) q = None \<longleftrightarrow> map_of (g_nodes g) q = None"
  by (simp add: shape_of)

lemma is_cell_shape: "is_cell g q \<longleftrightarrow> map_of (node_shapes g) q = Some True"
  by (simp add: is_cell_def shape_of split: option.split)

text \<open>What the deletion of nodes does to the rest, edges aside.\<close>

definition cuts :: "path set \<Rightarrow> ctx \<Rightarrow> ctx \<Rightarrow> bool" where
  "cuts ps s s' \<longleftrightarrow>
     same_books s s' \<and> ledger_step s s' \<and> (sessions_ok s \<longrightarrow> sessions_ok s')
     \<and> g_symbols (cx_graph s') = g_symbols (cx_graph s) \<and> g_edges (cx_graph s') = g_edges (cx_graph s)
     \<and> g_namespaces (cx_graph s') = g_namespaces (cx_graph s)
     \<and> node_shapes (cx_graph s') = filter (\<lambda>(q, _). q \<notin> ps) (node_shapes (cx_graph s))"

lemma cuts_trans: "cuts A a b \<Longrightarrow> cuts B b c \<Longrightarrow> cuts (A \<union> B) a c"
  unfolding cuts_def using same_books_trans ledger_step_trans
  by (auto simp: conj_commute intro!: filter_cong)

lemma cuts_nothing:
  assumes "edits s s'" and "g_symbols (cx_graph s') = g_symbols (cx_graph s)"
    and "g_edges (cx_graph s') = g_edges (cx_graph s)" and "g_namespaces (cx_graph s') = g_namespaces (cx_graph s)"
    and "node_shapes (cx_graph s') = node_shapes (cx_graph s)"
  shows "cuts {} s s'"
  using assms by (simp add: cuts_def edits_def)

lemma shapes_update:
  assumes "map_of nodes p = Some nd" and "nd_cell_config nd' = nd_cell_config nd"
  shows "map (\<lambda>(q, nd). (q, nd_cell_config nd \<noteq> None)) (AList.update p nd' nodes) =
    map (\<lambda>(q, nd). (q, nd_cell_config nd \<noteq> None)) nodes"
  using assms by (induction nodes) auto

lemma upd_node_shapes [simp]:
  assumes "\<And>nd. nd_cell_config (f nd) = nd_cell_config nd"
  shows "node_shapes (cx_graph (upd_node p f s)) = node_shapes (cx_graph s)"
  using shapes_update [of "g_nodes (cx_graph s)" p _ "f _"] assms
  by (simp add: upd_node_def put_node_def node_shapes_def get_node_def split: option.split)

lemma upd_node_rest [simp]:
  "g_edges (cx_graph (upd_node p f s)) = g_edges (cx_graph s)"
  "g_symbols (cx_graph (upd_node p f s)) = g_symbols (cx_graph s)"
  "g_namespaces (cx_graph (upd_node p f s)) = g_namespaces (cx_graph s)"
  by (simp_all add: upd_node_def put_node_def split: option.split)

lemma drop_session_cuts: "cuts {} s (drop_session k s)"
proof (rule cuts_nothing [OF drop_session_edits])
  have d: "nd_cell_config (detached_node d nd) = nd_cell_config nd" for d nd by (simp add: detached_node_def)
  have g: "cx_graph (release_delivery a (release_delivery b (s\<lparr>cx_sessions := x\<rparr>))) = cx_graph s" for a b x
    by (simp add: release_delivery_refs)
  show "node_shapes (cx_graph (drop_session k s)) = node_shapes (cx_graph s)"
    "g_symbols (cx_graph (drop_session k s)) = g_symbols (cx_graph s)"
    "g_edges (cx_graph (drop_session k s)) = g_edges (cx_graph s)"
    "g_namespaces (cx_graph (drop_session k s)) = g_namespaces (cx_graph s)"
    by (simp_all add: drop_session_def d g split: option.split)
qed

lemma drop_sessions_cuts: "cuts {} s (drop_sessions p s)"
proof -
  have "cuts {} s (fold drop_session ks s)" for ks
  proof (induction ks arbitrary: s)
    case Nil
    show ?case by (rule cuts_nothing) simp_all
  next
    case (Cons k ks)
    show ?case using cuts_trans [OF drop_session_cuts [of s k] Cons] by simp
  qed
  then show ?thesis by (simp add: drop_sessions_def)
qed

lemma leaves_cuts: "cuts {} s (drop_node_leaves p s)"
  by (rule cuts_nothing [OF drop_node_leaves_edits])
     (simp_all add: drop_node_leaves_def release_all_refs split: option.split)

lemma delete_node_cuts: "cuts {p} s (delete_node p s)"
proof -
  define s1 where "s1 = drop_node_leaves p (drop_sessions p s)"
  have s1: "cuts {} s s1"
    unfolding s1_def using cuts_trans [OF drop_sessions_cuts leaves_cuts] by simp
  show ?thesis
  proof (cases "get_node s1 p")
    case None
    then have "map_of (node_shapes (cx_graph s1)) p = None" by (simp add: shape_None get_node_def)
    then have "filter (\<lambda>(q, _). q \<notin> {p}) (node_shapes (cx_graph s1)) = node_shapes (cx_graph s1)"
      by (force simp: filter_id_conv map_of_eq_None_iff)
    then have "cuts {p} s1 s1" by (simp add: cuts_def ledger_step_same)
    with None cuts_trans [OF s1] show ?thesis by (simp add: delete_node_def s1_def Let_def)
  next
    case (Some nd)
    let ?s2 = "release_node_producers nd (release_current (nd_current nd) (take_node p s1))"
    let ?s3 = "release_code_checksum p ?s2"
    have g2: "cx_graph ?s2 = (cx_graph s1)\<lparr>g_nodes := AList.delete p (g_nodes (cx_graph s1))\<rparr>"
      "cx_runtime ?s2 = cx_runtime s1" "cx_sessions ?s2 = cx_sessions s1"
      by (simp_all add: release_node_producers_refs release_current_def release_refs take_node_def split: option.split)
    have g3: "cx_graph ?s3 = cx_graph ?s2" "cx_runtime ?s3 = cx_runtime ?s2" "cx_sessions ?s3 = cx_sessions ?s2"
      by (simp_all add: release_code_checksum_def release_refs split: option.splits)
    have shapes: "map (\<lambda>(q, nd). (q, nd_cell_config nd \<noteq> None)) (AList.delete p d) =
        filter (\<lambda>(q, _). q \<noteq> p) (map (\<lambda>(q, nd). (q, nd_cell_config nd \<noteq> None)) d)" for d :: "(path \<times> node) list"
      by (induction d) auto
    have "same_books s1 (drop_runs p ?s3)"
      using same_books_trans [OF same_books_trans [OF take_node_books [OF Some] release_code_books] drop_runs_books] .
    moreover have "ledger_step s1 (drop_runs p ?s3)"
      by (rule ledger_step_trans [OF ledger_step_same drop_runs_step]) (simp add: g2 g3)
    ultimately have "cuts {p} s1 (drop_runs p ?s3)"
      using shapes by (simp add: cuts_def sessions_ok_def g2 g3 node_shapes_def)
    with Some cuts_trans [OF s1] show ?thesis by (simp add: delete_node_def s1_def Let_def)
  qed
qed

lemma delete_nodes_cuts: "cuts (set ps) s (fold delete_node ps s)"
proof (induction ps arbitrary: s)
  case Nil
  show ?case by (simp add: cuts_def ledger_step_same)
next
  case (Cons p ps)
  show ?case using cuts_trans [OF delete_node_cuts [of p s] Cons] by simp
qed

lemma under_prefix: "take (length p) (take k v) = p \<Longrightarrow> take (length p) v = p"
  by (metis length_take min.absorb2 min.cobounded2 nat_le_linear take_all take_take)

lemma delete_subtree_edges_ok:
  assumes ok: "edges_ok (cx_graph s)"
  shows "edges_ok (cx_graph (prune_edges p (fold delete_node (descendants (cx_graph s) p) s)))"
proof -
  let ?g = "cx_graph s"
  define s1 where "s1 = fold delete_node (descendants ?g p) s"
  let ?h = "cx_graph (prune_edges p s1)"
  define P :: "edge \<Rightarrow> bool" where "P e \<longleftrightarrow> take (length p) (ed_source e) \<noteq> p \<and> take (length p) (ed_target e) \<noteq> p" for e
  have c: "cuts (set (descendants ?g p)) s s1" unfolding s1_def by (rule delete_nodes_cuts)
  have h: "g_nodes ?h = g_nodes (cx_graph s1)" "g_edges ?h = filter P (g_edges ?g)"
    using c by (simp_all add: prune_edges_def cuts_def P_def [abs_def])
  have gone: "map_of (node_shapes ?h) q = map_of (node_shapes ?g) q" if "take (length p) q \<noteq> p" for q
  proof -
    have "node_shapes ?h = filter (\<lambda>(q, _). q \<notin> set (descendants ?g p)) (node_shapes ?g)"
      using c by (simp add: cuts_def node_shapes_def h)
    moreover have "q \<notin> set (descendants ?g p)" using that by (simp add: descendants_def)
    moreover have "map_of (filter (\<lambda>(q, _). q \<notin> A) d) q = map_of d q" if "q \<notin> A" for A and d :: "(path \<times> bool) list"
      using that by (induction d) auto
    ultimately show ?thesis by simp
  qed
  have same: "resolve_existing ?h v = resolve_existing ?g v" if "take (length p) v \<noteq> p" for v
    unfolding resolve_existing_def
  proof (rule resolve_from_cong)
    fix k
    have "take (length p) (take k v) \<noteq> p" using that under_prefix by blast
    from gone [OF this] show "map_of (g_nodes ?h) (take k v) = None \<longleftrightarrow> map_of (g_nodes ?g) (take k v) = None"
      by (simp flip: shape_None)
  qed
  show ?thesis
    unfolding s1_def [symmetric]
  proof (rule edges_ok_sub [OF ok h(2)])
    show "resolve_existing ?h (ed_source e) = resolve_existing ?g (ed_source e)"
      "resolve_existing ?h (ed_target e) = resolve_existing ?g (ed_target e)" if "e \<in> set (g_edges ?h)" for e
      using that same by (simp_all add: h P_def)
    have sub: "set (node_shapes ?h) \<subseteq> set (node_shapes ?g)" using c by (auto simp: cuts_def node_shapes_def h)
    show "is_cell ?g n" if "is_cell ?h n" for n
    proof (cases "take (length p) n = p")
      case True
      have "map_of (node_shapes ?h) n = None"
      proof -
        have "node_shapes ?h = filter (\<lambda>(q, _). q \<notin> set (descendants ?g p)) (node_shapes ?g)"
          using c by (simp add: cuts_def node_shapes_def h)
        moreover have "n \<in> set (descendants ?g p)" if "n \<in> fst ` set (node_shapes ?g)"
          using that True by (force simp: node_shapes_def descendants_def)
        ultimately show ?thesis by (force simp: map_of_eq_None_iff)
      qed
      with that show ?thesis by (simp add: is_cell_shape)
    qed (use that gone in \<open>simp add: is_cell_shape\<close>)
  qed
qed

lemma prune_subtree_edits: "edits s (prune_edges p (fold delete_node (descendants (cx_graph s) p) s))"
proof -
  define s1 where "s1 = fold delete_node (descendants (cx_graph s) p) s"
  have c: "cuts (set (descendants (cx_graph s) p)) s s1" unfolding s1_def by (rule delete_nodes_cuts)
  have "same_books s1 (prune_edges p s1)" by (rule same_books_graph [OF prune_edges_def]) simp
  then show ?thesis
    using c same_books_trans [of s s1] delete_subtree_edges_ok [of s p]
    unfolding s1_def [symmetric]
    by (simp add: edits_def cuts_def) (simp add: prune_edges_def ledger_step_def sessions_ok_def)
qed

lemmas sync_editing [edit_intros] = syncs_deriving [THEN deriving_editing]

lemma delete_subtree_editing [edit_intros]: "editing (delete_subtree X now p)"
proof (rule editingI)
  show "edits s (snd (delete_subtree X now p s))" for s
    unfolding delete_subtree_def Let_def
    by (rule editing_after [OF prune_subtree_edits]) (intro edit_intros)
qed

lemma delete_path_editing: "editing (delete_path X now p)"
proof (rule editingI)
  show "edits s (snd (delete_path X now p s))" for s
    unfolding delete_path_def
    by (auto split: option.split list.split comp.split intro!: editing_run edit_intros)
qed

section \<open>Building cells\<close>

text \<open>
  Building works on paths that are cells. What it builds on stays a cell when it succeeds, so
  that the configuration of the target can be put in place after its upstream is built.
\<close>

definition cells :: "ctx \<Rightarrow> path set" where
  "cells s = {p. is_cell (cx_graph s) p}"

definition builds :: "path set \<Rightarrow> (ctx, 'a) oper \<Rightarrow> bool" where
  "builds A m \<longleftrightarrow>
     (\<forall>s. A \<subseteq> cells s \<longrightarrow> edits s (snd (m s)) \<and> (case m s of (Inr _, s') \<Rightarrow> A \<subseteq> cells s' | (Inl _, _) \<Rightarrow> True))"

lemma buildsI:
  assumes "\<And>s. A \<subseteq> cells s \<Longrightarrow> edits s (snd (m s))"
    and "\<And>s x s'. A \<subseteq> cells s \<Longrightarrow> m s = (Inr x, s') \<Longrightarrow> A \<subseteq> cells s'"
  shows "builds A m"
  using assms by (auto simp: builds_def split: prod.split sum.split)

lemma buildsD:
  assumes "builds A m" and "A \<subseteq> cells s"
  shows "edits s (snd (m s))" and "m s = (Inr x, s') \<Longrightarrow> A \<subseteq> cells s'"
  using assms unfolding builds_def by (fastforce split: prod.splits sum.splits)+

lemma builds_raise: "builds A (raise e)"
  by (rule buildsI) (simp_all add: raise_def)

lemma builds_bnd:
  assumes m: "builds A m" and f: "\<And>x. builds A (f x)"
  shows "builds A (bnd m f)"
proof (rule buildsI)
  fix s assume A: "A \<subseteq> cells s"
  show "edits s (snd (bnd m f s))"
    using buildsD [OF m A] buildsD(1) [OF f] edits_trans
    by (auto simp: bnd_def split: prod.split sum.split)
  show "A \<subseteq> cells s'" if "bnd m f s = (Inr x, s')" for x s'
    using that buildsD(2) [OF m A] buildsD(2) [OF f] by (auto simp: bnd_def split: prod.splits sum.splits)
qed

lemma builds_modify:
  assumes "\<And>s. A \<subseteq> cells s \<Longrightarrow> edits s (f s)" and "\<And>s. A \<subseteq> cells s \<Longrightarrow> A \<subseteq> cells (f s)"
  shows "builds A (modify f)"
  using assms by (intro buildsI) (auto simp: modify_def)

lemma builds_at: "(\<And>s. A \<subseteq> cells s \<Longrightarrow> builds A (m s)) \<Longrightarrow> builds A (\<lambda>s. m s s)"
  by (simp add: builds_def)

lemma builds_undo:
  assumes m: "builds A m" and undo: "editing undo"
  shows "builds A (undo_with m undo)"
proof (rule buildsI)
  fix s assume A: "A \<subseteq> cells s"
  have "editing (bnd undo (\<lambda>_. raise e))" for e :: exc
    by (intro edit_intros undo)
  from editing_run [OF this] show "edits s (snd (undo_with m undo s))"
    using buildsD(1) [OF m A] edits_trans
    by (auto simp: undo_with_def split: prod.split sum.split; blast)
  show "A \<subseteq> cells s'" if "undo_with m undo s = (Inr x, s')" for x s'
    using that buildsD(2) [OF m A]
    by (auto simp: undo_with_def bnd_def raise_def split: prod.splits sum.splits)
qed

lemma cells_shapes: "cells s = {p. map_of (node_shapes (cx_graph s)) p = Some True}"
  by (simp add: cells_def is_cell_shape)

lemma cells_upd_node [simp]: "(\<And>nd. nd_cell_config (f nd) = nd_cell_config nd) \<Longrightarrow> cells (upd_node p f s) = cells s"
  by (simp add: cells_shapes)

lemma cells_refs [simp]: "cells (s\<lparr>cx_refs := refs\<rparr>) = cells s"
  by (simp add: cells_def)

lemma cells_put_node:
  "get_node s p = Some nd \<Longrightarrow> nd_cell_config nd' = nd_cell_config nd \<Longrightarrow> cells (put_node p nd' s) = cells s"
  by (auto simp: cells_def is_cell_def put_node_def get_node_def split: if_splits option.splits)

lemma cells_put_root [simp]: "cells (put_root_producer p new s) = cells s"
  using cells_put_node [of s p]
  by (simp add: put_root_producer_def release_optional_refs bump_revision_def split: option.split)
     (simp add: cells_def)

lemma cells_drop_root [simp]: "cells (drop_root_producer p s) = cells s"
  using cells_put_node [of s p] by (simp add: drop_root_producer_def release_optional_refs split: option.split)

lemma cells_drop_pin [simp]: "cells (drop_pin_producer p pin s) = cells s"
  using cells_put_node [of s p] by (simp add: drop_pin_producer_def release_optional_refs split: option.split)

lemma cells_remove_edges [simp]: "cells (remove_edges p local s) = cells s"
  by (simp add: remove_edges_def set_graph_of_def cells_def is_cell_def remove_edges_targeting_def)

lemma cells_set_config: "p \<in> cells s \<Longrightarrow> cells (set_cell_config p cfg s) = cells s"
  by (auto simp: cells_def is_cell_def set_cell_config_def upd_node_def put_node_def get_node_def split: option.splits)

lemma derives_shapes: "derives s s' \<Longrightarrow> node_shapes (cx_graph s') = node_shapes (cx_graph s)"
proof -
  assume "derives s s'"
  then have m: "map (\<lambda>(p, nd). (p, design nd)) (g_nodes (cx_graph s')) = map (\<lambda>(p, nd). (p, design nd)) (g_nodes (cx_graph s))"
    by (simp add: derives_def same_design_def)
  have "nd_cell_config (design nd) = nd_cell_config nd" for nd by (simp add: design_def)
  then have "node_shapes (cx_graph t) =
      map (\<lambda>(p, d). (p, nd_cell_config d \<noteq> None)) (map (\<lambda>(p, nd). (p, design nd)) (g_nodes (cx_graph t)))" for t
    by (simp add: node_shapes_def case_prod_unfold)
  from this [of s] this [of s'] show ?thesis unfolding m by simp
qed

lemma derives_cells: "derives s s' \<Longrightarrow> cells s' = cells s"
  by (simp only: cells_shapes derives_shapes)

lemma deriving_builds: "deriving m \<Longrightarrow> builds A m"
proof (rule buildsI)
  assume m: "deriving m"
  show "edits s (snd (m s))" for s by (rule editing_run [OF deriving_editing [OF m]])
  show "A \<subseteq> cells s'" if "A \<subseteq> cells s" "m s = (Inr x, s')" for s x s'
  proof -
    have "derives s s'" using m that(2) unfolding deriving_def by (metis snd_conv)
    from derives_cells [OF this] that(1) show ?thesis by simp
  qed
qed

lemma add_edge_builds: "builds A (add_edge X now e detach)"
proof (rule buildsI [OF editing_run [OF add_edge_editing]])
  fix s x s' assume A: "A \<subseteq> cells s" and run: "add_edge X now e detach s = (Inr x, s')"
  obtain r g where l: "link_edge (x_symbol_base X) (sensing_target s (ed_target e)) detach
      (e\<lparr>ed_deep_member := deep_target s (ed_target e)\<rparr>) (cx_graph s) = (r, g)"
    by force
  have "cells (set_graph_of s g) = cells s"
    by (simp add: cells_def is_cell_def set_graph_of_def link_edge_nodes [OF l])
  moreover have "builds A (derive_all X now)" by (rule deriving_builds [OF derive_all_deriving])
  ultimately show "A \<subseteq> cells s'"
    using A run buildsD(2) by (fastforce simp: add_edge_def l split: sum.splits)
qed

lemma add_endpoint_edge_builds: "builds A (add_endpoint_edge X now ep target detach)"
proof -
  have lift: "builds A (lift_res r)" for r :: "exc + unit"
    by (cases r) (simp_all add: builds_def lift_res_def)
  have drop: "builds A (modify (drop_replaced_producer target))"
    by (rule builds_modify [OF drop_replaced_producer_edits])
       (simp add: drop_replaced_producer_def split: option.split node_kind.split list.split comp.split)
  have "builds A (bnd (lift_res r) (\<lambda>_. bnd (add_edge X now (endpoint_edge ep target) detach) (\<lambda>_.
      modify (drop_replaced_producer target))))" for r :: "exc + unit"
    by (intro builds_bnd lift drop add_edge_builds)
  from builds_at [OF this, of "\<lambda>s. check_connection X s ep target"] show ?thesis
    by (simp add: add_endpoint_edge_def [abs_def])
qed

lemma drop_session_cells [simp]: "cells (drop_session k s) = cells s"
  using drop_session_cuts [of s k] by (simp add: cells_shapes cuts_def)

lemma prepare_replacement_builds: "builds A (modify (prepare_replacement p))"
proof (rule builds_modify)
  fix s
  have cells: "cells (drop_sessions p s) = cells s"
    using drop_sessions_cuts [of s p] by (simp add: cells_shapes cuts_def)
  have "edits s (strip_mounts p s)"
    unfolding strip_mounts_def
    by (rule edits_trans [OF drop_sessions_edits]) (rule upd_node_edits, simp_all)
  moreover have "edits s (upd_node p (\<lambda>nd. nd\<lparr>nd_root_expression := None\<rparr>) s)" for s
    by (rule upd_node_edits) simp_all
  ultimately show "edits s (prepare_replacement p s)"
    using edits_trans by (auto simp: prepare_replacement_def)
  show "A \<subseteq> cells s \<Longrightarrow> A \<subseteq> cells (prepare_replacement p s)"
    by (simp add: prepare_replacement_def strip_mounts_def cells)
qed

lemma set_config_edits: "p \<in> cells s \<Longrightarrow> edits s (set_cell_config p cfg s)"
  using put_node_edits [of s p]
  by (auto simp: set_cell_config_def cells_def is_cell_def upd_node_def get_node_def split: option.splits)

lemma set_config_builds: "p \<in> A \<Longrightarrow> builds A (modify (set_cell_config p cfg))"
  by (rule builds_modify) (simp_all add: set_config_edits cells_set_config subset_iff)

lemma cells_get_node: "p \<in> cells s \<longleftrightarrow> (\<exists>nd. get_node s p = Some nd \<and> nd_cell_config nd \<noteq> None)"
  by (auto simp: cells_def is_cell_def get_node_def split: option.splits)

lemma drop_root_builds: "p \<in> A \<Longrightarrow> builds A (modify (drop_root p cfg))"
proof (rule builds_modify)
  fix s assume "p \<in> A" "A \<subseteq> cells s"
  then have p: "p \<in> cells s" by blast
  show "edits s (drop_root p cfg s)"
    unfolding drop_root_def
    using edits_trans [OF set_config_edits [OF p] edits_trans [OF drop_root_producer_edits remove_edges_edits]] .
  show "A \<subseteq> cells s \<Longrightarrow> A \<subseteq> cells (drop_root p cfg s)" using p by (simp add: drop_root_def cells_set_config)
qed

lemma give_up_root_builds: "p \<in> A \<Longrightarrow> builds A (modify (give_up_root p cfg expression))"
proof (rule builds_modify)
  fix s assume A: "p \<in> A" "A \<subseteq> cells s"
  let ?f = "\<lambda>nd. nd\<lparr>nd_cell_config := Some cfg,
      nd_root_expression := (case expression of None \<Rightarrow> nd_root_expression nd | Some x \<Rightarrow> Some x)\<rparr>"
  from subsetD [OF A(2,1)] obtain nd where nd: "get_node s p = Some nd" "nd_cell_config nd \<noteq> None"
    by (auto simp: cells_get_node)
  have 1: "edits s (upd_node p ?f s)"
    using put_node_edits [OF nd(1), of "?f nd"] nd by (simp add: upd_node_def)
  have "get_node (upd_node p ?f s) p = Some (?f nd)"
    using nd by (simp add: upd_node_def put_node_def get_node_def)
  from put_root_edits(1) [OF this] show "edits s (give_up_root p cfg expression s)"
    unfolding give_up_root_def using edits_trans [OF 1 edits_trans [OF _ remove_edges_edits]] by blast
  have "cells (upd_node p ?f s) = cells s"
    using nd by (auto simp: cells_def is_cell_def upd_node_def put_node_def get_node_def)
  then show "A \<subseteq> cells s \<Longrightarrow> A \<subseteq> cells (give_up_root p cfg expression s)" by (simp add: give_up_root_def)
qed

lemma set_config_refs: "set_cell_config p cfg (s\<lparr>cx_refs := refs\<rparr>) = (set_cell_config p cfg s)\<lparr>cx_refs := refs\<rparr>"
  by (simp add: set_cell_config_def upd_node_def put_node_def get_node_def split: option.split)

lemma bind_checksum_builds: "p \<in> A \<Longrightarrow> builds A (bind_checksum X p cfg t c)"
proof (rule buildsI)
  fix s assume A: "p \<in> A" "A \<subseteq> cells s"
  then have p: "p \<in> cells s" by blast
  let ?s = "set_cell_config p cfg s"
  obtain nd where nd: "get_node ?s p = Some nd"
    using p cells_set_config [OF p] cells_get_node by blast
  have "edits s (snd (bind_checksum X p cfg t c s)) \<and> A \<subseteq> cells (snd (bind_checksum X p cfg t c s))"
  proof (cases rule: retain_producer_cases [of X c t "cc_scratch cfg" s])
    case (error e)
    with A show ?thesis by (simp add: bind_checksum_def bnd_def)
  next
    case (held q)
    let ?t = "put_root_producer p (Some q) (incref (cp_checksum q) ?s)"
    have s: "set_cell_config p cfg (incref (cp_checksum q) s) = incref (cp_checksum q) ?s"
      unfolding incref_refs set_config_refs by (simp add: set_cell_config_def upd_node_def put_node_def split: option.split)
    have "edits s (remove_edges p [] ?t)"
      using edits_trans [OF set_config_edits [OF p] edits_trans [OF put_root_edits(2) [OF nd] remove_edges_edits]] .
    moreover have "cells (remove_edges p [] ?t) = cells s"
      by (simp add: incref_refs cells_set_config [OF p])
    ultimately show ?thesis using A by (simp add: bind_checksum_def bnd_def held modify_def s)
  qed
  then show "edits s (snd (bind_checksum X p cfg t c s))"
    "bind_checksum X p cfg t c s = (Inr x, s') \<Longrightarrow> A \<subseteq> cells s'" for x s' by auto
qed

text \<open>A free name is a single name, so nothing in the graph resolves through it.\<close>

lemma first_free_fresh:
  assumes "first_free g stem = Some q"
  shows "q \<noteq> []" and "resolve_existing g q = None" and "map_of (g_nodes g) q = None"
proof -
  let ?taken = "\<lambda>p. map_of (g_nodes g) p \<noteq> None \<or> List.member (g_namespaces g) p"
  from first_untaken_Some [OF assms [unfolded first_free_def]]
  obtain j where q: "\<not> ?taken q" "q = [KStr (stem @ nat_str (1 + j))]" by blast
  then show "q \<noteq> []" and none: "map_of (g_nodes g) q = None" by simp_all
  have "take k q = q" if "0 < k" for k using q(2) that by (cases k) simp_all
  then show "resolve_existing g q = None"
    using none by (simp add: resolve_existing_def resolve_from_none_iff)
qed

lemma create_cell_cells:
  assumes "get_node s q = None"
  shows "cells (snd (create_cell q ct s)) = insert q (cells s)" and "fst (create_cell q ct s) = Inr ()"
    and "get_node (snd (create_cell q ct s)) q = Some (new_cell ct)"
proof -
  have "nd_cell_config (new_cell ct) \<noteq> None" by (simp add: new_cell_def new_node_def)
  then show "cells (snd (create_cell q ct s)) = insert q (cells s)"
    using assms by (auto simp: create_cell_def add_node_def put_node_def cells_def is_cell_def)
  show "fst (create_cell q ct s) = Inr ()" "get_node (snd (create_cell q ct s)) q = Some (new_cell ct)"
    using assms by (simp_all add: create_cell_def add_node_def put_node_def get_node_def)
qed

lemma builds_with_fresh_cell:
  assumes rest: "\<And>q s. get_node s q = Some (new_cell ct) \<Longrightarrow> insert q A \<subseteq> cells s \<Longrightarrow>
      edits s (snd (m q s)) \<and> (\<forall>x s'. m q s = (Inr x, s') \<longrightarrow> A \<subseteq> cells s')"
  shows "builds A (\<lambda>s. case first_free (cx_graph s) stem of
      None \<Rightarrow> (Inl e, s) | Some q \<Rightarrow> bnd (create_cell q ct) (\<lambda>_. m q) s)"
    (is "builds A ?m")
proof (rule buildsI)
  fix s assume A: "A \<subseteq> cells s"
  show "edits s (snd (?m s))"
  proof (cases "first_free (cx_graph s) stem")
    case (Some q)
    note fresh = first_free_fresh [OF Some]
    have none: "get_node s q = None" using fresh(3) by (simp add: get_node_def)
    let ?s = "snd (create_cell q ct s)"
    have run: "create_cell q ct s = (Inr (), ?s)"
      using create_cell_cells(2) [OF none] by (metis prod.collapse)
    have sub: "insert q A \<subseteq> cells ?s" using A create_cell_cells(1) [OF none] by blast
    have new: "get_node ?s q = Some (new_cell ct)" by (rule create_cell_cells(3) [OF none])
    have "edits s (snd (m q ?s))"
      using edits_trans [OF create_cell_edits [OF fresh(2,1)]] rest [OF new sub] by blast
    then show ?thesis by (subst Some) (simp add: bnd_def, subst run, simp)
  qed simp
next
  fix s x s' assume A: "A \<subseteq> cells s" and x: "?m s = (Inr x, s')"
  from x obtain q where Some: "first_free (cx_graph s) stem = Some q" by (auto split: option.splits)
  note fresh = first_free_fresh [OF Some]
  have none: "get_node s q = None" using fresh(3) by (simp add: get_node_def)
  let ?s = "snd (create_cell q ct s)"
  have run: "create_cell q ct s = (Inr (), ?s)"
    using create_cell_cells(2) [OF none] by (metis prod.collapse)
  have sub: "insert q A \<subseteq> cells ?s" using A create_cell_cells(1) [OF none] by blast
  have new: "get_node ?s q = Some (new_cell ct)" by (rule create_cell_cells(3) [OF none])
  have "m q ?s = (Inr x, s')" using x unfolding Some bnd_def by (simp, subst (asm) run, simp)
  with rest [OF new sub] show "A \<subseteq> cells s'" by blast
qed

lemma feed_from_builds:
  assumes "\<And>q. builds (insert q A) (build q)"
  shows "builds A (feed_from X now p ct build)"
proof -
  have b: "builds (insert q A) (bnd (undo_with (build q) (delete_subtree X now q)) (\<lambda>_. add_edge X now (plain_link q p) False))"
    for q
    by (intro builds_bnd builds_undo assms delete_subtree_editing add_edge_builds)
  show ?thesis
    unfolding feed_from_def [abs_def]
  proof (rule builds_with_fresh_cell)
    fix q s
    assume sub: "insert q A \<subseteq> cells s"
    let ?m = "bnd (undo_with (build q) (delete_subtree X now q)) (\<lambda>_. add_edge X now (plain_link q p) False)"
    show "edits s (snd (?m s)) \<and> (\<forall>x s'. ?m s = (Inr x, s') \<longrightarrow> A \<subseteq> cells s')"
      using buildsD(1) [OF b sub] buildsD(2) [OF b sub] by blast
  qed
qed

text \<open>The start of a chain: a fresh cell that takes a claim for its root.\<close>

lemma chain_source_edits:
  assumes "get_node s q = Some nd" and "nd_root_producer nd = None"
  shows "edits s (upd_node q (\<lambda>nd. nd\<lparr>nd_root_producer := Some producer\<rparr>) (incref (cp_checksum producer) s))"
  by (rule producer_step_edits [OF assms(1), where nd' = "nd\<lparr>nd_root_producer := Some producer\<rparr>"
        and revs = "cx_revisions s" and refs = "cx_refs (incref (cp_checksum producer) s)"])
     (simp_all add: upd_node_def incref_refs put_node_def get_node_def node_claims_def assms
        assms(1) [unfolded get_node_def])

lemma bind_chain_builds:
  assumes "p \<in> A"
  shows "builds A (bind_chain X now p cfg c t links)"
  unfolding bind_chain_def [abs_def]
proof (rule builds_with_fresh_cell)
  fix q s
  let ?scr = "\<lambda>nd. nd\<lparr>nd_cell_config := map_option (\<lambda>c. c\<lparr>cc_scratch := True\<rparr>) (nd_cell_config nd)\<rparr>"
  let ?put = "\<lambda>producer. upd_node q (\<lambda>nd. nd\<lparr>nd_root_producer := Some producer\<rparr>)"
  let ?rest = "bnd (modify (give_up_root p cfg None)) (\<lambda>_. add_edge X now (chain_edge q p t links) False)"
  let ?m = "bnd (modify (upd_node q ?scr)) (\<lambda>_. bnd (retain_producer X c t True) (\<lambda>producer.
      bnd (modify (?put producer)) (\<lambda>_. ?rest)))"
  assume new: "get_node s q = Some (new_cell t)" and sub: "insert q A \<subseteq> cells s"
  let ?s = "upd_node q ?scr s"
  have node: "get_node ?s q = Some (?scr (new_cell t))"
    using new by (simp add: upd_node_def put_node_def get_node_def)
  have 1: "edits s ?s" by (rule upd_node_edits) simp_all
  have cells: "cells ?s = cells s"
    using new by (auto simp: cells_def is_cell_def upd_node_def put_node_def get_node_def)
  have rest: "builds A ?rest"
    by (intro builds_bnd add_edge_builds give_up_root_builds assms)
  show "edits s (snd (?m s)) \<and> (\<forall>x s'. ?m s = (Inr x, s') \<longrightarrow> A \<subseteq> cells s')"
  proof (cases rule: retain_producer_cases [of X c t True ?s])
    case (error e)
    then show ?thesis using 1 by (simp add: bnd_def modify_def)
  next
    case (held producer)
    let ?t = "?put producer (incref (cp_checksum producer) ?s)"
    have m: "?m s = ?rest ?t" using held by (simp add: bnd_def modify_def)
    have "edits ?s ?t"
      by (rule chain_source_edits [OF node]) (simp add: new_cell_def new_node_def)
    moreover have "A \<subseteq> cells ?t" using sub by (simp add: incref_refs cells)
    ultimately show ?thesis
      unfolding m using edits_trans [OF 1] edits_trans buildsD [OF rest] by blast
  qed
qed

lemma replace_cell_builds: "p \<in> A \<Longrightarrow> builds A (replace_cell X now cell p)"
proof (induction cell arbitrary: p A rule: prepared_cell.induct [where ?P2.0 = "\<lambda>ref. \<forall>upstream p A.
      ref = In_cell upstream \<longrightarrow> p \<in> A \<longrightarrow> builds A (replace_cell X now upstream p)"])
  case (Prepared cfg t ref)
  note p = Prepared.prems
  have endpoint: "builds A (\<lambda>s. bnd (add_endpoint_edge X now ep (cell_endpoint s p []) False)
      (\<lambda>_. modify (set_cell_config p cfg)) s)" for ep
    by (rule builds_at) (intro builds_bnd add_endpoint_edge_builds set_config_builds p)
  have upstream: "builds A (bnd (feed_from X now p (cc_celltype (pc_config up)) (replace_cell X now up))
      (\<lambda>_. modify (set_cell_config p cfg)))" if "ref = In_cell up" for up
    by (intro builds_bnd feed_from_builds set_config_builds p) (use Prepared.hyps that in auto)
  define m where "m = bnd (modify (prepare_replacement p)) (\<lambda>_. case ref of
      In_none \<Rightarrow> modify (drop_root p cfg)
    | In_endpoint ep \<Rightarrow> (\<lambda>s. bnd (add_endpoint_edge X now ep (cell_endpoint s p []) False) (\<lambda>_.
          modify (set_cell_config p cfg)) s)
    | In_cell upstream \<Rightarrow> bnd (feed_from X now p (cc_celltype (pc_config upstream)) (replace_cell X now upstream))
          (\<lambda>_. modify (set_cell_config p cfg))
    | In_checksum checksum \<Rightarrow>
        bind_checksum X p cfg (if or_else t [] \<noteq> [] then or_else t [] else cc_celltype cfg) checksum
    | In_chain checksum root_type links \<Rightarrow> bind_chain X now p cfg checksum root_type links
    | In_expression expression \<Rightarrow> modify (give_up_root p cfg (Some expression))
    | In_other \<Rightarrow> raise Type_Error)"
  have body: "builds A m"
    unfolding m_def
    by (intro builds_bnd prepare_replacement_builds)
       (cases ref; simp add: drop_root_builds give_up_root_builds bind_checksum_builds bind_chain_builds
          builds_raise endpoint upstream p)
  have run: "replace_cell X now (Prepared cfg t ref) p s = (case get_node s p of
      None \<Rightarrow> (Inl Key_Error, s)
    | Some nd \<Rightarrow> (if mount_has_attachments s p \<and> cc_celltype cfg \<noteq> config_celltype nd
        then (Inl Value_Error, s) else m s))" for s
    unfolding m_def by (rule replace_cell.simps)
  show ?case
  proof (rule buildsI)
    fix s assume sub: "A \<subseteq> cells s"
    show "edits s (snd (replace_cell X now (Prepared cfg t ref) p s))"
      unfolding run using buildsD(1) [OF body sub] by (simp split: option.split)
    show "A \<subseteq> cells s'" if "replace_cell X now (Prepared cfg t ref) p s = (Inr x, s')" for x s'
      using that unfolding run by (auto split: option.splits if_splits dest: buildsD(2) [OF body sub])
  qed
qed auto

lemma create_from_builder_edits:
  assumes "resolve_existing (cx_graph s) p = None" and "p \<noteq> []"
  shows "edits s (snd (create_cell_from_builder X now p cell s))"
proof -
  have none: "get_node s p = None"
    using assms unfolding resolve_existing_def resolve_from_none_iff get_node_def
    by (auto dest: spec [of _ "length p"])
  let ?s = "snd (create_cell p (cc_celltype (pc_config cell)) s)"
  have b: "builds {p} (undo_with (replace_cell X now cell p) (delete_subtree X now p))"
    by (intro builds_undo replace_cell_builds delete_subtree_editing) simp
  have "{p} \<subseteq> cells ?s" using create_cell_cells(1) [OF none] by simp
  from edits_trans [OF create_cell_edits [OF assms] buildsD(1) [OF b this]]
  show ?thesis
    using create_cell_cells(2) [OF none, of "cc_celltype (pc_config cell)"]
    by (cases "create_cell p (cc_celltype (pc_config cell)) s") (simp add: create_cell_from_builder_def bnd_def)
qed

section \<open>What deleting and creating promise\<close>

lemma shapes_keys: "keys (g_nodes g) = map fst (node_shapes g)"
  by (simp add: node_shapes_def case_prod_unfold comp_def)

lemma delete_subtree_result:
  fixes s X now p
  defines "g \<equiv> cx_graph s" and "h \<equiv> cx_graph (snd (delete_subtree X now p s))"
  shows "node_shapes h = filter (\<lambda>(q, _). take (length p) q \<noteq> p) (node_shapes g)"
    and "g_edges h = filter (\<lambda>e. take (length p) (ed_source e) \<noteq> p \<and> take (length p) (ed_target e) \<noteq> p) (g_edges g)"
    and "g_namespaces h = filter (\<lambda>q. take (length p) q \<noteq> p) (g_namespaces g)"
proof -
  define s1 where "s1 = prune_edges p (fold delete_node (descendants g p) s)"
  have "deriving (bnd (sync_module_refholds X) (\<lambda>_. bnd (sync_superseded_refholds X) (\<lambda>_. derive_all X now)))"
    by (intro derive_intros derive_all_deriving)
  then have d: "derives s1 (snd (delete_subtree X now p s))"
    by (simp add: deriving_def delete_subtree_def Let_def s1_def g_def)
  have c: "cuts (set (descendants g p)) s (fold delete_node (descendants g p) s)" by (rule delete_nodes_cuts)
  have in_desc: "q \<in> set (descendants g p) \<longleftrightarrow> take (length p) q = p" if "(q, b) \<in> set (node_shapes g)" for q b
    using that by (force simp: node_shapes_def descendants_def)
  have "node_shapes h = node_shapes (cx_graph s1)" unfolding h_def by (rule derives_shapes [OF d])
  also have "\<dots> = node_shapes (cx_graph (fold delete_node (descendants g p) s))"
    by (simp add: s1_def prune_edges_def node_shapes_def)
  also have "\<dots> = filter (\<lambda>(q, _). q \<notin> set (descendants g p)) (node_shapes g)" using c by (simp add: cuts_def g_def)
  also have "\<dots> = filter (\<lambda>(q, _). take (length p) q \<noteq> p) (node_shapes g)"
    by (rule filter_cong) (auto simp: in_desc)
  finally show "node_shapes h = filter (\<lambda>(q, _). take (length p) q \<noteq> p) (node_shapes g)" .
  show "g_edges h = filter (\<lambda>e. take (length p) (ed_source e) \<noteq> p \<and> take (length p) (ed_target e) \<noteq> p) (g_edges g)"
    "g_namespaces h = filter (\<lambda>q. take (length p) q \<noteq> p) (g_namespaces g)"
    using d c by (simp_all add: h_def s1_def g_def derives_def same_design_def prune_edges_def cuts_def)
qed

lemma one_cell_healthy: "healthy one_cell_ctx"
proof -
  have "one_cell_ctx = snd (create_cell [KStr ''a''] ''mixed'' (init_ctx ''top''))"
    by (simp add: one_cell_ctx_def create_cell_def add_node_def put_node_def get_node_def init_ctx_def empty_graph_def)
  moreover have "resolve_existing (cx_graph (init_ctx ''top'')) [KStr ''a''] = None"
    by (simp add: resolve_existing_def init_ctx_def empty_graph_def)
  ultimately show ?thesis
    using edits_healthy [OF create_cell_edits init_healthy, of "''top''" "[KStr ''a'']" "''mixed''"] by simp
qed

text \<open>C15: Deleting a path removes exactly the nodes at and below it, the namespaces below it and the edges
  that start or end below it, whatever the derivation that follows does; all other nodes keep their
  place and their kind, every claim of the removed nodes is given back and the Context stays
  well formed.\<close>

theorem delete_subtree_exact:
  assumes "healthy s"
  shows "let s' = snd (delete_subtree X now p s); under = \<lambda>q. take (length p) q = p in
     keys (g_nodes (cx_graph s')) = filter (\<lambda>q. \<not> under q) (keys (g_nodes (cx_graph s)))
     \<and> cells s' = {q \<in> cells s. \<not> under q}
     \<and> g_edges (cx_graph s') = filter (\<lambda>e. \<not> under (ed_source e) \<and> \<not> under (ed_target e)) (g_edges (cx_graph s))
     \<and> g_namespaces (cx_graph s') = filter (\<lambda>q. \<not> under q) (g_namespaces (cx_graph s))
     \<and> healthy s' \<and> ledger s' = ledger s"
proof -
  have m: "map_of (filter (\<lambda>qb. P (fst qb)) d) q = (if P q then map_of d q else None)"
    for P :: "path \<Rightarrow> bool" and q and d :: "(path \<times> bool) list"
    by (induction d) auto
  have e: "edits s (snd (delete_subtree X now p s))" by (rule editing_run [OF delete_subtree_editing])
  show ?thesis
    using delete_subtree_result [where s = s and X = X and now = now and p = p] edits_healthy [OF e assms]
    by (simp add: Let_def shapes_keys filter_map comp_def case_prod_unfold cells_shapes)
       (auto simp: m [where P = "\<lambda>q. take (length p) q \<noteq> p"] split: if_splits)
qed

theorem delete_subtree_exact_witness:
  "keys (g_nodes (cx_graph one_cell_ctx)) = [[KStr ''a'']]
   \<and> keys (g_nodes (cx_graph (snd (delete_subtree plain_ext 0 [KStr ''a''] one_cell_ctx)))) = []
   \<and> healthy (snd (delete_subtree plain_ext 0 [KStr ''a''] one_cell_ctx))"
  using delete_subtree_exact [OF one_cell_healthy, of plain_ext 0 "[KStr ''a'']"]
  by (simp add: Let_def) (simp add: one_cell_ctx_def)

text \<open>All of a graph that is not at or below a path and does not touch what is there.\<close>

definition outside :: "path \<Rightarrow> graph \<Rightarrow> (path \<times> bool) list \<times> edge list \<times> path list" where
  "outside p g =
     (filter (\<lambda>(q, _). take (length p) q \<noteq> p) (node_shapes g),
      filter (\<lambda>e. take (length p) (ed_source e) \<noteq> p \<and> take (length p) (ed_target e) \<noteq> p) (g_edges g),
      filter (\<lambda>q. take (length p) q \<noteq> p) (g_namespaces g))"

lemma outside_same:
  "node_shapes h = node_shapes g \<Longrightarrow> g_edges h = g_edges g \<Longrightarrow> g_namespaces h = g_namespaces g \<Longrightarrow> outside p h = outside p g"
  by (simp add: outside_def)

lemma create_cell_outside:
  assumes "get_node s p = None"
  shows "outside p (cx_graph (snd (create_cell p ct s))) = outside p (cx_graph s)"
proof -
  have "AList.update p (new_cell ct) (g_nodes (cx_graph s)) = g_nodes (cx_graph s) @ [(p, new_cell ct)]"
    using assms by (intro update_new) (simp add: get_node_def)
  then show ?thesis by (simp add: outside_def create_cell_def add_node_def put_node_def node_shapes_def assms)
qed

lemma prepare_replacement_outside: "outside p (cx_graph (prepare_replacement p s)) = outside p (cx_graph s)"
proof -
  have "outside p (cx_graph (strip_mounts p s)) = outside p (cx_graph s)"
    using drop_sessions_cuts [of s p] by (intro outside_same) (simp_all add: strip_mounts_def cuts_def)
  moreover have "outside p (cx_graph (upd_node p (\<lambda>nd. nd\<lparr>nd_root_expression := None\<rparr>) t)) = outside p (cx_graph t)" for t
    by (rule outside_same) simp_all
  ultimately show ?thesis by (simp add: prepare_replacement_def)
qed

lemma link_edge_namespaces: "link_edge base sm detach e g = (r, g') \<Longrightarrow> g_namespaces g' = g_namespaces g"
  by (auto simp: link_edge_def register_edge_symbols_def remove_edges_targeting_def Let_def
      split: option.splits if_splits sum.splits prod.splits)

lemma failed_connection_outside:
  assumes run: "add_endpoint_edge X now ep (cell_endpoint s p []) False s = (Inl x, s')"
    and node: "get_node s p \<noteq> None" and ne: "p \<noteq> []"
  shows "outside p (cx_graph s') = outside p (cx_graph s)"
proof -
  let ?e = "endpoint_edge ep (cell_endpoint s p [])"
  have target: "ed_target ?e = p" by (simp add: endpoint_edge_def cell_endpoint_def)
  have here: "resolve_existing (cx_graph s) p = Some (p, [])"
    using node ne by (intro resolve_existing_node) (simp_all add: get_node_def)
  obtain r g where l: "link_edge (x_symbol_base X) (sensing_target s p) False (?e\<lparr>ed_deep_member := deep_target s p\<rparr>) (cx_graph s) = (r, g)"
    by force
  show ?thesis
  proof (cases "check_connection X s ep (cell_endpoint s p [])")
    case (Inl y)
    then show ?thesis using run by (simp add: add_endpoint_edge_def)
  next
    case ok: (Inr u)
    show ?thesis
    proof (cases r)
      case (Inl y)
      then have "g = cx_graph s" using l by (simp add: link_edge_refused)
      then have "cx_graph s' = cx_graph s"
        using run ok l Inl by (auto simp: add_endpoint_edge_def add_edge_def target bnd_def set_graph_of_def lift_res_def)
      then show ?thesis by simp
    next
      case (Inr v)
      have "add_edge X now ?e False s = derive_all X now (set_graph_of s g)"
        using l Inr by (simp add: add_edge_def target)
      then have "derive_all X now (set_graph_of s g) = (Inl x, s')"
        using run ok by (auto simp: add_endpoint_edge_def bnd_def lift_res_def split: sum.splits prod.splits)
      then have "derives (set_graph_of s g) s'"
        using deriving_run [OF derive_all_deriving, of "set_graph_of s g" X now] by simp
      then have "node_shapes (cx_graph s') = node_shapes g" "g_edges (cx_graph s') = g_edges g" "g_namespaces (cx_graph s') = g_namespaces g"
        using derives_shapes [of "set_graph_of s g" s'] by (simp_all add: derives_def same_design_def set_graph_of_def)
      then have s': "outside p (cx_graph s') = outside p g" by (rule outside_same)
      have names: "g_namespaces g = g_namespaces (cx_graph s)" by (rule link_edge_namespaces [OF l])
      have gone: "take (length p) (ed_target d) = p" if below: "targets_below (cx_graph s) p [] True d" for d
      proof -
        obtain l where "resolve_existing (cx_graph s) (ed_target d) = Some (p, l)"
          using below by (auto simp: targets_below_root target_node_def)
        then have "p @ l = ed_target d" by (rule resolve_existing_Some(1))
        then show ?thesis by (metis append_eq_conv_conj)
      qed
      show ?thesis
        using l [unfolded Inr]
      proof (cases rule: link_edge_cases)
        case (linked a sl t tc e')
        have t: "t = p" "tc = []" using linked(3) here target by simp_all
        have "filter (\<lambda>e. take (length p) (ed_source e) \<noteq> p \<and> take (length p) (ed_target e) \<noteq> p) (g_edges g) =
            filter (\<lambda>e. take (length p) (ed_source e) \<noteq> p \<and> take (length p) (ed_target e) \<noteq> p) (g_edges (cx_graph s))"
          using gone linked(9,11) target
          by (auto simp: t remove_edges_targeting_def filter_filter intro!: filter_cong)
        then show ?thesis using linked(10) names s' by (simp add: outside_def node_shapes_def)
      qed simp_all
    qed
  qed
qed

fun direct_input :: "input_ref \<Rightarrow> bool" where
  "direct_input (In_cell _) = False"
| "direct_input (In_chain _ _ _) = False"
| "direct_input _ = True"

lemma failed_replacement_outside:
  assumes run: "replace_cell X now cell p s = (Inl e, s')" and direct: "direct_input (pc_input cell)"
    and node: "get_node s p \<noteq> None" and ne: "p \<noteq> []"
  shows "outside p (cx_graph s') = outside p (cx_graph s)"
proof -
  obtain cfg t ref where cell: "cell = Prepared cfg t ref" by (cases cell)
  let ?s = "prepare_replacement p s"
  have node': "get_node ?s p \<noteq> None"
  proof -
    have "map_of (node_shapes (cx_graph ?s)) p \<noteq> None"
    proof -
      have "node_shapes (cx_graph ?s) = node_shapes (cx_graph s)"
        using drop_sessions_cuts [of s p] by (simp add: prepare_replacement_def strip_mounts_def cuts_def)
      then show ?thesis using node by (simp add: shape_None get_node_def)
    qed
    then show ?thesis by (simp add: shape_None get_node_def)
  qed
  consider (same) "s' = s" | (prepared) "s' = ?s"
    | (endpoint) ep where "add_endpoint_edge X now ep (cell_endpoint ?s p []) False ?s = (Inl e, s')"
    using run direct unfolding cell
    by (cases ref)
       (auto simp: bnd_def bind_checksum_def retain_producer_def acquire_def Let_def
          split: option.splits if_splits sum.splits prod.splits)
  then show ?thesis
    using failed_connection_outside [OF _ node' ne] prepare_replacement_outside [of p s] by cases auto
qed

text \<open>C14: A cell that cannot be built from its builder is gone again: when any step of the replacement fails, no
  node stands at its path, no edge touches what is at or below it, no claim is left over, and the error of the
  step or of its undoing is reported. When the builder names its input directly, that is all: the nodes,
  edges and namespaces are those from before, less whatever was at or below the path. A builder with an
  upstream cell or a chain of Expressions may leave the source cells it has made, without edges to the path.\<close>

theorem failed_creation_rolled_back:
  assumes "healthy s" and "resolve_existing (cx_graph s) p = None" and "p \<noteq> []"
    and "create_cell_from_builder X now p cell s = (Inl e, s')"
  shows "get_node s' p = None
     \<and> (\<forall>d \<in> set (g_edges (cx_graph s')). take (length p) (ed_source d) \<noteq> p \<and> take (length p) (ed_target d) \<noteq> p)
     \<and> healthy s' \<and> ledger s' = ledger s
     \<and> (direct_input (pc_input cell) \<longrightarrow>
          (node_shapes (cx_graph s'), g_edges (cx_graph s'), g_namespaces (cx_graph s')) = outside p (cx_graph s))"
proof -
  have none: "get_node s p = None"
    using assms(2,3) unfolding resolve_existing_def resolve_from_none_iff get_node_def
    by (auto dest: spec [of _ "length p"])
  let ?s = "snd (create_cell p (cc_celltype (pc_config cell)) s)"
  obtain e' s1 where run: "replace_cell X now cell p ?s = (Inl e', s1)"
      and undone: "s' = snd (delete_subtree X now p s1)"
    using assms(4) create_cell_cells(2) [OF none, of "cc_celltype (pc_config cell)"]
    by (cases "create_cell p (cc_celltype (pc_config cell)) s")
       (auto simp: create_cell_from_builder_def bnd_def undo_with_def raise_def split: prod.splits sum.splits)
  have after: "(node_shapes (cx_graph s'), g_edges (cx_graph s'), g_namespaces (cx_graph s')) = outside p (cx_graph s1)"
    using delete_subtree_result [of X now p s1] by (simp add: undone outside_def)
  have "map_of (node_shapes (cx_graph s')) p = None"
    using after by (auto simp: outside_def map_of_eq_None_iff)
  then have "get_node s' p = None" by (simp add: shape_None get_node_def)
  moreover have "healthy s' \<and> ledger s' = ledger s"
    using edits_healthy [OF create_from_builder_edits [OF assms(2,3)] assms(1)] assms(4) by (metis snd_conv)
  moreover have "outside p (cx_graph s1) = outside p (cx_graph s)" if "direct_input (pc_input cell)"
    using failed_replacement_outside [OF run that _ assms(3)] create_cell_cells(3) [OF none] create_cell_outside [OF none] by simp
  ultimately show ?thesis using after by (simp add: outside_def)
qed

definition broken_builder :: prepared_cell where
  "broken_builder =
     (let cfg = \<lparr>cc_celltype = ''mixed'', cc_validator = None, cc_validator_language = None, cc_scratch = False\<rparr>
      in Prepared cfg None (In_cell (Prepared cfg None In_other)))"

definition unbindable :: prepared_cell where
  "unbindable = Prepared \<lparr>cc_celltype = ''mixed'', cc_validator = None, cc_validator_language = None, cc_scratch = False\<rparr>
     None In_other"

theorem failed_creation_rolled_back_witness:
  "keys (g_nodes (cx_graph (snd (create_cell_from_builder plain_ext 0 [KStr ''b''] unbindable one_cell_ctx)))) = [[KStr ''a'']]
   \<and> ledger (snd (create_cell_from_builder plain_ext 0 [KStr ''b''] broken_builder one_cell_ctx)) = ledger one_cell_ctx"
proof
  let ?u = "create_cell_from_builder plain_ext 0 [KStr ''b''] unbindable one_cell_ctx"
  let ?run = "create_cell_from_builder plain_ext 0 [KStr ''b''] broken_builder one_cell_ctx"
  have b: "resolve_existing (cx_graph one_cell_ctx) [KStr ''b''] = None" "[KStr ''b''] \<noteq> []" by code_simp+
  have "fst ?u = Inl Type_Error" by code_simp
  then have u: "?u = (Inl Type_Error, snd ?u)" by (metis prod.collapse)
  have "node_shapes (cx_graph (snd ?u)) = fst (outside [KStr ''b''] (cx_graph one_cell_ctx))"
    using failed_creation_rolled_back [OF one_cell_healthy b u] by (simp add: unbindable_def) (metis fst_conv)
  moreover have "map fst (fst (outside [KStr ''b''] (cx_graph one_cell_ctx))) = [[KStr ''a'']]" by code_simp
  ultimately show "keys (g_nodes (cx_graph (snd ?u))) = [[KStr ''a'']]" by (simp add: shapes_keys)
  have "fst ?run = Inl Type_Error" by code_simp
  then have run: "?run = (Inl Type_Error, snd ?run)" by (metis prod.collapse)
  show "ledger (snd ?run) = ledger one_cell_ctx" using failed_creation_rolled_back [OF one_cell_healthy b run] by blast
qed

end
