(* ===== verification/Close_Context.thy ===== *)
theory Close_Context
  imports Edit_Nodes
begin

text \<open>
  Closing a Context (\<open>Context.close\<close>, \<open>_finish_close\<close> and \<open>_release_refholds\<close> of
  \<^verbatim>\<open>context.py\<close>). When it closes, a Context gives its claims back by the role in which it
  holds them, which it reads off the graph and the tables once more, and not from a record of what
  it acquired. The claims a state records and the claims closing gives back agree when the tables
  are in step with the graph, which is what a derivation that goes through leaves behind.
\<close>

section \<open>The claims by their role\<close>

text \<open>
  A root expression stands for the expression object; its own claims are a parameter, and they are
  listed once for each object.
\<close>

definition code_role :: "graph \<Rightarrow> path \<Rightarrow> node \<Rightarrow> checksum option" where
  "code_role g p nd =
     (case (nd_kind nd, nd_transformer_config nd) of
        (Transformer_kind, Some c) \<Rightarrow>
          (if incoming_edge g p [KStr ''code''] = None then tc_code_checksum c else None)
      | _ \<Rightarrow> None)"

definition transformer_roles :: "graph \<Rightarrow> path \<Rightarrow> node \<Rightarrow> checksum list" where
  "transformer_roles g p nd =
     (case code_role g p nd of None \<Rightarrow> [] | Some c \<Rightarrow> [c]) @ map (fst \<circ> snd) (modules_of p nd)"

fun node_roles :: "ext \<Rightarrow> graph \<Rightarrow> string list \<Rightarrow> (path \<times> node) list \<Rightarrow> checksum list" where
  "node_roles X g seen [] = []"
| "node_roles X g seen ((p, nd) # nodes) =
     (case nd_root_producer nd of None \<Rightarrow> [] | Some q \<Rightarrow> [cp_checksum q])
     @ (case nd_root_expression nd of
          None \<Rightarrow> [] | Some x \<Rightarrow> if List.member seen x then [] else x_expression_claims X x)
     @ map (cp_checksum \<circ> snd) (nd_pin_producers nd)
     @ transformer_roles g p nd
     @ (case nd_current nd of None \<Rightarrow> [] | Some c \<Rightarrow> [c])
     @ node_roles X g (case nd_root_expression nd of None \<Rightarrow> seen | Some x \<Rightarrow> x # seen) nodes"

definition superseded_roles :: "runtime \<Rightarrow> checksum list" where
  "superseded_roles rt =
     List.map_filter (\<lambda>r. if rr_phase r = P_cancelled then None else rr_result r)
       (concat (map snd (rt_superseded rt)))"

definition refheld_checksums :: "ext \<Rightarrow> ctx \<Rightarrow> checksum list" where
  "refheld_checksums X s =
     (if cx_refholds_released s then []
      else node_roles X (cx_graph s) [] (g_nodes (cx_graph s))
           @ superseded_roles (cx_runtime s)
           @ map (fst \<circ> snd) (cx_anonymous_refholds s)
           @ map (fst \<circ> snd) (cx_edge_pin_refholds s))"

definition release_refholds :: "ext \<Rightarrow> ctx \<Rightarrow> ctx" where
  "release_refholds X s =
     (if cx_refholds_released s then s
      else (release_all (refheld_checksums X s) s)\<lparr>cx_superseded_refholds := [], cx_anonymous_refholds := [],
             cx_edge_pin_refholds := [], cx_refholds_released := True\<rparr>)"

section \<open>Closing\<close>

definition finish_close :: "ext \<Rightarrow> ctx \<Rightarrow> ctx" where
  "finish_close X s =
     (let s1 = mount_close_finish s;
          s2 = (release_all (concat (map snd (cx_node_leaves s1))) s1)\<lparr>cx_node_leaves := []\<rparr>;
          s3 = release_refholds X s2;
          s4 = fold (\<lambda>(_, lease, _). release_lease lease) (cx_facts s3) s3;
          rt = cx_runtime s4
      in s4\<lparr>cx_facts := [], cx_jobs := [], cx_celljoins := [], cx_used_celljoins := [],
            cx_runtime := rt\<lparr>rt_current := [], rt_superseded := [], rt_evicted := []\<rparr>,
            cx_graph := empty_graph, cx_code_refholds := [], cx_module_refholds := [],
            cx_superseded_refholds := []\<rparr>)"

section \<open>Tables in step\<close>

definition tables_in_step :: "ctx \<Rightarrow> bool" where
  "tables_in_step s \<longleftrightarrow>
     \<not> cx_refholds_released s
     \<and> cx_module_refholds s = wanted_modules s
     \<and> (\<forall>p. map_of (cx_code_refholds s) p =
          (case get_node s p of None \<Rightarrow> None | Some nd \<Rightarrow> code_role (cx_graph s) p nd))
     \<and> (\<forall>k. map_option fst (map_of (cx_superseded_refholds s) k) =
          map_option fst (map_of (wanted_superseded s) k))
     \<and> (\<forall>nd \<in> snd ` set (g_nodes (cx_graph s)).
          nd_root_expression nd = None
          \<and> (case nd_transformer_config nd of None \<Rightarrow> True | Some c \<Rightarrow> wf_dict (tc_modules c)))"

lemma value_count_same_map:
  assumes "wf_dict d" and "wf_dict e" and "map_of d = map_of e"
  shows "value_count f d c = value_count f e c"
proof -
  have "set d = set e" using assms map_of_inject_set unfolding wf_dict_def by blast
  then show ?thesis using assms(1,2) by (simp add: value_count_set)
qed

lemma value_count_append: "value_count f (d @ e) c = value_count f d c + value_count f e c"
  by (simp add: value_count_def)

lemma value_count_plain: "value_count (\<lambda>x. [x]) d c = int (count_list (map snd d) c)"
  by (simp add: value_count_def comp_def concat_map_singleton)

lemma value_count_claim_of: "value_count claim_of d c = int (count_list (map (fst \<circ> snd) d) c)"
  by (simp add: value_count_def claim_of_def comp_def concat_map_singleton)

lemma dict_of_distinct:
  assumes "distinct (map fst items)"
  shows "dict_of items = items"
proof -
  have "distinct (map fst (d @ items)) \<Longrightarrow> fold (\<lambda>(k, v). AList.update k v) items d = d @ items" for d
  proof (induction items arbitrary: d)
    case (Cons kv items)
    obtain k v where kv: "kv = (k, v)" by force
    have "AList.update k v d = d @ [(k, v)]" if "k \<notin> fst ` set d" for d :: "('a \<times> 'b) list"
      using that by (induction d) auto
    then have "AList.update k v d = d @ [(k, v)]" using Cons.prems kv by auto
    with Cons.IH [of "d @ [(k, v)]"] Cons.prems kv show ?case by simp
  qed simp
  from this [of "[]"] assms show ?thesis by (simp add: dict_of_def)
qed

lemma map_filter_keys:
  assumes "\<And>x w. x \<in> set xs \<Longrightarrow> f x = Some w \<Longrightarrow> fst w = g x"
  shows "fst ` set (List.map_filter f xs) \<subseteq> g ` set xs"
    and "distinct (map g xs) \<Longrightarrow> distinct (map fst (List.map_filter f xs))"
proof -
  have sub: "fst ` set (List.map_filter f ys) \<subseteq> g ` set ys" if "set ys \<subseteq> set xs" for ys
    using that assms by (force simp: List.map_filter_def)
  then show "fst ` set (List.map_filter f xs) \<subseteq> g ` set xs" by simp
  have "distinct (map g ys) \<Longrightarrow> distinct (map fst (List.map_filter f ys))" if "set ys \<subseteq> set xs" for ys
    using that
  proof (induction ys)
    case (Cons y ys)
    then have d: "distinct (map fst (List.map_filter f ys))" and y: "g y \<notin> fst ` set (List.map_filter f ys)"
      using sub [of ys] by auto
    show ?case using d y assms [of y] Cons.prems by (auto simp: List.map_filter_simps split: option.split)
  qed (simp add: List.map_filter_simps)
  then show "distinct (map g xs) \<Longrightarrow> distinct (map fst (List.map_filter f xs))" by simp
qed

lemma concat_keys_distinct:
  assumes "wf_dict d" and "\<And>p v. (p, v) \<in> set d \<Longrightarrow> distinct (map fst (h p v)) \<and> tag ` fst ` set (h p v) \<subseteq> {p}"
  shows "distinct (map fst (concat (map (\<lambda>(p, v). h p v) d)))"
  using assms
proof (induction d)
  case (Cons kv d)
  obtain p v where kv: "kv = (p, v)" by force
  have "q \<noteq> p" if "(q, w) \<in> set d" for q w using Cons.prems(1) that kv by (force simp: wf_dict_def)
  moreover have "tag ` fst ` set (h q w) \<subseteq> {q}" if "(q, w) \<in> set d" for q w using Cons.prems(2) that by auto
  moreover have "tag ` fst ` set (h p v) \<subseteq> {p}" using Cons.prems(2) kv by auto
  ultimately have "fst ` set (h p v) \<inter> fst ` (\<Union>(q, w) \<in> set d. set (h q w)) = {}"
    by (force simp: image_subset_iff)
  moreover have "distinct (map fst (concat (map (\<lambda>(p, v). h p v) d)))"
    using Cons by (simp add: wf_dict_def)
  moreover have "distinct (map fst (h p v))" using Cons.prems(2) kv by auto
  ultimately show ?case using kv by (simp add: case_prod_unfold image_UN)
qed simp

definition rows :: "(path \<Rightarrow> node \<Rightarrow> checksum option) \<Rightarrow> (path \<times> node) list \<Rightarrow> (path \<times> checksum) list" where
  "rows h nodes = concat (map (\<lambda>(p, nd). case h p nd of None \<Rightarrow> [] | Some c \<Rightarrow> [(p, c)]) nodes)"

lemma rows_map: "wf_dict nodes \<Longrightarrow> map_of (rows h nodes) p = (case map_of nodes p of None \<Rightarrow> None | Some nd \<Rightarrow> h p nd)"
proof (induction nodes)
  case (Cons kv nodes)
  obtain q nd where kv: "kv = (q, nd)" by force
  have "map_of nodes q = None" using Cons.prems kv by (simp add: wf_dict_def map_of_eq_None_iff)
  with Cons kv show ?case by (cases "p = q") (auto simp: rows_def wf_dict_def split: option.split)
qed (simp add: rows_def)

lemma rows_wf: "wf_dict nodes \<Longrightarrow> wf_dict (rows h nodes)"
  unfolding rows_def wf_dict_def [of "concat _"]
  by (rule concat_keys_distinct [where tag = id]) (auto split: option.split)

text \<open>The claims of the three tables are those of the roles.\<close>

lemma code_table_count:
  assumes "wf_ctx s" and "tables_in_step s"
  shows "value_count (\<lambda>c. [c]) (cx_code_refholds s) c =
    int (count_list (map snd (rows (code_role (cx_graph s)) (g_nodes (cx_graph s)))) c)"
proof -
  have "wf_dict (cx_code_refholds s)" "wf_dict (rows (code_role (cx_graph s)) (g_nodes (cx_graph s)))"
    using assms(1) by (simp_all add: wf_ctx_def rows_wf)
  moreover have "map_of (cx_code_refholds s) = map_of (rows (code_role (cx_graph s)) (g_nodes (cx_graph s)))"
    using assms by (auto simp: tables_in_step_def rows_map wf_ctx_def get_node_def)
  ultimately show ?thesis using value_count_same_map value_count_plain by metis
qed

lemma module_table_count:
  assumes "wf_ctx s" and "tables_in_step s"
  shows "value_count claim_of (cx_module_refholds s) c =
    int (count_list (map (fst \<circ> snd) (concat (map (\<lambda>(p, nd). modules_of p nd) (g_nodes (cx_graph s))))) c)"
proof -
  have "distinct (map fst (concat (map (\<lambda>(p, nd). modules_of p nd) (g_nodes (cx_graph s)))))"
  proof (rule concat_keys_distinct [where tag = fst])
    show "wf_dict (g_nodes (cx_graph s))" using assms(1) by (simp add: wf_ctx_def)
    fix p nd assume nd: "(p, nd) \<in> set (g_nodes (cx_graph s))"
    show "distinct (map fst (modules_of p nd)) \<and> fst ` fst ` set (modules_of p nd) \<subseteq> {p}"
    proof (cases "nd_kind nd = Transformer_kind \<and> nd_transformer_config nd \<noteq> None")
      case True
      then obtain c where c: "nd_kind nd = Transformer_kind" "nd_transformer_config nd = Some c" by blast
      have "wf_dict (tc_modules c)" using assms(2) nd c by (force simp: tables_in_step_def)
      then have "distinct (map (\<lambda>x. (p, fst x)) (tc_modules c))"
        by (simp add: wf_dict_def distinct_map inj_on_def)
      then have "distinct (map fst (modules_of p nd))"
        unfolding modules_of_def c by (simp, intro map_filter_keys(2)) (auto split: module_value.splits)
      moreover have "fst ` fst ` set (modules_of p nd) \<subseteq> {p}"
        unfolding modules_of_def c by (auto simp: List.map_filter_def split: module_value.splits)
      ultimately show ?thesis by blast
    next
      case False
      then have "modules_of p nd = []" by (auto simp: modules_of_def split: node_kind.split option.split)
      then show ?thesis by simp
    qed
  qed
  then show ?thesis
    using assms(2) by (simp add: tables_in_step_def wanted_modules_def dict_of_distinct value_count_claim_of)
qed

lemma superseded_table_count:
  assumes "wf_ctx s" and "runs_ok (cx_runtime s)" and "tables_in_step s"
  shows "value_count claim_of (cx_superseded_refholds s) c = int (count_list (superseded_roles (cx_runtime s)) c)"
proof -
  let ?sup = "rt_superseded (cx_runtime s)"
  let ?items = "concat (map (\<lambda>(p, rs). List.map_filter (superseded_of s p) rs) ?sup)"
  have gen: "fst w = rr_generation r" if "superseded_of s p r = Some w" for p r w
    using that by (auto simp: superseded_of_def split: option.splits if_splits)
  have sub: "fst ` set (concat (map (\<lambda>(p, rs). List.map_filter (superseded_of s p) rs) d)) \<subseteq>
      rr_generation ` set (concat (map snd d))" for d
    using map_filter_keys(1) [of _ "superseded_of s _", OF gen] by (fastforce simp: case_prod_unfold)
  have "distinct (map rr_generation (concat (map snd d))) \<Longrightarrow>
      distinct (map fst (concat (map (\<lambda>(p, rs). List.map_filter (superseded_of s p) rs) d)))" for d
  proof (induction d)
    case (Cons kv d)
    obtain p rs where kv: "kv = (p, rs)" by force
    have "distinct (map fst (List.map_filter (superseded_of s p) rs))"
      using Cons.prems kv by (intro map_filter_keys(2) [where g = rr_generation] gen) auto
    moreover have "fst ` set (List.map_filter (superseded_of s p) rs) \<subseteq> rr_generation ` set rs"
      by (rule map_filter_keys(1)) (rule gen)
    moreover have "distinct (map rr_generation (concat (map snd d)))"
      and "rr_generation ` set rs \<inter> rr_generation ` set (concat (map snd d)) = {}"
      using Cons.prems kv by auto
    ultimately have
      "fst ` set (List.map_filter (superseded_of s p) rs) \<inter>
       fst ` set (concat (map (\<lambda>(p, rs). List.map_filter (superseded_of s p) rs) d)) = {}"
      using sub [of d] by blast
    with Cons.IH [OF \<open>distinct (map rr_generation (concat (map snd d)))\<close>]
      \<open>distinct (map fst (List.map_filter (superseded_of s p) rs))\<close>
    show ?case unfolding kv by (simp del: set_concat)
  qed simp
  moreover have "distinct (map rr_generation (concat (map snd ?sup)))"
    using assms(2) by (simp add: runs_ok_def all_runs_def)
  ultimately have d: "distinct (map fst ?items)" by blast
  let ?plain = "map (\<lambda>(k, v). (k, fst v)) :: (nat \<times> checksum \<times> bool) list \<Rightarrow> (nat \<times> checksum) list"
  have "map_of (?plain xs) k = map_option fst (map_of xs k)" for xs k by (simp only: map_of_map o_apply)
  then have "map_of (?plain (cx_superseded_refholds s)) = map_of (?plain ?items)"
    using assms(3) d by (auto simp: tables_in_step_def wanted_superseded_def dict_of_distinct)
  moreover have "wf_dict (?plain (cx_superseded_refholds s))" "wf_dict (?plain ?items)"
    using assms(1) d by (simp_all add: wf_ctx_def wf_dict_def comp_def case_prod_unfold)
  ultimately have "value_count (\<lambda>x. [x]) (?plain (cx_superseded_refholds s)) c = value_count (\<lambda>x. [x]) (?plain ?items) c"
    by (intro value_count_same_map)
  moreover have "value_count (\<lambda>x. [x]) (?plain xs) c = value_count claim_of xs c" for xs
    by (simp add: value_count_plain value_count_claim_of comp_def case_prod_unfold)
  moreover have "map (fst \<circ> snd) ?items = superseded_roles (cx_runtime s)"
  proof -
    define f :: "run_record \<Rightarrow> checksum option" where "f r = (if rr_phase r = P_cancelled then None else rr_result r)" for r
    have one: "map (fst \<circ> snd) (List.map_filter (superseded_of s p) rs) = List.map_filter f rs" for p rs
      by (induction rs) (auto simp: List.map_filter_simps superseded_of_def f_def split: option.split)
    have append: "List.map_filter f (xs @ ys) = List.map_filter f xs @ List.map_filter f ys" for xs ys
      by (simp add: List.map_filter_def)
    have "map (fst \<circ> snd) (concat (map (\<lambda>(p, rs). List.map_filter (superseded_of s p) rs) d)) =
        List.map_filter f (concat (map snd d))" for d
    proof (induction d)
      case (Cons kv d)
      then show ?case by (cases kv) (simp only: list.map concat.simps prod.case map_append one append snd_conv)
    qed (simp add: List.map_filter_simps)
    then show ?thesis by (simp add: superseded_roles_def f_def [abs_def])
  qed
  ultimately show ?thesis by (simp add: value_count_claim_of)
qed

section \<open>Closing gives every claim back\<close>

lemma node_roles_count:
  assumes "\<forall>nd \<in> snd ` set nodes. nd_root_expression nd = None"
  shows "int (count_list (node_roles X g seen nodes) c) =
    value_count node_claims nodes c + int (count_list (map snd (rows (code_role g) nodes)) c)
    + int (count_list (map (fst \<circ> snd) (concat (map (\<lambda>(p, nd). modules_of p nd) nodes))) c)"
  using assms
proof (induction nodes)
  case (Cons kv nodes)
  obtain p nd where kv: "kv = (p, nd)" by force
  have "nd_root_expression nd = None" using Cons.prems kv by simp
  with Cons kv show ?case
    by (simp add: value_count_def node_claims_def rows_def transformer_roles_def comp_def split: option.split)
qed (simp add: value_count_def rows_def)

lemma release_facts_refs:
  "fold (\<lambda>(_, lease, _). release_lease lease) facts s =
   s\<lparr>cx_refs := \<lambda>c. cx_refs s c - value_count fact_claims facts c\<rparr>"
proof (induction facts arbitrary: s)
  case Nil
  show ?case by (simp add: value_count_def)
next
  case (Cons f facts)
  obtain k lease err where f: "f = (k, lease, err)" by (cases f) auto
  have "release_lease lease s = s\<lparr>cx_refs := \<lambda>c. cx_refs s c - int (count_list (fact_claims (lease, err)) c)\<rparr>"
    by (cases lease) (simp_all add: release_lease_def fact_claims_def release_refs)
  then show ?case
    unfolding f fold_Cons o_apply prod.case Cons
    by (simp, intro refs_cong) (simp add: value_count_def)
qed

text \<open>Ending the sessions changes nothing that the roles are read off.\<close>

definition bare :: "node \<Rightarrow> node" where
  "bare nd = nd\<lparr>nd_mount := None, nd_mount_inactive := False, nd_attachments := []\<rparr>"

definition same_roles :: "ctx \<Rightarrow> ctx \<Rightarrow> bool" where
  "same_roles s s' \<longleftrightarrow>
     map (\<lambda>(p, nd). (p, bare nd)) (g_nodes (cx_graph s')) = map (\<lambda>(p, nd). (p, bare nd)) (g_nodes (cx_graph s))
     \<and> g_edges (cx_graph s') = g_edges (cx_graph s) \<and> cx_runtime s' = cx_runtime s
     \<and> cx_code_refholds s' = cx_code_refholds s \<and> cx_module_refholds s' = cx_module_refholds s
     \<and> cx_superseded_refholds s' = cx_superseded_refholds s
     \<and> cx_refholds_released s' = cx_refholds_released s"

lemma bare_same: "bare a = bare b \<Longrightarrow> nd_kind a = nd_kind b \<and> nd_transformer_config a = nd_transformer_config b
    \<and> nd_cell_config a = nd_cell_config b \<and> nd_root_expression a = nd_root_expression b"
  by (cases a; cases b) (simp add: bare_def)

lemma drop_session_roles: "same_roles s (drop_session k s)"
proof -
  have b: "bare (detached_node d nd) = bare nd" for d nd by (simp add: bare_def detached_node_def)
  have "map (\<lambda>(p, nd). (p, bare nd)) (AList.update p nd' d) = map (\<lambda>(p, nd). (p, bare nd)) d"
    if "map_of d p = Some nd" "bare nd' = bare nd" for p nd nd' and d :: "(path \<times> node) list"
    using that by (induction d) auto
  then show ?thesis
    by (auto simp: same_roles_def drop_session_def release_delivery_def release_refs upd_node_def put_node_def
        get_node_def b split: option.split)
qed

lemma close_finish_roles: "same_roles s (mount_close_finish s)"
proof -
  have "same_roles s (fold drop_session ks s)" for ks
  proof (induction ks arbitrary: s)
    case (Cons k ks)
    show ?case using drop_session_roles [of s k] Cons [of "drop_session k s"] by (simp add: same_roles_def)
  qed (simp add: same_roles_def)
  then show ?thesis by (simp add: mount_close_finish_def)
qed

lemma same_roles_nodes:
  assumes "same_roles s s'"
  shows "keys (g_nodes (cx_graph s')) = keys (g_nodes (cx_graph s))"
    and "map_option bare (get_node s' p) = map_option bare (get_node s p)"
    and "bare ` snd ` set (g_nodes (cx_graph s')) = bare ` snd ` set (g_nodes (cx_graph s))"
proof -
  let ?b = "map (\<lambda>(p, nd). (p, bare nd)) :: (path \<times> node) list \<Rightarrow> (path \<times> node) list"
  have b: "?b (g_nodes (cx_graph s')) = ?b (g_nodes (cx_graph s))" using assms by (simp add: same_roles_def)
  have "map fst (?b d) = keys d" "bare ` snd ` set d = snd ` set (?b d)" for d
    by (simp_all add: case_prod_unfold comp_def image_comp)
  with b show "keys (g_nodes (cx_graph s')) = keys (g_nodes (cx_graph s))"
    "bare ` snd ` set (g_nodes (cx_graph s')) = bare ` snd ` set (g_nodes (cx_graph s))" by metis+
  have "map_of (?b d) p = map_option bare (map_of d p)" for d by (simp only: map_of_map o_apply)
  with b show "map_option bare (get_node s' p) = map_option bare (get_node s p)"
    unfolding get_node_def by metis
qed

lemma same_roles_in_step:
  assumes same: "same_roles s s'" and step: "tables_in_step s"
  shows "tables_in_step s'"
proof -
  note nodes = same_roles_nodes [OF same]
  have get: "(case get_node s' p of None \<Rightarrow> d | Some nd \<Rightarrow> f nd) = (case get_node s p of None \<Rightarrow> d | Some nd \<Rightarrow> f nd)"
    if "\<And>a b. bare a = bare b \<Longrightarrow> f a = f b" for f d p
  proof (cases "get_node s p")
    case None
    then show ?thesis using nodes(2) [of p] by simp
  next
    case (Some b)
    then obtain a where a: "get_node s' p = Some a" "bare a = bare b" using nodes(2) [of p] by auto
    from that [OF a(2)] show ?thesis by (simp only: a(1) Some option.case)
  qed
  have incoming: "incoming_edge (cx_graph s') p l = None \<longleftrightarrow> incoming_edge (cx_graph s) p l = None" for p l
  proof -
    have "resolve_existing (cx_graph s') v = resolve_existing (cx_graph s) v" for v
      by (rule resolve_same_keys) (simp add: nodes(1))
    then show ?thesis using same by (simp add: incoming_edge_def find_None_iff targets_at_def same_roles_def)
  qed
  have role: "code_role (cx_graph s') p a = code_role (cx_graph s) p b" if "bare a = bare b" for p a b
    using bare_same [OF that] incoming by (simp add: code_role_def split: node_kind.split option.split)
  have mods: "modules_of p (bare nd) = modules_of p nd" for p nd
    by (simp add: modules_of_def bare_def)
  have "map (\<lambda>(p, nd). modules_of p nd) d = map (\<lambda>(p, nd). modules_of p nd) (map (\<lambda>(p, nd). (p, bare nd)) d)" for d
    by (simp add: mods case_prod_unfold comp_def)
  then have modules: "wanted_modules s' = wanted_modules s"
    using same unfolding wanted_modules_def same_roles_def by metis
  have "superseded_of s' p r = superseded_of s p r" for p r
  proof -
    have "node_scratch a = node_scratch b" if "bare a = bare b" for a b
      using bare_same [OF that] by (cases "nd_kind b") (simp_all add: node_scratch_def)
    from get [OF this] show ?thesis by (simp add: superseded_of_def split: option.split)
  qed
  then have "superseded_of s' = superseded_of s" by (intro ext)
  then have superseded: "wanted_superseded s' = wanted_superseded s"
    using same by (simp add: wanted_superseded_def same_roles_def)
  have code: "map_of (cx_code_refholds s') p =
      (case get_node s' p of None \<Rightarrow> None | Some nd \<Rightarrow> code_role (cx_graph s') p nd)" for p
  proof -
    have "map_of (cx_code_refholds s') p = (case get_node s p of None \<Rightarrow> None | Some nd \<Rightarrow> code_role (cx_graph s) p nd)"
      using same step by (simp add: same_roles_def tables_in_step_def)
    also have "\<dots> = (case get_node s p of None \<Rightarrow> None | Some nd \<Rightarrow> code_role (cx_graph s') p nd)"
      using role [OF refl, of p] by (simp split: option.split)
    also have "\<dots> = (case get_node s' p of None \<Rightarrow> None | Some nd \<Rightarrow> code_role (cx_graph s') p nd)"
    proof (rule get [symmetric])
      show "code_role (cx_graph s') p a = code_role (cx_graph s') p b" if "bare a = bare b" for a b
        using role [OF that, of p] role [OF refl, of p b] by simp
    qed
    finally show ?thesis .
  qed
  have plain: "nd_root_expression nd = None
      \<and> (case nd_transformer_config nd of None \<Rightarrow> True | Some c \<Rightarrow> wf_dict (tc_modules c))"
    if "nd \<in> snd ` set (g_nodes (cx_graph s'))" for nd
  proof -
    from that nodes(3) obtain nd0 where nd0: "nd0 \<in> snd ` set (g_nodes (cx_graph s))" "bare nd = bare nd0"
      by (metis (no_types, lifting) imageE imageI)
    from step have "\<forall>nd \<in> snd ` set (g_nodes (cx_graph s)). nd_root_expression nd = None
        \<and> (case nd_transformer_config nd of None \<Rightarrow> True | Some c \<Rightarrow> wf_dict (tc_modules c))"
      unfolding tables_in_step_def by (elim conjE)
    note nd0_ok = bspec [OF this nd0(1)]
    have same_nd: "nd_root_expression nd = nd_root_expression nd0" "nd_transformer_config nd = nd_transformer_config nd0"
      using bare_same [OF nd0(2)] by simp_all
    show ?thesis unfolding same_nd by (rule nd0_ok)
  qed
  have eqs: "cx_refholds_released s' = cx_refholds_released s" "cx_module_refholds s' = cx_module_refholds s"
    "cx_superseded_refholds s' = cx_superseded_refholds s"
    using same by (simp_all add: same_roles_def)
  note parts = step [unfolded tables_in_step_def]
  show ?thesis
    unfolding tables_in_step_def modules superseded eqs
    by (intro conjI allI ballI)
       (rule parts [THEN conjunct1] parts [THEN conjunct2, THEN conjunct1] code
          parts [THEN conjunct2, THEN conjunct2, THEN conjunct2, THEN conjunct1, THEN spec]
          plain [THEN conjunct1] plain [THEN conjunct2], assumption?)+
qed

lemma drop_sessions_all:
  "cx_sessions (fold drop_session ks s) = filter (\<lambda>(k, _). k \<notin> set ks) (cx_sessions s)"
proof (induction ks arbitrary: s)
  case (Cons k ks)
  have "cx_sessions (drop_session k s) = AList.delete k (cx_sessions s)"
  proof -
    have "AList.delete k d = d" if "map_of d k = None" for d :: "(session_key \<times> session) list"
      using that by (induction d) (auto split: if_splits)
    then show ?thesis
      by (simp add: drop_session_def release_delivery_def release_refs upd_node_def put_node_def get_session_def
          split: option.split)
  qed
  then show ?case using Cons [of "drop_session k s"] by (auto simp: AList.delete_eq intro!: filter_cong)
qed simp

lemma close_finish_sessions: "cx_sessions (mount_close_finish s) = []"
  unfolding mount_close_finish_def drop_sessions_all by (auto simp: filter_empty_conv image_iff)

text \<open>C10: Closing gives every claim back: when the claim tables are in step with the graph, a closed
  Context keeps no node, edge, run, fact, job or session, and it has released exactly the claims
  that it recorded, each of them once, so that what is left of the claims is the ledger, which no
  operation changes.\<close>

theorem close_releases_everything:
  assumes "healthy s" and "tables_in_step s"
  shows "let s' = finish_close X s in
     cx_refs s' = ledger s \<and> held_count s' = (\<lambda>_. 0) \<and> healthy s'
     \<and> cx_graph s' = empty_graph \<and> cx_sessions s' = [] \<and> cx_facts s' = [] \<and> cx_jobs s' = []
     \<and> all_runs (cx_runtime s') = []"
proof -
  let ?s1 = "mount_close_finish s"
  define s2 where "s2 = (release_all (concat (map snd (cx_node_leaves ?s1))) ?s1)\<lparr>cx_node_leaves := []\<rparr>"
  have h1: "healthy ?s1" "ledger ?s1 = ledger s"
    using edits_healthy [OF close_finish_edits assms(1)] by simp_all
  have s2: "s2 = ?s1\<lparr>cx_node_leaves := [],
      cx_refs := \<lambda>c. cx_refs ?s1 c - value_count (\<lambda>cs. cs) (cx_node_leaves ?s1) c\<rparr>"
    by (simp add: s2_def release_all_refs value_count_def comp_def)
  have l2: "ledger s2 c = ledger s c" for c
    using h1(2) [THEN fun_cong, of c] by (simp add: s2 ledger_def held_count_def value_count_def)
  have wf: "wf_ctx s2" and runs: "runs_ok (cx_runtime s2)"
    using h1(1) by (simp_all add: healthy_def s2 wf_ctx_def)
  have "same_roles s s2" using close_finish_roles [of s] by (simp add: same_roles_def s2)
  from same_roles_in_step [OF this assms(2)] have step: "tables_in_step s2" .
  have roles: "int (count_list (refheld_checksums X s2) c) =
      value_count node_claims (g_nodes (cx_graph s2)) c + value_count (\<lambda>c. [c]) (cx_code_refholds s2) c
      + value_count claim_of (cx_module_refholds s2) c + value_count claim_of (cx_superseded_refholds s2) c
      + value_count claim_of (cx_anonymous_refholds s2) c + value_count claim_of (cx_edge_pin_refholds s2) c" for c
    using step node_roles_count [where nodes = "g_nodes (cx_graph s2)" and g = "cx_graph s2" and seen = "[]"]
      code_table_count [OF wf step] module_table_count [OF wf step] superseded_table_count [OF wf runs step]
    by (simp add: refheld_checksums_def value_count_claim_of tables_in_step_def)
  have rel: "\<not> cx_refholds_released s2" using step by (simp add: tables_in_step_def)
  define s3 where "s3 = release_refholds X s2"
  have s3: "s3 = s2\<lparr>cx_superseded_refholds := [], cx_anonymous_refholds := [], cx_edge_pin_refholds := [],
      cx_refholds_released := True, cx_refs := \<lambda>c. cx_refs s2 c - int (count_list (refheld_checksums X s2) c)\<rparr>"
    using rel by (simp add: s3_def release_refholds_def release_all_refs)
  define rt where "rt = (cx_runtime s)\<lparr>rt_current := [], rt_superseded := [], rt_evicted := []\<rparr>"
  have fin: "finish_close X s = s3\<lparr>cx_refs := \<lambda>c. cx_refs s3 c - value_count fact_claims (cx_facts s3) c,
      cx_facts := [], cx_jobs := [], cx_celljoins := [], cx_used_celljoins := [], cx_runtime := rt,
      cx_graph := empty_graph, cx_code_refholds := [], cx_module_refholds := [], cx_superseded_refholds := []\<rparr>"
    using close_finish_roles [of s]
    by (simp add: finish_close_def Let_def s3_def [symmetric] s2_def [symmetric] release_facts_refs rt_def)
       (simp add: s3 s2 same_roles_def)
  have sess: "cx_sessions ?s1 = []" by (rule close_finish_sessions)
  have refs: "cx_refs (finish_close X s) c = ledger s c" for c
    using l2 [of c] roles [of c]
    by (simp add: fin s3 ledger_def held_count_def) (simp add: s2 sess value_count_def)
  have held: "held_count (finish_close X s) c = 0" for c
    by (simp add: fin s3 s2 held_count_def sess value_count_def empty_graph_def)
  have "rt_generation rt = rt_generation (cx_runtime s)" by (simp add: rt_def)
  have "healthy (finish_close X s)"
    using h1(1) init_healthy [of "[]"]
    by (simp add: healthy_def fin s3 s2 sess wf_ctx_def init_ctx_def empty_graph_def sessions_ok_def)
       (simp add: rt_def runs_ok_def all_runs_def live_def)
  then show ?thesis
    using refs held by (simp add: Let_def fun_eq_iff) (simp add: fin s3 s2 sess rt_def all_runs_def)
qed

text \<open>
  A Context with a transformer that has code and a module, and a package in which no claim on the
  module can be taken.
\<close>

definition coded :: transformer_config where
  "coded = pinned\<lparr>tc_modules := [(''m'', Module_checksum ''mm'')]\<rparr>"

definition bare_transformer_ctx :: ctx where
  "bare_transformer_ctx = (init_ctx ''top'')\<lparr>cx_graph := empty_graph\<lparr>g_nodes :=
     [([KStr ''t''], (new_node Transformer_kind)\<lparr>nd_transformer_config := Some (pinned\<lparr>tc_code_checksum := None\<rparr>)\<rparr>)]\<rparr>\<rparr>"

definition coded_ctx :: ctx where
  "coded_ctx = snd (set_transformer_code plain_ext 0 [KStr ''t''] (Code_config coded) bare_transformer_ctx)"

definition no_module_ext :: ext where
  "no_module_ext = plain_ext\<lparr>x_acquire := \<lambda>c _. if c = ''mm'' then Some Value_Error else None\<rparr>"

lemma bare_transformer_healthy: "healthy bare_transformer_ctx"
proof -
  have "edges_ok (cx_graph bare_transformer_ctx)"
    by (simp add: bare_transformer_ctx_def edges_ok_def edge_pairs_def edge_targets_def empty_graph_def
        List.map_filter_simps acyclic_def)
  then show ?thesis
    using init_healthy [of "''top''"]
    by (simp add: healthy_def bare_transformer_ctx_def wf_ctx_def init_ctx_def empty_graph_def sessions_ok_def
        symbols_ok_def new_node_def wf_dict_def)
qed

lemma coded_healthy: "healthy coded_ctx" "ledger coded_ctx = ledger bare_transformer_ctx"
  unfolding coded_ctx_def
  using edits_healthy [OF editing_run [OF set_transformer_code_editing] bare_transformer_healthy] by blast+

lemma coded_in_step: "tables_in_step coded_ctx"
proof -
  have 1: "map (\<lambda>(p, nd). (p, nd_kind nd, nd_root_expression nd,
        map_option (\<lambda>c. (tc_modules c, tc_code_checksum c)) (nd_transformer_config nd))) (g_nodes (cx_graph coded_ctx)) =
      [([KStr ''t''], Transformer_kind, None, Some ([(''m'', Module_checksum ''mm'')], Some ''cc''))]"
    by code_simp
  have f0: "cx_module_refholds coded_ctx = [(([KStr ''t''], ''m''), ''mm'', False)]" by code_simp
  have f1: "wanted_modules coded_ctx = [(([KStr ''t''], ''m''), ''mm'', False)]" by code_simp
  have f2: "cx_refholds_released coded_ctx = False" by code_simp
  have f3: "cx_code_refholds coded_ctx = [([KStr ''t''], ''cc'')]" by code_simp
  have f4: "cx_superseded_refholds coded_ctx = []" by code_simp
  have f5: "wanted_superseded coded_ctx = []" by code_simp
  have f6: "g_edges (cx_graph coded_ctx) = []" by code_simp
  note fields = f0 f1 f2 f3 f4 f5 f6
  obtain nd c where nd: "g_nodes (cx_graph coded_ctx) = [([KStr ''t''], nd)]" "nd_kind nd = Transformer_kind"
      "nd_root_expression nd = None" "nd_transformer_config nd = Some c"
      "tc_modules c = [(''m'', Module_checksum ''mm'')]" "tc_code_checksum c = Some ''cc''"
    using 1 by (auto simp: map_eq_Cons_conv)
  have "incoming_edge (cx_graph coded_ctx) p l = None" for p l by (simp add: incoming_edge_def f6)
  then show ?thesis
    by (auto simp: tables_in_step_def fields nd get_node_def code_role_def wf_dict_def)
qed

theorem close_releases_everything_witness:
  "cx_refs coded_ctx ''mm'' = 1 \<and> cx_refs (finish_close plain_ext coded_ctx) ''mm'' = 0"
proof -
  have "cx_refs coded_ctx ''mm'' = 1" "ledger bare_transformer_ctx ''mm'' = 0" by code_simp+
  with close_releases_everything [OF coded_healthy(1) coded_in_step, of plain_ext] coded_healthy(2)
  show ?thesis by (simp add: Let_def)
qed

text \<open>
  Without the premise it fails. When the claim on a module cannot be taken, the derivation fails and
  the Context is closed; closing reads the module off the configuration and gives back a claim that
  was never taken.
\<close>

lemma failed_module_claim_released:
  "cx_closing (snd (set_transformer_code no_module_ext 0 [KStr ''t''] (Code_config coded) bare_transformer_ctx))
   \<and> cx_refs (finish_close no_module_ext
       (snd (set_transformer_code no_module_ext 0 [KStr ''t''] (Code_config coded) bare_transformer_ctx))) ''mm'' = -1"
  by code_simp

end
