(* ===== verification/Serialize.thy ===== *)
theory Serialize
  imports Close_Context
begin

text \<open>
  Saving and loading the graph: \<open>Context.get_graph\<close> and \<open>_graph_connections\<close> of
  \<^verbatim>\<open>context.py\<close>, and \<open>prepare_graph\<close> of \<^verbatim>\<open>serialization.py\<close>.

  A saved graph is a record with the keys of the Python dictionary; a key that may be missing and has a
  default is an option. A document whose values have the wrong type has no counterpart here.
  What the imported packages decide about celltypes, buffers, signatures and the text of a path are
  parameters.
\<close>

section \<open>The document\<close>

record serial_ext =
  sx_map_celltype :: "celltype \<Rightarrow> exc option"
    \<comment> \<open>\<open>Buffer._map_celltype\<close>: the error it raises\<close>
  sx_decodes :: "py_value \<Rightarrow> bool"
    \<comment> \<open>\<open>hasattr(code, 'decode')\<close>\<close>
  sx_buffer :: "py_value \<Rightarrow> string \<Rightarrow> py_value \<times> checksum"
    \<comment> \<open>a \<open>Buffer\<close> of the code, and its checksum\<close>
  sx_checksum_code :: "checksum \<Rightarrow> py_value"
  sx_fingerprint :: "transformer_config \<Rightarrow> string"
  sx_signature :: "string option \<Rightarrow> (string list \<times> string) option"
    \<comment> \<open>the inputs and the header of a schema, or none when parsing or generating raises\<close>
  sx_validate :: "string list \<Rightarrow> (string \<times> celltype) list \<Rightarrow> exc option"
    \<comment> \<open>\<open>validate_declarations\<close>\<close>
  sx_guess :: "string \<Rightarrow> string option"
  sx_file_celltypes :: "celltype list"
  sx_directory_celltypes :: "celltype list"
  sx_symbol_base :: "recipe \<Rightarrow> string"
  sx_print_path :: "path \<Rightarrow> string"
  sx_parse_path :: "string \<Rightarrow> exc + path"

record run_doc =
  rd_identity :: "checksum option"
  rd_result :: "checksum option"
  rd_phase :: run_phase
  rd_generation :: nat
  rd_hold_kind :: "hold_kind option"
  rd_hold_deadline :: "real option"

record runtime_doc =
  nr_state :: nstate
  nr_block_reason :: block_reason
  nr_checksum :: "checksum option"
  nr_exception :: "exc option"
  nr_current :: "(run_doc \<times> exc option) option"
  nr_superseded :: "run_doc list"

record cell_doc =
  ce_celltype :: "celltype option"
  ce_target_celltype :: "celltype option"
  ce_validator :: "string option"
  ce_validator_language :: "string option"
  ce_scratch :: bool
  ce_value :: "(checksum \<times> celltype option) option"

record transformer_doc =
  te_call_mode :: "string option"
  te_code :: "py_value option"
  te_code_checksum :: "checksum option"
  te_language :: "string option"
  te_pins :: "(string \<times> celltype option) list"
  te_result_celltype :: "celltype option"
  te_optional_pins :: "string list"
  te_modules :: "(string \<times> module_value) list"
  te_globals :: "(string \<times> py_value) list"
  te_meta :: "(string \<times> py_value) list"
  te_environment :: py_value
  te_scratch :: bool
  te_local :: "bool option"
  te_schema :: "string option"
  te_compilation :: "string option"
  te_objects :: py_value
  te_header :: "string option"
  te_producers :: "(string \<times> checksum \<times> celltype option) list"

datatype node_body = Cell_body cell_doc | Transformer_body transformer_doc | Unknown_body string

record node_doc =
  ne_path :: path
  ne_overlay :: bool
  ne_body :: node_body
  ne_mount :: "(string \<times> py_value) list option"
  ne_share :: "(string \<times> py_value) list option"
  ne_runtime :: "runtime_doc option"

record anonymous_doc =
  an_source :: source_key
  an_celltype :: celltype
  an_path :: string

datatype connection_source = Ref_path path | Ref_node path | Ref_symbol string

record connection_doc =
  cn_source :: connection_source
  cn_target :: path
  cn_deep_member :: bool
  cn_source_path :: path
  cn_steps :: steps

record document =
  dc_version :: string
  dc_nodes :: "node_doc list"
  dc_anonymous :: "(string \<times> anonymous_doc) list"
  dc_connections :: "connection_doc list"

section \<open>Saving\<close>

definition run_entry :: "run_record \<Rightarrow> run_doc" where
  "run_entry r =
     \<lparr>rd_identity = rr_identity r, rd_result = rr_result r, rd_phase = rr_phase r,
      rd_generation = rr_generation r, rd_hold_kind = rr_hold_kind r, rd_hold_deadline = rr_hold_deadline r\<rparr>"

definition runtime_entry :: "ctx \<Rightarrow> path \<Rightarrow> node \<Rightarrow> runtime_doc" where
  "runtime_entry s p nd =
     \<lparr>nr_state = nd_state nd, nr_block_reason = nd_block_reason nd, nr_checksum = nd_current nd,
      nr_exception = map_option fst (nd_exception nd),
      nr_current = map_option (\<lambda>r. (run_entry r, map_option fst (rr_exception r))) (current_run s p),
      nr_superseded = map run_entry (held_runs s p)\<rparr>"

definition save_cell :: "node \<Rightarrow> cell_doc" where
  "save_cell nd =
     (let c = the (nd_cell_config nd)
      in \<lparr>ce_celltype = Some (cc_celltype c), ce_target_celltype = None, ce_validator = cc_validator c,
          ce_validator_language = cc_validator_language c, ce_scratch = cc_scratch c,
          ce_value = map_option (\<lambda>q. (cp_checksum q, Some (cp_celltype q))) (nd_root_producer nd)\<rparr>)"

definition celltype_or_mixed :: "(string \<times> celltype) list \<Rightarrow> string \<Rightarrow> celltype" where
  "celltype_or_mixed d p = (case map_of d p of Some t \<Rightarrow> t | None \<Rightarrow> ''mixed'')"

definition save_transformer :: "serial_ext \<Rightarrow> node \<Rightarrow> transformer_doc" where
  "save_transformer X nd =
     (let c = the (nd_transformer_config nd)
      in \<lparr>te_call_mode = Some (tc_call_mode c),
          te_code = (if sx_decodes X (tc_code c) then Some (tc_code c) else None),
          te_code_checksum = tc_code_checksum c,
          te_language = Some (tc_language c),
          te_pins = map (\<lambda>p. (p, Some (celltype_or_mixed (tc_celltypes c) p))) (sort (remdups (tc_pins c))),
          te_result_celltype = Some (celltype_or_mixed (tc_celltypes c) ''result''),
          te_optional_pins = sort (remdups (tc_optional_pins c)),
          te_modules = tc_modules c, te_globals = tc_globals c, te_meta = tc_meta c,
          te_environment = tc_environment c, te_scratch = tc_scratch c, te_local = tc_local c,
          te_schema = tc_schema c, te_compilation = tc_compilation c, te_objects = tc_objects c,
          te_header = tc_header c,
          te_producers = map (\<lambda>(p, q). (p, cp_checksum q, Some (cp_celltype q)))
            (sort_key fst (nd_pin_producers nd))\<rparr>)"

definition share_to_graph :: "share_spec \<Rightarrow> (string \<times> py_value) list" where
  "share_to_graph spec =
     [(''path'', PyStr (ss_path spec)), (''readonly'', PyBool (ss_readonly spec)),
      (''mimetype'', ss_mimetype spec), (''toplevel'', PyBool (ss_toplevel spec))]"

definition save_share :: "node \<Rightarrow> (string \<times> py_value) list option" where
  "save_share nd =
     (case (nd_kind nd, map_of (nd_attachments nd) ''share'') of
        (Cell_kind, Some (ShareSpec spec)) \<Rightarrow> Some (share_to_graph spec)
      | _ \<Rightarrow> None)"

definition save_mount :: "node \<Rightarrow> (string \<times> py_value) list option" where
  "save_mount nd =
     (case nd_mount nd of
        Some (FileSpec spec) \<Rightarrow> (case attach_to_graph spec of Inr d \<Rightarrow> Some d | Inl _ \<Rightarrow> None)
      | _ \<Rightarrow> None)"

definition save_node :: "serial_ext \<Rightarrow> ctx \<Rightarrow> bool \<Rightarrow> path \<times> node \<Rightarrow> node_doc" where
  "save_node X s runtime pn =
     (case pn of (p, nd) \<Rightarrow>
        \<lparr>ne_path = p, ne_overlay = False,
         ne_body = (if nd_kind nd = Cell_kind then Cell_body (save_cell nd)
                    else Transformer_body (save_transformer X nd)),
         ne_mount = save_mount nd, ne_share = save_share nd,
         ne_runtime = (if runtime then Some (runtime_entry s p nd) else None)\<rparr>)"

text \<open>The entries of a chain; the reference is to the last.\<close>

fun add_anonymous_chain ::
  "serial_ext \<Rightarrow> graph \<Rightarrow> recipe list \<Rightarrow> (string \<times> anonymous_doc) list \<times> connection_source
   \<Rightarrow> exc + (string \<times> anonymous_doc) list \<times> connection_source" where
  "add_anonymous_chain X g [] acc = Inr acc"
| "add_anonymous_chain X g ((key, celltype, path) # chain) (entries, _) =
     res_bind (symbol_of g (key, celltype, path)) (\<lambda>symbol.
       add_anonymous_chain X g chain
         (AList.update symbol \<lparr>an_source = key, an_celltype = celltype, an_path = sx_print_path X path\<rparr> entries,
          Ref_symbol symbol))"

definition saved_as_link :: "graph \<Rightarrow> edge \<Rightarrow> bool" where
  "saved_as_link g e \<longleftrightarrow> ed_chain e = [] \<or> collapses_on_save g e"

definition own_source :: "graph \<Rightarrow> edge \<Rightarrow> exc + connection_source" where
  "own_source g e =
     (case resolve_existing g (ed_target e) of
        None \<Rightarrow> Inl Key_Error
      | Some (t, _) \<Rightarrow>
          (case map_of (g_nodes g) t of
             None \<Rightarrow> Inl Key_Error
           | Some target \<Rightarrow>
               (if nd_kind target \<noteq> Cell_kind then Inr (Ref_path (ed_source e))
                else case resolve_existing g (ed_source e) of
                  None \<Rightarrow> Inl Key_Error
                | Some (n, local) \<Rightarrow>
                    Inr (if local \<noteq> [] \<or> Option.bind (map_of (g_nodes g) n) nd_root_producer \<noteq> None
                         then Ref_path (n @ local) else Ref_node n))))"

definition has_links :: "graph \<Rightarrow> edge \<Rightarrow> exc + bool" where
  "has_links g e =
     (if ed_conversion e then Inr True
      else case resolve_existing g (ed_source e) of
        None \<Rightarrow> Inl Key_Error
      | Some (_, local) \<Rightarrow> Inr (local \<noteq> []))"

definition check_registered :: "graph \<Rightarrow> edge \<Rightarrow> exc + unit" where
  "check_registered g e =
     res_bind (has_links g e) (\<lambda>links.
       if links \<and> (ed_chain e = [] \<or> \<not> list_all (\<lambda>r. map_of (g_symbols g) r \<noteq> None) (ed_chain e))
       then Inl Assertion_Error else Inr ())"

definition save_edge ::
  "serial_ext \<Rightarrow> graph \<Rightarrow> edge \<Rightarrow> (string \<times> anonymous_doc) list
   \<Rightarrow> exc + (string \<times> anonymous_doc) list \<times> connection_doc" where
  "save_edge X g e entries =
     res_bind (check_registered g e) (\<lambda>_.
     res_bind (if saved_as_link g e
               then res_bind (own_source g e) (\<lambda>src. Inr (entries, src))
               else add_anonymous_chain X g (ed_chain e) (entries, Ref_symbol []))
       (\<lambda>(entries', src).
          Inr (entries', \<lparr>cn_source = src, cn_target = ed_target e, cn_deep_member = ed_deep_member e,
                          cn_source_path = [], cn_steps = []\<rparr>)))"

fun save_edges ::
  "serial_ext \<Rightarrow> graph \<Rightarrow> edge list \<Rightarrow> (string \<times> anonymous_doc) list
   \<Rightarrow> exc + (string \<times> anonymous_doc) list \<times> connection_doc list" where
  "save_edges X g [] entries = Inr (entries, [])"
| "save_edges X g (e # es) entries =
     res_bind (save_edge X g e entries) (\<lambda>(entries1, c).
     res_bind (save_edges X g es entries1) (\<lambda>(entries2, cs). Inr (entries2, c # cs)))"

definition graph_connections ::
  "serial_ext \<Rightarrow> graph \<Rightarrow> exc + (string \<times> anonymous_doc) list \<times> connection_doc list" where
  "graph_connections X g =
     res_bind (py_sorted (\<lambda>e. (ed_source e, ed_target e)) (g_edges g)) (\<lambda>es.
     res_bind (save_edges X g es []) (\<lambda>(entries, cs). Inr (sort_key fst entries, cs)))"

definition get_graph :: "serial_ext \<Rightarrow> bool \<Rightarrow> ctx \<Rightarrow> exc + document" where
  "get_graph X runtime s =
     res_bind (graph_connections X (cx_graph s)) (\<lambda>(entries, cs).
       Inr \<lparr>dc_version = ''0.6'',
            dc_nodes = map (save_node X s runtime) (sort_key fst (g_nodes (cx_graph s))),
            dc_anonymous = entries, dc_connections = cs\<rparr>)"

section \<open>Loading nodes\<close>

definition get_str :: "(string \<times> py_value) list \<Rightarrow> string \<Rightarrow> string option \<Rightarrow> exc + string" where
  "get_str d k dflt =
     (case map_of d k of
        Some (PyStr s) \<Rightarrow> Inr s
      | Some _ \<Rightarrow> Inl Type_Error
      | None \<Rightarrow> (case dflt of Some s \<Rightarrow> Inr s | None \<Rightarrow> Inl Type_Error))"

definition get_value :: "(string \<times> py_value) list \<Rightarrow> string \<Rightarrow> py_value \<Rightarrow> py_value" where
  "get_value d k dflt = (case map_of d k of Some v \<Rightarrow> v | None \<Rightarrow> dflt)"

definition only_keys :: "(string \<times> py_value) list \<Rightarrow> string list \<Rightarrow> bool" where
  "only_keys d ks \<longleftrightarrow> list_all (List.member ks) (keys d)"

text \<open>A mount or share specification that is refused is a path error.\<close>

definition as_path_error :: "exc + 'a \<Rightarrow> exc + 'a" where
  "as_path_error r = (case r of Inl _ \<Rightarrow> Inl Path_Error | Inr x \<Rightarrow> Inr x)"

definition load_mount :: "serial_ext \<Rightarrow> celltype \<Rightarrow> (string \<times> py_value) list \<Rightarrow> exc + spec" where
  "load_mount X celltype d =
     as_path_error
       (if \<not> only_keys d [''path'', ''mode'', ''authority'', ''persistent''] then Inl Value_Error
        else res_bind (get_str d ''path'' None) (\<lambda>path.
             res_bind (get_str d ''mode'' (Some ''rw'')) (\<lambda>mode.
             res_bind (get_str d ''authority'' (Some ''file'')) (\<lambda>authority.
             res_bind (make_attach_spec path mode authority (get_value d ''persistent'' (PyBool True)) ''file'') (\<lambda>spec.
             case validate_mount_celltype (sx_file_celltypes X) (sx_directory_celltypes X) celltype (as_mode spec) of
               Some e \<Rightarrow> Inl e
             | None \<Rightarrow> Inr (FileSpec spec))))))"

definition load_share ::
  "serial_ext \<Rightarrow> celltype \<Rightarrow> string list \<Rightarrow> (string \<times> py_value) list \<Rightarrow> exc + share_spec" where
  "load_share X celltype urls d =
     as_path_error
       (if \<not> only_keys d [''path'', ''readonly'', ''mimetype'', ''toplevel''] then Inl Value_Error
        else res_bind (get_str d ''path'' None) (\<lambda>path.
             res_bind (make_share_spec (sx_guess X) path (get_value d ''readonly'' (PyBool True))
                (get_value d ''mimetype'' PyNone) (get_value d ''toplevel'' (PyBool False))) (\<lambda>spec.
             case validate_share_celltype celltype of
               Some e \<Rightarrow> Inl e
             | None \<Rightarrow> if List.member urls (ss_path spec) then Inl Value_Error else Inr spec)))"

definition load_cell :: "serial_ext \<Rightarrow> string \<Rightarrow> cell_doc \<Rightarrow> exc + node" where
  "load_cell X version ce =
     (let ct = (case ce_celltype ce of Some t \<Rightarrow> t | None \<Rightarrow> ''mixed'') in
      case sx_map_celltype X ct of
        Some e \<Rightarrow> Inl e
      | None \<Rightarrow>
          (if (case ce_target_celltype ce of Some t \<Rightarrow> t \<noteq> ct \<or> version = ''0.4'' | None \<Rightarrow> False)
           then Inl Path_Error
           else Inr ((new_node Cell_kind)\<lparr>
             nd_cell_config := Some \<lparr>cc_celltype = ct, cc_validator = ce_validator ce,
               cc_validator_language = ce_validator_language ce, cc_scratch = ce_scratch ce\<rparr>,
             nd_root_producer := map_option (\<lambda>(c, t). \<lparr>cp_checksum = c,
               cp_celltype = (case t of Some t \<Rightarrow> t | None \<Rightarrow> ct)\<rparr>) (ce_value ce)\<rparr>)))"

definition set_default :: "'a option \<Rightarrow> 'a \<Rightarrow> 'a" where
  "set_default x d = (case x of Some y \<Rightarrow> y | None \<Rightarrow> d)"

definition load_config :: "serial_ext \<Rightarrow> transformer_doc \<Rightarrow> string \<Rightarrow> transformer_config" where
  "load_config X te mode =
     (let language = set_default (te_language te) ''python'';
          buf = map_option (\<lambda>code. sx_buffer X code (if language = ''python'' then ''python'' else ''text'')) (te_code te);
          code_cs = (case te_code_checksum te of Some c \<Rightarrow> if c \<noteq> [] then Some c else None | None \<Rightarrow> None)
      in \<lparr>tc_config_token = [], tc_schema = te_schema te, tc_compilation = te_compilation te,
          tc_objects = te_objects te, tc_header = te_header te,
          tc_code = (case buf of Some b \<Rightarrow> fst b
                     | None \<Rightarrow> (case code_cs of Some c \<Rightarrow> sx_checksum_code X c | None \<Rightarrow> PyNone)),
          tc_code_checksum = (case code_cs of Some c \<Rightarrow> Some c | None \<Rightarrow> map_option snd buf),
          tc_language = language, tc_callable = Not_callable, tc_pins = keys (te_pins te),
          tc_celltypes = dict_of (map (\<lambda>(p, t). (p, set_default t ''mixed'')) (te_pins te)
            @ [(''result'', set_default (te_result_celltype te) ''mixed'')]),
          tc_optional_pins = te_optional_pins te, tc_modules = te_modules te, tc_globals = te_globals te,
          tc_meta = te_meta te, tc_environment = te_environment te, tc_scratch = te_scratch te,
          tc_local = te_local te, tc_streaming = False, tc_call_mode = mode\<rparr>)"

definition load_compiled :: "serial_ext \<Rightarrow> transformer_config \<Rightarrow> exc + transformer_config" where
  "load_compiled X c =
     (if tc_compilation c = None then Inr c
      else if tc_optional_pins c \<noteq> [] then Inl Type_Error
      else case sx_signature X (tc_schema c) of
        None \<Rightarrow> Inr (c\<lparr>tc_header := None\<rparr>)
      | Some (inputs, header) \<Rightarrow>
          (let celltypes = dict_of (map (\<lambda>p. (p, celltype_or_mixed (tc_celltypes c) p)) inputs
                 @ [(''result'', celltype_or_mixed (tc_celltypes c) ''result'')])
           in case sx_validate X inputs celltypes of
                Some e \<Rightarrow> Inl e
              | None \<Rightarrow> Inr (c\<lparr>tc_header := Some header, tc_pins := inputs, tc_celltypes := celltypes\<rparr>)))"

definition load_transformer :: "serial_ext \<Rightarrow> transformer_doc \<Rightarrow> exc + node" where
  "load_transformer X te =
     (case te_call_mode te of
        None \<Rightarrow> Inl Path_Error
      | Some mode \<Rightarrow>
          res_bind (load_compiled X (load_config X te mode)) (\<lambda>c0.
            (let c = c0\<lparr>tc_config_token := sx_fingerprint X c0\<rparr>
             in Inr ((new_node Transformer_kind)\<lparr>nd_transformer_config := Some c,
                  nd_pin_producers := dict_of (map (\<lambda>(p, cs, t). (p, \<lparr>cp_checksum = cs,
                    cp_celltype = set_default t (celltype_or_mixed (tc_celltypes c) p)\<rparr>)) (te_producers te))\<rparr>))))"

definition load_attachments ::
  "serial_ext \<Rightarrow> string \<Rightarrow> string list \<Rightarrow> node_doc \<Rightarrow> node \<Rightarrow> exc + node \<times> string list" where
  "load_attachments X version urls ne nd =
     res_bind (case ne_mount ne of
         None \<Rightarrow> Inr nd
       | Some d \<Rightarrow> if nd_kind nd \<noteq> Cell_kind then Inl Path_Error
                   else res_bind (load_mount X (config_celltype nd) d) (\<lambda>spec. Inr (nd\<lparr>nd_mount := Some spec\<rparr>)))
       (\<lambda>nd1.
     case ne_share ne of
       None \<Rightarrow> Inr (nd1, urls)
     | Some d \<Rightarrow>
         (if version \<noteq> ''0.6'' then Inl Path_Error
          else if nd_kind nd1 \<noteq> Cell_kind then Inl Path_Error
          else res_bind (load_share X (config_celltype nd1) urls d) (\<lambda>spec.
            Inr (nd1\<lparr>nd_attachments := AList.update ''share'' (ShareSpec spec) (nd_attachments nd1)\<rparr>,
                 ss_path spec # urls))))"

definition load_node ::
  "serial_ext \<Rightarrow> string \<Rightarrow> node_doc \<Rightarrow> (path \<times> node) list \<times> string list \<Rightarrow> exc + (path \<times> node) list \<times> string list" where
  "load_node X version ne acc =
     (case acc of (nodes, urls) \<Rightarrow>
        (if ne_path ne = [] \<or> map_of nodes (ne_path ne) \<noteq> None then Inl Path_Error
         else if ne_overlay ne then Inl Path_Error
         else res_bind (case ne_body ne of
                 Cell_body ce \<Rightarrow> load_cell X version ce
               | Transformer_body te \<Rightarrow> load_transformer X te
               | Unknown_body _ \<Rightarrow> Inl Path_Error) (\<lambda>nd.
              if ne_path ne = [KStr ''mounts''] then Inl Path_Error
              else if take 1 (ne_path ne) = [KStr ''shares''] then Inl Path_Error
              else res_bind (load_attachments X version urls ne nd) (\<lambda>(nd1, urls1).
                Inr (AList.update (ne_path ne) nd1 nodes, urls1)))))"

fun load_nodes ::
  "serial_ext \<Rightarrow> string \<Rightarrow> node_doc list \<Rightarrow> (path \<times> node) list \<times> string list
   \<Rightarrow> exc + (path \<times> node) list \<times> string list" where
  "load_nodes X version [] acc = Inr acc"
| "load_nodes X version (ne # nes) acc = res_bind (load_node X version ne acc) (load_nodes X version nes)"

section \<open>Loading edges\<close>

definition hex_char :: "char \<Rightarrow> bool" where
  "hex_char c \<longleftrightarrow> (let n = of_char c :: nat in (48 \<le> n \<and> n \<le> 57) \<or> (97 \<le> n \<and> n \<le> 102))"

definition digit_char :: "char \<Rightarrow> bool" where
  "digit_char c \<longleftrightarrow> (let n = of_char c :: nat in 48 \<le> n \<and> n \<le> 57)"

text \<open>The pattern of a symbol, \<^verbatim>\<open>[0-9a-f]{5}(?:-[1-9][0-9]*)?\<close>.\<close>

definition valid_symbol :: "string \<Rightarrow> bool" where
  "valid_symbol s \<longleftrightarrow>
     5 \<le> length s \<and> list_all hex_char (take 5 s)
     \<and> (case drop 5 s of
          [] \<Rightarrow> True
        | c # ds \<Rightarrow> c = CHR ''-'' \<and> ds \<noteq> [] \<and> list_all digit_char ds \<and> hd ds \<noteq> CHR ''0'')"

type_synonym parsed = "(string \<times> source_key \<times> celltype \<times> path) list"

fun parse_anonymous ::
  "serial_ext \<Rightarrow> (string \<times> anonymous_doc) list \<Rightarrow> graph \<Rightarrow> parsed \<Rightarrow> exc + graph \<times> parsed" where
  "parse_anonymous X [] g table = Inr (g, table)"
| "parse_anonymous X ((symbol, a) # entries) g table =
     (if \<not> valid_symbol symbol then Inl Path_Error
      else if (case an_source a of Src_node p \<Rightarrow> map_of (g_nodes g) p = None | Src_symbol _ \<Rightarrow> False)
      then Inl Path_Error
      else res_bind (as_path_error (sx_parse_path X (an_path a))) (\<lambda>path.
        case sx_map_celltype X (an_celltype a) of
          Some e \<Rightarrow> Inl e
        | None \<Rightarrow>
            parse_anonymous X entries
              (g\<lparr>g_symbols := AList.update (an_source a, an_celltype a, path) symbol (g_symbols g)\<rparr>)
              (AList.update symbol (an_source a, an_celltype a, path) table)))"

text \<open>
  What a symbol resolves to: the named node at the bottom, the path, the celltype, the conversion
  steps and the recipes from the bottom up. The memo of resolved symbols takes no part, since the
  function is pure; the set of symbols under way detects a cycle. The depth is bounded by the
  number of entries.
\<close>

type_synonym resolved = "path \<times> path \<times> celltype \<times> steps \<times> recipe list"

fun resolve_anonymous :: "graph \<Rightarrow> parsed \<Rightarrow> nat \<Rightarrow> string list \<Rightarrow> string \<Rightarrow> exc + resolved" where
  "resolve_anonymous g table 0 resolving symbol = Inl Dependency_Error"
| "resolve_anonymous g table (Suc n) resolving symbol =
     (if List.member resolving symbol then Inl Dependency_Error
      else case map_of table symbol of
        None \<Rightarrow> Inl Path_Error
      | Some (key, celltype, path) \<Rightarrow>
          res_bind (case key of
              Src_node p \<Rightarrow>
                (case node_celltype g p of None \<Rightarrow> Inl Key_Error | Some ct \<Rightarrow> Inr (p, [], ct, [], []))
            | Src_symbol s \<Rightarrow> resolve_anonymous g table n (symbol # resolving) s)
            (\<lambda>(source_node, source_path, source_celltype, steps, chain).
               let source_path1 = source_path @ path
               in Inr (source_node, source_path1, celltype,
                    (if path = [] \<and> celltype \<noteq> source_celltype
                     then steps @ [(int (length source_path1), celltype)] else steps),
                    chain @ [(key, celltype, path)])))"

definition resolve_symbol :: "graph \<Rightarrow> parsed \<Rightarrow> string \<Rightarrow> exc + resolved" where
  "resolve_symbol g table = resolve_anonymous g table (Suc (length table)) []"

definition load_source :: "graph \<Rightarrow> parsed \<Rightarrow> connection_doc \<Rightarrow> exc + edge" where
  "load_source g table c =
     (let target = cn_target c; source_path = cn_source_path c in
      case cn_source c of
        Ref_path p \<Rightarrow> Inr (plain_link p target)
      | Ref_node p \<Rightarrow>
          (case cn_steps c of
             [] \<Rightarrow> Inr (plain_link (p @ source_path) target)
           | (position, ct) # steps \<Rightarrow>
               Inr ((plain_link (p @ source_path) target)\<lparr>
                 ed_source_celltype := Some (snd (last ((position, ct) # steps))), ed_conversion := True,
                 ed_conversion_before := (position = 0), ed_conversion_steps := (position, ct) # steps\<rparr>))
      | Ref_symbol symbol \<Rightarrow>
          res_bind (resolve_symbol g table symbol) (\<lambda>(node, anonymous_path, anonymous_type, steps, chain).
            let celltype = projected_celltype anonymous_type source_path
            in Inr ((plain_link (node @ anonymous_path @ source_path) target)\<lparr>
                 ed_source_celltype := Some celltype, ed_conversion := (steps \<noteq> []),
                 ed_conversion_before := (case steps of (n, _) # _ \<Rightarrow> n = 0 | [] \<Rightarrow> False),
                 ed_conversion_steps := steps,
                 ed_chain := (if source_path \<noteq> [] then chain @ [(Src_symbol symbol, celltype, source_path)]
                              else chain)\<rparr>)))"

definition check_loaded :: "graph \<Rightarrow> edge list \<Rightarrow> edge \<Rightarrow> exc + edge" where
  "check_loaded g edges e =
     (case (resolve_existing g (ed_source e), resolve_existing g (ed_target e)) of
        (Some _, Some (t, local)) \<Rightarrow>
          (case map_of (g_nodes g) t of
             None \<Rightarrow> Inl Key_Error
           | Some nd \<Rightarrow>
               (if (case nd_mount nd of Some m \<Rightarrow> sensing m | None \<Rightarrow> False) then Inl Path_Error
                else if (case map_of (nd_attachments nd) ''share'' of
                           Some (ShareSpec sp) \<Rightarrow> \<not> ss_readonly sp | _ \<Rightarrow> False) then Inl Path_Error
                else if (if nd_kind nd = Cell_kind then 1 < length local \<or> list_ex is_slice local
                         else length local \<noteq> 1) then Inl Path_Error
                else if list_ex (\<lambda>d. path_eq (ed_target d) (ed_target e)) edges then Inl Dependency_Error
                else Inr (e\<lparr>ed_deep_member := (ed_deep_member e
                       \<or> (local \<noteq> [] \<and> nd_kind nd = Cell_kind \<and> is_deep (config_celltype nd)))\<rparr>)))
      | _ \<Rightarrow> Inl Path_Error)"

fun load_edges :: "graph \<Rightarrow> parsed \<Rightarrow> connection_doc list \<Rightarrow> edge list \<Rightarrow> exc + edge list" where
  "load_edges g table [] edges = Inr edges"
| "load_edges g table (c # cs) edges =
     res_bind (load_source g table c) (\<lambda>e.
     res_bind (check_loaded g edges (e\<lparr>ed_deep_member := cn_deep_member c\<rparr>)) (\<lambda>e1.
     load_edges g table cs (edges @ [e1])))"

fun register_all ::
  "(recipe \<Rightarrow> string) \<Rightarrow> graph \<Rightarrow> edge list \<Rightarrow> exc + edge list \<times> graph" where
  "register_all base g [] = Inr ([], g)"
| "register_all base g (e # es) =
     (case register_edge_symbols base g e of
        (Inl x, _) \<Rightarrow> Inl x
      | (Inr e1, g1) \<Rightarrow> res_bind (register_all base g1 es) (\<lambda>(es1, g2). Inr (e1 # es1, g2)))"

text \<open>
  The search for a cycle: from a node to the sources of its edges. The depth is bounded by the
  number of nodes, since the nodes under way are distinct.
\<close>

definition loaded_sources :: "graph \<Rightarrow> path \<Rightarrow> path list" where
  "loaded_sources g p =
     List.map_filter (\<lambda>e. case (resolve_existing g (ed_source e), resolve_existing g (ed_target e)) of
        (Some (s, _), Some (t, _)) \<Rightarrow> if t = p then Some s else None
      | _ \<Rightarrow> None) (g_edges g)"

fun check_cycle :: "(path \<Rightarrow> path list) \<Rightarrow> nat \<Rightarrow> path list \<Rightarrow> path \<Rightarrow> path list \<Rightarrow> exc + path list" where
  "check_cycle srcs 0 visiting p finished = Inl Dependency_Error"
| "check_cycle srcs (Suc n) visiting p finished =
     (if List.member visiting p then Inl Dependency_Error
      else if List.member finished p then Inr finished
      else res_bind (fold (\<lambda>q acc. res_bind acc (check_cycle srcs n (p # visiting) q)) (srcs p) (Inr finished))
             (\<lambda>finished1. Inr (p # finished1)))"

definition check_cycles :: "graph \<Rightarrow> exc + unit" where
  "check_cycles g =
     res_bind (fold (\<lambda>q acc. res_bind acc (check_cycle (loaded_sources g) (Suc (length (g_nodes g))) [] q))
        (keys (g_nodes g)) (Inr [])) (\<lambda>_. Inr ())"

definition prepare_graph :: "serial_ext \<Rightarrow> document \<Rightarrow> exc + graph" where
  "prepare_graph X d =
     (if \<not> List.member [''0.2'', ''0.3'', ''0.4'', ''0.5'', ''0.6''] (dc_version d) then Inl Path_Error
      else res_bind (load_nodes X (dc_version d) (dc_nodes d) ([], [])) (\<lambda>(nodes, _).
        if \<not> List.member [''0.5'', ''0.6''] (dc_version d) \<and> dc_anonymous d \<noteq> [] then Inl Path_Error
        else res_bind (parse_anonymous X (dc_anonymous d) (empty_graph\<lparr>g_nodes := nodes\<rparr>) []) (\<lambda>(g, table).
        case find isl (map (resolve_symbol g table \<circ> fst) table) of
          Some r \<Rightarrow> Inl (projl r)
        | None \<Rightarrow> res_bind (load_edges g table (dc_connections d) []) (\<lambda>edges.
             res_bind (register_all (sx_symbol_base X) g edges) (\<lambda>(edges1, g1).
             let g2 = g1\<lparr>g_edges := edges1\<rparr>
             in res_bind (check_cycles g2) (\<lambda>_. Inr g2))))))"

section \<open>What a saved node keeps\<close>

text \<open>
  The durable part of a node. Sets are compared as sorted lists, dictionaries of celltypes on the pins and
  the result; the code object, the callable, streaming and the derived state are not saved, and the
  header of a compiled transformer is derived again.
\<close>

definition durable_config :: "transformer_config \<Rightarrow> transformer_config" where
  "durable_config c =
     c\<lparr>tc_config_token := [], tc_code := PyNone, tc_callable := Not_callable, tc_streaming := False,
       tc_pins := sort (remdups (tc_pins c)), tc_optional_pins := sort (remdups (tc_optional_pins c)),
       tc_celltypes := map (\<lambda>p. (p, celltype_or_mixed (tc_celltypes c) p)) (sort (remdups (''result'' # tc_pins c))),
       tc_header := (if tc_compilation c = None then tc_header c else None)\<rparr>"

definition durable :: "node \<Rightarrow> node" where
  "durable nd =
     (new_node (nd_kind nd))\<lparr>nd_cell_config := nd_cell_config nd,
       nd_transformer_config := map_option durable_config (nd_transformer_config nd),
       nd_root_producer := nd_root_producer nd, nd_pin_producers := sort_key fst (nd_pin_producers nd),
       nd_mount := nd_mount nd,
       nd_attachments := (case map_of (nd_attachments nd) ''share'' of None \<Rightarrow> [] | Some sp \<Rightarrow> [(''share'', sp)])\<rparr>"

text \<open>What loading asks of a node: the conditions under which a running Context has put it there.\<close>

definition mount_savable :: "serial_ext \<Rightarrow> node \<Rightarrow> bool" where
  "mount_savable X nd \<longleftrightarrow>
     (case nd_mount nd of
        None \<Rightarrow> True
      | Some (FileSpec sp) \<Rightarrow>
          nd_kind nd = Cell_kind \<and> as_driver sp = ''file''
          \<and> make_attach_spec (as_path sp) (as_mode sp) (as_authority sp) (PyBool (as_persistent sp)) ''file'' = Inr sp
          \<and> validate_mount_celltype (sx_file_celltypes X) (sx_directory_celltypes X) (config_celltype nd) (as_mode sp) = None
      | Some (ShareSpec _) \<Rightarrow> False)"

definition share_savable :: "serial_ext \<Rightarrow> node \<Rightarrow> bool" where
  "share_savable X nd \<longleftrightarrow>
     (case map_of (nd_attachments nd) ''share'' of
        None \<Rightarrow> True
      | Some (ShareSpec sp) \<Rightarrow>
          nd_kind nd = Cell_kind \<and> validate_share_celltype (config_celltype nd) = None
          \<and> make_share_spec (sx_guess X) (ss_path sp) (PyBool (ss_readonly sp)) (ss_mimetype sp) (PyBool (ss_toplevel sp)) = Inr sp
      | Some (FileSpec _) \<Rightarrow> False)"

definition config_savable :: "serial_ext \<Rightarrow> transformer_config \<Rightarrow> bool" where
  "config_savable X c \<longleftrightarrow>
     tc_code_checksum c \<noteq> Some [] \<and> (tc_code_checksum c = None \<longrightarrow> \<not> sx_decodes X (tc_code c))
     \<and> (tc_compilation c \<noteq> None \<longrightarrow> tc_optional_pins c = [] \<and>
          (case sx_signature X (tc_schema c) of
             None \<Rightarrow> True
           | Some (inputs, _) \<Rightarrow> set inputs = set (tc_pins c)
               \<and> sx_validate X inputs (dict_of (map (\<lambda>p. (p, celltype_or_mixed (tc_celltypes c) p)) inputs
                   @ [(''result'', celltype_or_mixed (tc_celltypes c) ''result'')])) = None))"

definition body_savable :: "serial_ext \<Rightarrow> node \<Rightarrow> bool" where
  "body_savable X nd \<longleftrightarrow>
     (case nd_kind nd of
        Cell_kind \<Rightarrow> nd_cell_config nd \<noteq> None \<and> nd_transformer_config nd = None \<and> nd_pin_producers nd = []
          \<and> sx_map_celltype X (config_celltype nd) = None
      | Transformer_kind \<Rightarrow> nd_cell_config nd = None \<and> nd_root_producer nd = None \<and> wf_dict (nd_pin_producers nd)
          \<and> (case nd_transformer_config nd of None \<Rightarrow> False | Some c \<Rightarrow> config_savable X c))"

lemma load_saved_cell:
  assumes "nd_kind nd = Cell_kind" and "body_savable X nd"
  shows "\<exists>nd'. load_cell X v (save_cell nd) = Inr nd' \<and> nd_kind nd' = Cell_kind
     \<and> nd_cell_config nd' = nd_cell_config nd \<and> nd_transformer_config nd' = None
     \<and> nd_root_producer nd' = nd_root_producer nd \<and> nd_pin_producers nd' = []
     \<and> nd_mount nd' = None \<and> nd_attachments nd' = []"
proof -
  obtain c where c: "nd_cell_config nd = Some c" using assms by (auto simp: body_savable_def)
  have ct: "sx_map_celltype X (cc_celltype c) = None"
    using assms c by (simp add: body_savable_def config_celltype_def)
  have "map_option (\<lambda>(c, t). \<lparr>cp_checksum = c, cp_celltype = (case t of Some t \<Rightarrow> t | None \<Rightarrow> x)\<rparr>)
      (map_option (\<lambda>q. (cp_checksum q, Some (cp_celltype q))) p) = p" for p :: "constant_producer option" and x
    by (cases p) simp_all
  then show ?thesis
    by (simp add: load_cell_def save_cell_def c ct Let_def new_node_def)
qed

lemma celltypes_view:
  assumes "\<And>p. p \<in> set (''result'' # ps) \<Longrightarrow> celltype_or_mixed d p = celltype_or_mixed e p"
    and "set ps = set qs"
  shows "map (\<lambda>p. (p, celltype_or_mixed d p)) (sort (remdups (''result'' # ps))) =
    map (\<lambda>p. (p, celltype_or_mixed e p)) (sort (remdups (''result'' # qs)))"
proof -
  have "sort (remdups (''result'' # ps)) = sort (remdups (''result'' # qs))"
    by (rule sorted_distinct_set_unique) (simp_all add: assms(2))
  then show ?thesis
  proof (rule map_cong)
    fix p assume "p \<in> set (sort (remdups (''result'' # qs)))"
    then have "p \<in> set (''result'' # ps)" using assms(2) by (simp split: if_splits)
    from assms(1) [OF this] show "(p, celltype_or_mixed d p) = (p, celltype_or_mixed e p)" by (rule arg_cong)
  qed
qed

lemma dict_of_map: "map_of (dict_of items) k = map_of (rev items) k"
proof -
  have "map_of (fold (\<lambda>(k, v). AList.update k v) items d) k =
      (case map_of (rev items) k of None \<Rightarrow> map_of d k | Some v \<Rightarrow> Some v)" for d
    by (induction items arbitrary: d) (auto simp: map_add_def split: option.split)
  then show ?thesis by (simp add: dict_of_def split: option.split)
qed

lemma map_of_rev_graph: "map_of (rev (map (\<lambda>p. (p, f p)) ps)) k = (if k \<in> set ps then Some (f k) else None)"
  by (simp add: rev_map map_of_map_restrict restrict_map_def)

lemma celltypes_of_dict:
  "celltype_or_mixed (dict_of (map (\<lambda>p. (p, f p)) ps @ [(''result'', r)])) p =
    (if p = ''result'' then r else if p \<in> set ps then f p else ''mixed'')"
  using map_of_rev_graph [of f ps p] by (simp add: celltype_or_mixed_def dict_of_map)

lemma durable_token: "durable_config (c\<lparr>tc_config_token := t\<rparr>) = durable_config c"
  by (cases c) (simp add: durable_config_def)

lemma load_saved_transformer:
  assumes kind: "nd_kind nd = Transformer_kind" and ok: "body_savable X nd"
  shows "\<exists>nd'. load_transformer X (save_transformer X nd) = Inr nd' \<and> nd_kind nd' = Transformer_kind
     \<and> nd_cell_config nd' = None
     \<and> map_option durable_config (nd_transformer_config nd') = map_option durable_config (nd_transformer_config nd)
     \<and> nd_root_producer nd' = None \<and> nd_pin_producers nd' = sort_key fst (nd_pin_producers nd)
     \<and> nd_mount nd' = None \<and> nd_attachments nd' = []"
proof -
  obtain c where c: "nd_transformer_config nd = Some c" and sav: "config_savable X c"
    and wf: "wf_dict (nd_pin_producers nd)"
    using kind ok by (auto simp: body_savable_def split: option.splits)
  define te where "te = save_transformer X nd"
  define c1 where "c1 = load_config X te (tc_call_mode c)"
  let ?ps = "sort (remdups (tc_pins c))"
  have pins: "te_pins te = map (\<lambda>p. (p, Some (celltype_or_mixed (tc_celltypes c) p))) ?ps"
    by (simp add: te_def save_transformer_def c)
  have "tc_celltypes c1 = dict_of (map (\<lambda>p. (p, celltype_or_mixed (tc_celltypes c) p)) ?ps
      @ [(''result'', celltype_or_mixed (tc_celltypes c) ''result'')])"
    by (simp add: c1_def load_config_def Let_def pins set_default_def comp_def)
       (simp add: te_def save_transformer_def c)
  then have ct1: "celltype_or_mixed (tc_celltypes c1) p =
      (if p \<in> set (''result'' # tc_pins c) then celltype_or_mixed (tc_celltypes c) p else ''mixed'')" for p
    by (simp add: celltypes_of_dict)
  have code: "tc_code_checksum c1 = tc_code_checksum c"
    using sav by (auto simp: c1_def load_config_def Let_def te_def save_transformer_def c config_savable_def
        split: option.split)
  have fields: "tc_pins c1 = ?ps" "tc_optional_pins c1 = sort (remdups (tc_optional_pins c))"
    "tc_schema c1 = tc_schema c" "tc_compilation c1 = tc_compilation c" "tc_objects c1 = tc_objects c"
    "tc_header c1 = tc_header c" "tc_language c1 = tc_language c" "tc_modules c1 = tc_modules c"
    "tc_globals c1 = tc_globals c" "tc_meta c1 = tc_meta c" "tc_environment c1 = tc_environment c"
    "tc_scratch c1 = tc_scratch c" "tc_local c1 = tc_local c" "tc_call_mode c1 = tc_call_mode c"
    by (simp_all add: c1_def load_config_def Let_def te_def save_transformer_def c comp_def set_default_def)
  have view: "durable_config d = durable_config c"
    if "set (tc_pins d) = set (tc_pins c)"
      and "\<And>p. p \<in> set (''result'' # tc_pins c) \<Longrightarrow> celltype_or_mixed (tc_celltypes d) p = celltype_or_mixed (tc_celltypes c) p"
      and "tc_optional_pins d = sort (remdups (tc_optional_pins c))" "tc_schema d = tc_schema c"
        "tc_compilation d = tc_compilation c" "tc_objects d = tc_objects c"
        "tc_compilation c = None \<Longrightarrow> tc_header d = tc_header c" "tc_language d = tc_language c" "tc_modules d = tc_modules c"
        "tc_globals d = tc_globals c" "tc_meta d = tc_meta c" "tc_environment d = tc_environment c"
        "tc_scratch d = tc_scratch c" "tc_local d = tc_local c" "tc_call_mode d = tc_call_mode c"
        "tc_code_checksum d = tc_code_checksum c" for d
  proof -
    have "sort (remdups (tc_pins d)) = sort (remdups (tc_pins c))"
      by (rule sorted_distinct_set_unique) (simp_all add: that(1))
    moreover have "sort (remdups (tc_optional_pins d)) = sort (remdups (tc_optional_pins c))"
      by (rule sorted_distinct_set_unique) (simp_all add: that(3))
    moreover have "map (\<lambda>p. (p, celltype_or_mixed (tc_celltypes d) p)) (sort (remdups (''result'' # tc_pins d))) =
        map (\<lambda>p. (p, celltype_or_mixed (tc_celltypes c) p)) (sort (remdups (''result'' # tc_pins c)))"
      by (rule celltypes_view) (simp_all add: that(1,2))
    ultimately show ?thesis
      using that(4-) unfolding durable_config_def by (cases d; cases c) simp
  qed
  obtain c2 where c2: "load_compiled X c1 = Inr c2" and view2: "durable_config c2 = durable_config c"
  proof (cases "tc_compilation c = None")
    case True
    then show ?thesis using that [of c1] view [of c1] ct1 code by (simp add: load_compiled_def fields)
  next
    case False
    then have opt: "tc_optional_pins c = []" using sav by (simp add: config_savable_def)
    show ?thesis
    proof (cases "sx_signature X (tc_schema c)")
      case None
      let ?c2 = "c1\<lparr>tc_header := None\<rparr>"
      have "load_compiled X c1 = Inr ?c2" using False opt None by (auto simp: load_compiled_def fields)
      moreover have "durable_config ?c2 = durable_config c"
        by (rule view) (use ct1 code False in \<open>simp_all add: fields\<close>)
      ultimately show ?thesis by (rule that)
    next
      case (Some ih)
      obtain inputs header where ih: "ih = (inputs, header)" by force
      have ins: "set inputs = set (tc_pins c)" "sx_validate X inputs (dict_of (map (\<lambda>p. (p, celltype_or_mixed (tc_celltypes c) p)) inputs
                   @ [(''result'', celltype_or_mixed (tc_celltypes c) ''result'')])) = None"
        using sav Some ih False by (auto simp: config_savable_def)
      have m: "map (\<lambda>p. (p, celltype_or_mixed (tc_celltypes c1) p)) inputs = map (\<lambda>p. (p, celltype_or_mixed (tc_celltypes c) p)) inputs"
        using ct1 ins(1) by simp
      have same: "dict_of (map (\<lambda>p. (p, celltype_or_mixed (tc_celltypes c1) p)) inputs
                 @ [(''result'', celltype_or_mixed (tc_celltypes c1) ''result'')]) =
          dict_of (map (\<lambda>p. (p, celltype_or_mixed (tc_celltypes c) p)) inputs
                 @ [(''result'', celltype_or_mixed (tc_celltypes c) ''result'')])"
        unfolding m using ct1 [of "''result''"] by simp
      let ?cts = "dict_of (map (\<lambda>p. (p, celltype_or_mixed (tc_celltypes c1) p)) inputs
                 @ [(''result'', celltype_or_mixed (tc_celltypes c1) ''result'')])"
      let ?c2 = "c1\<lparr>tc_header := Some header, tc_pins := inputs, tc_celltypes := ?cts\<rparr>"
      have "load_compiled X c1 = Inr ?c2"
        using False opt ins(2) Some ih by (auto simp: load_compiled_def fields Let_def same)
      moreover have "durable_config ?c2 = durable_config c"
        by (rule view) (use ins(1) ct1 code False in \<open>auto simp: fields celltypes_of_dict\<close>)
      ultimately show ?thesis by (rule that)
    qed
  qed
  have prods: "dict_of (map (\<lambda>(p, cs, t). (p, \<lparr>cp_checksum = cs, cp_celltype = set_default t (f p)\<rparr>)) (te_producers te)) =
      sort_key fst (nd_pin_producers nd)" for f
  proof -
    have eta: "(fst x, \<lparr>cp_checksum = cp_checksum (snd x), cp_celltype = cp_celltype (snd x)\<rparr>) = x"
      for x :: "string \<times> constant_producer"
      by (cases x) simp
    have e: "map (\<lambda>(p, cs, t). (p, \<lparr>cp_checksum = cs, cp_celltype = set_default t (f p)\<rparr>)) (te_producers te) =
        sort_key fst (nd_pin_producers nd)"
      by (simp add: te_def save_transformer_def Let_def comp_def case_prod_unfold set_default_def eta)
    have "distinct (map fst (sort_key fst (nd_pin_producers nd)))"
      using wf by (simp add: wf_dict_def distinct_map)
    then show ?thesis unfolding e by (rule dict_of_distinct)
  qed
  have "te_call_mode te = Some (tc_call_mode c)" by (simp add: te_def save_transformer_def c)
  then have "load_transformer X te = Inr ((new_node Transformer_kind)\<lparr>
      nd_transformer_config := Some (c2\<lparr>tc_config_token := sx_fingerprint X c2\<rparr>),
      nd_pin_producers := sort_key fst (nd_pin_producers nd)\<rparr>)"
    using prods by (simp add: load_transformer_def c1_def [symmetric] c2 Let_def)
  then show ?thesis
    using view2 by (simp add: te_def [symmetric] c new_node_def durable_token)
qed

section \<open>Saved nodes load\<close>

text \<open>A specification that was made once is made again from its own fields.\<close>

lemma attach_spec_stable:
  assumes "make_attach_spec path mode authority persistent driver = Inr sp"
  shows "make_attach_spec (as_path sp) (as_mode sp) (as_authority sp) (PyBool (as_persistent sp)) driver = Inr sp"
proof (cases persistent)
  case (PyBool b)
  define one where "one = (\<lambda>ks (x :: string). List.member ks x)"
  have cell: "one [''file'', ''cell'', ''file-strict''] ''cell''" by (simp add: one_def)
  from assms cell show ?thesis
    unfolding make_attach_spec_def PyBool one_def [abs_def, symmetric]
    by simp (elim conjE, simp split: if_splits; clarsimp)
qed (use assms in \<open>simp_all add: make_attach_spec_def\<close>)

lemma share_spec_stable:
  assumes "make_share_spec guess path readonly mimetype toplevel = Inr sp"
  shows "make_share_spec guess (ss_path sp) (PyBool (ss_readonly sp)) (ss_mimetype sp) (PyBool (ss_toplevel sp)) = Inr sp"
  using assms unfolding make_share_spec_def Let_def
  by (cases readonly; cases toplevel) (auto split: if_splits)

definition share_urls :: "node \<Rightarrow> string list" where
  "share_urls nd = (case map_of (nd_attachments nd) ''share'' of Some (ShareSpec sp) \<Rightarrow> [ss_path sp] | _ \<Rightarrow> [])"

definition node_savable :: "serial_ext \<Rightarrow> path \<times> node \<Rightarrow> bool" where
  "node_savable X pn \<longleftrightarrow>
     (case pn of (p, nd) \<Rightarrow>
        p \<noteq> [] \<and> p \<noteq> [KStr ''mounts''] \<and> take 1 p \<noteq> [KStr ''shares'']
        \<and> body_savable X nd \<and> mount_savable X nd \<and> share_savable X nd)"

definition same_durable :: "path \<times> node \<Rightarrow> path \<times> node \<Rightarrow> bool" where
  "same_durable a b \<longleftrightarrow> fst a = fst b \<and> durable (snd a) = durable (snd b)"

lemma load_saved_mount:
  assumes "mount_savable X nd" and "nd_mount nd = Some m"
  obtains sp d where "m = FileSpec sp" and "save_mount nd = Some d" and "nd_kind nd = Cell_kind"
    and "load_mount X (config_celltype nd) d = Inr m"
proof (cases m)
  case (FileSpec sp)
  with assms have sp: "nd_kind nd = Cell_kind" "as_driver sp = ''file''"
      "make_attach_spec (as_path sp) (as_mode sp) (as_authority sp) (PyBool (as_persistent sp)) ''file'' = Inr sp"
      "validate_mount_celltype (sx_file_celltypes X) (sx_directory_celltypes X) (config_celltype nd) (as_mode sp) = None"
    by (simp_all add: mount_savable_def)
  let ?d = "[(''path'', PyStr (as_path sp)), (''mode'', PyStr (as_mode sp)),
    (''authority'', PyStr (as_authority sp)), (''persistent'', PyBool (as_persistent sp))]"
  have "save_mount nd = Some ?d" using assms(2) sp(2) FileSpec by (simp add: save_mount_def attach_to_graph_def)
  moreover have "load_mount X (config_celltype nd) ?d = Inr m"
    using sp(3,4) FileSpec
    by (simp add: load_mount_def only_keys_def get_str_def get_value_def as_path_error_def)
  ultimately show thesis using that [OF FileSpec _ sp(1)] by blast
qed (use assms in \<open>simp add: mount_savable_def\<close>)

lemma load_saved_share:
  assumes "share_savable X nd" and "map_of (nd_attachments nd) ''share'' = Some a"
    and "set (share_urls nd) \<inter> set urls = {}"
  obtains sp d where "a = ShareSpec sp" and "save_share nd = Some d" and "nd_kind nd = Cell_kind"
    and "load_share X (config_celltype nd) urls d = Inr sp"
proof (cases a)
  case (ShareSpec sp)
  with assms(1,2) have sp: "nd_kind nd = Cell_kind" "validate_share_celltype (config_celltype nd) = None"
      "make_share_spec (sx_guess X) (ss_path sp) (PyBool (ss_readonly sp)) (ss_mimetype sp) (PyBool (ss_toplevel sp)) = Inr sp"
    by (simp_all add: share_savable_def)
  have "\<not> List.member urls (ss_path sp)" using assms(2,3) ShareSpec by (simp add: share_urls_def)
  then have "load_share X (config_celltype nd) urls (share_to_graph sp) = Inr sp"
    using sp(2,3)
    by (simp add: load_share_def share_to_graph_def only_keys_def get_str_def get_value_def as_path_error_def)
  moreover have "save_share nd = Some (share_to_graph sp)"
    using assms(2) sp(1) ShareSpec by (simp add: save_share_def)
  ultimately show thesis using that [OF ShareSpec _ sp(1)] by blast
qed (use assms in \<open>simp add: share_savable_def\<close>)

lemma load_saved_body:
  assumes "body_savable X nd"
  obtains nd' where
    "(case ne_body (save_node X s runtime (p, nd)) of Cell_body ce \<Rightarrow> load_cell X v ce
      | Transformer_body te \<Rightarrow> load_transformer X te | Unknown_body y \<Rightarrow> Inl Path_Error) = Inr nd'"
    and "nd_mount nd' = None" and "nd_attachments nd' = []" and "nd_kind nd' = nd_kind nd"
    and "nd_cell_config nd' = nd_cell_config nd" and "nd_root_producer nd' = nd_root_producer nd"
    and "map_option durable_config (nd_transformer_config nd') = map_option durable_config (nd_transformer_config nd)"
    and "sort_key fst (nd_pin_producers nd') = sort_key fst (nd_pin_producers nd)"
proof (cases "nd_kind nd = Cell_kind")
  case True
  from load_saved_cell [OF True assms, of v] assms True show thesis
    by (auto simp: save_node_def body_savable_def intro: that)
next
  case False
  then have k: "nd_kind nd = Transformer_kind" by (cases "nd_kind nd") simp_all
  from load_saved_transformer [OF k assms] obtain nd' where nd': "load_transformer X (save_transformer X nd) = Inr nd'"
    "nd_kind nd' = Transformer_kind" "nd_cell_config nd' = None"
    "map_option durable_config (nd_transformer_config nd') = map_option durable_config (nd_transformer_config nd)"
    "nd_root_producer nd' = None" "nd_pin_producers nd' = sort_key fst (nd_pin_producers nd)"
    "nd_mount nd' = None" "nd_attachments nd' = []"
    by blast
  show thesis
    by (rule that [of nd']) (use nd' assms k False in \<open>simp_all add: save_node_def body_savable_def sort_key_id_if_sorted\<close>)
qed

lemma load_saved_attachments:
  assumes sav: "mount_savable X nd" "share_savable X nd" and urls: "set (share_urls nd) \<inter> set urls = {}"
    and fresh: "nd_mount nd' = None" "nd_attachments nd' = []" "nd_kind nd' = nd_kind nd"
      "nd_cell_config nd' = nd_cell_config nd"
  shows "load_attachments X ''0.6'' urls (save_node X s runtime (p, nd)) nd' =
    Inr (nd'\<lparr>nd_mount := nd_mount nd,
       nd_attachments := (case map_of (nd_attachments nd) ''share'' of None \<Rightarrow> [] | Some a \<Rightarrow> [(''share'', a)])\<rparr>,
       share_urls nd @ urls)"
proof -
  let ?ne = "save_node X s runtime (p, nd)"
  have doc: "ne_mount ?ne = save_mount nd" "ne_share ?ne = save_share nd" by (simp_all add: save_node_def)
  have ct: "config_celltype nd1 = config_celltype nd"
    if "nd_kind nd = Cell_kind" "nd_kind nd1 = Cell_kind" "nd_cell_config nd1 = nd_cell_config nd" for nd1
    using that by (simp add: config_celltype_def)
  define nd1 where "nd1 = nd'\<lparr>nd_mount := nd_mount nd\<rparr>"
  have m: "(case ne_mount ?ne of None \<Rightarrow> Inr nd'
       | Some d \<Rightarrow> if nd_kind nd' \<noteq> Cell_kind then Inl Path_Error
                   else res_bind (load_mount X (config_celltype nd') d) (\<lambda>spec. Inr (nd'\<lparr>nd_mount := Some spec\<rparr>))) = Inr nd1"
  proof (cases "nd_mount nd")
    case None
    then have "nd1 = nd'" using fresh(1) by (simp add: nd1_def)
    with None show ?thesis by (simp add: doc save_mount_def)
  next
    case (Some m)
    obtain sp d where d: "m = FileSpec sp" "save_mount nd = Some d" "nd_kind nd = Cell_kind"
      "load_mount X (config_celltype nd) d = Inr m"
      using load_saved_mount [OF sav(1) Some] by blast
    have "config_celltype nd' = config_celltype nd" by (rule ct) (use d(3) fresh in simp_all)
    with d Some fresh(3) show ?thesis by (simp add: doc nd1_def)
  qed
  have n1: "nd_kind nd1 = nd_kind nd" "nd_cell_config nd1 = nd_cell_config nd" "nd_attachments nd1 = []"
    using fresh by (simp_all add: nd1_def)
  show ?thesis
  proof (cases "map_of (nd_attachments nd) ''share''")
    case None
    have eq: "nd'\<lparr>nd_mount := nd_mount nd, nd_attachments := []\<rparr> = nd1"
      using n1(3) by (simp add: nd1_def)
    have "save_share nd = None" "share_urls nd = []"
      using None by (simp_all add: save_share_def share_urls_def split: node_kind.split)
    then show ?thesis unfolding load_attachments_def m by (simp add: doc None eq)
  next
    case (Some a)
    obtain sp d where d: "a = ShareSpec sp" "save_share nd = Some d" "nd_kind nd = Cell_kind"
      "load_share X (config_celltype nd) urls d = Inr sp"
      using load_saved_share [OF sav(2) Some urls] by blast
    have "config_celltype nd1 = config_celltype nd" by (rule ct) (use d(3) n1 in simp_all)
    moreover have "share_urls nd = [ss_path sp]" using Some d(1) by (simp add: share_urls_def)
    ultimately show ?thesis
      unfolding load_attachments_def m using d n1 by (simp add: doc Some nd1_def)
  qed
qed

lemma load_saved_node:
  assumes sav: "node_savable X (p, nd)" and new: "map_of nodes p = None"
    and urls: "set (share_urls nd) \<inter> set urls = {}"
  obtains nd' where "load_node X ''0.6'' (save_node X s runtime (p, nd)) (nodes, urls) =
      Inr (nodes @ [(p, nd')], share_urls nd @ urls)" and "same_durable (p, nd) (p, nd')"
proof -
  have b: "body_savable X nd" "mount_savable X nd" "share_savable X nd"
    and p: "p \<noteq> []" "p \<noteq> [KStr ''mounts'']" "take 1 p \<noteq> [KStr ''shares'']"
    using sav by (simp_all add: node_savable_def)
  from load_saved_body [OF b(1), where s = s and runtime = runtime and p = p and v = "''0.6''"] obtain nd0 where nd0:
    "(case ne_body (save_node X s runtime (p, nd)) of Cell_body ce \<Rightarrow> load_cell X ''0.6'' ce
      | Transformer_body te \<Rightarrow> load_transformer X te | Unknown_body y \<Rightarrow> Inl Path_Error) = Inr nd0"
    "nd_mount nd0 = None" "nd_attachments nd0 = []" "nd_kind nd0 = nd_kind nd"
    "nd_cell_config nd0 = nd_cell_config nd" "nd_root_producer nd0 = nd_root_producer nd"
    "map_option durable_config (nd_transformer_config nd0) = map_option durable_config (nd_transformer_config nd)"
    "sort_key fst (nd_pin_producers nd0) = sort_key fst (nd_pin_producers nd)"
    by blast
  define nd' where "nd' = nd0\<lparr>nd_mount := nd_mount nd,
       nd_attachments := (case map_of (nd_attachments nd) ''share'' of None \<Rightarrow> [] | Some a \<Rightarrow> [(''share'', a)])\<rparr>"
  have "load_attachments X ''0.6'' urls (save_node X s runtime (p, nd)) nd0 = Inr (nd', share_urls nd @ urls)"
    unfolding nd'_def by (rule load_saved_attachments [OF b(2,3) urls nd0(2-5)])
  moreover have "ne_path (save_node X s runtime (p, nd)) = p" "\<not> ne_overlay (save_node X s runtime (p, nd))"
    by (simp_all add: save_node_def)
  ultimately have "load_node X ''0.6'' (save_node X s runtime (p, nd)) (nodes, urls) =
      Inr (nodes @ [(p, nd')], share_urls nd @ urls)"
    unfolding load_node_def using p new nd0(1) update_new [OF new] by simp
  moreover have "same_durable (p, nd) (p, nd')"
    using nd0 by (simp add: same_durable_def durable_def nd'_def split: option.split)
  ultimately show thesis by (rule that)
qed

lemma load_saved_nodes:
  assumes "list_all (node_savable X) pns" and "distinct (keys (nodes @ pns))"
    and "distinct (concat (map (share_urls \<circ> snd) pns))"
    and "set (concat (map (share_urls \<circ> snd) pns)) \<inter> set urls = {}"
  shows "\<exists>pns' urls'. load_nodes X ''0.6'' (map (save_node X s runtime) pns) (nodes, urls) = Inr (nodes @ pns', urls')
    \<and> list_all2 same_durable pns pns'"
  using assms
proof (induction pns arbitrary: nodes urls)
  case (Cons pn pns)
  obtain p nd where pn: "pn = (p, nd)" by force
  have new: "map_of nodes p = None" using Cons.prems(2) by (auto simp: pn map_of_eq_None_iff)
  have "set (share_urls nd) \<inter> set urls = {}" using Cons.prems(4) by (auto simp: pn)
  with Cons.prems(1) new obtain nd' where nd': "load_node X ''0.6'' (save_node X s runtime (p, nd)) (nodes, urls) =
      Inr (nodes @ [(p, nd')], share_urls nd @ urls)" "same_durable (p, nd) (p, nd')"
    using load_saved_node [of X p nd nodes urls s runtime] by (auto simp: pn)
  have "\<exists>pns' urls'. load_nodes X ''0.6'' (map (save_node X s runtime) pns) (nodes @ [(p, nd')], share_urls nd @ urls) =
      Inr ((nodes @ [(p, nd')]) @ pns', urls') \<and> list_all2 same_durable pns pns'"
    by (rule Cons.IH) (use Cons.prems in \<open>auto simp: pn\<close>)
  with nd' show ?case by (auto simp: pn)
qed simp

lemma same_durable_keys: "list_all2 same_durable a b \<Longrightarrow> keys a = keys b"
  by (induction rule: list_all2_induct) (auto simp: same_durable_def)

lemma same_durable_map_of:
  "list_all2 same_durable a b \<Longrightarrow> map_of a k = Some nd \<Longrightarrow> \<exists>nd'. map_of b k = Some nd' \<and> durable nd = durable nd'"
  by (induction rule: list_all2_induct) (auto simp: same_durable_def split: if_splits)

lemma same_durable_map_of_None:
  "list_all2 same_durable a b \<Longrightarrow> map_of a k = None \<longleftrightarrow> map_of b k = None"
  by (simp add: map_of_eq_None_iff flip: set_map same_durable_keys)

end
