(* ===== verification/Reload.thy ===== *)
theory Reload
  imports Serialize
begin

text \<open>
  A saved graph loads: the edges and the anonymous symbols. The chain of an edge begins at the node
  its source names and goes on at the symbols of its own recipes; a table of symbols that gives
  different recipes different symbols lets the loader find each chain again from its last symbol.
\<close>

section \<open>Chains and their symbols\<close>

abbreviation recipe_key :: "recipe \<Rightarrow> source_key" where
  "recipe_key r \<equiv> fst r"

definition registered :: "graph \<Rightarrow> recipe \<Rightarrow> bool" where
  "registered g r \<longleftrightarrow> map_of (g_symbols g) r \<noteq> None"

definition symbol :: "graph \<Rightarrow> recipe \<Rightarrow> string" where
  "symbol g r = (case map_of (g_symbols g) r of Some s \<Rightarrow> s | None \<Rightarrow> [])"

fun chain_at :: "graph \<Rightarrow> source_key \<Rightarrow> recipe list \<Rightarrow> bool" where
  "chain_at g key [] = True"
| "chain_at g key (r # rs) = (recipe_key r = key \<and> registered g r \<and> chain_at g (Src_symbol (symbol g r)) rs)"

definition chain_path :: "recipe list \<Rightarrow> path" where
  "chain_path rs = concat (map (snd \<circ> snd) rs)"

definition edge_chained :: "graph \<Rightarrow> edge \<Rightarrow> bool" where
  "edge_chained g e \<longleftrightarrow>
     (case resolve_existing g (ed_source e) of
        None \<Rightarrow> False
      | Some (n, local) \<Rightarrow>
          (if ed_chain e = [] then \<not> ed_conversion e \<and> local = []
           else chain_at g (Src_node n) (ed_chain e) \<and> chain_path (ed_chain e) = local))"

lemma symbol_registered: "registered g r \<Longrightarrow> map_of (g_symbols g) r = Some (symbol g r)"
  by (auto simp: registered_def symbol_def)

lemma symbol_inj:
  assumes "symbols_ok (g_symbols g)" and "registered g a" and "registered g b" and "symbol g a = symbol g b"
  shows "a = b"
proof -
  have "(a, symbol g a) \<in> set (g_symbols g)" "(b, symbol g b) \<in> set (g_symbols g)"
    using assms(2,3) by (simp_all add: map_of_SomeD symbol_registered)
  then show ?thesis
    using inj_onD [of snd "set (g_symbols g)" "(a, symbol g a)" "(b, symbol g b)"] assms(1,4)
    by (simp add: symbols_ok_def distinct_map)
qed

lemma chain_at_registered: "chain_at g key rs \<Longrightarrow> r \<in> set rs \<Longrightarrow> registered g r"
  by (induction g key rs rule: chain_at.induct) auto

lemma chain_at_snoc:
  "chain_at g key (rs @ [r]) \<longleftrightarrow>
     chain_at g key rs \<and> registered g r
     \<and> recipe_key r = (if rs = [] then key else Src_symbol (symbol g (last rs)))"
  by (induction g key rs rule: chain_at.induct) auto

lemma chain_at_append: "chain_at g key (xs @ ys) \<Longrightarrow> chain_at g key xs"
  by (induction g key xs rule: chain_at.induct) auto

text \<open>The recipes of a chain are different.\<close>

lemma chain_key_nth:
  "chain_at g key rs \<Longrightarrow> i < length rs \<Longrightarrow>
   recipe_key (rs ! i) = (case i of 0 \<Rightarrow> key | Suc j \<Rightarrow> Src_symbol (symbol g (rs ! j)))"
proof (induction g key rs arbitrary: i rule: chain_at.induct)
  case (2 g key r rs)
  then show ?case by (cases i) (auto split: nat.splits)
qed simp

lemma chain_distinct:
  assumes ok: "symbols_ok (g_symbols g)" and chain: "chain_at g (Src_node n) rs"
  shows "distinct rs"
proof -
  have "rs ! i = rs ! j \<Longrightarrow> i < length rs \<Longrightarrow> j < length rs \<Longrightarrow> i = j" for i j
  proof (induction i arbitrary: j)
    case 0
    then show ?case
      using chain_key_nth [OF chain 0(2)] chain_key_nth [OF chain 0(3)] by (cases j) auto
  next
    case (Suc i)
    then obtain j' where j: "j = Suc j'"
      using chain_key_nth [OF chain Suc.prems(2)] chain_key_nth [OF chain Suc.prems(3)] by (cases j) auto
    have "symbol g (rs ! i) = symbol g (rs ! j')"
      using chain_key_nth [OF chain Suc.prems(2)] chain_key_nth [OF chain Suc.prems(3)] Suc.prems(1) j by simp
    moreover have "registered g (rs ! i)" "registered g (rs ! j')"
      using Suc.prems j by (auto intro: chain_at_registered [OF chain])
    ultimately have "rs ! i = rs ! j'" by (intro symbol_inj [OF ok])
    with Suc.IH [of j'] Suc.prems j show ?case by simp
  qed
  then show ?thesis by (simp add: distinct_conv_nth) blast
qed

text \<open>Assigning the symbols of an edge makes its chain.\<close>

lemma extends_registered:
  assumes "extends (g_symbols h) (g_symbols g)" and "registered g r"
  shows "registered h r" and "symbol h r = symbol g r"
  using assms by (cases r; auto simp: extends_def registered_def symbol_def)+

lemma chain_at_extends:
  "chain_at g key rs \<Longrightarrow> extends (g_symbols h) (g_symbols g) \<Longrightarrow> chain_at h key rs"
  by (induction g key rs rule: chain_at.induct) (auto simp: extends_registered)

lemma assign_chain_at:
  "assign_chain base symbols key links = Some (rs, syms) \<Longrightarrow> symbols_ok symbols \<Longrightarrow>
   g_symbols g = syms \<Longrightarrow> chain_at g key rs"
proof (induction links arbitrary: symbols key rs)
  case (Cons l links)
  obtain ct p where l: "l = (ct, p)" by force
  obtain s syms1 where s: "assign_symbol base symbols (key, ct, p) = Some (s, syms1)"
    using assign_symbol_total by blast
  from Cons.prems(1) obtain rs1 where rs1: "assign_chain base syms1 (Src_symbol s) links = Some (rs1, syms)"
    and rs: "rs = (key, ct, p) # rs1"
    by (auto simp: l s)
  note ok = assign_symbol_ok [OF s Cons.prems(2)]
  have "map_of syms (key, ct, p) = Some s"
    using assign_chain_ok [OF rs1 ok(1)] ok(3) by (simp add: extends_def)
  then have "registered g (key, ct, p)" "symbol g (key, ct, p) = s"
    using Cons.prems(3) by (simp_all add: registered_def symbol_def)
  with Cons.IH [OF rs1 ok(1) Cons.prems(3)] show ?case by (simp add: rs)
qed simp

lemma registration_chains:
  assumes reg: "register_edge_symbols base g e = (Inr e', g')" and new: "ed_chain e = []"
    and ok: "symbols_ok (g_symbols g)"
  shows "edge_chained g' e'"
proof -
  obtain n l where r: "resolve_existing g (ed_source e) = Some (n, l)"
    using reg new by (cases "resolve_existing g (ed_source e)") (auto simp: register_edge_symbols_def)
  define ct where "ct = the (node_celltype g n)"
  define links where "links = anonymous_links ct l (edge_steps e ct l)"
  have paths: "concat (map snd links) = l"
    using links_loop_paths [of 0 l] by (simp add: links_def anonymous_links_def)
  show ?thesis
  proof (cases "links = []")
    case True
    have "edge_steps e ct l = []"
    proof (rule ccontr)
      assume "edge_steps e ct l \<noteq> []"
      then obtain s ss where "sort_key fst (edge_steps e ct l) = s # ss"
        by (metis list.exhaust set_empty set_sort)
      then have "links \<noteq> []" by (cases s) (simp add: links_def anonymous_links_def Let_def)
      with True show False by simp
    qed
    then have "\<not> ed_conversion e" by (auto simp: edge_steps_def split: if_splits)
    moreover have "e' = e" "g' = g"
      using reg new r True by (simp_all add: register_edge_symbols_def Let_def ct_def [symmetric] links_def [symmetric])
    ultimately show ?thesis using r new paths True by (simp add: edge_chained_def)
  next
    case False
    obtain rs syms where c: "assign_chain base (g_symbols g) (Src_node n) links = Some (rs, syms)"
      using assign_chain_total by blast
    then have e': "e' = e\<lparr>ed_chain := rs\<rparr>" "g' = g\<lparr>g_symbols := syms\<rparr>"
      using reg new r False by (simp_all add: register_edge_symbols_def Let_def ct_def [symmetric] links_def [symmetric])
    have "chain_at g' (Src_node n) rs" using assign_chain_at [OF c ok] e' by simp
    moreover have "chain_path rs = l"
      using assign_chain_links [OF c] paths by (simp add: chain_path_def flip: map_map)
    moreover have "rs \<noteq> []" using assign_chain_links [OF c] False by auto
    moreover have "resolve_existing g' (ed_source e') = Some (n, l)"
      using r e' resolve_existing_cong [of g' g] by simp
    ultimately show ?thesis by (simp add: edge_chained_def e'(1))
  qed
qed

section \<open>What is saved\<close>

definition saved_chain :: "graph \<Rightarrow> edge \<Rightarrow> recipe list" where
  "saved_chain g e = (if saved_as_link g e then [] else ed_chain e)"

definition saved_recipes :: "graph \<Rightarrow> edge list \<Rightarrow> recipe list" where
  "saved_recipes g es = concat (map (saved_chain g) es)"

definition entry :: "serial_ext \<Rightarrow> graph \<Rightarrow> recipe \<Rightarrow> string \<times> anonymous_doc" where
  "entry X g r = (symbol g r,
     \<lparr>an_source = recipe_key r, an_celltype = fst (snd r), an_path = sx_print_path X (snd (snd r))\<rparr>)"

definition connection :: "graph \<Rightarrow> edge \<Rightarrow> connection_doc" where
  "connection g e =
     \<lparr>cn_source = (if saved_as_link g e then projr (own_source g e) else Ref_symbol (symbol g (last (ed_chain e)))),
      cn_target = ed_target e, cn_deep_member = ed_deep_member e, cn_source_path = [], cn_steps = []\<rparr>"

abbreviation store_all :: "('k \<times> 'v) list \<Rightarrow> ('k \<times> 'v) list \<Rightarrow> ('k \<times> 'v) list" where
  "store_all items d \<equiv> fold (\<lambda>(k, v). AList.update k v) items d"

definition target_known :: "graph \<Rightarrow> edge \<Rightarrow> bool" where
  "target_known g e \<longleftrightarrow>
     (case resolve_existing g (ed_target e) of Some (t, _) \<Rightarrow> map_of (g_nodes g) t \<noteq> None | None \<Rightarrow> False)"

lemma save_chain:
  "list_all (registered g) rs \<Longrightarrow>
   add_anonymous_chain X g rs (entries, src) =
     Inr (store_all (map (entry X g) rs) entries,
          if rs = [] then src else Ref_symbol (symbol g (last rs)))"
proof (induction rs arbitrary: entries src)
  case (Cons r rs)
  obtain key ct p where r: "r = (key, ct, p)" by (metis prod_cases3)
  have "symbol_of g (key, ct, p) = Inr (symbol g (key, ct, p))"
    using Cons.prems by (simp add: r symbol_of_def symbol_registered)
  with Cons show ?case by (simp add: r entry_def)
qed simp

lemma own_source_total:
  assumes "edge_chained g e" and "target_known g e"
  obtains src where "own_source g e = Inr src" and "src = Ref_path (ed_source e) \<or> src = Ref_node (ed_source e)"
proof -
  obtain n l where s: "resolve_existing g (ed_source e) = Some (n, l)"
    using assms(1) by (auto simp: edge_chained_def split: option.splits)
  obtain t tl nd where t: "resolve_existing g (ed_target e) = Some (t, tl)" "map_of (g_nodes g) t = Some nd"
    using assms(2) by (auto simp: target_known_def split: option.splits)
  have nl: "n @ l = ed_source e" using resolve_existing_Some(1) [OF s] by simp
  then have n: "l = [] \<Longrightarrow> n = ed_source e" by simp
  have "own_source g e = Inr (if nd_kind nd \<noteq> Cell_kind then Ref_path (ed_source e)
      else if l \<noteq> [] \<or> Option.bind (map_of (g_nodes g) n) nd_root_producer \<noteq> None then Ref_path (ed_source e)
      else Ref_node (ed_source e))"
    unfolding own_source_def s t option.case prod.case nl by (simp add: n)
  then show thesis by (rule that) simp
qed

lemma save_edge_chained:
  assumes c: "edge_chained g e" and t: "target_known g e"
  shows "save_edge X g e entries = Inr (store_all (map (entry X g) (saved_chain g e)) entries, connection g e)"
proof -
  obtain n l where s: "resolve_existing g (ed_source e) = Some (n, l)"
    using c by (auto simp: edge_chained_def split: option.splits)
  have reg: "list_all (registered g) (ed_chain e)"
  proof (cases "ed_chain e = []")
    case False
    then have "chain_at g (Src_node n) (ed_chain e)" using c by (simp add: edge_chained_def s)
    then show ?thesis by (simp add: list_all_iff chain_at_registered)
  qed simp
  have "ed_chain e = [] \<Longrightarrow> \<not> ed_conversion e \<and> l = []" using c by (simp add: edge_chained_def s)
  then have check: "check_registered g e = Inr ()"
    using reg by (auto simp: check_registered_def has_links_def s registered_def [abs_def])
  obtain src where src: "own_source g e = Inr src" using own_source_total [OF c t] by blast
  show ?thesis
  proof (cases "saved_as_link g e")
    case True
    then show ?thesis by (simp add: save_edge_def check src saved_chain_def connection_def)
  next
    case False
    then have "ed_chain e \<noteq> []" by (simp add: saved_as_link_def)
    with False show ?thesis
      using save_chain [OF reg, of X entries "Ref_symbol []"]
      by (simp add: save_edge_def check saved_chain_def connection_def)
  qed
qed

lemma save_edges_chained:
  "list_all (edge_chained g) es \<Longrightarrow> list_all (target_known g) es \<Longrightarrow>
   save_edges X g es entries =
     Inr (store_all (map (entry X g) (saved_recipes g es)) entries, map (connection g) es)"
  by (induction es arbitrary: entries) (simp_all add: save_edge_chained saved_recipes_def)

lemma dict_of_consistent:
  assumes "\<And>k v v'. (k, v) \<in> set items \<Longrightarrow> (k, v') \<in> set items \<Longrightarrow> v = v'"
  shows "set (dict_of items) = set items"
proof -
  have "(k, v) \<in> set (dict_of items) \<longleftrightarrow> (k, v) \<in> set items" for k v
  proof -
    have "(k, v) \<in> set (dict_of items) \<longleftrightarrow> map_of (rev items) k = Some v"
      using map_of_eq_Some_iff [OF wf_dict_of [of items, unfolded wf_dict_def]] by (simp add: dict_of_map)
    also have "\<dots> \<longleftrightarrow> (k, v) \<in> set items"
    proof
      assume "(k, v) \<in> set items"
      then obtain v' where v': "map_of (rev items) k = Some v'"
        using weak_map_of_SomeI [of k v "rev items"] by auto
      from map_of_SomeD [OF this] have "(k, v') \<in> set items" by simp
      with assms \<open>(k, v) \<in> set items\<close> have "v = v'" by blast
      with v' show "map_of (rev items) k = Some v" by simp
    qed (auto dest: map_of_SomeD)
    finally show ?thesis .
  qed
  then show ?thesis by auto
qed

lemma list_of_image: "set ys \<subseteq> f ` A \<Longrightarrow> \<exists>xs. ys = map f xs \<and> set xs \<subseteq> A"
proof (induction ys)
  case (Cons y ys)
  then obtain x xs where "y = f x" "x \<in> A" "ys = map f xs" "set xs \<subseteq> A" by auto
  then show ?case by (intro exI [where x = "x # xs"]) simp
qed simp

text \<open>The saved table of anonymous nodes lists each recipe that a saved chain uses once.\<close>

lemma saved_table:
  assumes ok: "symbols_ok (g_symbols g)" and reg: "list_all (registered g) rs0"
  obtains rs where "sort_key fst (dict_of (map (entry X g) rs0)) = map (entry X g) rs"
    and "set rs = set rs0" and "distinct (map (symbol g) rs)" and "distinct rs"
proof -
  let ?E = "sort_key fst (dict_of (map (entry X g) rs0))"
  have inj: "a = b" if "a \<in> set rs0" "b \<in> set rs0" "symbol g a = symbol g b" for a b
    using symbol_inj [OF ok _ _ that(3)] reg that by (simp add: list_all_iff)
  have E: "set ?E = entry X g ` set rs0"
    using dict_of_consistent [of "map (entry X g) rs0"] inj by (fastforce simp: entry_def)
  then obtain rs where rs: "?E = map (entry X g) rs" "set rs \<subseteq> set rs0"
    using list_of_image [of ?E "entry X g" "set rs0"] by auto
  have "distinct (keys ?E)" using wf_dict_of [of "map (entry X g) rs0"] by (simp add: wf_dict_def distinct_map)
  moreover have "keys ?E = map (symbol g) rs" by (simp add: rs entry_def comp_def)
  ultimately have d: "distinct (map (symbol g) rs)" by simp
  have "set rs0 \<subseteq> set rs"
  proof
    fix a assume a: "a \<in> set rs0"
    with E have "entry X g a \<in> entry X g ` set rs" using rs by (metis imageI set_map)
    then obtain b where "b \<in> set rs" "symbol g a = symbol g b" by (auto simp: entry_def)
    with inj [of a b] a rs(2) show "a \<in> set rs" by (metis subsetD)
  qed
  with rs(2) have "set rs = set rs0" by blast
  moreover have "distinct rs" using d by (simp add: distinct_map)
  ultimately show thesis using that [OF rs(1)] d by blast
qed

section \<open>Loading the table of anonymous nodes\<close>

definition recipe_loads :: "serial_ext \<Rightarrow> (path \<times> node) list \<Rightarrow> graph \<Rightarrow> recipe \<Rightarrow> bool" where
  "recipe_loads X nodes g r \<longleftrightarrow>
     valid_symbol (symbol g r)
     \<and> (case recipe_key r of Src_node p \<Rightarrow> map_of nodes p \<noteq> None | Src_symbol _ \<Rightarrow> True)
     \<and> sx_parse_path X (sx_print_path X (snd (snd r))) = Inr (snd (snd r))
     \<and> sx_map_celltype X (fst (snd r)) = None"

lemma parse_saved_table:
  "list_all (recipe_loads X (g_nodes h) g) rs \<Longrightarrow> distinct (map (symbol g) rs) \<Longrightarrow> distinct rs \<Longrightarrow>
   set rs \<inter> set (keys (g_symbols h)) = {} \<Longrightarrow> symbol g ` set rs \<inter> set (keys table) = {} \<Longrightarrow>
   parse_anonymous X (map (entry X g) rs) h table =
     Inr (h\<lparr>g_symbols := g_symbols h @ map (\<lambda>r. (r, symbol g r)) rs\<rparr>,
          table @ map (\<lambda>r. (symbol g r, r)) rs)"
proof (induction rs arbitrary: h table)
  case (Cons r rs)
  obtain key ct p where r: "r = (key, ct, p)" by (metis prod_cases3)
  have new: "map_of (g_symbols h) (key, ct, p) = None" "map_of table (symbol g (key, ct, p)) = None"
    using Cons.prems(4,5) by (auto simp: r map_of_eq_None_iff)
  let ?h = "h\<lparr>g_symbols := g_symbols h @ [((key, ct, p), symbol g (key, ct, p))]\<rparr>"
  have "parse_anonymous X (map (entry X g) rs) ?h (table @ [(symbol g (key, ct, p), key, ct, p)]) =
    Inr (?h\<lparr>g_symbols := g_symbols ?h @ map (\<lambda>r. (r, symbol g r)) rs\<rparr>,
      (table @ [(symbol g (key, ct, p), key, ct, p)]) @ map (\<lambda>r. (symbol g r, r)) rs)"
    by (rule Cons.IH) (use Cons.prems in \<open>auto simp: r\<close>)
  moreover have "entry X g r = (symbol g (key, ct, p),
      \<lparr>an_source = key, an_celltype = ct, an_path = sx_print_path X p\<rparr>)"
    by (simp add: entry_def r)
  moreover have "recipe_loads X (g_nodes h) g (key, ct, p)" using Cons.prems(1) by (simp add: r)
  then have "valid_symbol (symbol g (key, ct, p))" "sx_parse_path X (sx_print_path X p) = Inr p"
    "sx_map_celltype X ct = None" "\<not> (case key of Src_node p \<Rightarrow> map_of (g_nodes h) p = None | Src_symbol _ \<Rightarrow> False)"
    by (auto simp: recipe_loads_def split: source_key.splits)
  ultimately show ?case
    by (simp add: as_path_error_def update_new [OF new(1)] update_new [OF new(2)] r)
qed simp

section \<open>Resolving a saved chain\<close>

text \<open>What a chain resolves to: its path and celltype, and the conversion steps it records.\<close>

fun chain_steps :: "celltype \<Rightarrow> nat \<Rightarrow> recipe list \<Rightarrow> steps" where
  "chain_steps ct position [] = []"
| "chain_steps ct position ((key, celltype, path) # rs) =
     (if path = [] \<and> celltype \<noteq> ct then [(int position, celltype)] else [])
     @ chain_steps celltype (position + length path) rs"

definition chain_type :: "celltype \<Rightarrow> recipe list \<Rightarrow> celltype" where
  "chain_type ct rs = (if rs = [] then ct else fst (snd (last rs)))"

lemma chain_path_snoc [simp]: "chain_path (rs @ [r]) = chain_path rs @ snd (snd r)"
  by (simp add: chain_path_def)

lemma chain_steps_snoc:
  "chain_steps ct position (rs @ [(key, celltype, path)]) =
    chain_steps ct position rs
    @ (if path = [] \<and> celltype \<noteq> chain_type ct rs then [(int (position + length (chain_path rs)), celltype)] else [])"
  by (induction ct position rs rule: chain_steps.induct) (auto simp: chain_type_def chain_path_def)

lemma resolve_chain:
  assumes ok: "symbols_ok (g_symbols g)"
    and table: "\<And>r. r \<in> set rs \<Longrightarrow> map_of table (symbol g r) = Some r"
    and chain: "chain_at g (Src_node n) rs" and ct: "node_celltype h n = Some ct"
    and fuel: "length rs \<le> k" and apart: "symbol g ` set rs \<inter> set resolving = {}" and some: "rs \<noteq> []"
  shows "resolve_anonymous h table k resolving (symbol g (last rs)) =
    Inr (n, chain_path rs, chain_type ct rs, chain_steps ct 0 rs, rs)"
  using table chain fuel apart some
proof (induction rs arbitrary: k resolving rule: rev_induct)
  case (snoc r rs)
  obtain key celltype path where r: "r = (key, celltype, path)" by (metis prod_cases3)
  obtain k' where k: "k = Suc k'" using snoc.prems(3) by (cases k) auto
  have sym: "map_of table (symbol g r) = Some (key, celltype, path)" using snoc.prems(1) r by simp
  have new: "\<not> List.member resolving (symbol g r)" using snoc.prems(4) by auto
  note at = snoc.prems(2) [unfolded chain_at_snoc]
  show ?case
  proof (cases "rs = []")
    case True
    then have "key = Src_node n" using at r by simp
    with True show ?thesis
      using sym new ct by (simp add: k r chain_type_def chain_path_def Let_def)
  next
    case False
    then have key: "key = Src_symbol (symbol g (last rs))" using at r by simp
    have "resolve_anonymous h table k' (symbol g r # resolving) (symbol g (last rs)) =
      Inr (n, chain_path rs, chain_type ct rs, chain_steps ct 0 rs, rs)"
    proof (rule snoc.IH)
      have d: "distinct (rs @ [r])" by (rule chain_distinct [OF ok snoc.prems(2)])
      have reg: "registered g a" if "a \<in> set (rs @ [r])" for a
        by (rule chain_at_registered [OF snoc.prems(2) that])
      have "symbol g r \<notin> symbol g ` set rs"
      proof
        assume "symbol g r \<in> symbol g ` set rs"
        then obtain a where "symbol g r = symbol g a" "a \<in> set rs" by (rule imageE)
        with symbol_inj [OF ok, of r a] reg [of r] reg [of a] d show False by simp
      qed
      then show "symbol g ` set rs \<inter> set (symbol g r # resolving) = {}" using snoc.prems(4) by auto
    qed (use snoc.prems at k False in auto)
    with False show ?thesis
      using sym new by (auto simp: k r key Let_def chain_type_def chain_steps_snoc)
  qed
qed simp

lemma resolve_symbol_chain:
  assumes ok: "symbols_ok (g_symbols g)" and at: "chain_at g (Src_node n) rs"
    and tab: "\<And>r. r \<in> set rs \<Longrightarrow> map_of table (symbol g r) = Some r"
    and ct: "node_celltype h n = Some ct" and some: "rs \<noteq> []"
  shows "resolve_symbol h table (symbol g (last rs)) =
    Inr (n, chain_path rs, chain_type ct rs, chain_steps ct 0 rs, rs)"
proof -
  have "distinct (map (symbol g) rs)"
  proof -
    have "inj_on (symbol g) (set rs)"
      by (rule inj_onI) (rule symbol_inj [OF ok], auto intro: chain_at_registered [OF at])
    with chain_distinct [OF ok at] show ?thesis by (simp add: distinct_map)
  qed
  then have "length rs = card (symbol g ` set rs)" by (metis distinct_card length_map set_map)
  also have "\<dots> \<le> card (fst ` set table)"
    by (rule card_mono) (use tab in \<open>auto simp: in_keys_iff\<close>)
  also have "\<dots> \<le> length table" by (metis card_length length_map set_map)
  finally show ?thesis
    unfolding resolve_symbol_def by (intro resolve_chain [OF ok tab at ct]) (use some in auto)
qed

lemma edge_chain_at:
  assumes "edge_chained g e" and "ed_chain e \<noteq> []"
  obtains n where "resolve_existing g (ed_source e) = Some (n, chain_path (ed_chain e))"
    and "chain_at g (Src_node n) (ed_chain e)"
  using assms by (auto simp: edge_chained_def split: option.splits)

lemma edge_chain_registered: "edge_chained g e \<Longrightarrow> r \<in> set (ed_chain e) \<Longrightarrow> registered g r"
  by (metis edge_chain_at chain_at_registered empty_iff list.set(1))

section \<open>Loading the edges\<close>

definition slot_savable :: "graph \<Rightarrow> edge \<Rightarrow> bool" where
  "slot_savable g e \<longleftrightarrow>
     (case resolve_existing g (ed_target e) of
        None \<Rightarrow> False
      | Some (t, local) \<Rightarrow>
          (case map_of (g_nodes g) t of
             None \<Rightarrow> False
           | Some nd \<Rightarrow>
               \<not> (case nd_mount nd of Some m \<Rightarrow> sensing m | None \<Rightarrow> False)
               \<and> \<not> (case map_of (nd_attachments nd) ''share'' of Some (ShareSpec sp) \<Rightarrow> \<not> ss_readonly sp | _ \<Rightarrow> False)
               \<and> (if nd_kind nd = Cell_kind then length local \<le> 1 \<and> \<not> list_ex is_slice local else length local = 1)))"

definition deep_slot :: "graph \<Rightarrow> edge \<Rightarrow> bool" where
  "deep_slot g e \<longleftrightarrow>
     (case resolve_existing g (ed_target e) of
        None \<Rightarrow> False
      | Some (t, local) \<Rightarrow>
          (case map_of (g_nodes g) t of
             None \<Rightarrow> False
           | Some nd \<Rightarrow> local \<noteq> [] \<and> nd_kind nd = Cell_kind \<and> is_deep (config_celltype nd)))"

definition source_type :: "graph \<Rightarrow> edge \<Rightarrow> celltype" where
  "source_type g e =
     (case resolve_existing g (ed_source e) of Some (n, _) \<Rightarrow> the (node_celltype g n) | None \<Rightarrow> [])"

definition loaded_edge :: "graph \<Rightarrow> edge \<Rightarrow> edge" where
  "loaded_edge g e =
     (if saved_as_link g e
      then (plain_link (ed_source e) (ed_target e))\<lparr>ed_deep_member := ed_deep_member e \<or> deep_slot g e\<rparr>
      else (let steps = chain_steps (source_type g e) 0 (ed_chain e)
            in \<lparr>ed_source = ed_source e, ed_target = ed_target e,
                ed_source_celltype = Some (chain_type (source_type g e) (ed_chain e)),
                ed_conversion = (steps \<noteq> []),
                ed_conversion_before = (case steps of (k, _) # _ \<Rightarrow> k = 0 | [] \<Rightarrow> False),
                ed_conversion_steps = steps, ed_chain = ed_chain e,
                ed_deep_member = (ed_deep_member e \<or> deep_slot g e)\<rparr>))"

lemma slot_known: "slot_savable g e \<Longrightarrow> target_known g e"
  by (auto simp: slot_savable_def target_known_def split: option.splits)

lemma durable_celltype:
  assumes "durable nd = durable nd'"
    and "nd_kind nd = Transformer_kind \<longrightarrow> nd_transformer_config nd \<noteq> None"
  shows "config_celltype nd' = config_celltype nd"
proof -
  have e: "nd_kind nd' = nd_kind nd" "nd_cell_config nd' = nd_cell_config nd"
    "map_option durable_config (nd_transformer_config nd') = map_option durable_config (nd_transformer_config nd)"
    using assms(1) by (simp_all add: durable_def new_node_def)
  show ?thesis
  proof (cases "nd_kind nd = Cell_kind")
    case True
    then show ?thesis using e by (simp add: config_celltype_def)
  next
    case False
    then have k: "nd_kind nd = Transformer_kind" by (cases "nd_kind nd") simp_all
    with assms(2) obtain c where c: "nd_transformer_config nd = Some c" by blast
    with e(3) obtain c' where c': "nd_transformer_config nd' = Some c'" "durable_config c' = durable_config c"
      by auto
    have view: "map_of (tc_celltypes (durable_config d)) ''result'' = Some (celltype_or_mixed (tc_celltypes d) ''result'')" for d
    proof -
      have "map_of (map (\<lambda>p. (p, celltype_or_mixed (tc_celltypes d) p)) ps) ''result'' =
          Some (celltype_or_mixed (tc_celltypes d) ''result'')" if "''result'' \<in> set ps" for ps
        using that by (simp add: map_of_map_restrict)
      then show ?thesis by (simp add: durable_config_def)
    qed
    have "celltype_or_mixed (tc_celltypes c') ''result'' = celltype_or_mixed (tc_celltypes c) ''result''"
      using view [of c] view [of c'] c'(2) by simp
    then show ?thesis using k e(1) c c'(1) by (simp add: config_celltype_def celltype_or_mixed_def)
  qed
qed

text \<open>What the loader knows of the saved graph \<open>g\<close> in the graph \<open>h\<close> it builds.\<close>

definition nodes_reloaded :: "graph \<Rightarrow> graph \<Rightarrow> bool" where
  "nodes_reloaded g h \<longleftrightarrow>
     (\<forall>p. map_of (g_nodes g) p = None \<longleftrightarrow> map_of (g_nodes h) p = None)
     \<and> (\<forall>p nd nd'. map_of (g_nodes g) p = Some nd \<longrightarrow> map_of (g_nodes h) p = Some nd' \<longrightarrow>
          durable nd = durable nd' \<and> config_celltype nd' = config_celltype nd)"

lemma reloaded_resolve:
  assumes "nodes_reloaded g h" shows "resolve_existing h v = resolve_existing g v"
  by (rule resolve_existing_cong) (use assms in \<open>simp add: nodes_reloaded_def\<close>)

lemma reloaded_celltype:
  assumes "nodes_reloaded g h" shows "node_celltype h n = node_celltype g n"
proof (cases "map_of (g_nodes g) n")
  case None
  then have "map_of (g_nodes h) n = None" using assms by (simp add: nodes_reloaded_def)
  with None show ?thesis by (simp add: node_celltype_def)
next
  case (Some nd)
  then obtain nd' where "map_of (g_nodes h) n = Some nd'"
    using assms unfolding nodes_reloaded_def by (metis option.exhaust)
  with Some show ?thesis using assms by (auto simp: node_celltype_def nodes_reloaded_def)
qed

lemma durable_attached:
  assumes "durable nd = durable nd'"
  shows "nd_kind nd' = nd_kind nd" and "nd_mount nd' = nd_mount nd"
    and "map_of (nd_attachments nd') ''share'' = map_of (nd_attachments nd) ''share''"
  using assms by (simp_all add: durable_def new_node_def split: option.splits)

lemma load_saved_source:
  assumes ok: "symbols_ok (g_symbols g)" and nodes: "nodes_reloaded g h"
    and chained: "edge_chained g e" and slot: "slot_savable g e"
    and table: "\<And>r. r \<in> set (saved_chain g e) \<Longrightarrow> map_of table (symbol g r) = Some r"
  shows "load_source h table (connection g e) = Inr ((loaded_edge g e)\<lparr>ed_deep_member := False\<rparr>)"
proof (cases "saved_as_link g e")
  case True
  obtain src where "own_source g e = Inr src" "src = Ref_path (ed_source e) \<or> src = Ref_node (ed_source e)"
    using own_source_total [OF chained slot_known [OF slot]] by blast
  with True show ?thesis
    by (auto simp: load_source_def connection_def loaded_edge_def plain_link_def)
next
  case False
  let ?c = "ed_chain e"
  obtain n l where r: "resolve_existing g (ed_source e) = Some (n, l)"
    using chained by (auto simp: edge_chained_def split: option.splits)
  have c: "?c \<noteq> []" using False by (simp add: saved_as_link_def)
  with chained r have at: "chain_at g (Src_node n) ?c" and path: "chain_path ?c = l"
    by (simp_all add: edge_chained_def)
  obtain nd where nd: "map_of (g_nodes g) n = Some nd" using resolve_existing_Some(2) [OF r] by blast
  define ct where "ct = config_celltype nd"
  have ct: "node_celltype h n = Some ct" "source_type g e = ct"
    using reloaded_celltype [OF nodes] by (simp_all add: node_celltype_def nd ct_def source_type_def r)
  have "resolve_symbol h table (symbol g (last ?c)) = Inr (n, chain_path ?c, chain_type ct ?c, chain_steps ct 0 ?c, ?c)"
    by (rule resolve_symbol_chain [OF ok at _ ct(1) c]) (use table False in \<open>simp add: saved_chain_def\<close>)
  moreover have "n @ l = ed_source e" using resolve_existing_Some(1) [OF r] by simp
  ultimately show ?thesis
    using False by (simp add: load_source_def connection_def loaded_edge_def plain_link_def Let_def path ct(2))
qed

definition no_bool :: "path \<Rightarrow> bool" where
  "no_bool p \<longleftrightarrow> list_all (\<lambda>c. case c of KBool _ \<Rightarrow> False | _ \<Rightarrow> True) p"

lemma comp_eq_no_bool:
  "(case a of KBool _ \<Rightarrow> False | _ \<Rightarrow> True) \<Longrightarrow> (case b of KBool _ \<Rightarrow> False | _ \<Rightarrow> True) \<Longrightarrow>
   comp_eq a b \<longleftrightarrow> a = b"
  by (cases a; cases b) (auto simp: comp_eq_def comp_int_def)

lemma path_eq_no_bool: "no_bool p \<Longrightarrow> no_bool q \<Longrightarrow> path_eq p q \<longleftrightarrow> p = q"
  by (induction p q rule: path_eq.induct) (simp_all add: no_bool_def comp_eq_no_bool)

lemma check_saved_edge:
  assumes nodes: "nodes_reloaded g h" and chained: "edge_chained g e" and slot: "slot_savable g e"
    and targets: "\<not> list_ex (\<lambda>d. path_eq (ed_target d) (ed_target e)) edges"
    and e0: "ed_source e0 = ed_source e" "ed_target e0 = ed_target e"
  shows "check_loaded h edges e0 = Inr (e0\<lparr>ed_deep_member := ed_deep_member e0 \<or> deep_slot g e\<rparr>)"
proof -
  obtain n l where s: "resolve_existing g (ed_source e) = Some (n, l)"
    using chained by (auto simp: edge_chained_def split: option.splits)
  obtain t tl nd where t: "resolve_existing g (ed_target e) = Some (t, tl)" "map_of (g_nodes g) t = Some nd"
    using slot by (auto simp: slot_savable_def split: option.splits)
  then obtain nd' where nd': "map_of (g_nodes h) t = Some nd'" "durable nd = durable nd'"
      "config_celltype nd' = config_celltype nd"
    using nodes unfolding nodes_reloaded_def by (metis option.exhaust)
  note same = durable_attached [OF nd'(2)]
  have "\<not> (case nd_mount nd of Some m \<Rightarrow> sensing m | None \<Rightarrow> False)"
    "\<not> (case map_of (nd_attachments nd) ''share'' of Some (ShareSpec sp) \<Rightarrow> \<not> ss_readonly sp | _ \<Rightarrow> False)"
    "if nd_kind nd = Cell_kind then length tl \<le> 1 \<and> \<not> list_ex is_slice tl else length tl = 1"
    using slot unfolding slot_savable_def t option.case prod.case by blast+
  moreover have "\<not> list_ex (\<lambda>d. path_eq (ed_target d) (ed_target e0)) edges" using targets e0 by simp
  ultimately show ?thesis
    unfolding check_loaded_def e0 reloaded_resolve [OF nodes] s t option.case prod.case nd'(1) same nd'(3)
    by (simp add: deep_slot_def t split: if_splits)
qed

lemma load_saved_edges:
  assumes ok: "symbols_ok (g_symbols g)" and nodes: "nodes_reloaded g h"
  shows "list_all (edge_chained g) es \<Longrightarrow> list_all (slot_savable g) es \<Longrightarrow>
    (\<And>r. r \<in> set (saved_recipes g es) \<Longrightarrow> map_of table (symbol g r) = Some r) \<Longrightarrow>
    list_all (no_bool \<circ> ed_target) (edges @ es) \<Longrightarrow> distinct (map ed_target (edges @ es)) \<Longrightarrow>
    load_edges h table (map (connection g) es) edges = Inr (edges @ map (loaded_edge g) es)"
proof (induction es arbitrary: edges)
  case (Cons e es)
  have src: "load_source h table (connection g e) = Inr ((loaded_edge g e)\<lparr>ed_deep_member := False\<rparr>)"
    by (rule load_saved_source [OF ok nodes]) (use Cons.prems in \<open>auto simp: saved_recipes_def\<close>)
  have t: "ed_source (loaded_edge g e) = ed_source e" "ed_target (loaded_edge g e) = ed_target e"
    by (simp_all add: loaded_edge_def plain_link_def Let_def)
  have "path_eq (ed_target d) (ed_target e) \<longleftrightarrow> False" if "d \<in> set edges" for d
  proof -
    have "ed_target d \<noteq> ed_target e" using Cons.prems(5) that by (auto simp: image_iff)
    moreover have "no_bool (ed_target d)" "no_bool (ed_target e)"
      using Cons.prems(4) that by (simp_all add: list_all_iff)
    ultimately show ?thesis by (simp add: path_eq_no_bool)
  qed
  then have apart: "\<not> list_ex (\<lambda>d. path_eq (ed_target d) (ed_target e)) edges" by (simp add: list_ex_iff)
  have "check_loaded h edges ((loaded_edge g e)\<lparr>ed_deep_member := ed_deep_member e\<rparr>) = Inr (loaded_edge g e)"
    using Cons.prems(1,2) apart t
    by (subst check_saved_edge [OF nodes, where e = e]) (simp_all add: loaded_edge_def plain_link_def Let_def)
  moreover have "load_edges h table (map (connection g) es) (edges @ [loaded_edge g e]) =
      Inr ((edges @ [loaded_edge g e]) @ map (loaded_edge g) es)"
    by (rule Cons.IH) (use Cons.prems t in \<open>auto simp: saved_recipes_def list_all_iff\<close>)
  moreover have "cn_deep_member (connection g e) = ed_deep_member e" by (simp add: connection_def)
  ultimately show ?case by (simp add: src)
qed simp

section \<open>Registering the symbols of the loaded edges\<close>

lemma assign_all_registered:
  "list_all (registered g) rs \<Longrightarrow> assign_all base (g_symbols g) rs = Some (g_symbols g)"
proof (induction rs)
  case (Cons r rs)
  then have "assign_symbol base (g_symbols g) r = Some (symbol g r, g_symbols g)"
    by (simp add: assign_symbol_def symbol_registered)
  with Cons show ?case by simp
qed simp

lemma edge_chained_cong:
  assumes "g_nodes h = g_nodes g" and "g_symbols h = g_symbols g"
  shows "edge_chained h e = edge_chained g e"
proof -
  have "chain_at h key rs = chain_at g key rs" for key rs
    by (induction rs arbitrary: key) (simp_all add: registered_def symbol_def assms(2))
  moreover have "resolve_existing h v = resolve_existing g v" for v
    by (rule resolve_existing_cong) (simp add: assms(1))
  ultimately show ?thesis by (simp add: edge_chained_def split: option.split)
qed

lemma edge_chained_extends:
  assumes "edge_chained g e" and "extends syms (g_symbols g)"
  shows "edge_chained (g\<lparr>g_symbols := syms\<rparr>) e"
proof -
  have "resolve_existing (g\<lparr>g_symbols := syms\<rparr>) v = resolve_existing g v" for v by (rule resolve_existing_cong) simp
  then show ?thesis
    using assms chain_at_extends [of g _ _ "g\<lparr>g_symbols := syms\<rparr>"]
    by (auto simp: edge_chained_def split: option.splits if_splits)
qed

definition as_registered :: "edge \<Rightarrow> edge \<Rightarrow> bool" where
  "as_registered e e' \<longleftrightarrow> e'\<lparr>ed_chain := []\<rparr> = e\<lparr>ed_chain := []\<rparr> \<and> (ed_chain e \<noteq> [] \<longrightarrow> e' = e)"

lemma register_one:
  assumes ok: "symbols_ok (g_symbols h)" and src: "resolve_existing h (ed_source e) \<noteq> None"
    and chained: "ed_chain e \<noteq> [] \<longrightarrow> edge_chained h e"
  obtains e' syms where "register_edge_symbols base h e = (Inr e', h\<lparr>g_symbols := syms\<rparr>)"
    and "symbols_ok syms" and "extends syms (g_symbols h)" and "as_registered e e'"
    and "edge_chained (h\<lparr>g_symbols := syms\<rparr>) e'"
proof (cases "ed_chain e = []")
  case True
  obtain e' h' where reg: "register_edge_symbols base h e = (Inr e', h')"
    using register_edge_symbols_total [OF src] by blast
  obtain n l where r: "resolve_existing h (ed_source e) = Some (n, l)" using src by auto
  define links where "links = anonymous_links (the (node_celltype h n)) l (edge_steps e (the (node_celltype h n)) l)"
  obtain rs syms where c: "assign_chain base (g_symbols h) (Src_node n) links = Some (rs, syms)"
    using assign_chain_total by blast
  have "h' = h\<lparr>g_symbols := g_symbols h'\<rparr> \<and> symbols_ok (g_symbols h') \<and> extends (g_symbols h') (g_symbols h)
      \<and> as_registered e e'"
  proof (cases "links = []")
    case True
    then have "e' = e" "h' = h"
      using reg \<open>ed_chain e = []\<close> r by (simp_all add: register_edge_symbols_def Let_def links_def [symmetric])
    then show ?thesis using ok by (simp add: as_registered_def)
  next
    case False
    then have "e' = e\<lparr>ed_chain := rs\<rparr>" "h' = h\<lparr>g_symbols := syms\<rparr>"
      using reg True r c by (simp_all add: register_edge_symbols_def Let_def links_def [symmetric])
    then show ?thesis using assign_chain_ok [OF c ok] True by (simp add: as_registered_def)
  qed
  moreover have "edge_chained h' e'" by (rule registration_chains [OF reg True ok])
  ultimately show thesis using that [of e' "g_symbols h'"] reg by metis
next
  case False
  with chained have ch: "edge_chained h e" by blast
  then have "list_all (registered h) (ed_chain e)"
    using False by (auto simp: edge_chained_def list_all_iff dest: chain_at_registered split: option.splits)
  then have "register_edge_symbols base h e = (Inr e, h\<lparr>g_symbols := g_symbols h\<rparr>)"
    using False by (simp add: register_edge_symbols_def assign_all_registered)
  then show thesis by (rule that) (use ok ch in \<open>simp_all add: as_registered_def\<close>)
qed

lemma register_all_chained:
  "symbols_ok (g_symbols h) \<Longrightarrow> \<forall>e \<in> set es. resolve_existing h (ed_source e) \<noteq> None \<Longrightarrow>
   \<forall>e \<in> set es. ed_chain e \<noteq> [] \<longrightarrow> edge_chained h e \<Longrightarrow>
   \<exists>es' syms. register_all base h es = Inr (es', h\<lparr>g_symbols := syms\<rparr>) \<and> symbols_ok syms
     \<and> extends syms (g_symbols h) \<and> list_all2 as_registered es es'
     \<and> list_all (edge_chained (h\<lparr>g_symbols := syms\<rparr>)) es'"
proof (induction es arbitrary: h)
  case Nil
  then show ?case by (intro exI [where x = "[]"] exI [where x = "g_symbols h"]) simp
next
  case (Cons e es)
  obtain e' syms where one: "register_edge_symbols base h e = (Inr e', h\<lparr>g_symbols := syms\<rparr>)"
    "symbols_ok syms" "extends syms (g_symbols h)" "as_registered e e'" "edge_chained (h\<lparr>g_symbols := syms\<rparr>) e'"
    using register_one [OF Cons.prems(1), of e base] Cons.prems(2,3) by auto
  let ?h = "h\<lparr>g_symbols := syms\<rparr>"
  have same: "resolve_existing ?h v = resolve_existing h v" for v by (rule resolve_existing_cong) simp
  have "\<exists>es' syms'. register_all base ?h es = Inr (es', ?h\<lparr>g_symbols := syms'\<rparr>) \<and> symbols_ok syms'
     \<and> extends syms' (g_symbols ?h) \<and> list_all2 as_registered es es'
     \<and> list_all (edge_chained (?h\<lparr>g_symbols := syms'\<rparr>)) es'"
    by (rule Cons.IH) (use Cons.prems one edge_chained_extends in \<open>auto simp: same\<close>)
  then obtain es' syms' where rest: "register_all base ?h es = Inr (es', h\<lparr>g_symbols := syms'\<rparr>)" "symbols_ok syms'"
     "extends syms' syms" "list_all2 as_registered es es'" "list_all (edge_chained (h\<lparr>g_symbols := syms'\<rparr>)) es'"
    by auto
  have "edge_chained (h\<lparr>g_symbols := syms'\<rparr>) e'"
    using edge_chained_extends [OF one(5), of syms'] rest(3) by simp
  with one rest show ?case by (auto intro: extends_trans)
qed

section \<open>The search for a cycle succeeds\<close>

lemma fold_res_total:
  assumes "\<And>q f. q \<in> set qs \<Longrightarrow> \<exists>f'. step q f = Inr f'"
  shows "\<exists>f'. fold (\<lambda>q acc. res_bind acc (step q)) qs (Inr f) = Inr (f' :: 'b)"
  using assms
proof (induction qs arbitrary: f)
  case (Cons q qs)
  obtain f1 where "step q f = Inr f1" using Cons.prems [of q] by auto
  with Cons show ?case by simp
qed simp

lemma check_cycle_total:
  assumes acyc: "acyclic {(q, p). q \<in> set (srcs p)}" and closed: "\<And>p. set (srcs p) \<subseteq> set ns"
  shows "p \<in> set ns \<Longrightarrow> distinct visiting \<Longrightarrow> set visiting \<subseteq> set ns \<Longrightarrow>
    \<forall>v \<in> set visiting. (p, v) \<in> {(q, p). q \<in> set (srcs p)}\<^sup>+ \<Longrightarrow> length ns < n + length visiting \<Longrightarrow>
    \<exists>f. check_cycle srcs n visiting p finished = Inr f"
proof (induction n arbitrary: visiting p finished)
  case 0
  have "length visiting \<le> length ns" using "0.prems"(2,3) by (metis card_length card_mono distinct_card finite_set le_trans)
  with "0.prems"(5) show ?case by simp
next
  case (Suc n)
  let ?R = "{(q, p). q \<in> set (srcs p)}"
  have new: "p \<notin> set visiting" using Suc.prems(4) acyc by (auto simp: acyclic_def)
  have "\<exists>f'. check_cycle srcs n (p # visiting) q f = Inr f'" if q: "q \<in> set (srcs p)" for q f
  proof (rule Suc.IH)
    have "(q, p) \<in> ?R" using q by simp
    then show "\<forall>v \<in> set (p # visiting). (q, v) \<in> ?R\<^sup>+"
      using Suc.prems(4) by (auto intro: trancl_into_trancl2)
  qed (use q closed [of p] new Suc.prems in auto)
  then obtain f where "fold (\<lambda>q acc. res_bind acc (check_cycle srcs n (p # visiting) q)) (srcs p) (Inr finished) = Inr f"
    using fold_res_total [of "srcs p" "check_cycle srcs n (p # visiting)" finished] by blast
  with new show ?case by simp
qed

lemma set_map_filter: "set (List.map_filter f xs) = {y. \<exists>x \<in> set xs. f x = Some y}"
  by (induction xs) (auto simp: map_filter_simps split: option.splits)

lemma loaded_sources_pairs: "q \<in> set (loaded_sources g p) \<longleftrightarrow> (q, p) \<in> set (edge_pairs g)"
proof -
  have "(case (resolve_existing g (ed_source e), resolve_existing g (ed_target e)) of
        (Some (s, _), Some (t, _)) \<Rightarrow> if t = p then Some s else None
      | _ \<Rightarrow> None) = Some q \<longleftrightarrow> edge_ends g e = Some (q, p)" for e
    by (cases "resolve_existing g (ed_source e)"; cases "resolve_existing g (ed_target e)") (auto simp: edge_ends_def split: if_splits)
  then show ?thesis by (simp add: loaded_sources_def edge_pairs_def set_map_filter)
qed

lemma check_cycles_acyclic:
  assumes "acyclic (set (edge_pairs g))"
  shows "check_cycles g = Inr ()"
proof -
  have R: "{(q, p). q \<in> set (loaded_sources g p)} = set (edge_pairs g)"
    using loaded_sources_pairs [of _ g] by auto
  have closed: "set (loaded_sources g p) \<subseteq> set (keys (g_nodes g))" for p
  proof
    fix q assume "q \<in> set (loaded_sources g p)"
    then obtain e where "edge_ends g e = Some (q, p)"
      by (auto simp: loaded_sources_pairs edge_pairs_def set_map_filter)
    then obtain l where "resolve_existing g (ed_source e) = Some (q, l)"
      by (auto simp: edge_ends_def split: option.splits)
    from resolve_existing_Some(2) [OF this] show "q \<in> set (keys (g_nodes g))" by (simp add: in_keys_iff)
  qed
  have "\<exists>f'. check_cycle (loaded_sources g) (Suc (length (g_nodes g))) [] q f = Inr f'"
    if "q \<in> set (keys (g_nodes g))" for q f
    by (rule check_cycle_total [where ns = "keys (g_nodes g)"]) (use assms R closed that in auto)
  then obtain f where "fold (\<lambda>q acc. res_bind acc (check_cycle (loaded_sources g) (Suc (length (g_nodes g))) [] q))
        (keys (g_nodes g)) (Inr []) = Inr f"
    using fold_res_total by metis
  then show ?thesis by (simp add: check_cycles_def)
qed

section \<open>The round trip\<close>

definition graph_savable :: "serial_ext \<Rightarrow> graph \<Rightarrow> bool" where
  "graph_savable X g \<longleftrightarrow>
     list_all (node_savable X) (g_nodes g) \<and> distinct (concat (map (share_urls \<circ> snd) (g_nodes g)))
     \<and> list_all (edge_chained g) (g_edges g) \<and> list_all (slot_savable g) (g_edges g)
     \<and> list_all (no_bool \<circ> ed_target) (g_edges g)
     \<and> list_all (recipe_loads X (g_nodes g) g) (saved_recipes g (g_edges g))"

definition reloaded :: "graph \<Rightarrow> edge \<Rightarrow> edge \<Rightarrow> bool" where
  "reloaded g e e' \<longleftrightarrow>
     e'\<lparr>ed_chain := []\<rparr> = (loaded_edge g e)\<lparr>ed_chain := []\<rparr> \<and> (\<not> saved_as_link g e \<longrightarrow> ed_chain e' = ed_chain e)"

text \<open>The nodes load, and the loaded graph resolves paths as the saved one does.\<close>

lemma saved_nodes_load:
  assumes wf: "wf_dict (g_nodes g)" and sav: "graph_savable X g"
  obtains nodes urls where
    "load_nodes X ''0.6'' (map (save_node X s runtime) (sort_key fst (g_nodes g))) ([], []) = Inr (nodes, urls)"
    and "list_all2 same_durable (sort_key fst (g_nodes g)) nodes"
    and "\<And>h. g_nodes h = nodes \<Longrightarrow> nodes_reloaded g h"
proof -
  let ?ns = "sort_key fst (g_nodes g)"
  have wfs: "distinct (map fst ?ns)" using wf by (simp add: wf_dict_def distinct_map)
  have "distinct (concat (map (share_urls \<circ> snd) ?ns))"
  proof -
    have "mset (concat (map (share_urls \<circ> snd) ?ns)) = mset (concat (map (share_urls \<circ> snd) (g_nodes g)))"
      by (simp add: mset_concat flip: sum_mset_sum_list)
    then show ?thesis using sav mset_eq_imp_distinct_iff by (auto simp: graph_savable_def)
  qed
  moreover have "list_all (node_savable X) ?ns" using sav by (simp add: graph_savable_def list_all_iff)
  ultimately obtain nodes urls where nodes: "load_nodes X ''0.6'' (map (save_node X s runtime) ?ns) ([], []) = Inr (nodes, urls)"
    "list_all2 same_durable ?ns nodes"
    using load_saved_nodes [of X ?ns "[]" "[]" s runtime] wfs by auto
  have same: "map_of ?ns = map_of (g_nodes g)"
    using map_of_inject_set [of ?ns "g_nodes g"] wf wfs by (simp add: wf_dict_def)
  have "nodes_reloaded g h" if h: "g_nodes h = nodes" for h
    unfolding nodes_reloaded_def h
  proof (intro conjI allI impI)
    fix p show "(map_of (g_nodes g) p = None) = (map_of nodes p = None)"
      using same_durable_map_of_None [OF nodes(2), of p] by (simp add: same)
  next
    fix p nd nd' assume p: "map_of (g_nodes g) p = Some nd" "map_of nodes p = Some nd'"
    then show d: "durable nd = durable nd'"
      using same_durable_map_of [OF nodes(2), of p nd] by (simp add: same)
    have "node_savable X (p, nd)" using sav map_of_SomeD [OF p(1)] by (auto simp: graph_savable_def list_all_iff)
    then show "config_celltype nd' = config_celltype nd"
      by (intro durable_celltype [OF d]) (auto simp: node_savable_def body_savable_def split: option.splits)
  qed
  with nodes show thesis by (rule that)
qed

text \<open>The table of anonymous nodes loads with the symbols it was saved with, and every symbol resolves.\<close>

lemma saved_recipesE:
  assumes "r \<in> set (saved_recipes g es)"
  obtains e where "e \<in> set es" and "\<not> saved_as_link g e" and "r \<in> set (ed_chain e)"
    and "set (ed_chain e) \<subseteq> set (saved_recipes g es)"
  using assms by (auto simp: saved_recipes_def saved_chain_def split: if_splits)

lemma saved_symbol_resolves:
  assumes ok: "symbols_ok (g_symbols g)" and chained: "list_all (edge_chained g) es" and nodes: "nodes_reloaded g h"
    and tab: "\<And>r. r \<in> set (saved_recipes g es) \<Longrightarrow> map_of table (symbol g r) = Some r"
    and r: "r \<in> set (saved_recipes g es)"
  shows "\<not> isl (resolve_symbol h table (symbol g r))"
proof -
  obtain e where e: "e \<in> set es" "r \<in> set (ed_chain e)" "set (ed_chain e) \<subseteq> set (saved_recipes g es)"
    using saved_recipesE [OF r] by metis
  then obtain pre post where c: "ed_chain e = (pre @ [r]) @ post" using split_list by fastforce
  have "edge_chained g e" "ed_chain e \<noteq> []" using chained e c by (auto simp: list_all_iff)
  then obtain n where n: "resolve_existing g (ed_source e) = Some (n, chain_path (ed_chain e))"
    "chain_at g (Src_node n) (ed_chain e)" by (rule edge_chain_at)
  have "map_of table (symbol g a) = Some a" if "a \<in> set (pre @ [r])" for a
    by (rule tab) (use that c e(3) in auto)
  moreover obtain ct where "node_celltype h n = Some ct"
    using reloaded_celltype [OF nodes, of n] resolve_existing_Some(2) [OF n(1)] by (auto simp: node_celltype_def)
  moreover have "chain_at g (Src_node n) (pre @ [r])"
    using n(2) chain_at_append [of g "Src_node n" "pre @ [r]" post] c by simp
  ultimately have "resolve_symbol h table (symbol g (last (pre @ [r]))) =
      Inr (n, chain_path (pre @ [r]), chain_type ct (pre @ [r]), chain_steps ct 0 (pre @ [r]), pre @ [r])"
    by (intro resolve_symbol_chain [OF ok]) simp_all
  then show ?thesis by simp
qed

lemma saved_table_loads:
  assumes ok: "symbols_ok (g_symbols g)" and chained: "list_all (edge_chained g) es"
    and loads: "list_all (recipe_loads X (g_nodes g) g) (saved_recipes g es)"
    and nodes: "nodes_reloaded g (empty_graph\<lparr>g_nodes := ns\<rparr>)"
  obtains syms table where
    "parse_anonymous X (sort_key fst (dict_of (map (entry X g) (saved_recipes g es)))) (empty_graph\<lparr>g_nodes := ns\<rparr>) [] =
       Inr (empty_graph\<lparr>g_nodes := ns, g_symbols := syms\<rparr>, table)"
    and "symbols_ok syms"
    and "\<And>r. r \<in> set (saved_recipes g es) \<Longrightarrow> map_of syms r = Some (symbol g r) \<and> map_of table (symbol g r) = Some r"
    and "find isl (map (resolve_symbol (empty_graph\<lparr>g_nodes := ns, g_symbols := syms\<rparr>) table \<circ> fst) table) = None"
proof -
  let ?h = "empty_graph\<lparr>g_nodes := ns\<rparr>"
  have reg: "list_all (registered g) (saved_recipes g es)"
    using chained edge_chain_registered
    by (auto simp: list_all_iff saved_recipes_def saved_chain_def split: if_splits)
  obtain rs where rs: "sort_key fst (dict_of (map (entry X g) (saved_recipes g es))) = map (entry X g) rs"
    "set rs = set (saved_recipes g es)" "distinct (map (symbol g) rs)" "distinct rs"
    using saved_table [OF ok reg] by metis
  let ?table = "map (\<lambda>r. (symbol g r, r)) rs" and ?syms = "map (\<lambda>r. (r, symbol g r)) rs"
  have "recipe_loads X (g_nodes ?h) g = recipe_loads X (g_nodes g) g"
    using nodes by (simp add: recipe_loads_def [abs_def] nodes_reloaded_def split: source_key.split)
  then have "list_all (recipe_loads X (g_nodes ?h) g) rs" using loads rs(2) by (simp add: list_all_iff)
  from parse_saved_table [OF this rs(3,4), of "[]"]
  have parse: "parse_anonymous X (map (entry X g) rs) ?h [] = Inr (?h\<lparr>g_symbols := ?syms\<rparr>, ?table)"
    by (simp add: empty_graph_def)
  have ok1: "symbols_ok ?syms" using rs(3,4) by (simp add: symbols_ok_def wf_dict_def comp_def)
  have tab: "map_of ?table (symbol g r) = Some r" if "r \<in> set (saved_recipes g es)" for r
    using that rs(2,3) by (auto simp: map_of_eq_Some_iff comp_def)
  have sym: "map_of ?syms r = Some (symbol g r)" if "r \<in> set (saved_recipes g es)" for r
    using that rs(2) by (simp add: map_of_map_restrict)
  have "nodes_reloaded g (?h\<lparr>g_symbols := ?syms\<rparr>)" using nodes by (simp add: nodes_reloaded_def)
  from saved_symbol_resolves [OF ok chained this tab]
  have "find isl (map (resolve_symbol (?h\<lparr>g_symbols := ?syms\<rparr>) ?table \<circ> fst) ?table) = None"
    using rs(2) by (auto simp: find_None_iff)
  with parse ok1 tab sym show thesis by (intro that [of ?syms ?table]) (simp_all add: rs(1))
qed

text \<open>A loaded edge stands on the table of the loaded graph.\<close>

lemma loaded_edge_stands:
  assumes chained: "edge_chained g e" and nodes: "nodes_reloaded g h"
    and sym: "\<And>r. r \<in> set (saved_chain g e) \<Longrightarrow> map_of (g_symbols h) r = Some (symbol g r)"
  shows "resolve_existing h (ed_source (loaded_edge g e)) \<noteq> None
    \<and> (ed_chain (loaded_edge g e) \<noteq> [] \<longrightarrow> edge_chained h (loaded_edge g e))"
proof -
  have src: "ed_source (loaded_edge g e) = ed_source e" by (simp add: loaded_edge_def plain_link_def Let_def)
  have "edge_chained h (loaded_edge g e)" if some: "ed_chain (loaded_edge g e) \<noteq> []"
  proof -
    have link: "\<not> saved_as_link g e" "ed_chain (loaded_edge g e) = ed_chain e"
      using some by (auto simp: loaded_edge_def plain_link_def Let_def split: if_splits)
    then have "ed_chain e \<noteq> []" using some by simp
    with chained obtain n where n: "resolve_existing g (ed_source e) = Some (n, chain_path (ed_chain e))"
      "chain_at g (Src_node n) (ed_chain e)" by (rule edge_chain_at)
    have "registered h r \<and> symbol h r = symbol g r" if "r \<in> set (ed_chain e)" for r
      using sym that link by (simp add: saved_chain_def registered_def symbol_def)
    then have "chain_at h key cs" if "chain_at g key cs" "set cs \<subseteq> set (ed_chain e)" for key cs
      using that by (induction g key cs rule: chain_at.induct) auto
    then have "chain_at h (Src_node n) (ed_chain e)" using n(2) by simp
    then show ?thesis
      using n(1) link some by (simp add: edge_chained_def src reloaded_resolve [OF nodes])
  qed
  moreover have "resolve_existing h (ed_source e) \<noteq> None"
    using chained by (auto simp: reloaded_resolve [OF nodes] edge_chained_def split: option.splits)
  ultimately show ?thesis by (simp add: src)
qed

lemma loaded_acyclic:
  assumes edges: "edges_ok g" and es: "set es = set (g_edges g)" and nodes: "nodes_reloaded g h"
    and ends: "map ed_source (g_edges h) = map ed_source es" "map ed_target (g_edges h) = map ed_target es"
  shows "check_cycles h = Inr ()"
proof -
  have "edge_ends h e' = (case (resolve_existing g (ed_source e'), resolve_existing g (ed_target e')) of
        (Some (s, _), Some (t, _)) \<Rightarrow> Some (s, t) | _ \<Rightarrow> None)" for e'
    by (simp add: edge_ends_def reloaded_resolve [OF nodes])
  then have h: "edge_ends h e' = edge_ends g e" if "ed_source e' = ed_source e" "ed_target e' = ed_target e" for e e'
    using that by (simp add: edge_ends_def)
  have "map (edge_ends h) (g_edges h) = map (edge_ends g) es"
  proof (rule nth_equalityI)
    show len: "length (map (edge_ends h) (g_edges h)) = length (map (edge_ends g) es)"
      using ends(1) by (metis length_map)
    fix i assume i: "i < length (map (edge_ends h) (g_edges h))"
    have "map ed_source (g_edges h) ! i = map ed_source es ! i" "map ed_target (g_edges h) ! i = map ed_target es ! i"
      using ends by simp_all
    with i len show "map (edge_ends h) (g_edges h) ! i = map (edge_ends g) es ! i" by (simp add: h)
  qed
  then have "edge_ends h ` set (g_edges h) = edge_ends g ` set (g_edges g)" by (metis es set_map)
  then have "set (edge_pairs h) = set (edge_pairs g)"
    unfolding edge_pairs_def set_map_filter by (metis (no_types, opaque_lifting) image_iff)
  then show ?thesis using edges by (intro check_cycles_acyclic) (simp add: edges_ok_def)
qed

lemma prepare_saved:
  assumes ok: "symbols_ok (g_symbols g)" and edges: "edges_ok g" and wf: "wf_dict (g_nodes g)"
    and sav: "graph_savable X g" and es: "mset es = mset (g_edges g)"
  shows "\<exists>h. prepare_graph X \<lparr>dc_version = ''0.6'',
        dc_nodes = map (save_node X s runtime) (sort_key fst (g_nodes g)),
        dc_anonymous = sort_key fst (dict_of (map (entry X g) (saved_recipes g es))),
        dc_connections = map (connection g) es\<rparr> = Inr h
     \<and> list_all2 (reloaded g) es (g_edges h) \<and> list_all2 same_durable (sort_key fst (g_nodes g)) (g_nodes h)
     \<and> list_all (edge_chained h) (g_edges h) \<and> symbols_ok (g_symbols h)
     \<and> list_all (\<lambda>r. map_of (g_symbols h) r = map_of (g_symbols g) r) (saved_recipes g es)"
proof -
  have set_es: "set es = set (g_edges g)" using es by (metis set_mset_mset)
  have all: "list_all (edge_chained g) es" "list_all (slot_savable g) es" "list_all (no_bool \<circ> ed_target) es"
    "list_all (recipe_loads X (g_nodes g) g) (saved_recipes g es)"
    using sav set_es by (simp_all add: graph_savable_def list_all_iff saved_recipes_def)
  obtain nodes urls where nodes: "load_nodes X ''0.6'' (map (save_node X s runtime) (sort_key fst (g_nodes g))) ([], []) = Inr (nodes, urls)"
    "list_all2 same_durable (sort_key fst (g_nodes g)) nodes" "\<And>h. g_nodes h = nodes \<Longrightarrow> nodes_reloaded g h"
    using saved_nodes_load [OF wf sav] by metis
  have "nodes_reloaded g (empty_graph\<lparr>g_nodes := nodes\<rparr>)" by (simp add: nodes(3))
  from saved_table_loads [OF ok all(1,4) this] obtain syms table where table:
    "parse_anonymous X (sort_key fst (dict_of (map (entry X g) (saved_recipes g es)))) (empty_graph\<lparr>g_nodes := nodes\<rparr>) [] =
       Inr (empty_graph\<lparr>g_nodes := nodes, g_symbols := syms\<rparr>, table)"
    "symbols_ok syms"
    "\<And>r. r \<in> set (saved_recipes g es) \<Longrightarrow> map_of syms r = Some (symbol g r) \<and> map_of table (symbol g r) = Some r"
    "find isl (map (resolve_symbol (empty_graph\<lparr>g_nodes := nodes, g_symbols := syms\<rparr>) table \<circ> fst) table) = None"
    by blast
  define h1 where "h1 = empty_graph\<lparr>g_nodes := nodes, g_symbols := syms\<rparr>"
  have h1: "g_nodes h1 = nodes" "g_symbols h1 = syms" "nodes_reloaded g h1" by (simp_all add: h1_def nodes(3))
  have "distinct (map ed_target (g_edges g))"
    using edges by (auto simp: edges_ok_def edge_targets_def distinct_map inj_on_def)
  then have "distinct (map ed_target es)" using es by (metis mset_eq_imp_distinct_iff mset_map)
  then have load: "load_edges h1 table (map (connection g) es) [] = Inr (map (loaded_edge g) es)"
    using load_saved_edges [OF ok h1(3) all(1,2), of table "[]"] all(3) table(3) by simp
  have "resolve_existing h1 (ed_source (loaded_edge g e)) \<noteq> None
      \<and> (ed_chain (loaded_edge g e) \<noteq> [] \<longrightarrow> edge_chained h1 (loaded_edge g e))" if e: "e \<in> set es" for e
  proof (rule loaded_edge_stands [OF _ h1(3)])
    show "edge_chained g e" using all(1) e by (simp add: list_all_iff)
    fix r assume "r \<in> set (saved_chain g e)"
    then have "r \<in> set (saved_recipes g es)" using e by (auto simp: saved_recipes_def)
    with table(3) show "map_of (g_symbols h1) r = Some (symbol g r)" by (simp add: h1(2))
  qed
  then obtain es' syms' where reg: "register_all (sx_symbol_base X) h1 (map (loaded_edge g) es) = Inr (es', h1\<lparr>g_symbols := syms'\<rparr>)"
    "symbols_ok syms'" "extends syms' syms" "list_all2 as_registered (map (loaded_edge g) es) es'"
    "list_all (edge_chained (h1\<lparr>g_symbols := syms'\<rparr>)) es'"
    using register_all_chained [of h1 "map (loaded_edge g) es" "sx_symbol_base X"] table(2) h1(2) by auto
  define h where "h = h1\<lparr>g_symbols := syms', g_edges := es'\<rparr>"
  have h: "g_nodes h = nodes" "g_edges h = es'" "g_symbols h = syms'" by (simp_all add: h_def h1(1))
  have rel: "list_all2 (reloaded g) es es'"
    using reg(4) by (auto simp: list_all2_map1 as_registered_def reloaded_def loaded_edge_def Let_def saved_as_link_def
        elim!: list_all2_mono)
  have "map ed_source es' = map ed_source es \<and> map ed_target es' = map ed_target es"
    using rel
  proof (induction rule: list_all2_induct)
    case (Cons e es e' es')
    have "ed_source (e'\<lparr>ed_chain := []\<rparr>) = ed_source ((loaded_edge g e)\<lparr>ed_chain := []\<rparr>)"
      "ed_target (e'\<lparr>ed_chain := []\<rparr>) = ed_target ((loaded_edge g e)\<lparr>ed_chain := []\<rparr>)"
      using Cons(1) unfolding reloaded_def by (metis, metis)
    with Cons(3) show ?case by (simp add: loaded_edge_def plain_link_def Let_def)
  qed simp
  then have "check_cycles h = Inr ()"
    using loaded_acyclic [OF edges set_es, of h] nodes(3) [OF h(1)] by (simp add: h(2))
  moreover have "h = (h1\<lparr>g_symbols := syms'\<rparr>)\<lparr>g_edges := es'\<rparr>" by (simp add: h_def)
  ultimately have "prepare_graph X \<lparr>dc_version = ''0.6'',
        dc_nodes = map (save_node X s runtime) (sort_key fst (g_nodes g)),
        dc_anonymous = sort_key fst (dict_of (map (entry X g) (saved_recipes g es))),
        dc_connections = map (connection g) es\<rparr> = Inr h"
    using table(1,4) unfolding h1_def [symmetric] by (simp add: prepare_graph_def nodes(1) load reg(1))
  moreover have "list_all (edge_chained h) es'"
  proof -
    have "edge_chained h e = edge_chained (h1\<lparr>g_symbols := syms'\<rparr>) e" for e
      by (rule edge_chained_cong) (simp_all add: h_def)
    then show ?thesis using reg(5) by (simp add: list_all_iff)
  qed
  moreover have "map_of syms' r = map_of (g_symbols g) r" if r: "r \<in> set (saved_recipes g es)" for r
  proof -
    obtain e where e: "e \<in> set es" "r \<in> set (ed_chain e)" using saved_recipesE [OF r] by metis
    then have "registered g r" using all(1) edge_chain_registered [OF _ e(2)] by (simp add: list_all_iff)
    with table(3) [OF r] reg(3) show ?thesis by (cases r) (simp add: extends_def symbol_registered)
  qed
  ultimately show ?thesis using rel nodes(2) reg(2) by (auto simp: h list_all_iff)
qed

text \<open>C0: A graph that is saved loads again. When a Context in a healthy state whose nodes and edges
  satisfy what loading asks for is saved, either Python cannot order two of its edges and
  saving raises \<open>TypeError\<close>, or \<open>prepare_graph\<close> accepts the document whole: the
  loaded graph has the saved nodes with the same durable part, in sorted order, and one edge for each saved edge,
  with the same source, target and chain of recipes, single links apart; every saved recipe keeps
  its symbol, and every loaded edge again stands on registered symbols.\<close>

theorem saved_graph_loads:
  assumes "healthy s" and "graph_savable X (cx_graph s)"
  shows "case get_graph X runtime s of
      Inl err \<Rightarrow> err = Type_Error \<and> (\<exists>d \<in> set (g_edges (cx_graph s)). \<exists>e \<in> set (g_edges (cx_graph s)).
          pair_less (ed_source d, ed_target d) (ed_source e, ed_target e) = None)
    | Inr doc \<Rightarrow> \<exists>h es. prepare_graph X doc = Inr h \<and> mset es = mset (g_edges (cx_graph s))
        \<and> list_all2 (reloaded (cx_graph s)) es (g_edges h)
        \<and> list_all2 same_durable (sort_key fst (g_nodes (cx_graph s))) (g_nodes h)
        \<and> list_all (edge_chained h) (g_edges h) \<and> symbols_ok (g_symbols h)
        \<and> list_all (\<lambda>r. map_of (g_symbols h) r = map_of (g_symbols (cx_graph s)) r) (saved_recipes (cx_graph s) es)"
proof -
  let ?g = "cx_graph s"
  have g: "symbols_ok (g_symbols ?g)" "edges_ok ?g" "wf_dict (g_nodes ?g)"
    using assms(1) by (simp_all add: healthy_def wf_ctx_def)
  show ?thesis
  proof (cases "py_sorted (\<lambda>e. (ed_source e, ed_target e)) (g_edges ?g)")
    case (Inl err)
    then have "get_graph X runtime s = Inl err" by (simp add: get_graph_def graph_connections_def)
    with Inl show ?thesis by (auto simp: py_sorted_def list_all_iff split: if_splits)
  next
    case (Inr es)
    have es: "mset es = mset (g_edges ?g)" by (rule py_sorted_mset [OF Inr])
    then have set_es: "set es = set (g_edges ?g)" by (metis set_mset_mset)
    have all: "list_all (edge_chained ?g) es" "list_all (target_known ?g) es"
      using assms(2) set_es slot_known by (auto simp: graph_savable_def list_all_iff)
    have "get_graph X runtime s = Inr \<lparr>dc_version = ''0.6'',
        dc_nodes = map (save_node X s runtime) (sort_key fst (g_nodes ?g)),
        dc_anonymous = sort_key fst (dict_of (map (entry X ?g) (saved_recipes ?g es))),
        dc_connections = map (connection ?g) es\<rparr>"
      by (simp add: get_graph_def graph_connections_def Inr save_edges_chained [OF all] dict_of_def)
    then show ?thesis using prepare_saved [OF g assms(2) es, of s runtime] es by auto
  qed
qed

definition plain_serial :: serial_ext where
  "plain_serial =
     \<lparr>sx_map_celltype = (\<lambda>_. None), sx_decodes = (\<lambda>_. False), sx_buffer = (\<lambda>code _. (code, ''cc'')),
      sx_checksum_code = PyStr, sx_fingerprint = (\<lambda>_. []), sx_signature = (\<lambda>_. None),
      sx_validate = (\<lambda>_ _. None), sx_guess = (\<lambda>_. None), sx_file_celltypes = [''text'', ''mixed''],
      sx_directory_celltypes = [''deepfolder''], sx_symbol_base = (\<lambda>_. ''abcde''),
      sx_print_path = (\<lambda>p. if p = [] then [] else ''.x''),
      sx_parse_path = (\<lambda>t. Inr (if t = [] then [] else [KStr ''x'']))\<rparr>"

text \<open>Cell \<open>b\<close> reads \<open>a.x\<close> converted to text: a chain of two links, saved with its symbols.\<close>

definition converted_edge :: edge where
  "converted_edge = (plain_edge [KStr ''a'', KStr ''x''] [KStr ''b''])\<lparr>
     ed_source_celltype := Some ''text'', ed_conversion := True\<rparr>"

definition converted_ctx :: ctx where
  "converted_ctx = snd (add_edge plain_ext 0 converted_edge True
     (snd (create_cell [KStr ''b''] ''mixed'' (snd (create_cell [KStr ''a''] ''plain'' (init_ctx ''top''))))))"

lemma converted_healthy: "healthy converted_ctx"
proof -
  let ?s1 = "snd (create_cell [KStr ''a''] ''plain'' (init_ctx ''top''))"
  let ?s2 = "snd (create_cell [KStr ''b''] ''mixed'' ?s1)"
  have "resolve_existing (cx_graph (init_ctx ''top'')) [KStr ''a''] = None"
    "resolve_existing (cx_graph ?s1) [KStr ''b''] = None" by code_simp+
  then have "healthy ?s2" using edits_healthy [OF create_cell_edits] init_healthy by blast
  then show ?thesis unfolding converted_ctx_def
    using edits_healthy [OF editing_run [OF add_edge_editing]] by blast
qed

lemma converted_savable: "graph_savable plain_serial (cx_graph converted_ctx)"
  by code_simp

theorem saved_graph_loads_witness:
  "\<exists>doc h. get_graph plain_serial False converted_ctx = Inr doc \<and> prepare_graph plain_serial doc = Inr h
    \<and> length (g_edges h) = 1 \<and> list_all (edge_chained h) (g_edges h)"
proof -
  have "isl (get_graph plain_serial False converted_ctx) = False" by code_simp
  then obtain doc where doc: "get_graph plain_serial False converted_ctx = Inr doc" by (metis isl_def sum.exhaust)
  have "length (g_edges (cx_graph converted_ctx)) = 1" by code_simp
  then show ?thesis
    using saved_graph_loads [OF converted_healthy converted_savable, of False] unfolding doc
    by (auto dest!: list_all2_lengthD mset_eq_length)
qed

end
