(* ===== verification/Controller.thy ===== *)
theory Controller
  imports WF_Base
begin

text \<open>
  The controller of a Context (\<^verbatim>\<open>controller.py\<close>): one queue of messages, drained by one thread.

  Other threads call \<open>enqueue\<close>, \<open>begin_close\<close> and \<open>stop\<close> and may cancel the future of a message they
  sent; each is one critical section of the lock. The loop thread takes a message (\<open>take_message\<close>) and
  finishes its turn (\<open>finish_turn\<close>); between the two, other threads may step. What the Context does in
  a turn is the argument \<open>turn\<close>: any outcome is possible. Sequence numbers name messages and their futures.
\<close>

section \<open>Messages and state\<close>

record message =
  ms_sequence :: nat
  ms_klass :: nat
  ms_operation :: string

datatype reply = Answer "exc + py_value" | Cancelled

record controller =
  ct_alive :: bool \<comment> \<open>the weak reference to the Context still resolves\<close>
  ct_queue :: "message list"
  ct_sequence :: nat
  ct_accepting :: bool
  ct_stopped :: bool
  ct_failure :: "exc option"
  ct_trace :: "(nat \<times> nat \<times> string) list"
  ct_logging :: bool
  ct_log :: "(nat \<times> nat) list"
  ct_dirty :: bool
  ct_scheduled :: nat \<comment> \<open>calls of \<open>_drain\<close> waiting in the loop\<close>
  ct_running :: "message option"
  ct_replies :: "(nat \<times> reply) list" \<comment> \<open>the futures that are done\<close>
  ct_barriers :: "nat list" \<comment> \<open>\<open>context._barriers\<close>\<close>
  ct_barrier_replies :: "(nat \<times> exc) list"
  ct_closing :: bool \<comment> \<open>\<open>context._begin_close\<close> has run\<close>

definition init_controller :: controller where
  "init_controller =
     \<lparr>ct_alive = True, ct_queue = [], ct_sequence = 0, ct_accepting = True, ct_stopped = False,
      ct_failure = None, ct_trace = [], ct_logging = False, ct_log = [], ct_dirty = True, ct_scheduled = 0,
      ct_running = None, ct_replies = [], ct_barriers = [], ct_barrier_replies = [], ct_closing = False\<rparr>"

section \<open>Ingress\<close>

definition enqueue :: "string \<Rightarrow> nat \<Rightarrow> bool \<Rightarrow> (controller, nat) oper" where
  "enqueue operation klass internal s =
     (case (ct_failure s, internal) of
        (Some e, False) \<Rightarrow> (Inl e, s)
      | _ \<Rightarrow>
          (if ct_stopped s \<or> (\<not> ct_accepting s \<and> \<not> internal) then (Inl Closed_Context_Error, s)
           else let n = Suc (ct_sequence s)
                in (Inr n, s\<lparr>ct_sequence := n,
                     ct_queue := ct_queue s @ [\<lparr>ms_sequence = n, ms_klass = klass, ms_operation = operation\<rparr>],
                     ct_scheduled := Suc (ct_scheduled s)\<rparr>)))"

definition submit :: "bool \<Rightarrow> string \<Rightarrow> nat \<Rightarrow> (controller, nat) oper" where
  "submit is_owner operation klass s =
     (if is_owner then (Inl Reentrant_Context_Error, s) else enqueue operation klass False s)"

definition notify :: "string \<Rightarrow> nat \<Rightarrow> bool \<Rightarrow> (controller, unit) oper" where
  "notify operation klass internal s =
     (case enqueue operation klass internal s of
        (Inl e, s') \<Rightarrow> (if e = Closed_Context_Error \<or> e = Controller_Failed_Error then (Inr (), s') else (Inl e, s'))
      | (Inr _, s') \<Rightarrow> (Inr (), s'))"

definition ingress_begin_close :: "(controller, nat) oper" where
  "ingress_begin_close s = enqueue ''_begin_close'' 1 True (s\<lparr>ct_accepting := False\<rparr>)"

text \<open>A future that is done keeps its outcome.\<close>

definition set_reply :: "nat \<Rightarrow> reply \<Rightarrow> controller \<Rightarrow> controller" where
  "set_reply n r s =
     (if map_of (ct_replies s) n \<noteq> None then s else s\<lparr>ct_replies := ct_replies s @ [(n, r)]\<rparr>)"

definition cancel_reply :: "nat \<Rightarrow> controller \<Rightarrow> controller" where
  "cancel_reply n s = (if 1 \<le> n \<and> n \<le> ct_sequence s then set_reply n Cancelled s else s)"

section \<open>Turns\<close>

definition closing_operations :: "string list" where
  "closing_operations =
     [''_begin_close'', ''_finish_close'', ''_mount_close_busy'', ''_mount_close_wait'', ''_mount_close_finish'',
      ''_mount_delivered'', ''_mount_cut'']"

text \<open>
  What happens in the Context during a turn: the operation and its outcome, whether the operation itself
  poisoned the controller, the outcome of \<open>_after_turn\<close> and of publishing the state graph.
\<close>

record turn =
  tn_poison :: bool
  tn_result :: "exc + py_value"
  tn_after :: "exc option"
  tn_publish :: "exc + py_value"

definition poison_controller :: "controller \<Rightarrow> controller" where
  "poison_controller s =
     (if ct_failure s \<noteq> None then s
      else s\<lparr>ct_failure := Some Controller_Failed_Error, ct_accepting := False,
             ct_barrier_replies := ct_barrier_replies s
               @ map (\<lambda>b. (b, Controller_Failed_Error))
                   (filter (\<lambda>b. map_of (ct_barrier_replies s) b = None) (ct_barriers s)),
             ct_barriers := [], ct_closing := True\<rparr>)"

definition trace_turn :: "message \<Rightarrow> controller \<Rightarrow> controller" where
  "trace_turn m s =
     (let tr = ct_trace s @ [(ms_sequence m, ms_klass m, ms_operation m)]
      in s\<lparr>ct_trace := drop (length tr - 1024) tr\<rparr>)"

text \<open>\<open>_drain\<close> up to the end of its critical section; with no Context left, the message is refused.\<close>

definition take_message :: "controller \<Rightarrow> controller" where
  "take_message s =
     (let s0 = s\<lparr>ct_scheduled := ct_scheduled s - 1\<rparr>
      in case ct_queue s of
           [] \<Rightarrow> s0
         | m # ms \<Rightarrow>
             (if \<not> ct_alive s then set_reply (ms_sequence m) (Answer (Inl Closed_Context_Error)) (s0\<lparr>ct_queue := ms\<rparr>)
              else trace_turn m (s0\<lparr>ct_queue := ms, ct_running := Some m\<rparr>)))"

definition turn_refused :: "message \<Rightarrow> controller \<Rightarrow> bool" where
  "turn_refused m s \<longleftrightarrow> ct_failure s \<noteq> None \<and> \<not> List.member closing_operations (ms_operation m)"

definition turn_outcome :: "message \<Rightarrow> turn \<Rightarrow> exc + py_value" where
  "turn_outcome m t =
     res_bind (tn_result t) (\<lambda>v. case tn_after t of
        Some e \<Rightarrow> Inl e
      | None \<Rightarrow> if ms_operation m = ''_state_graph_refresh'' then tn_publish t else Inr v)"

definition finish_turn :: "turn \<Rightarrow> controller \<Rightarrow> controller" where
  "finish_turn t s =
     (case ct_running s of
        None \<Rightarrow> s
      | Some m \<Rightarrow>
          (let s1 = (if turn_refused m s then s else if tn_poison t then poison_controller s else s);
               out = (if turn_refused m s then Inl (the (ct_failure s)) else turn_outcome m t);
               s2 = s1\<lparr>ct_running := None\<rparr>
           in case out of
                Inr v \<Rightarrow>
                  set_reply (ms_sequence m) (Answer (Inr v))
                    (s2\<lparr>ct_dirty := (ms_operation m \<noteq> ''_state_graph_refresh''),
                        ct_log := (if ct_logging s2 then ct_log s2 @ [(ms_sequence m, ms_klass m)] else ct_log s2)\<rparr>)
              | Inl e \<Rightarrow>
                  set_reply (ms_sequence m) (Answer (Inl e))
                    ((if ms_klass m = 5 then poison_controller s2 else s2)\<lparr>ct_dirty := True\<rparr>)))"

definition stop :: "controller \<Rightarrow> controller" where
  "stop s =
     fold (\<lambda>m. set_reply (ms_sequence m) (Answer (Inl Closed_Context_Error))) (ct_queue s)
       (s\<lparr>ct_accepting := False, ct_stopped := True, ct_queue := [], ct_logging := False\<rparr>)"

section \<open>Steps\<close>

inductive ctl_step :: "controller \<Rightarrow> controller \<Rightarrow> bool" where
  Enqueue: "enqueue operation klass internal s = (res, s') \<Longrightarrow> ctl_step s s'"
| Close: "ingress_begin_close s = (res, s') \<Longrightarrow> ctl_step s s'"
| Cancel: "ctl_step s (cancel_reply n s)"
| Collect: "ct_running s = None \<Longrightarrow> ctl_step s (s\<lparr>ct_alive := False\<rparr>)"
| Wait: "ctl_step s (s\<lparr>ct_barriers := bs, ct_logging := l\<rparr>)"
| Take: "ct_running s = None \<Longrightarrow> 0 < ct_scheduled s \<Longrightarrow> ctl_step s (take_message s)"
| Finish: "ctl_step s (finish_turn t s)"
| Stop: "ctl_step s (stop s)"

inductive ctl_reachable :: "controller \<Rightarrow> bool" where
  Start: "ctl_reachable init_controller"
| Step: "ctl_reachable s \<Longrightarrow> ctl_step s s' \<Longrightarrow> ctl_reachable s'"

section \<open>The invariant\<close>

definition running_seq :: "controller \<Rightarrow> nat list" where
  "running_seq s = (case ct_running s of None \<Rightarrow> [] | Some m \<Rightarrow> [ms_sequence m])"

definition queued_seqs :: "controller \<Rightarrow> nat list" where
  "queued_seqs s = map ms_sequence (ct_queue s)"

text \<open>
  Every accepted message is answered, running or queued, and no other number is; the queue is in
  order of acceptance, and messages were run in that order; there is a call of \<open>_drain\<close> for each
  queued message; a stopped or failed controller accepts nothing, and a stopped one has no queue.
\<close>

definition controller_ok :: "controller \<Rightarrow> bool" where
  "controller_ok s \<longleftrightarrow>
     set (keys (ct_replies s)) \<union> set (running_seq s) \<union> set (queued_seqs s) = {1..ct_sequence s}
     \<and> wf_dict (ct_replies s)
     \<and> sorted_wrt (<) (running_seq s @ queued_seqs s)
     \<and> sorted_wrt (<) (map fst (ct_trace s) @ queued_seqs s)
     \<and> set (map fst (ct_trace s)) \<subseteq> {..ct_sequence s} \<and> length (ct_trace s) \<le> 1024
     \<and> length (ct_queue s) \<le> ct_scheduled s
     \<and> (ct_stopped s \<longrightarrow> ct_queue s = [])
     \<and> (ct_stopped s \<or> ct_failure s \<noteq> None \<longrightarrow> \<not> ct_accepting s)
     \<and> (ct_failure s \<noteq> None \<longrightarrow> ct_failure s = Some Controller_Failed_Error \<and> ct_closing s)"

lemma set_reply_same [simp]:
  "ct_queue (set_reply n r s) = ct_queue s" "ct_sequence (set_reply n r s) = ct_sequence s"
  "ct_running (set_reply n r s) = ct_running s" "ct_trace (set_reply n r s) = ct_trace s"
  "ct_scheduled (set_reply n r s) = ct_scheduled s" "ct_stopped (set_reply n r s) = ct_stopped s"
  "ct_accepting (set_reply n r s) = ct_accepting s" "ct_failure (set_reply n r s) = ct_failure s"
  "ct_closing (set_reply n r s) = ct_closing s" "ct_barriers (set_reply n r s) = ct_barriers s"
  by (simp_all add: set_reply_def)

lemma set_reply_keys [simp]: "fst ` set (ct_replies (set_reply n r s)) = insert n (fst ` set (ct_replies s))"
  by (auto simp: set_reply_def in_keys_iff)

lemma set_reply_wf: "wf_dict (ct_replies s) \<Longrightarrow> wf_dict (ct_replies (set_reply n r s))"
  by (auto simp: set_reply_def wf_dict_def map_of_eq_None_iff)

lemma set_reply_get:
  "map_of (ct_replies (set_reply n r s)) k =
    (if map_of (ct_replies s) k \<noteq> None then map_of (ct_replies s) k else if k = n then Some r else None)"
  by (auto simp: set_reply_def map_add_def split: option.splits)

lemma queued_seqs_simps [simp]:
  "queued_seqs (set_reply n r s) = queued_seqs s" "running_seq (set_reply n r s) = running_seq s"
  by (simp_all add: queued_seqs_def running_seq_def)

lemma set_reply_ok:
  assumes "controller_ok s" and "1 \<le> n" and "n \<le> ct_sequence s"
  shows "controller_ok (set_reply n r s)"
  using assms by (auto simp: controller_ok_def set_reply_wf)

lemma poison_same [simp]:
  "ct_queue (poison_controller s) = ct_queue s" "ct_sequence (poison_controller s) = ct_sequence s"
  "ct_running (poison_controller s) = ct_running s" "ct_trace (poison_controller s) = ct_trace s"
  "ct_scheduled (poison_controller s) = ct_scheduled s" "ct_stopped (poison_controller s) = ct_stopped s"
  "ct_replies (poison_controller s) = ct_replies s"
  "queued_seqs (poison_controller s) = queued_seqs s" "running_seq (poison_controller s) = running_seq s"
  by (simp_all add: poison_controller_def queued_seqs_def running_seq_def)

lemma poison_ok: "controller_ok s \<Longrightarrow> controller_ok (poison_controller s)"
  by (auto simp: controller_ok_def) (auto simp: poison_controller_def)

lemma enqueue_cases:
  assumes "enqueue operation klass internal s = (res, s')"
  obtains "s' = s" and "isl res"
    | "\<not> ct_stopped s" and "res = Inr (Suc (ct_sequence s))" and "s' = s\<lparr>ct_sequence := Suc (ct_sequence s),
         ct_queue := ct_queue s @ [\<lparr>ms_sequence = Suc (ct_sequence s), ms_klass = klass, ms_operation = operation\<rparr>],
         ct_scheduled := Suc (ct_scheduled s)\<rparr>"
proof -
  have "s' = s \<and> isl res \<or> \<not> ct_stopped s \<and> res = Inr (Suc (ct_sequence s)) \<and> s' = s\<lparr>ct_sequence := Suc (ct_sequence s),
         ct_queue := ct_queue s @ [\<lparr>ms_sequence = Suc (ct_sequence s), ms_klass = klass, ms_operation = operation\<rparr>],
         ct_scheduled := Suc (ct_scheduled s)\<rparr>"
    using assms unfolding enqueue_def Let_def
    by (cases "ct_failure s"; cases internal) (auto split: if_splits)
  then show thesis using that by blast
qed

lemma enqueue_ok:
  assumes ok: "controller_ok s" and enq: "enqueue operation klass internal s = (res, s')"
  shows "controller_ok s'"
  using enq
proof (cases rule: enqueue_cases)
  case 2
  have seqs: "running_seq s' = running_seq s" "queued_seqs s' = queued_seqs s @ [Suc (ct_sequence s)]"
    by (simp_all add: 2 running_seq_def queued_seqs_def)
  have below: "x < Suc (ct_sequence s)" if "x \<in> set (running_seq s) \<union> set (queued_seqs s)" for x
  proof -
    have "x \<in> {1..ct_sequence s}" using ok that unfolding controller_ok_def by blast
    then show ?thesis by simp
  qed
  have order: "sorted_wrt (<) ((running_seq s @ queued_seqs s) @ [Suc (ct_sequence s)])"
    "sorted_wrt (<) ((map fst (ct_trace s) @ queued_seqs s) @ [Suc (ct_sequence s)])"
    using ok below by (auto simp: controller_ok_def sorted_wrt_append)
  have all: "fst ` set (ct_replies s) \<union> set (running_seq s) \<union> set (queued_seqs s) = {1..ct_sequence s}"
    using ok by (simp add: controller_ok_def)
  have "fst ` set (ct_replies s') \<union> set (running_seq s') \<union> set (queued_seqs s') = {1..ct_sequence s'}"
  proof -
    have "{1..Suc (ct_sequence s)} = insert (Suc (ct_sequence s)) {1..ct_sequence s}" by auto
    then show ?thesis unfolding seqs using all by (simp add: 2(3))
  qed
  moreover have "set (map fst (ct_trace s')) \<subseteq> {..ct_sequence s'}"
    using ok by (auto simp: 2(3) controller_ok_def)
  ultimately show ?thesis
    using ok order 2(1) by (simp add: controller_ok_def seqs) (simp add: 2(3))
qed (use ok in simp)

lemma take_message_ok:
  assumes ok: "controller_ok s" and idle: "ct_running s = None" and sched: "0 < ct_scheduled s"
  shows "controller_ok (take_message s)"
proof (cases "ct_queue s")
  case Nil
  then show ?thesis using ok by (simp add: take_message_def controller_ok_def running_seq_def queued_seqs_def)
next
  case (Cons m ms)
  define s1 where "s1 = s\<lparr>ct_scheduled := ct_scheduled s - 1, ct_queue := ms\<rparr>"
  have r: "running_seq s = []" using idle by (simp add: running_seq_def)
  have q: "queued_seqs s = ms_sequence m # queued_seqs s1" by (simp add: queued_seqs_def Cons s1_def)
  show ?thesis
  proof (cases "ct_alive s")
    case False
    then have "take_message s = set_reply (ms_sequence m) (Answer (Inl Closed_Context_Error)) s1"
      by (simp add: take_message_def Cons s1_def)
    then show ?thesis
      using ok r q idle Cons
      by (auto simp: controller_ok_def s1_def running_seq_def set_reply_wf sorted_wrt_append)
  next
    case True
    define tr where "tr = ct_trace s @ [(ms_sequence m, ms_klass m, ms_operation m)]"
    have t: "take_message s = s1\<lparr>ct_running := Some m, ct_trace := drop (length tr - 1024) tr\<rparr>"
      using True by (simp add: take_message_def Cons s1_def trace_turn_def tr_def Let_def)
    have seqs: "running_seq (take_message s) = [ms_sequence m]" "queued_seqs (take_message s) = queued_seqs s1"
      by (simp_all add: t running_seq_def queued_seqs_def)
    have "sorted_wrt (<) (map fst tr @ queued_seqs s1)"
      using ok q by (simp add: controller_ok_def tr_def)
    then have "sorted_wrt (<) (drop (length tr - 1024) (map fst tr @ queued_seqs s1))" by (rule sorted_wrt_drop)
    then have order: "sorted_wrt (<) (map fst (drop (length tr - 1024) tr) @ queued_seqs s1)"
      by (simp add: drop_map)
    have m: "ms_sequence m \<le> ct_sequence s"
    proof -
      have "ms_sequence m \<in> {1..ct_sequence s}" using ok q unfolding controller_ok_def by fastforce
      then show ?thesis by simp
    qed
    have "set (map fst (drop (length tr - 1024) tr)) \<subseteq> {..ct_sequence s}"
      using ok m by (auto simp: controller_ok_def tr_def dest!: in_set_dropD)
    then show ?thesis
      using ok order r q Cons unfolding controller_ok_def seqs
      by (simp add: t s1_def) auto
  qed
qed

lemma finish_turn_ok:
  assumes ok: "controller_ok s"
  shows "controller_ok (finish_turn t s)"
proof (cases "ct_running s")
  case (Some m)
  have idle: "controller_ok (set_reply (ms_sequence m) r (u\<lparr>ct_running := None, ct_dirty := d, ct_log := l\<rparr>))"
    if u: "controller_ok u" "running_seq u = [ms_sequence m]" for u r d l
  proof -
    let ?u = "u\<lparr>ct_running := None, ct_dirty := d, ct_log := l\<rparr>"
    have s: "running_seq ?u = []" "queued_seqs ?u = queued_seqs u" by (simp_all add: running_seq_def queued_seqs_def)
    show ?thesis
      using u by (auto simp: controller_ok_def s set_reply_wf)
  qed
  have poisoned: "controller_ok (if b then poison_controller s else s)"
    "running_seq (if b then poison_controller s else s) = [ms_sequence m]" for b
    using ok by (simp_all add: poison_ok running_seq_def [of s] Some)
  define s1 where "s1 = (if turn_refused m s then s else if tn_poison t then poison_controller s else s)"
  have s1: "controller_ok s1" "running_seq s1 = [ms_sequence m]"
    unfolding s1_def using poisoned [of True] poisoned [of False]
    by (cases "turn_refused m s"; cases "tn_poison t"; simp)+
  have swap: "poison_controller (u\<lparr>ct_running := None\<rparr>) = (poison_controller u)\<lparr>ct_running := None\<rparr>" for u
    by (simp add: poison_controller_def)
  define out where "out = (if turn_refused m s then Inl (the (ct_failure s)) else turn_outcome m t)"
  show ?thesis
  proof (cases out)
    case (Inr v)
    then show ?thesis
      using idle [OF s1, of "Answer (Inr v)"]
      by (simp add: finish_turn_def Some s1_def [symmetric] out_def [symmetric] Let_def)
  next
    case (Inl e)
    define s2 where "s2 = (if ms_klass m = 5 then poison_controller s1 else s1)"
    have s2: "controller_ok s2" "running_seq s2 = [ms_sequence m]"
      using s1 by (simp_all add: s2_def poison_ok)
    have "finish_turn t s = set_reply (ms_sequence m) (Answer (Inl e)) (s2\<lparr>ct_running := None, ct_dirty := True\<rparr>)"
      unfolding finish_turn_def Some option.case Let_def s1_def [symmetric] out_def [symmetric] Inl sum.case
      by (simp add: s2_def swap)
    moreover have "s2\<lparr>ct_running := None, ct_dirty := True\<rparr> = s2\<lparr>ct_running := None, ct_dirty := True, ct_log := ct_log s2\<rparr>"
      by simp
    ultimately show ?thesis using idle [OF s2] by metis
  qed
qed (use ok in \<open>simp add: finish_turn_def\<close>)

lemma fold_replies:
  "ct_queue (fold (\<lambda>m. set_reply (ms_sequence m) r) ms s) = ct_queue s \<and>
   ct_sequence (fold (\<lambda>m. set_reply (ms_sequence m) r) ms s) = ct_sequence s \<and>
   ct_running (fold (\<lambda>m. set_reply (ms_sequence m) r) ms s) = ct_running s \<and>
   fst ` set (ct_replies (fold (\<lambda>m. set_reply (ms_sequence m) r) ms s)) = fst ` set (ct_replies s) \<union> ms_sequence ` set ms"
  by (induction ms arbitrary: s) auto

lemma fold_replies_ok:
  "controller_ok s \<Longrightarrow> ms_sequence ` set ms \<subseteq> {1..ct_sequence s} \<Longrightarrow>
   controller_ok (fold (\<lambda>m. set_reply (ms_sequence m) r) ms s)"
proof (induction ms arbitrary: s)
  case (Cons m ms)
  then have "controller_ok (set_reply (ms_sequence m) r s)" by (intro set_reply_ok) auto
  from Cons.IH [OF this] Cons.prems(2) show ?case by simp
qed simp

lemma stop_as_replies:
  "stop s = (fold (\<lambda>m. set_reply (ms_sequence m) (Answer (Inl Closed_Context_Error))) (ct_queue s) s)
     \<lparr>ct_accepting := False, ct_stopped := True, ct_queue := [], ct_logging := False\<rparr>"
proof -
  have "fold (\<lambda>m. set_reply (ms_sequence m) r) ms (s\<lparr>ct_accepting := False, ct_stopped := True, ct_queue := [], ct_logging := False\<rparr>)
      = (fold (\<lambda>m. set_reply (ms_sequence m) r) ms s)\<lparr>ct_accepting := False, ct_stopped := True, ct_queue := [], ct_logging := False\<rparr>"
    for ms r
  proof (induction ms arbitrary: s)
    case (Cons m ms)
    have "set_reply n r (s\<lparr>ct_accepting := False, ct_stopped := True, ct_queue := [], ct_logging := False\<rparr>) =
        (set_reply n r s)\<lparr>ct_accepting := False, ct_stopped := True, ct_queue := [], ct_logging := False\<rparr>" for n
      by (simp add: set_reply_def)
    then show ?case using Cons.IH [of "set_reply (ms_sequence m) r s"] by simp
  qed simp
  then show ?thesis by (simp add: stop_def)
qed

lemma stop_ok:
  assumes ok: "controller_ok s"
  shows "controller_ok (stop s)"
proof -
  define u where "u = fold (\<lambda>m. set_reply (ms_sequence m) (Answer (Inl Closed_Context_Error))) (ct_queue s) s"
  have inn: "set (queued_seqs s) \<subseteq> {1..ct_sequence s}" using ok unfolding controller_ok_def by blast
  have u: "controller_ok u" unfolding u_def using inn by (intro fold_replies_ok [OF ok]) (auto simp: queued_seqs_def)
  have same: "ct_queue u = ct_queue s" "set (queued_seqs u) \<subseteq> fst ` set (ct_replies u)"
    using fold_replies [of _ "ct_queue s" s] by (simp_all add: u_def queued_seqs_def)
  let ?v = "u\<lparr>ct_accepting := False, ct_stopped := True, ct_queue := [], ct_logging := False\<rparr>"
  have seqs: "running_seq ?v = running_seq u" "queued_seqs ?v = []" by (simp_all add: running_seq_def queued_seqs_def)
  have "controller_ok ?v"
    using u same(2) unfolding controller_ok_def seqs by (simp add: sorted_wrt_append Un_absorb2) blast
  then show ?thesis by (simp add: stop_as_replies u_def)
qed

lemma ctl_step_ok:
  assumes "ctl_step s s'" and ok: "controller_ok s"
  shows "controller_ok s'"
  using assms(1)
proof cases
  case (Enqueue operation klass internal res)
  then show ?thesis by (rule enqueue_ok [OF ok])
next
  case (Close res)
  have "controller_ok (s\<lparr>ct_accepting := False\<rparr>)"
    using ok by (auto simp: controller_ok_def running_seq_def queued_seqs_def)
  then show ?thesis using Close by (auto simp: ingress_begin_close_def intro: enqueue_ok)
next
  case (Cancel n)
  then show ?thesis using ok set_reply_ok [OF ok] by (simp add: cancel_reply_def)
next
  case Collect
  then show ?thesis using ok by (auto simp: controller_ok_def running_seq_def queued_seqs_def)
next
  case (Wait bs l)
  then show ?thesis using ok by (auto simp: controller_ok_def running_seq_def queued_seqs_def)
qed (use ok in \<open>simp_all add: take_message_ok finish_turn_ok stop_ok\<close>)

lemma init_controller_ok: "controller_ok init_controller"
  by (simp add: controller_ok_def init_controller_def running_seq_def queued_seqs_def)

lemma reachable_ok: "ctl_reachable s \<Longrightarrow> controller_ok s"
  by (induction rule: ctl_reachable.induct) (auto intro: init_controller_ok ctl_step_ok)

section \<open>Answers\<close>

text \<open>An answer is final, and a turn answers its message.\<close>

lemma set_reply_kept:
  "map_of (ct_replies s) n = Some r \<Longrightarrow> map_of (ct_replies (set_reply k q s)) n = Some r"
  by (simp add: set_reply_get)

lemma fold_replies_kept:
  "map_of (ct_replies s) n = Some r \<Longrightarrow> map_of (ct_replies (fold (\<lambda>m. set_reply (ms_sequence m) q) ms s)) n = Some r"
  by (induction ms arbitrary: s) (simp_all add: set_reply_kept)

lemma replies_final:
  assumes "ctl_step s s'" and r: "map_of (ct_replies s) n = Some r"
  shows "map_of (ct_replies s') n = Some r"
  using assms(1)
proof cases
  case (Enqueue operation klass internal res)
  from Enqueue(1) show ?thesis by (cases rule: enqueue_cases) (simp_all add: r)
next
  case (Close res)
  then have "enqueue ''_begin_close'' 1 True (s\<lparr>ct_accepting := False\<rparr>) = (res, s')"
    by (simp add: ingress_begin_close_def)
  then show ?thesis by (cases rule: enqueue_cases) (simp_all add: r)
next
  case (Cancel k)
  then show ?thesis using r by (simp add: cancel_reply_def set_reply_kept)
next
  case Take
  then show ?thesis
    using r by (simp add: take_message_def trace_turn_def Let_def set_reply_get split: list.split)
next
  case (Finish t)
  then show ?thesis
    using r by (auto simp: finish_turn_def Let_def set_reply_get split: option.split sum.split)
next
  case Stop
  then show ?thesis using r by (simp add: stop_as_replies fold_replies_kept)
qed (use r in simp_all)

lemma finish_answers:
  "ct_running s = Some m \<Longrightarrow> map_of (ct_replies (finish_turn t s)) (ms_sequence m) \<noteq> None"
  by (auto simp: finish_turn_def Let_def set_reply_get split: sum.split)

lemma finish_same:
  "ct_queue (finish_turn t s) = ct_queue s" "ct_scheduled (finish_turn t s) = ct_scheduled s"
  "ct_sequence (finish_turn t s) = ct_sequence s" "ct_running (finish_turn t s) = None"
  by (auto simp: finish_turn_def Let_def split: option.split sum.split)

fun drain_all :: "turn list \<Rightarrow> controller \<Rightarrow> controller" where
  "drain_all [] s = s"
| "drain_all (t # ts) s = drain_all ts (finish_turn t (take_message s))"

lemma drain_all_empties:
  "controller_ok s \<Longrightarrow> ct_running s = None \<Longrightarrow> length ts = ct_scheduled s \<Longrightarrow>
   ct_queue (drain_all ts s) = [] \<and> ct_running (drain_all ts s) = None \<and> controller_ok (drain_all ts s)
   \<and> ct_sequence (drain_all ts s) = ct_sequence s"
proof (induction ts arbitrary: s)
  case Nil
  then show ?case by (simp add: controller_ok_def)
next
  case (Cons t ts)
  have "controller_ok (finish_turn t (take_message s))"
    using Cons.prems by (intro finish_turn_ok take_message_ok) simp_all
  moreover have "ct_scheduled (take_message s) = ct_scheduled s - 1" "ct_sequence (take_message s) = ct_sequence s"
    by (simp_all add: take_message_def trace_turn_def Let_def split: list.split)
  ultimately show ?case using Cons.IH [of "finish_turn t (take_message s)"] Cons.prems(3) by (simp add: finish_same)
qed

section \<open>Properties\<close>

text \<open>C0: In every reachable state of the controller each accepted message is answered, running or still
  queued, and nothing else is; messages run in the order in which they were accepted, no message
  runs twice, and there is a call of \<open>_drain\<close> in the loop for each queued message. An answer, once given, is never
  replaced.\<close>

theorem controller_accounts_for_messages:
  assumes "ctl_reachable s"
  shows "set (keys (ct_replies s)) \<union> set (running_seq s) \<union> set (queued_seqs s) = {1..ct_sequence s}
    \<and> sorted_wrt (<) (map fst (ct_trace s) @ queued_seqs s)
    \<and> length (ct_queue s) \<le> ct_scheduled s
    \<and> (\<forall>s'. ctl_step s s' \<longrightarrow> map_of (ct_replies s) \<subseteq>\<^sub>m map_of (ct_replies s'))"
proof -
  have "map_of (ct_replies s) \<subseteq>\<^sub>m map_of (ct_replies s')" if "ctl_step s s'" for s'
    using replies_final [OF that] by (auto simp: map_le_def)
  then show ?thesis using reachable_ok [OF assms] by (simp add: controller_ok_def)
qed

lemma started_reachable: "ctl_reachable (snd (enqueue ''_assign'' 2 False init_controller))"
  by (rule ctl_reachable.Step [OF ctl_reachable.Start]) (rule ctl_step.Enqueue [OF prod.collapse [symmetric]])

theorem controller_accounts_for_messages_witness:
  "queued_seqs (snd (enqueue ''_assign'' 2 False init_controller)) = [1]
   \<and> length (ct_queue (snd (enqueue ''_assign'' 2 False init_controller))) \<le> 1"
proof -
  let ?s = "snd (enqueue ''_assign'' 2 False init_controller)"
  have "queued_seqs ?s = [1]" "ct_scheduled ?s = 1" by code_simp+
  then show ?thesis using controller_accounts_for_messages [OF started_reachable] by simp
qed

text \<open>C0: When the loop of the controller runs the calls it has been given, every message that was accepted
  is answered, whatever its operations do; a call of \<open>stop\<close> answers all but the one that is running.\<close>

theorem controller_answers_everything:
  assumes "ctl_reachable s"
  shows "(ct_running s = None \<and> length ts = ct_scheduled s \<longrightarrow>
      (\<forall>n \<in> {1..ct_sequence s}. map_of (ct_replies (drain_all ts s)) n \<noteq> None))
    \<and> (\<forall>n \<in> {1..ct_sequence s} - set (running_seq s). map_of (ct_replies (stop s)) n \<noteq> None)"
proof (intro conjI impI)
  assume idle: "ct_running s = None \<and> length ts = ct_scheduled s"
  have d: "ct_queue (drain_all ts s) = []" "ct_running (drain_all ts s) = None" "controller_ok (drain_all ts s)"
    "ct_sequence (drain_all ts s) = ct_sequence s"
    using drain_all_empties [OF reachable_ok [OF assms]] idle by blast+
  then have "fst ` set (ct_replies (drain_all ts s)) = {1..ct_sequence s}"
    by (simp add: controller_ok_def running_seq_def queued_seqs_def)
  then show "\<forall>n \<in> {1..ct_sequence s}. map_of (ct_replies (drain_all ts s)) n \<noteq> None"
    by (metis in_keys_iff)
next
  have "controller_ok (stop s)" by (rule stop_ok [OF reachable_ok [OF assms]])
  moreover have "queued_seqs (stop s) = []" "running_seq (stop s) = running_seq s" "ct_sequence (stop s) = ct_sequence s"
    using fold_replies [of _ "ct_queue s" s] by (simp_all add: stop_as_replies queued_seqs_def running_seq_def)
  ultimately have "fst ` set (ct_replies (stop s)) \<union> set (running_seq s) = {1..ct_sequence s}"
    by (simp add: controller_ok_def)
  then show "\<forall>n \<in> {1..ct_sequence s} - set (running_seq s). map_of (ct_replies (stop s)) n \<noteq> None"
    by (metis DiffD1 DiffD2 UnE in_keys_iff)
qed

theorem controller_answers_everything_witness:
  "map_of (ct_replies (drain_all [\<lparr>tn_poison = False, tn_result = Inl Key_Error, tn_after = None, tn_publish = Inr PyNone\<rparr>]
     (snd (enqueue ''_assign'' 2 False init_controller)))) 1 \<noteq> None"
proof -
  let ?s = "snd (enqueue ''_assign'' 2 False init_controller)"
  have "ct_running ?s = None" "ct_scheduled ?s = 1" "ct_sequence ?s = 1" by code_simp+
  with controller_answers_everything [OF started_reachable,
      of "[\<lparr>tn_poison = False, tn_result = Inl Key_Error, tn_after = None, tn_publish = Inr PyNone\<rparr>]"]
  show ?thesis by (simp del: drain_all.simps)
qed

text \<open>C13: A failure of the controller is final. A turn of class 5 that raises poisons it: its own message
  gets the original exception, every barrier the failure, and new messages are refused with it. In a failed
  controller only closing operations run: the turn of any other message has no effect on anything and
  answers with the failure.\<close>

theorem failed_controller_refuses:
  assumes "ctl_reachable s" and "ct_running s = Some m" and "map_of (ct_replies s) (ms_sequence m) = None"
  shows "(ct_failure s = None \<and> ms_klass m = 5 \<and> turn_outcome m t = Inl e \<longrightarrow>
      (let s' = finish_turn t s
       in map_of (ct_replies s') (ms_sequence m) = Some (Answer (Inl e)) \<and> ct_barriers s' = []
          \<and> (\<forall>b \<in> set (ct_barriers s). map_of (ct_barrier_replies s') b \<noteq> None)
          \<and> (\<forall>op k. enqueue op k False s' = (Inl Controller_Failed_Error, s'))))
    \<and> (ct_failure s \<noteq> None \<and> \<not> List.member closing_operations (ms_operation m) \<longrightarrow>
       finish_turn t s = finish_turn t' s
       \<and> map_of (ct_replies (finish_turn t s)) (ms_sequence m) = Some (Answer (Inl Controller_Failed_Error)))"
proof (intro conjI impI)
  assume a: "ct_failure s = None \<and> ms_klass m = 5 \<and> turn_outcome m t = Inl e"
  define s1 where "s1 = (if tn_poison t then poison_controller s else s)"
  define s2 where "s2 = poison_controller (s1\<lparr>ct_running := None\<rparr>)"
  have f: "finish_turn t s = set_reply (ms_sequence m) (Answer (Inl e)) (s2\<lparr>ct_dirty := True\<rparr>)"
    using a assms(2) by (simp add: finish_turn_def turn_refused_def s1_def s2_def Let_def)
  have b: "map_of (ct_barrier_replies (poison_controller u)) x \<noteq> None"
    if "x \<in> set (ct_barriers u)" "ct_failure u = None" for u x
    using that by (cases "map_of (ct_barrier_replies u) x")
      (simp_all add: poison_controller_def map_add_def map_of_map_restrict restrict_map_def)
  have "ct_barrier_replies s2 = ct_barrier_replies (poison_controller s)"
    using a by (simp add: s1_def s2_def poison_controller_def)
  then have "x \<in> set (ct_barriers s) \<Longrightarrow> map_of (ct_barrier_replies s2) x \<noteq> None" for x
    using b [of x s] a by simp
  moreover have "ct_failure s2 = Some Controller_Failed_Error" "ct_barriers s2 = []" "ct_replies s2 = ct_replies s"
    using a by (simp_all add: s1_def s2_def poison_controller_def)
  ultimately show "let s' = finish_turn t s
       in map_of (ct_replies s') (ms_sequence m) = Some (Answer (Inl e)) \<and> ct_barriers s' = []
          \<and> (\<forall>b \<in> set (ct_barriers s). map_of (ct_barrier_replies s') b \<noteq> None)
          \<and> (\<forall>op k. enqueue op k False s' = (Inl Controller_Failed_Error, s'))"
    using assms(3) by (auto simp: f Let_def set_reply_get enqueue_def) (simp add: set_reply_def)
next
  assume a: "ct_failure s \<noteq> None \<and> \<not> List.member closing_operations (ms_operation m)"
  then have "turn_refused m s" by (simp add: turn_refused_def)
  then show "finish_turn t s = finish_turn t' s" by (simp add: finish_turn_def assms(2) Let_def)
  have "ct_failure s = Some Controller_Failed_Error" using a reachable_ok [OF assms(1)] by (simp add: controller_ok_def)
  with \<open>turn_refused m s\<close> show "map_of (ct_replies (finish_turn t s)) (ms_sequence m) = Some (Answer (Inl Controller_Failed_Error))"
    using assms(2,3) by (simp add: finish_turn_def Let_def set_reply_get poison_controller_def)
qed

theorem failed_controller_refuses_witness:
  "map_of (ct_replies (finish_turn \<lparr>tn_poison = False, tn_result = Inl Key_Error, tn_after = None, tn_publish = Inr PyNone\<rparr>
     (take_message (snd (enqueue ''_fact_arrived'' 5 False init_controller))))) 1 = Some (Answer (Inl Key_Error))"
proof -
  let ?q = "snd (enqueue ''_fact_arrived'' 5 False init_controller)"
  let ?t = "\<lparr>tn_poison = False, tn_result = Inl Key_Error, tn_after = None, tn_publish = Inr PyNone\<rparr>"
  have "ctl_reachable ?q"
    by (rule ctl_reachable.Step [OF ctl_reachable.Start]) (rule ctl_step.Enqueue [OF prod.collapse [symmetric]])
  moreover have "ct_running ?q = None" "0 < ct_scheduled ?q" by code_simp+
  ultimately have "ctl_reachable (take_message ?q)" by (blast intro: ctl_reachable.Step ctl_step.Take)
  moreover have "ct_running (take_message ?q) = Some \<lparr>ms_sequence = 1, ms_klass = 5, ms_operation = ''_fact_arrived''\<rparr>"
    "map_of (ct_replies (take_message ?q)) 1 = None" "ct_failure (take_message ?q) = None" by code_simp+
  ultimately show ?thesis
    using failed_controller_refuses [of "take_message ?q" "\<lparr>ms_sequence = 1, ms_klass = 5, ms_operation = ''_fact_arrived''\<rparr>" ?t Key_Error]
    by (simp add: turn_outcome_def Let_def)
qed

end
