(* ===== verification/Run_History.thy ===== *)
theory Run_History
  imports Edit_Nodes
begin

text \<open>
  What the runs of a Context promise across its operations: a current run is keyed by exactly the inputs its
  transformer shows, and a run that has been given up never comes back.
\<close>

section \<open>The key of a run\<close>

text \<open>What the node of a transformer shows of one of its pins.\<close>

definition shown_pin :: "ctx \<Rightarrow> path \<Rightarrow> string \<Rightarrow> pin_state option" where
  "shown_pin s p pin = (case get_node s p of None \<Rightarrow> None | Some nd \<Rightarrow> map_of (nd_pin_states nd) pin)"

definition set_producer :: "ctx \<Rightarrow> path \<Rightarrow> string \<Rightarrow> constant_producer option" where
  "set_producer s p pin = (case get_node s p of None \<Rightarrow> None | Some nd \<Rightarrow> map_of (nd_pin_producers nd) pin)"

definition shows_complete :: "ctx \<Rightarrow> path \<Rightarrow> string \<Rightarrow> checksum \<Rightarrow> bool" where
  "shows_complete s p pin c =
     (case shown_pin s p pin of Some (st, v, _) \<Rightarrow> st = Complete \<and> v = Some c | None \<Rightarrow> False)"

text \<open>A pin without an edge has its value from the producer set on it, canonical and, where need be, converted.\<close>

definition from_producer :: "ext \<Rightarrow> transformer_config \<Rightarrow> ctx \<Rightarrow> path \<Rightarrow> string \<Rightarrow> checksum \<Rightarrow> bool" where
  "from_producer X c s p pin v =
     (case set_producer s p pin of
        None \<Rightarrow> False
      | Some producer \<Rightarrow> cp_celltype producer = pin_celltype c (KStr pin)
          \<longrightarrow> v = x_canonical X (cp_checksum producer) (Some (cp_celltype producer)))"

text \<open>
  The key of the inputs: the code, the checksums of the pins in the order of their names, and the
  token of the configuration.
\<close>

definition keys_inputs ::
  "ext \<Rightarrow> path \<Rightarrow> transformer_config \<Rightarrow> (path \<times> edge) list \<Rightarrow> ctx \<Rightarrow> ctx \<Rightarrow> demand_key \<Rightarrow> bool" where
  "keys_inputs X p c incoming s s' key \<longleftrightarrow>
     (case key of (code, pins, token) \<Rightarrow>
        token = tc_config_token c
        \<and> Some code = (if map_of incoming [KStr ''code''] = None then tc_code_checksum c
                       else map_of (cx_edge_code_states s') p)
        \<and> distinct (map fst pins) \<and> sorted (map fst pins)
        \<and> set (tc_pins c) - set (tc_optional_pins c) \<subseteq> set (map fst pins) \<and> set (map fst pins) \<subseteq> set (tc_pins c)
        \<and> list_all (\<lambda>(pin, v). shows_complete s' p pin v
             \<and> (map_of incoming [KStr pin] = None \<longrightarrow> from_producer X c s p pin v)) pins)"

definition same_view :: "path \<Rightarrow> ctx \<Rightarrow> ctx \<Rightarrow> bool" where
  "same_view p s s' \<longleftrightarrow> cx_edge_code_states s' = cx_edge_code_states s
     \<and> (\<forall>pin. shown_pin s' p pin = shown_pin s p pin \<and> set_producer s' p pin = set_producer s p pin)"

lemma same_view_refl [simp]: "same_view p s s"
  by (simp add: same_view_def)

lemma same_view_trans: "same_view p a b \<Longrightarrow> same_view p b c \<Longrightarrow> same_view p a c"
  by (simp add: same_view_def)

lemma quiet_view: "quiet s s' \<Longrightarrow> same_view p s s'"
proof -
  assume "quiet s s'"
  then have c: "core s' = core s" by (simp add: quiet_def)
  have "cx_edge_code_states (core t) = cx_edge_code_states t" "g_nodes (cx_graph (core t)) = g_nodes (cx_graph t)" for t
    by (simp_all add: core_def)
  then have "cx_edge_code_states s' = cx_edge_code_states s" "g_nodes (cx_graph s') = g_nodes (cx_graph s)"
    using c by metis+
  then show ?thesis by (simp add: same_view_def shown_pin_def set_producer_def get_node_def)
qed

lemma quietly_view: "quietly m \<Longrightarrow> m s = (r, s') \<Longrightarrow> same_view p s s'"
  using quiet_view [of s s' p] by (metis quietly_def snd_conv)

lemma upd_node_view:
  assumes "\<And>nd. nd_pin_states (f nd) = nd_pin_states nd" "\<And>nd. nd_pin_producers (f nd) = nd_pin_producers nd"
  shows "same_view p s (upd_node q f s)"
proof -
  have "get_node (put_node q nd s) p = (if p = q then Some nd else get_node s p)" for nd by (rule get_put_node)
  then show ?thesis
    using assms by (auto simp: same_view_def shown_pin_def set_producer_def upd_node_def put_node_def get_node_def split: option.split)
qed

text \<open>A step that touches, of all that the node shows, at most one pin.\<close>

definition one_pin :: "path \<Rightarrow> string \<Rightarrow> ctx \<Rightarrow> ctx \<Rightarrow> bool" where
  "one_pin p pin s s' \<longleftrightarrow> cx_edge_code_states s' = cx_edge_code_states s
     \<and> (get_node s' p = None) = (get_node s p = None)
     \<and> (\<forall>q. (q \<noteq> pin \<longrightarrow> shown_pin s' p q = shown_pin s p q) \<and> set_producer s' p q = set_producer s p q)"

interpretation one_pin: step_relation "one_pin p pin" for p pin
  by unfold_locales (auto simp: one_pin_def)

lemmas one_pin_trans = one_pin.goes_on

definition pin_op :: "path \<Rightarrow> string \<Rightarrow> (ctx, 'a) oper \<Rightarrow> bool" where
  "pin_op p pin m \<longleftrightarrow> (\<forall>s. one_pin p pin s (snd (m s)))"

named_theorems pin_intros \<open>operations that touch one pin at most\<close>

lemma pin_op_run: "pin_op p pin m \<Longrightarrow> m s = (r, s') \<Longrightarrow> one_pin p pin s s'"
  by (metis pin_op_def snd_conv)

lemma pin_op_basic [pin_intros]: "pin_op p pin (ret x)" "pin_op p pin (raise e)" "pin_op p pin (lift_res r)"
  by (simp_all add: pin_op_def one_pin.stays lift_res_def split: sum.split)

lemma pin_op_modify [pin_intros]: "(\<And>s. one_pin p pin s (f s)) \<Longrightarrow> pin_op p pin (modify f)"
  by (simp add: pin_op_def)

lemma pin_op_bnd [pin_intros]:
  assumes "pin_op p pin m" "\<And>x. pin_op p pin (f x)" shows "pin_op p pin (bnd m f)"
  using assms unfolding pin_op_def by (intro allI one_pin.bnd_keeps) blast+

lemma pin_op_if [pin_intros]: "pin_op p pin m \<Longrightarrow> pin_op p pin n \<Longrightarrow> pin_op p pin (if b then m else n)"
  by simp

lemma pin_op_cases [pin_intros]:
  "(\<And>a b. pin_op p pin (g a b)) \<Longrightarrow> pin_op p pin (case x of (a, b) \<Rightarrow> g a b)"
  "pin_op p pin m \<Longrightarrow> (\<And>a. pin_op p pin (f a)) \<Longrightarrow> pin_op p pin (case y of None \<Rightarrow> m | Some a \<Rightarrow> f a)"
  by (simp_all split: prod.split option.split)

lemma view_one_pin: "same_view p s s' \<Longrightarrow> (get_node s' p = None) = (get_node s p = None) \<Longrightarrow> one_pin p pin s s'"
  by (simp add: same_view_def one_pin_def)

lemma quiet_one_pin: "quiet s s' \<Longrightarrow> one_pin p pin s s'"
proof -
  assume q: "quiet s s'"
  then have "core s' = core s" by (simp add: quiet_def)
  moreover have "g_nodes (cx_graph (core t)) = g_nodes (cx_graph t)" for t by (simp add: core_def)
  ultimately have "get_node s' p = get_node s p" unfolding get_node_def by metis
  then show ?thesis using quiet_view [OF q] view_one_pin by simp
qed

lemma quietly_pin_op: "quietly m \<Longrightarrow> pin_op p pin m"
  unfolding quietly_def pin_op_def using quiet_one_pin by blast

lemmas quiet_pin_ops [pin_intros] = quietly_source_state [THEN quietly_pin_op] quietly_projection [THEN quietly_pin_op]

lemma set_pin_one [pin_intros]: "one_pin p pin s (set_pin_state p pin ps s)"
  by (auto simp: one_pin_def set_pin_state_def upd_node_def shown_pin_def set_producer_def split: option.split)
     (auto simp: put_node_def)

lemma set_pin_shown: "get_node s p \<noteq> None \<Longrightarrow> shown_pin (set_pin_state p pin ps s) p pin = Some ps"
  by (auto simp: set_pin_state_def upd_node_def shown_pin_def split: option.split)

lemma upd_node_one:
  assumes "\<And>nd. nd_pin_states (f nd) = nd_pin_states nd" "\<And>nd. nd_pin_producers (f nd) = nd_pin_producers nd"
  shows "one_pin p pin s (upd_node p f s)"
  using assms by (auto simp: one_pin_def upd_node_def shown_pin_def set_producer_def split: option.split)
     (auto simp: put_node_def)

lemma fresh_error_pin: "one_pin p pin s (snd (fresh_error x s))"
  by (rule quiet_one_pin [OF quiet_fresh_error])

lemma catching_pin [pin_intros]: "(\<And>err. pin_op p pin (h err)) \<Longrightarrow> pin_op p pin (catching x y h)"
  unfolding pin_op_def catching_def
  using fresh_error_pin one_pin_trans by (auto simp: one_pin.stays split: prod.split) (metis snd_conv)

lemma pin_pending_op [pin_intros]: "pin_op p pin (pin_pending p pin ps reason)"
  unfolding pin_pending_def by (intro pin_intros)

lemma pin_failed_op [pin_intros]: "pin_op p pin (pin_failed p pin err)"
  unfolding pin_failed_def by (intro pin_intros)

lemma unwired_pin_op [pin_intros]: "pin_op p pin (unwired_pin p c pin w)"
  unfolding unwired_pin_def by (intro pin_intros)

lemma refused_pin_op [pin_intros]: "pin_op p pin (\<lambda>s. case fresh_error x s of (err, s') \<Rightarrow>
    (Inr (Pin_refused err), set_pin_state p pin (Failed, None, Some err) s'))"
  unfolding pin_op_def using fresh_error_pin set_pin_one one_pin_trans by (auto split: prod.split) (metis snd_conv)

lemma validate_pin_op [pin_intros]: "pin_op p pin (validate_compiled_pin X p c pin t x)"
  unfolding validate_compiled_pin_def by (intro pin_intros)

lemma read_error_op [pin_intros]: "pin_op p pin (check_read_error X p c pin it t x)"
proof -
  have r: "pin_op p pin (if tc_compilation c \<noteq> None then validate_compiled_pin X p c pin t x else ret (Pin_ready x))"
    by (intro pin_intros)
  have u: "one_pin p pin s (upd_node p (\<lambda>nd. nd\<lparr>nd_pin_read_errors := AList.delete pin (nd_pin_read_errors nd)\<rparr>) s)" for s
    by (rule upd_node_one) simp_all
  have "one_pin p pin s (snd (m (upd_node p (\<lambda>nd. nd\<lparr>nd_pin_read_errors := AList.delete pin (nd_pin_read_errors nd)\<rparr>) s)))"
    if "pin_op p pin m" for m :: "(ctx, pin_result) oper" and s
    using one_pin_trans [OF u] that unfolding pin_op_def by blast
  note u = this [OF r]
  show ?thesis
    unfolding pin_op_def check_read_error_def Let_def
    using u r pin_failed_op [of p pin] unfolding pin_op_def by (auto split: option.split)
qed

lemma convert_pin_op [pin_intros]: "pin_op p pin (convert_pin X p c pin w it t x)"
proof -
  have e: "pin_op p pin (\<lambda>s. case fresh_error Value_Error s of (e, s') \<Rightarrow> (Inr (Some e), s'))"
    unfolding pin_op_def using fresh_error_pin by (auto split: prod.split) (metis snd_conv)
  show ?thesis unfolding convert_pin_def Let_def by (intro pin_intros e)
qed

lemma check_value_op [pin_intros]: "pin_op p pin (check_pin_value X p c pin w it x)"
  unfolding check_pin_value_def Let_def by (intro pin_intros)

lemma derive_pin_op: "pin_op p pin (derive_pin X p c incoming pin)"
proof -
  have s: "pin_op p pin (\<lambda>s. if b then m s else bnd (lift_res (k s)) f s)" if "pin_op p pin m" "\<And>x. pin_op p pin (f x)"
    for b m k and f :: "celltype \<Rightarrow> (ctx, pin_result) oper"
  proof -
    have "pin_op p pin (bnd (lift_res (k t)) f)" for t by (intro pin_intros that(2))
    then show ?thesis using that(1) unfolding pin_op_def by auto
  qed
  have n: "pin_op p pin (\<lambda>s. case k s of None \<Rightarrow> m s | Some producer \<Rightarrow> f producer s)"
    if "pin_op p pin m" "\<And>x. pin_op p pin (f x)" for k m and f :: "constant_producer \<Rightarrow> (ctx, pin_result) oper"
    using that unfolding pin_op_def by (auto split: option.split)
  show ?thesis unfolding derive_pin_def by (intro pin_intros s n)
qed

lemma validate_ready: "validate_compiled_pin X p c pin t x s = (Inr (Pin_ready v), s') \<Longrightarrow> v = x \<and> s' = s"
  by (auto simp: validate_compiled_pin_def catching_def pin_failed_def pin_pending_def bnd_def split: option.splits prod.splits if_splits)

lemma read_error_ready:
  "check_read_error X p c pin it t x s = (Inr (Pin_ready v), s') \<Longrightarrow> v = x \<and> shown_pin s' p pin = shown_pin s p pin"
proof -
  assume c: "check_read_error X p c pin it t x s = (Inr (Pin_ready v), s')"
  let ?u = "upd_node p (\<lambda>nd. nd\<lparr>nd_pin_read_errors := AList.delete pin (nd_pin_read_errors nd)\<rparr>) s"
  have "v = x \<and> (s' = s \<or> s' = ?u)"
    using c by (auto simp: check_read_error_def Let_def pin_failed_def pin_pending_def bnd_def dest!: validate_ready
        split: option.splits prod.splits if_splits)
  moreover have "shown_pin ?u p pin = shown_pin s p pin" by (auto simp: shown_pin_def upd_node_def split: option.split)
  ultimately show ?thesis by auto
qed

lemma convert_ready:
  assumes "convert_pin X p c pin w it t x s = (Inr (Pin_ready v), s')" and node: "get_node s p \<noteq> None"
  shows "shows_complete s' p pin v \<and> (it = t \<longrightarrow> v = x)"
proof (cases "it = t")
  case True
  then have "check_read_error X p c pin (Some it) t x (set_pin_state p pin (Complete, Some x, None) s) = (Inr (Pin_ready v), s')"
    using assms(1) by (simp add: convert_pin_def)
  from read_error_ready [OF this] set_pin_shown [OF node] show ?thesis by (simp add: shows_complete_def)
next
  case False
  from assms(1) False obtain state converted err err' s1 s2 where
      proj: "projection X (Some x) [] it t None None (input_fingertip c \<and> w) (\<not> (input_fingertip c \<and> w)) s = (Inr (state, converted, err), s1)"
    and err: "(if tc_compilation c \<noteq> None \<and> err \<noteq> None
          then (\<lambda>s. case fresh_error Value_Error s of (e, s') \<Rightarrow> (Inr (Some e), s')) else ret err) s1 = (Inr err', s2)"
    and rest: "(if state \<noteq> Complete then ret (Pin_pending (unavailable state))
          else case converted of None \<Rightarrow> raise Attribute_Error
          | Some x \<Rightarrow> check_read_error X p c pin (Some it) t x) (set_pin_state p pin (state, converted, err') s2) = (Inr (Pin_ready v), s')"
    unfolding convert_pin_def Let_def by (auto elim!: bnd_Inr_cases)
  have "one_pin p pin s s1" using pin_op_run [OF quiet_pin_ops(2) proj] .
  moreover have "one_pin p pin s1 s2"
    using err fresh_error_pin [of p pin s1 Value_Error] one_pin.stays by (auto split: if_splits prod.splits)
  ultimately have n2: "get_node s2 p \<noteq> None" using node by (simp add: one_pin_def)
  obtain y where y: "state = Complete" "converted = Some y"
      "check_read_error X p c pin (Some it) t y (set_pin_state p pin (state, converted, err') s2) = (Inr (Pin_ready v), s')"
    using rest by (auto split: if_splits option.splits)
  from read_error_ready [OF y(3)] set_pin_shown [OF n2] False y(1,2) show ?thesis by (simp add: shows_complete_def)
qed

lemma check_value_ready:
  assumes "check_pin_value X p c pin w it x s = (Inr (Pin_ready v), s')" and "get_node s p \<noteq> None"
  shows "shows_complete s' p pin v \<and> (it = pin_celltype c (KStr pin) \<longrightarrow> v = x_canonical X x (Some it))"
proof -
  have "convert_pin X p c pin w it (pin_celltype c (KStr pin)) (x_canonical X x (Some it)) s = (Inr (Pin_ready v), s')"
    using assms(1) by (auto simp: check_pin_value_def Let_def catching_def pin_failed_def pin_pending_def bnd_def
        split: option.splits prod.splits if_splits)
  from convert_ready [OF this assms(2)] show ?thesis by blast
qed

lemma derive_pin_ready:
  assumes run: "derive_pin X p c incoming pin s = (Inr (Pin_ready v), s')" and node: "get_node s p \<noteq> None"
  shows "shows_complete s' p pin v \<and> (map_of incoming [KStr pin] = None \<longrightarrow> from_producer X c s p pin v)"
proof (cases "map_of incoming [KStr pin]")
  case None
  from run None obtain producer where producer: "set_producer s p pin = Some producer"
    and "check_pin_value X p c pin False (cp_celltype producer) (cp_checksum producer) s = (Inr (Pin_ready v), s')"
    by (auto simp: derive_pin_def unwired_pin_def bnd_def set_producer_def split: option.splits if_splits)
  from check_value_ready [OF this(2) node] producer show ?thesis by (simp add: from_producer_def)
next
  case (Some e)
  from run Some obtain state cs s1 it x where src: "source_state X e s = (Inr (state, cs), s1)"
    and val: "check_pin_value X p c pin True it x s1 = (Inr (Pin_ready v), s')"
    by (auto simp: derive_pin_def pin_pending_def unwired_pin_def bnd_def lift_res_def split: option.splits if_splits sum.splits prod.splits)
  have "get_node s1 p \<noteq> None" using pin_op_run [OF quiet_pin_ops(1) src] node by (simp add: one_pin_def)
  from check_value_ready [OF val this] Some show ?thesis by simp
qed

lemma derive_pins_ready:
  assumes "derive_pins X p c incoming names pending pins s = (Inr (Inr ([], pins')), s')"
    and "get_node s p \<noteq> None" "distinct names" "distinct (map fst pins)" "set names \<inter> set (map fst pins) = {}"
    and "\<forall>q. set_producer s p q = set_producer s0 p q"
    and "\<forall>(q, v) \<in> set pins. shows_complete s p q v \<and> (map_of incoming [KStr q] = None \<longrightarrow> from_producer X c s0 p q v)"
  shows "distinct (map fst pins') \<and> cx_edge_code_states s' = cx_edge_code_states s
    \<and> (\<forall>(q, v) \<in> set pins'. shows_complete s' p q v \<and> (map_of incoming [KStr q] = None \<longrightarrow> from_producer X c s0 p q v))"
  using assms
proof (induction names arbitrary: pending pins s)
  case (Cons pin names)
  obtain r s1 where d: "derive_pin X p c incoming pin s = (Inr r, s1)"
    using Cons.prems(1) by (auto simp: bnd_def split: sum.splits prod.splits)
  have one: "one_pin p pin s s1" by (rule pin_op_run [OF derive_pin_op d])
  then have s1: "get_node s1 p \<noteq> None" "\<forall>q. set_producer s1 p q = set_producer s0 p q" "cx_edge_code_states s1 = cx_edge_code_states s"
    using Cons.prems(2,6) by (simp_all add: one_pin_def)
  have kept: "\<forall>(q, v) \<in> set pins. shows_complete s1 p q v \<and> (map_of incoming [KStr q] = None \<longrightarrow> from_producer X c s0 p q v)"
  proof (intro ballI, clarify)
    fix q v assume q: "(q, v) \<in> set pins"
    then have "q \<noteq> pin" using Cons.prems(5) by force
    then have "shown_pin s1 p q = shown_pin s p q" using one by (simp add: one_pin_def)
    then show "shows_complete s1 p q v \<and> (map_of incoming [KStr q] = None \<longrightarrow> from_producer X c s0 p q v)"
      using Cons.prems(7) q by (auto simp: shows_complete_def)
  qed
  have names: "distinct names" "set names \<inter> set (map fst pins) = {}" using Cons.prems(3,5) by auto
  show ?case
  proof (cases r)
    case (Pin_ready x)
    have new: "AList.update pin x pins = pins @ [(pin, x)]" proof (rule update_new)
      show "map_of pins pin = None" using Cons.prems(5) by (auto simp: map_of_eq_None_iff)
    qed
    have "shows_complete s1 p pin x \<and> (map_of incoming [KStr pin] = None \<longrightarrow> from_producer X c s0 p pin x)"
      using derive_pin_ready [OF d [unfolded Pin_ready] Cons.prems(2)] Cons.prems(6) by (simp add: from_producer_def)
    then have "\<forall>(q, v) \<in> set (AList.update pin x pins). shows_complete s1 p q v
        \<and> (map_of incoming [KStr q] = None \<longrightarrow> from_producer X c s0 p q v)"
      using kept by (auto simp: new)
    moreover have "distinct (map fst (AList.update pin x pins))" "set names \<inter> set (map fst (AList.update pin x pins)) = {}"
      using Cons.prems(3-5) by (auto simp: new)
    moreover have "derive_pins X p c incoming names pending (AList.update pin x pins) s1 = (Inr (Inr ([], pins')), s')"
      using Cons.prems(1) d Pin_ready by (simp add: bnd_def)
    ultimately show ?thesis using Cons.IH [OF _ s1(1) names(1) _ _ s1(2)] s1(3) by auto
  next
    case Pin_skipped
    then have "derive_pins X p c incoming names pending pins s1 = (Inr (Inr ([], pins')), s')"
      using Cons.prems(1) d by (simp add: bnd_def)
    from Cons.IH [OF this s1(1) names(1) Cons.prems(4) names(2) s1(2) kept] s1(3) show ?thesis by simp
  next
    case (Pin_pending reason)
    then have "derive_pins X p c incoming names (pending @ [(reason, pin)]) pins s1 = (Inr (Inr ([], pins')), s')"
      using Cons.prems(1) d by (simp add: bnd_def)
    from Cons.IH [OF this s1(1) names(1) Cons.prems(4) names(2) s1(2) kept] s1(3) show ?thesis by simp
  next
    case (Pin_refused err)
    then show ?thesis using Cons.prems(1) d by (simp add: bnd_def)
  qed
qed auto

text \<open>The run itself changes nothing that the node shows of its pins.\<close>

lemma runs_only_pin: "runs_only s s' \<Longrightarrow> one_pin p pin s s'"
proof -
  assume r: "runs_only s s'"
  have "cx_graph s' = cx_graph s" "cx_edge_code_states s' = cx_edge_code_states s"
    using r [unfolded runs_only_def, symmetric, THEN arg_cong, of cx_graph]
      r [unfolded runs_only_def, symmetric, THEN arg_cong, of cx_edge_code_states] by simp_all
  then show ?thesis by (simp add: one_pin_def shown_pin_def set_producer_def get_node_def)
qed

lemma run_parts_pin [pin_intros]:
  "one_pin p pin s (suspend q now s)" "one_pin p pin s (release_upstream_holds q keep s)"
  "one_pin p pin s (put_current q r s)" "one_pin p pin s (add_effect e s)" "one_pin p pin s (set_runtime rt s)"
  "one_pin p pin s (put_held q rs s)"
proof -
  have "runs_only s (put_current q r s)" "runs_only s (add_effect e s)" "runs_only s (set_runtime rt s)"
    "runs_only s (put_held q rs s)"
    by (simp_all add: runs_only_def put_current_def add_effect_def set_runtime_def put_held_def)
  then show "one_pin p pin s (suspend q now s)" "one_pin p pin s (release_upstream_holds q keep s)"
    "one_pin p pin s (put_current q r s)" "one_pin p pin s (add_effect e s)" "one_pin p pin s (set_runtime rt s)"
    "one_pin p pin s (put_held q rs s)"
    using runs_only_pin suspend_runs_only release_upstream_runs_only by blast+
qed

lemma set_state_pin [pin_intros]: "one_pin p pin s (set_state p st reason err s)"
  unfolding set_state_def by (rule upd_node_one) simp_all

lemma replace_current_pin [pin_intros]: "pin_op p pin (replace_current_checksum X p c)"
proof -
  have refs: "one_pin p pin s (t\<lparr>cx_refs := f\<rparr>) = one_pin p pin s t" for s t f
    by (simp add: one_pin_def shown_pin_def set_producer_def get_node_def)
  have put: "one_pin p pin s (put_node p (nd\<lparr>nd_current := x\<rparr>) s)" if "get_node s p = Some nd" for s nd x
    using that by (auto simp: one_pin_def shown_pin_def set_producer_def) (simp add: put_node_def)
  show ?thesis
    unfolding pin_op_def replace_current_checksum_run Let_def
    by (auto simp: refs one_pin.stays put split: option.split)
qed

lemma publish_run_pin [pin_intros]: "pin_op p pin (publish_run X p r)"
  unfolding publish_run_def by (intro pin_intros)

lemma pin_op_after: "one_pin p pin s t \<Longrightarrow> pin_op p pin m \<Longrightarrow> one_pin p pin s (snd (m t))"
  unfolding pin_op_def using one_pin_trans by blast

lemma reinstate_pin [pin_intros]: "pin_op p pin (reinstate X p r)"
  unfolding pin_op_def reinstate_def Let_def
  by (intro allI pin_op_after [OF _ publish_run_pin])
     (auto intro!: one_pin_trans [OF _ run_parts_pin(3)] one_pin_trans [OF _ run_parts_pin(4)] run_parts_pin)

lemma start_run_pin [pin_intros]: "pin_op p pin (start_run X p c code pins key)"
proof -
  have r: "pin_op p pin (bnd (modify (put_current p rc)) (\<lambda>_. bnd (replace_current_checksum X p None) (\<lambda>_.
      bnd (modify (set_state p Computing No_reason None)) (\<lambda>_.
      if b then raise Value_Error else modify (add_effect e)))))" for rc b e
    by (intro pin_intros)
  have m: "pin_op p pin (bnd (lift_res k) (\<lambda>scratch. bnd (modify (put_current p (rc scratch))) (\<lambda>_.
      bnd (replace_current_checksum X p None) (\<lambda>_. bnd (modify (set_state p Computing No_reason None)) (\<lambda>_.
      if b then raise Value_Error else modify (add_effect (e scratch)))))))" for k :: "exc + bool" and rc b e
    by (intro pin_intros r)
  show ?thesis
    unfolding pin_op_def start_run_def next_generation_def prod.case
    by (intro allI) (rule pin_op_after [OF run_parts_pin(5) m])
qed

lemma next_run_pin [pin_intros]: "pin_op p pin (next_run X p now c code pins key forced)"
  unfolding pin_op_def next_run_def Let_def
  by (auto split: option.split intro: pin_op_after [OF run_parts_pin(1) reinstate_pin] pin_op_after [OF run_parts_pin(1) start_run_pin])

lemma derive_run_pin: "pin_op p pin (derive_run X p now c code pins)"
proof -
  have m: "pin_op p pin (bnd (lift_res needs) (\<lambda>needs. if needs \<and> b then next_run X p now c code pins key f
      else publish_run X p r))" for needs b key f r
    by (intro pin_intros)
  show ?thesis
    unfolding pin_op_def derive_run_def Let_def
    by (auto split: option.split intro: pin_op_after [OF run_parts_pin(2) m] pin_op_after [OF run_parts_pin(2) next_run_pin])
qed

lemma derive_run_view:
  assumes "derive_run X p now c code pins s = (r, s')"
  shows "same_view p s s'"
proof -
  have one: "one_pin p pin s s'" for pin by (rule pin_op_run [OF derive_run_pin assms])
  have "shown_pin s' p pin = shown_pin s p pin" for pin
    using one [of "''x'' @ pin"] by (simp add: one_pin_def)
  then show ?thesis using one by (simp add: same_view_def one_pin_def)
qed

lemma code_source_keys:
  assumes "code_source X p c incoming s = (Inr (code, []), s1)" and "code = Some cd"
  shows "Some cd = (if map_of incoming [KStr ''code''] = None then tc_code_checksum c else map_of (cx_edge_code_states s1) p)
    \<and> (get_node s1 p = None) = (get_node s p = None) \<and> (\<forall>q. set_producer s1 p q = set_producer s p q)"
proof (cases "map_of incoming [KStr ''code'']")
  case None
  then show ?thesis using assms by (auto simp: code_source_def split: if_splits)
next
  case (Some e)
  from assms Some obtain state s0 where src: "source_state X e s = (Inr (state, code), s0)"
    and s1: "s1 = s0\<lparr>cx_edge_code_states := AList.update p cd (cx_edge_code_states s0)\<rparr>"
    by (auto simp: code_source_def bnd_def split: sum.splits prod.splits if_splits)
  have "one_pin p pin s s0" for pin by (rule pin_op_run [OF quiet_pin_ops(1) src])
  then show ?thesis using Some by (auto simp: s1 one_pin_def set_producer_def get_node_def)
qed



section \<open>Runs that have been given up\<close>

text \<open>What can happen to a Context between two moments: any sequence of its operations, raising or not. A cell is
  built where the path leads to no node, as assigning a builder does.\<close>

inductive history :: "ext \<Rightarrow> ctx \<Rightarrow> ctx \<Rightarrow> bool" for X where
  history_none: "history X s s"
| history_suspend: "history X s t \<Longrightarrow> history X s (suspend p now t)"
| history_release: "history X s t \<Longrightarrow> history X s (release_upstream_holds p keep t)"
| history_update: "history X s t \<Longrightarrow> history X s (update_runtime p now t)"
| history_expire: "history X s t \<Longrightarrow> history X s (snd (expire_run X p h now t))"
| history_prune: "history X s t \<Longrightarrow> history X s (snd (prune X n t))"
| history_derive: "history X s t \<Longrightarrow> history X s (snd (derive_all X now t))"
| history_transformer: "history X s t \<Longrightarrow> history X s (snd (derive_transformer X p now c t))"
| history_started: "history X s t \<Longrightarrow> history X s (snd (transformation_started X now p h tf t))"
| history_finished: "history X s t \<Longrightarrow> history X s (snd (transformation_finished X now p h tf_sum lease err t))"
| history_fact: "history X s t \<Longrightarrow> history X s (snd (accept_fact X now key lease err t))"
| history_cell: "history X s t \<Longrightarrow> history X s (snd (cell_operation X now p local v detach ct t))"
| history_commit: "history X s t \<Longrightarrow> history X s (snd (commit_update X now p local cs base revision detach t))"
| history_code: "history X s t \<Longrightarrow> history X s (snd (set_transformer_code X now p code t))"
| history_pin: "history X s t \<Longrightarrow> history X s (snd (set_transformer_pin X now p pin w ct detach t))"
| history_connect: "history X s t \<Longrightarrow> history X s (snd (add_endpoint_edge X now ep target detach t))"
| history_delete: "history X s t \<Longrightarrow> history X s (snd (delete_path X now p t))"
| history_observed: "history X s t \<Longrightarrow> history X s (mount_observed X now ob t)"
| history_delete_part: "history X s t \<Longrightarrow> history X s (snd (cell_delete_path X now p local t))"
| history_delete_pin: "history X s t \<Longrightarrow> history X s (snd (delete_transformer_pin X now p pin t))"
| history_read_error: "history X s t \<Longrightarrow> history X s (snd (record_pin_read_error X now p pin identity err t))"
| history_create: "history X s t \<Longrightarrow> resolve_existing (cx_graph t) p = None \<Longrightarrow> p \<noteq> []
    \<Longrightarrow> history X s (snd (create_cell_from_builder X now p cell t))"
| history_attach: "history X s t \<Longrightarrow> history X s (snd (mount_attach X now p sp reg ob t))"
| history_detach: "history X s t \<Longrightarrow> history X s (snd (mount_detach X now k derive t))"
| history_clear: "history X s t \<Longrightarrow> history X s (snd (mount_clear_error k t))"
| history_delivered: "history X s t \<Longrightarrow> history X s (mount_delivered X ack now t)"
| history_tick: "history X s t \<Longrightarrow> history X s (mount_tick X now t)"
| history_turn: "history X s t \<Longrightarrow> history X s (snd (mount_after_turn X now t))"

lemma deriving_ledger: "deriving m \<Longrightarrow> ledger_step s (snd (m s))"
  using deriving_run [of m s] by (simp add: derives_def)

lemma editing_ledger: "editing m \<Longrightarrow> ledger_step s (snd (m s))"
  using editing_run [of m s] by (simp add: edits_def)

lemma release_lease_runtime [simp]: "cx_runtime (release_lease lease s) = cx_runtime s"
  by (simp add: release_lease_refs)

lemma finished_ledger: "ledger_step s (snd (transformation_finished X now p g tf_sum lease err s))"
proof (cases "cx_closing s \<or> find_run s p g = None")
  case True
  then show ?thesis by (simp add: transformation_finished_def ledger_step_same)
next
  case False
  have m: "deriving (bnd (sync_superseded_refholds X) (\<lambda>_. derive_all X now))" by (intro derive_intros)
  have assoc: "bnd (sync_superseded_refholds X) (\<lambda>_. bnd (derive_all X now) f) w =
      bnd (bnd (sync_superseded_refholds X) (\<lambda>_. derive_all X now)) f w" for f w
    by (simp add: bnd_def split: sum.split prod.split)
  let ?w = "write_run p g (finish_run tf_sum lease err) s"
  obtain r s1 where d: "bnd (sync_superseded_refholds X) (\<lambda>_. derive_all X now) ?w = (r, s1)" by force
  have "ledger_step ?w s1" using deriving_ledger [OF m, of ?w] d by simp
  then have "ledger_step s s1" by (rule ledger_step_trans [OF finish_run_step])
  moreover have "transformation_finished X now p g tf_sum lease err s = bnd (\<lambda>_. (r, s1)) (\<lambda>_. modify (release_lease lease)) ?w"
    unfolding transformation_finished_def assoc if_not_P [OF False] by (simp add: bnd_def [of _ "\<lambda>_. modify _"] d)
  then have "snd (transformation_finished X now p g tf_sum lease err s) \<in> {s1, release_lease lease s1}"
    by (cases r) (simp_all add: bnd_def)
  ultimately show ?thesis using ledger_step_trans [OF _ ledger_step_same] by fastforce
qed

lemma started_ledger: "ledger_step s (snd (transformation_started X now p g tf s))"
  using ledger_step_trans [OF started_record_step deriving_ledger [OF derive_all_deriving]]
  by (simp add: transformation_started_def ledger_step_same)

lemma fact_ledger: "ledger_step s (snd (accept_fact X now key lease err s))"
proof -
  have "ledger_step s (store_fact key lease err s)" by (simp add: ledger_step_same store_fact_def)
  then show ?thesis
    using ledger_step_trans [OF _ deriving_ledger [OF derive_all_deriving]]
    by (simp add: accept_fact_def ledger_step_same)
qed

lemma edits_ledger: "edits s t \<Longrightarrow> ledger_step s t"
  by (simp add: edits_def)

lemma after_ack_ledger: "ledger_step s (after_ack X k now s)"
  using edits_ledger [OF dispatch_edits] edits_ledger [OF run_effects_edits]
    edits_ledger [OF edits_trans [OF dispatch_edits run_effects_edits]]
  by (simp add: after_ack_def split: option.split)

lemma delivered_ledger: "ledger_step s (mount_delivered X ack now s)"
proof (cases "session_by_id s (ak_session ack)")
  case (Some km)
  obtain k m where km: "km = (k, m)" by (cases km)
  have base: "ledger_step s ((if b then id else release c) (put_session k m' (snd (fresh_error e (mount_event v s)))))" for b c m' e v
    by (rule ledger_step_same) (simp add: put_session_def fresh_error_def mount_event_def release_def decref_def)
  show ?thesis
    using ledger_step_trans [OF base after_ack_ledger]
    by (simp add: mount_delivered_def Some km Let_def ledger_step_same fresh_error_def split: option.split)
qed (simp add: mount_delivered_def ledger_step_same)

lemmas operation_ledgers =
  suspend_step release_upstream_step update_runtime_step expire_step prune_step
  derive_all_deriving [THEN deriving_ledger] derive_transformer_deriving [THEN deriving_ledger]
  started_ledger finished_ledger fact_ledger
  cell_operation_editing [THEN editing_ledger] commit_update_editing [THEN editing_ledger]
  set_transformer_code_editing [THEN editing_ledger] set_transformer_pin_editing [THEN editing_ledger]
  add_endpoint_edge_editing [THEN editing_ledger] delete_path_editing [THEN editing_ledger]
  mount_after_turn_editing [THEN editing_ledger] cell_delete_path_editing [THEN editing_ledger]
  delete_pin_editing [THEN editing_ledger] record_read_error_editing [THEN editing_ledger]
  mount_detach_editing [THEN editing_ledger] clear_error_editing [THEN editing_ledger]
  mount_tick_edits [THEN edits_ledger] delivered_ledger

lemma history_ledger: "history X s t \<Longrightarrow> ledger_step s t"
proof (induction rule: history.induct)
  case (history_observed s t now ob)
  then show ?case using mount_observed_takes [where s = t and X = X and now = now and ob = ob] ledger_step_trans by (auto simp: takes_def)
next
  case (history_attach s t now p sp reg ob)
  then show ?case
    using mount_attach_takes [where s = t and X = X and now = now and p = p and sp = sp and reg = reg and ob = ob] ledger_step_trans
    by (auto simp: takes_def)
next
  case (history_create s t p now cell)
  then show ?case using ledger_step_trans edits_ledger [OF create_from_builder_edits] by blast
qed (rule ledger_step_same, rule refl | rule ledger_step_trans, assumption, rule operation_ledgers)+



end
