(* ===== verification/Share_Server.thy ===== *)
theory Share_Server
  imports Mount_Delivery
begin

text \<open>
  The share server (\<^verbatim>\<open>attachments/share/server.py\<close>): URL reservations, installed checksums with
  their markers, and namespaces that are held for a successor. Each definition is one critical section of the
  server's lock; the coroutines between them only wait.

  Registrations, owners, namespaces and futures are numbered, so that an identity test of the code is an
  equality of numbers. A checksum that the server leases is counted in \<open>sv_claims\<close>.
\<close>

section \<open>State\<close>

text \<open>What is sent over a WebSocket; a snapshot lists route, flags, checksum and marker of each share.\<close>

record share_entry =
  se_url :: string
  se_readonly :: bool
  se_content_type :: string
  se_binary :: bool
  se_checksum :: "checksum option"
  se_marker :: nat

datatype ws_message =
    Ws_handshake
  | Ws_shares "(string \<times> share_entry) list"
  | Ws_update string "checksum option" nat
  | Ws_state_graph string nat

record ws_client =
  wc_initializing :: bool
  wc_pending :: "ws_message list"
  wc_sent :: "ws_message list"
  wc_state_graph_sent :: "string option"
  wc_closed :: bool
  wc_broken :: bool \<comment> \<open>sending raises\<close>

text \<open>A publication of the state graph: marker, digest and body.\<close>

type_synonym publication = "nat \<times> string \<times> string"

record share_reg =
  rg_namespace :: string
  rg_owner :: nat
  rg_spec :: share_spec
  rg_celltype :: string
  rg_session :: string
  rg_route :: string
  rg_content_type :: string
  rg_binary :: bool
  rg_staged :: bool
  rg_replaces :: "nat list"
  rg_active :: bool
  rg_closed :: bool
  rg_checksum :: "checksum option"
  rg_marker :: nat
  rg_fingerprint :: "nat option"
  rg_ws :: int
  rg_lease :: "checksum option"
  rg_pending_puts :: "nat list" \<comment> \<open>acceptance fences\<close>
  rg_held :: bool
  rg_reattaching :: bool
  rg_hold_until :: "real option"
  rg_reattach_future :: "nat option"
  rg_reattached_from :: "nat option"
  rg_flags_changed :: bool
  rg_sink :: bool
  rg_state_graph :: "nat option"

record share_space =
  ns_id :: nat
  ns_owner :: nat
  ns_records :: "(string \<times> nat) list"
  ns_clients :: "nat list"
  ns_staged_claim :: bool
  ns_state_graph :: "nat option"
  ns_publication :: "publication option"
  ns_owner_active :: bool
  ns_closing :: bool
  ns_hold_until :: "real option"
  ns_hold_task :: bool

record server =
  sv_regs :: "(nat \<times> share_reg) list"
  sv_namespaces :: "(string \<times> share_space) list"
  sv_top :: "(string \<times> nat) list"
  sv_records :: "((string \<times> string) \<times> nat) list"
  sv_staged :: "nat list"
  sv_floors :: "(string \<times> nat) list"
  sv_fingerprints :: nat
  sv_closed :: bool
  sv_claims :: "checksum \<Rightarrow> nat"
  sv_borrowed :: "(nat \<times> checksum option) list" \<comment> \<open>claims of requests under way\<close>
  sv_futures :: "(nat \<times> nat option) list" \<comment> \<open>the futures that are done\<close>
  sv_clients :: "(nat \<times> ws_client) list"
  sv_next :: nat

definition init_server :: server where
  "init_server =
     \<lparr>sv_regs = [], sv_namespaces = [], sv_top = [], sv_records = [], sv_staged = [], sv_floors = [],
      sv_fingerprints = 0, sv_closed = False, sv_claims = (\<lambda>_. 0), sv_borrowed = [], sv_futures = [], sv_clients = [], sv_next = 0\<rparr>"

text \<open>What the imported packages decide.\<close>

record share_ext =
  hx_guess :: "string \<Rightarrow> string option"
  hx_null :: checksum
  hx_canon :: "string \<Rightarrow> string \<Rightarrow> exc + checksum" \<comment> \<open>the checksum of a canonical body\<close>
  hx_value :: "checksum \<Rightarrow> exc + string" \<comment> \<open>resolution of a checksum\<close>
  hx_max_body :: nat
  hx_hold :: real

definition get_reg :: "server \<Rightarrow> nat \<Rightarrow> share_reg option" where
  "get_reg s r = map_of (sv_regs s) r"

definition upd_reg :: "nat \<Rightarrow> (share_reg \<Rightarrow> share_reg) \<Rightarrow> server \<Rightarrow> server" where
  "upd_reg r f s = s\<lparr>sv_regs := map (\<lambda>(k, x). (k, if k = r then f x else x)) (sv_regs s)\<rparr>"

definition upd_ns :: "string \<Rightarrow> (share_space \<Rightarrow> share_space) \<Rightarrow> server \<Rightarrow> server" where
  "upd_ns n f s = s\<lparr>sv_namespaces := map (\<lambda>(k, x). (k, if k = n then f x else x)) (sv_namespaces s)\<rparr>"

definition share_floor :: "server \<Rightarrow> string \<Rightarrow> nat" where
  "share_floor s route = (case map_of (sv_floors s) route of Some m \<Rightarrow> m | None \<Rightarrow> 0)"

definition give_claim :: "checksum option \<Rightarrow> server \<Rightarrow> server" where
  "give_claim cs s = (case cs of None \<Rightarrow> s | Some c \<Rightarrow> s\<lparr>sv_claims := (sv_claims s)(c := sv_claims s c - 1)\<rparr>)"

definition take_claim :: "checksum option \<Rightarrow> server \<Rightarrow> server" where
  "take_claim cs s = (case cs of None \<Rightarrow> s | Some c \<Rightarrow> s\<lparr>sv_claims := (sv_claims s)(c := Suc (sv_claims s c))\<rparr>)"

definition lease_for :: "share_ext \<Rightarrow> checksum option \<Rightarrow> checksum option" where
  "lease_for X cs = (case cs of None \<Rightarrow> None | Some c \<Rightarrow> if c = hx_null X then None else Some c)"

section \<open>Routes\<close>

text \<open>\<open>urllib.parse.quote\<close> with the unreserved characters as safe, on ASCII.\<close>

definition hex_upper :: "nat \<Rightarrow> char" where
  "hex_upper n = char_of (if n < 10 then 48 + n else 55 + n)"

definition quote_char :: "char \<Rightarrow> string" where
  "quote_char c =
     (if is_alnum c \<or> List.member [CHR ''-'', CHR ''.'', CHR ''_'', CHR ''~''] c then [c]
      else [CHR ''%'', hex_upper (of_char c div 16), hex_upper (of_char c mod 16)])"

definition quote :: "string \<Rightarrow> string" where
  "quote s = concat (map quote_char s)"

definition join_slash :: "string list \<Rightarrow> string" where
  "join_slash ps = concat (map (\<lambda>p. CHR ''/'' # quote p) ps)"

definition server_segment :: "string \<Rightarrow> bool" where
  "server_segment s \<longleftrightarrow> safe_segment s \<and> \<not> List.member [''.'', ''..''] s"

definition route_for :: "string \<Rightarrow> share_spec \<Rightarrow> exc + string" where
  "route_for namespace spec =
     (let parts = split_slash (ss_path spec)
      in if ss_path spec = [] \<or> hd (ss_path spec) = CHR ''/'' then Inl Value_Error
         else if \<not> list_all server_segment parts then Inl Value_Error
         else if ss_toplevel spec
         then (if length parts \<noteq> 1 then Inl Value_Error
               else if List.member [''openapi.json'', ''seamless-client.js''] (hd parts) then Inl Value_Error
               else Inr (join_slash parts))
         else if length parts = 1 \<and> hd parts = ''state-graph'' then Inl Value_Error
         else Inr (join_slash (namespace # parts)))"

section \<open>Reservations\<close>

definition can_take_over :: "real \<Rightarrow> share_space option \<Rightarrow> nat option \<Rightarrow> bool" where
  "can_take_over now ns owner =
     (case (ns, owner) of
        (Some n, Some w) \<Rightarrow> ns_owner n \<noteq> w \<and> \<not> ns_owner_active n
          \<and> (case ns_hold_until n of Some t \<Rightarrow> now < t | None \<Rightarrow> False)
      | _ \<Rightarrow> False)"

definition held_reg :: "server \<Rightarrow> nat \<Rightarrow> bool" where
  "held_reg s r = (case get_reg s r of Some x \<Rightarrow> rg_held x | None \<Rightarrow> False)"

text \<open>\<open>_check_reservation_conflicts_locked\<close>: every conflict is a \<open>ValueError\<close>.\<close>

definition reservation_conflicts ::
  "real \<Rightarrow> server \<Rightarrow> string \<Rightarrow> share_spec \<Rightarrow> string \<Rightarrow> nat option \<Rightarrow> nat list \<Rightarrow> nat list \<Rightarrow> bool" where
  "reservation_conflicts now s namespace spec route owner replaces ignored =
     (let path = ss_path spec; is_top = ss_toplevel spec;
          ns = map_of (sv_namespaces s) namespace;
          takeover = can_take_over now ns owner;
          owns = (case ns of Some n \<Rightarrow> owner = Some (ns_owner n) | None \<Rightarrow> False);
          other = (\<lambda>r. \<not> List.member replaces r);
          staged = List.map_filter (\<lambda>r. if List.member ignored r \<or> List.member replaces r then None else get_reg s r) (sv_staged s);
          first = takeWhile (\<lambda>c. c \<noteq> CHR ''/'') path; rest = drop (Suc (length first)) path
      in (ns \<noteq> None \<and> (owner = None \<or> (\<not> owns \<and> \<not> takeover)))
         \<or> (case map_of (sv_top s) namespace of Some r \<Rightarrow> other r | None \<Rightarrow> False)
         \<or> (case ns of
              None \<Rightarrow> False
            | Some n \<Rightarrow> (case map_of (ns_records n) path of
                 Some r \<Rightarrow> other r \<and> \<not> (held_reg s r \<and> (takeover \<or> owns)) | None \<Rightarrow> False))
         \<or> list_ex (\<lambda>x. ss_toplevel (rg_spec x) \<and> ss_path (rg_spec x) = namespace) staged
         \<or> (if is_top
            then (case map_of (sv_top s) path of
                    Some r \<Rightarrow> other r \<and> \<not> (held_reg s r \<and> map_option rg_namespace (get_reg s r) = Some namespace \<and> (takeover \<or> owns))
                  | None \<Rightarrow> False)
                 \<or> first = namespace \<or> map_of (sv_namespaces s) first \<noteq> None
                 \<or> (rest \<noteq> [] \<and> (case map_of (sv_records s) (first, rest) of Some r \<Rightarrow> other r | None \<Rightarrow> False))
            else (case map_of (sv_records s) (namespace, path) of
                    Some r \<Rightarrow> other r \<and> \<not> (held_reg s r \<and> (takeover \<or> owns)) | None \<Rightarrow> False)
                 \<or> (case map_of (sv_top s) (namespace @ ''/'' @ path) of
                      Some r \<Rightarrow> other r \<and> \<not> (held_reg s r \<and> map_option rg_route (get_reg s r) = Some route \<and> (takeover \<or> owns))
                    | None \<Rightarrow> False))
         \<or> list_ex (\<lambda>x. rg_route x = route \<or> (rg_namespace x = namespace \<and> ss_path (rg_spec x) = path)
                \<or> (is_top \<and> rg_namespace x = path)) staged)"

definition main_slot :: "server \<Rightarrow> string \<Rightarrow> share_spec \<Rightarrow> nat option" where
  "main_slot s namespace spec =
     (if ss_toplevel spec then map_of (sv_top s) (ss_path spec) else map_of (sv_records s) (namespace, ss_path spec))"

definition key_slot :: "server \<Rightarrow> string \<Rightarrow> share_spec \<Rightarrow> nat option" where
  "key_slot s namespace spec =
     (case map_of (sv_namespaces s) namespace of Some n \<Rightarrow> map_of (ns_records n) (ss_path spec) | None \<Rightarrow> None)"

definition fits_held :: "server \<Rightarrow> string \<Rightarrow> nat option \<Rightarrow> bool" where
  "fits_held s route q =
     (case q of None \<Rightarrow> False
      | Some r \<Rightarrow> (case get_reg s r of Some x \<Rightarrow> rg_held x \<and> rg_route x = route | None \<Rightarrow> False))"

definition held_registration_for :: "server \<Rightarrow> string \<Rightarrow> share_spec \<Rightarrow> string \<Rightarrow> nat option" where
  "held_registration_for s namespace spec route =
     (if fits_held s route (key_slot s namespace spec) then key_slot s namespace spec
      else if fits_held s route (main_slot s namespace spec) then main_slot s namespace spec
      else None)"

text \<open>The new registration takes the value, the marker and the lease of the one that was held.\<close>

definition adopt_held :: "nat \<Rightarrow> nat \<Rightarrow> server \<Rightarrow> server" where
  "adopt_held r held s =
     (case get_reg s held of
        None \<Rightarrow> s
      | Some h \<Rightarrow>
          upd_reg held (\<lambda>x. x\<lparr>rg_lease := None\<rparr>)
            (upd_reg r (\<lambda>x. x\<lparr>rg_checksum := rg_checksum h, rg_marker := max (rg_marker x) (rg_marker h),
               rg_lease := rg_lease h, rg_held := True, rg_reattaching := True, rg_reattached_from := Some held,
               rg_flags_changed := (ss_readonly (rg_spec x) \<noteq> ss_readonly (rg_spec h)
                 \<or> rg_content_type x \<noteq> rg_content_type h \<or> rg_binary x \<noteq> rg_binary h)\<rparr>) s))"

definition drop_if :: "'k \<Rightarrow> nat \<Rightarrow> ('k \<times> nat) list \<Rightarrow> ('k \<times> nat) list" where
  "drop_if k r d = (if map_of d k = Some r then AList.delete k d else d)"

definition drop_share_lease :: "nat \<Rightarrow> server \<Rightarrow> server" where
  "drop_share_lease r s =
     (case get_reg s r of
        None \<Rightarrow> s
      | Some x \<Rightarrow> give_claim (rg_lease x) (upd_reg r (\<lambda>x. x\<lparr>rg_lease := None\<rparr>) s))"

definition remove_registration :: "nat \<Rightarrow> server \<Rightarrow> server" where
  "remove_registration r s =
     (case get_reg s r of
        None \<Rightarrow> s
      | Some x \<Rightarrow>
          (if rg_closed x then s
           else
             (let path = ss_path (rg_spec x); name = rg_namespace x;
                  s1 = upd_reg r (\<lambda>x. x\<lparr>rg_closed := True, rg_active := False\<rparr>) s;
                  s2 = s1\<lparr>sv_staged := removeAll r (sv_staged s1)\<rparr>;
                  s3 = (if ss_toplevel (rg_spec x) then s2\<lparr>sv_top := drop_if path r (sv_top s2)\<rparr>
                        else s2\<lparr>sv_records := drop_if (name, path) r (sv_records s2)\<rparr>);
                  s4 = upd_ns name (\<lambda>n. n\<lparr>ns_records := drop_if path r (ns_records n)\<rparr>) s3;
                  s5 = s4\<lparr>sv_floors := AList.update (rg_route x) (max (share_floor s4 (rg_route x)) (rg_marker x)) (sv_floors s4)\<rparr>;
                  s6 = drop_share_lease r s5
              in case map_of (sv_namespaces s6) name of
                   Some n \<Rightarrow>
                     (if rg_staged x \<and> ns_staged_claim n \<and> ns_records n = []
                         \<and> \<not> list_ex (\<lambda>q. map_option rg_namespace (get_reg s6 q) = Some name) (sv_staged s6)
                      then s6\<lparr>sv_namespaces := AList.delete name (sv_namespaces s6)\<rparr> else s6)
                 | None \<Rightarrow> s6)))"

definition take_over :: "real \<Rightarrow> string \<Rightarrow> nat \<Rightarrow> server \<Rightarrow> server" where
  "take_over now namespace owner s =
     (if can_take_over now (map_of (sv_namespaces s) namespace) (Some owner)
      then upd_ns namespace (\<lambda>n. n\<lparr>ns_owner := owner, ns_owner_active := True, ns_closing := False, ns_hold_until := None\<rparr>) s
      else s)"

definition install :: "nat \<Rightarrow> string \<Rightarrow> share_spec \<Rightarrow> server \<Rightarrow> server" where
  "install r namespace spec s =
     upd_ns namespace (\<lambda>n. n\<lparr>ns_records := AList.update (ss_path spec) r (ns_records n)\<rparr>)
       (if ss_toplevel spec then s\<lparr>sv_top := AList.update (ss_path spec) r (sv_top s)\<rparr>
        else s\<lparr>sv_records := AList.update (namespace, ss_path spec) r (sv_records s)\<rparr>)"

definition offer_state_graph :: "string \<Rightarrow> nat option \<Rightarrow> server \<Rightarrow> server" where
  "offer_state_graph namespace g s =
     (if g = None then s else upd_ns namespace (\<lambda>n. n\<lparr>ns_state_graph := g\<rparr>) s)"

record reservation =
  rq_namespace :: string
  rq_spec :: share_spec
  rq_celltype :: string
  rq_session :: string
  rq_owner :: "nat option"
  rq_replaces :: "nat list"
  rq_staged :: bool
  rq_state_graph :: "nat option"

definition new_registration :: "server \<Rightarrow> reservation \<Rightarrow> nat \<Rightarrow> string \<Rightarrow> string \<Rightarrow> share_reg" where
  "new_registration s q owner route ct =
     \<lparr>rg_namespace = rq_namespace q, rg_owner = owner, rg_spec = rq_spec q, rg_celltype = rq_celltype q,
      rg_session = rq_session q, rg_route = route, rg_content_type = ct, rg_binary = is_binary ct,
      rg_staged = rq_staged q, rg_replaces = rq_replaces q, rg_active = False, rg_closed = False,
      rg_checksum = None, rg_marker = share_floor s route, rg_fingerprint = None, rg_ws = 0, rg_lease = None,
      rg_pending_puts = [], rg_held = False, rg_reattaching = False, rg_hold_until = None,
      rg_reattach_future = None, rg_reattached_from = None, rg_flags_changed = False, rg_sink = True,
      rg_state_graph = rq_state_graph q\<rparr>"

definition open_namespace :: "string \<Rightarrow> nat option \<Rightarrow> bool \<Rightarrow> server \<Rightarrow> server" where
  "open_namespace name owner staged s =
     (if map_of (sv_namespaces s) name \<noteq> None then s
      else s\<lparr>sv_namespaces := AList.update name
               \<lparr>ns_id = Suc (sv_next s), ns_owner = (case owner of Some w \<Rightarrow> w | None \<Rightarrow> sv_next s), ns_records = [], ns_clients = [],
                ns_staged_claim = staged, ns_state_graph = None, ns_publication = None, ns_owner_active = True,
                ns_closing = False, ns_hold_until = None, ns_hold_task = False\<rparr> (sv_namespaces s),
             sv_next := Suc (Suc (sv_next s))\<rparr>)"

definition publish_reservation :: "real \<Rightarrow> reservation \<Rightarrow> nat \<Rightarrow> string \<Rightarrow> nat \<Rightarrow> server \<Rightarrow> server" where
  "publish_reservation now q owner route r s =
     (let s1 = (case held_registration_for s (rq_namespace q) (rq_spec q) route of
                  Some held \<Rightarrow> remove_registration held (adopt_held r held s) | None \<Rightarrow> s)
      in install r (rq_namespace q) (rq_spec q)
           (offer_state_graph (rq_namespace q) (rq_state_graph q) (take_over now (rq_namespace q) owner s1)))"

definition reserve :: "share_ext \<Rightarrow> real \<Rightarrow> reservation \<Rightarrow> (server, nat) oper" where
  "reserve X now q s =
     (if \<not> server_segment (rq_namespace q) then (Inl Value_Error, s)
      else if List.member [''openapi.json'', ''seamless-client.js''] (rq_namespace q) then (Inl Value_Error, s)
      else if sv_closed s then (Inl Runtime_Error, s)
      else case res_bind (route_for (rq_namespace q) (rq_spec q)) (\<lambda>route.
             res_bind (content_type (hx_guess X) (rq_celltype q) (ss_path (rq_spec q)) (ss_mimetype (rq_spec q)))
               (\<lambda>ct. Inr (route, ct))) of
        Inl e \<Rightarrow> (Inl e, s)
      | Inr (route, ct) \<Rightarrow>
          (if reservation_conflicts now s (rq_namespace q) (rq_spec q) route (rq_owner q) (rq_replaces q) []
           then (Inl Value_Error, s)
           else
             (let s1 = open_namespace (rq_namespace q) (rq_owner q) (rq_staged q) s;
                  owner = (case rq_owner q of Some w \<Rightarrow> w
                           | None \<Rightarrow> (case map_of (sv_namespaces s1) (rq_namespace q) of Some n \<Rightarrow> ns_owner n | None \<Rightarrow> 0));
                  r = sv_next s1;
                  s2 = s1\<lparr>sv_regs := sv_regs s1 @ [(r, new_registration s1 q owner route ct)], sv_next := Suc r\<rparr>
              in (Inr r, if rq_staged q then s2\<lparr>sv_staged := sv_staged s2 @ [r]\<rparr>
                         else publish_reservation now q owner route r s2))))"

text \<open>
  \<^verbatim>\<open>commit_reservations\<close>: every check runs before the first change. What the new
  registrations replace is collected and removed last.
\<close>

definition staged_conflict :: "real \<Rightarrow> nat list \<Rightarrow> server \<Rightarrow> nat \<Rightarrow> exc option" where
  "staged_conflict now rs s r =
     (case get_reg s r of
        None \<Rightarrow> Some Runtime_Error
      | Some x \<Rightarrow>
          (if rg_closed x \<or> \<not> rg_staged x then Some Runtime_Error
           else if \<not> List.member (sv_staged s) r then Some Runtime_Error
           else if reservation_conflicts now s (rg_namespace x) (rg_spec x) (rg_route x) (Some (rg_owner x)) (rg_replaces x) rs
           then Some Value_Error
           else None))"

definition collides :: "share_reg \<Rightarrow> share_reg \<Rightarrow> bool" where
  "collides x y \<longleftrightarrow>
     rg_route x = rg_route y
     \<or> (rg_namespace x = rg_namespace y \<and> ss_path (rg_spec x) = ss_path (rg_spec y))
     \<or> (ss_toplevel (rg_spec x) \<and> ss_path (rg_spec x) = rg_namespace y)
     \<or> (ss_toplevel (rg_spec y) \<and> ss_path (rg_spec y) = rg_namespace x)"

fun batch_collides :: "share_reg list \<Rightarrow> bool" where
  "batch_collides [] \<longleftrightarrow> False"
| "batch_collides (x # xs) \<longleftrightarrow> list_ex (collides x) xs \<or> batch_collides xs"

definition find_error :: "('a \<Rightarrow> exc option) \<Rightarrow> 'a list \<Rightarrow> exc option" where
  "find_error f xs = (case List.map_filter f xs of [] \<Rightarrow> None | e # _ \<Rightarrow> Some e)"

definition old_marker :: "server \<Rightarrow> nat option \<Rightarrow> nat" where
  "old_marker s q = (case q of None \<Rightarrow> 0 | Some r \<Rightarrow> (case get_reg s r of Some x \<Rightarrow> rg_marker x | None \<Rightarrow> 0))"

definition listed :: "'a option \<Rightarrow> 'a list" where
  "listed q = (case q of None \<Rightarrow> [] | Some r \<Rightarrow> [r])"

fun commit_takeovers :: "real \<Rightarrow> share_reg list \<Rightarrow> (server, unit) oper" where
  "commit_takeovers now [] s = (Inr (), s)"
| "commit_takeovers now (x # xs) s =
     (if map_of (sv_namespaces s) (rg_namespace x) = None then (Inl Key_Error, s)
      else commit_takeovers now xs (take_over now (rg_namespace x) (rg_owner x) s))"

definition publish_staged :: "nat \<Rightarrow> server \<Rightarrow> nat list \<times> server" where
  "publish_staged r s =
     (case get_reg s r of
        None \<Rightarrow> ([], s)
      | Some x \<Rightarrow>
          (let name = rg_namespace x; spec = rg_spec x;
               same = key_slot s name spec; current = main_slot s name spec;
               held = held_registration_for s name spec (rg_route x);
               s1 = (case held of Some h \<Rightarrow> adopt_held r h s | None \<Rightarrow> s);
               m = max (max (old_marker s1 same) (old_marker s1 current)) (share_floor s1 (rg_route x));
               s2 = install r name spec
                      (upd_reg r (\<lambda>x. x\<lparr>rg_marker := max (rg_marker x) m, rg_staged := False\<rparr>) s1);
               s3 = upd_ns name (\<lambda>n. n\<lparr>ns_staged_claim := False\<rparr>) (s2\<lparr>sv_staged := removeAll r (sv_staged s2)\<rparr>)
           in (listed held @ listed same @ listed current, offer_state_graph name (rg_state_graph x) s3)))"

fun publish_batch :: "nat list \<Rightarrow> server \<Rightarrow> nat list \<times> server" where
  "publish_batch [] s = ([], s)"
| "publish_batch (r # rs) s =
     (let (old, s1) = publish_staged r s; (olds, s2) = publish_batch rs s1 in (old @ olds, s2))"

definition commit_reservations :: "real \<Rightarrow> nat list \<Rightarrow> (server, unit) oper" where
  "commit_reservations now rs s =
     (if rs = [] then (Inr (), s)
      else if sv_closed s then (Inl Runtime_Error, s)
      else case find_error (staged_conflict now rs s) rs of
        Some e \<Rightarrow> (Inl e, s)
      | None \<Rightarrow>
          (let xs = List.map_filter (get_reg s) rs
           in if batch_collides xs then (Inl Value_Error, s)
              else case commit_takeovers now xs s of
                (Inl e, s1) \<Rightarrow> (Inl e, s1)
              | (Inr _, s1) \<Rightarrow>
                  (let (olds, s2) = publish_batch rs s1
                   in (Inr (), fold remove_registration olds s2))))"

end
