(* ===== verification/Share_Service.thy ===== *)
theory Share_Service
  imports Share_Server
begin

text \<open>
  What a share server does for its registrations and its visitors
  (\<^verbatim>\<open>attachments/share/server.py\<close>): broadcasts, activation, deliveries, requests, and the
  holding and closing of namespaces.
\<close>

section \<open>WebSocket clients\<close>

definition visible_reg :: "share_reg \<Rightarrow> bool" where
  "visible_reg x \<longleftrightarrow> \<not> rg_closed x \<and> (rg_active x \<or> rg_held x \<or> rg_reattaching x)"

definition share_entry_of :: "share_reg \<Rightarrow> share_entry" where
  "share_entry_of x =
     \<lparr>se_url = rg_route x, se_readonly = ss_readonly (rg_spec x), se_content_type = rg_content_type x,
      se_binary = rg_binary x, se_checksum = rg_checksum x, se_marker = rg_marker x\<rparr>"

definition share_snapshot :: "server \<Rightarrow> share_space \<Rightarrow> (string \<times> share_entry) list" where
  "share_snapshot s n =
     List.map_filter (\<lambda>(key, r). case get_reg s r of
         Some x \<Rightarrow> if visible_reg x then Some (key, share_entry_of x) else None | None \<Rightarrow> None) (ns_records n)"

definition get_client :: "server \<Rightarrow> nat \<Rightarrow> ws_client option" where
  "get_client s c = map_of (sv_clients s) c"

definition upd_client :: "nat \<Rightarrow> (ws_client \<Rightarrow> ws_client) \<Rightarrow> server \<Rightarrow> server" where
  "upd_client c f s = s\<lparr>sv_clients := map (\<lambda>(k, x). (k, if k = c then f x else x)) (sv_clients s)\<rparr>"

definition drop_client :: "string \<Rightarrow> nat \<Rightarrow> server \<Rightarrow> server" where
  "drop_client name c s = upd_ns name (\<lambda>n. n\<lparr>ns_clients := removeAll c (ns_clients n)\<rparr>) s"

text \<open>A client whose connection fails is dropped.\<close>

definition queue_or_send :: "string \<Rightarrow> ws_message \<Rightarrow> nat \<Rightarrow> server \<Rightarrow> server" where
  "queue_or_send name msg c s =
     (case get_client s c of
        None \<Rightarrow> s
      | Some w \<Rightarrow>
          (if wc_initializing w then upd_client c (\<lambda>w. w\<lparr>wc_pending := wc_pending w @ [msg]\<rparr>) s
           else if wc_closed w then s
           else if wc_broken w then drop_client name c s
           else upd_client c (\<lambda>w. w\<lparr>wc_sent := wc_sent w @ [msg]\<rparr>) s))"

definition broadcast :: "string \<Rightarrow> ws_message \<Rightarrow> server \<Rightarrow> server" where
  "broadcast name msg s =
     (case map_of (sv_namespaces s) name of
        None \<Rightarrow> s | Some n \<Rightarrow> fold (queue_or_send name msg) (ns_clients n) s)"

definition broadcast_shares :: "string \<Rightarrow> server \<Rightarrow> server" where
  "broadcast_shares name s =
     (case map_of (sv_namespaces s) name of
        None \<Rightarrow> s | Some n \<Rightarrow> broadcast name (Ws_shares (share_snapshot s n)) s)"

definition broadcast_update :: "nat \<Rightarrow> server \<Rightarrow> server" where
  "broadcast_update r s =
     (case get_reg s r of
        None \<Rightarrow> s
      | Some x \<Rightarrow> broadcast (rg_namespace x) (Ws_update (ss_path (rg_spec x)) (rg_checksum x) (rg_marker x)) s)"

text \<open>
  A connection: admitted while it still initialises, greeted with the snapshot, then the
  messages that came meanwhile.
\<close>

definition ws_connect :: "string \<Rightarrow> nat \<Rightarrow> bool \<Rightarrow> server \<Rightarrow> nat option \<times> server" where
  "ws_connect name nsid broken s =
     (case map_of (sv_namespaces s) name of
        None \<Rightarrow> (None, s)
      | Some n \<Rightarrow>
          (if ns_id n \<noteq> nsid then (None, s)
           else (let c = sv_next s
                 in (Some c,
                     upd_ns name (\<lambda>n. n\<lparr>ns_clients := ns_clients n @ [c]\<rparr>)
                       (s\<lparr>sv_clients := sv_clients s @ [(c, \<lparr>wc_initializing = True, wc_pending = [], wc_sent = [],
                            wc_state_graph_sent = None, wc_closed = False, wc_broken = broken\<rparr>)], sv_next := Suc c\<rparr>)))))"

definition ws_greet :: "share_space \<Rightarrow> nat \<Rightarrow> server \<Rightarrow> server" where
  "ws_greet n c s =
     upd_client c (\<lambda>w. w\<lparr>wc_sent := wc_sent w @ [Ws_handshake, Ws_shares (share_snapshot s n)], wc_initializing := False\<rparr>) s"

definition ws_flush :: "nat \<Rightarrow> server \<Rightarrow> server" where
  "ws_flush c s =
     upd_client c (\<lambda>w. w\<lparr>wc_sent := (if wc_closed w then wc_sent w else wc_sent w @ wc_pending w), wc_pending := []\<rparr>) s"

section \<open>Futures\<close>

definition future_done :: "server \<Rightarrow> nat \<Rightarrow> bool" where
  "future_done s f \<longleftrightarrow> map_of (sv_futures s) f \<noteq> None"

definition resolve_future :: "nat option \<Rightarrow> nat option \<Rightarrow> server \<Rightarrow> server" where
  "resolve_future q v s =
     (case q of None \<Rightarrow> s
      | Some f \<Rightarrow> if future_done s f then s else s\<lparr>sv_futures := (f, v) # sv_futures s\<rparr>)"

definition ensure_future :: "nat \<Rightarrow> server \<Rightarrow> server" where
  "ensure_future r s =
     (case get_reg s r of
        None \<Rightarrow> s
      | Some x \<Rightarrow>
          (if (case rg_reattach_future x of None \<Rightarrow> True | Some f \<Rightarrow> future_done s f)
           then (upd_reg r (\<lambda>x. x\<lparr>rg_reattach_future := Some (sv_next s)\<rparr>) s)\<lparr>sv_next := Suc (sv_next s)\<rparr>
           else s))"

section \<open>Activation\<close>

definition activate_reg :: "nat \<Rightarrow> (server, nat option) oper" where
  "activate_reg r s =
     (case get_reg s r of
        None \<Rightarrow> (Inl Runtime_Error, s)
      | Some x \<Rightarrow>
          (if rg_closed x then (Inl Runtime_Error, s)
           else (let s1 = upd_reg r (\<lambda>x. x\<lparr>rg_active := True\<rparr>) s
                 in (Inr (rg_reattached_from x),
                     if rg_reattached_from x = None then broadcast_shares (rg_namespace x) s1 else s1))))"

definition complete_reattach :: "nat \<Rightarrow> server \<Rightarrow> server" where
  "complete_reattach r s =
     (case get_reg s r of
        None \<Rightarrow> s
      | Some x \<Rightarrow>
          (case rg_reattached_from x of
             None \<Rightarrow> s
           | Some h \<Rightarrow>
               (if rg_closed x then s
                else
                  (let s1 = upd_reg r (\<lambda>x. x\<lparr>rg_held := False, rg_reattaching := False, rg_hold_until := None,
                                           rg_reattached_from := None, rg_flags_changed := False\<rparr>) s;
                       s2 = resolve_future (Option.bind (get_reg s h) rg_reattach_future) (Some r) s1
                   in if rg_flags_changed x then broadcast_shares (rg_namespace x) s2 else s2))))"

section \<open>Deliveries\<close>

record share_ack =
  sk_session :: string
  sk_seq :: nat
  sk_ws :: int
  sk_outcome :: ack_outcome
  sk_checksum :: "checksum option"
  sk_fingerprint :: "nat option"

definition share_ack_of :: "ack_outcome \<Rightarrow> delivery \<Rightarrow> share_reg \<Rightarrow> share_ack" where
  "share_ack_of out d x =
     \<lparr>sk_session = rg_session x, sk_seq = dl_seq d, sk_ws = rg_ws x, sk_outcome = out,
      sk_checksum = rg_checksum x, sk_fingerprint = rg_fingerprint x\<rparr>"

text \<open>A fingerprint as the session of the Context sees it.\<close>

definition fp_token :: "nat option \<Rightarrow> string option" where
  "fp_token f = map_option nat_str f"

text \<open>
  Installing a checksum takes its claim before the one of the old checksum is given back, and
  moves the marker; the same checksum again only moves the fingerprint.
\<close>

definition install_value :: "share_ext \<Rightarrow> nat \<Rightarrow> checksum \<Rightarrow> server \<Rightarrow> server" where
  "install_value X r c s =
     (case get_reg s r of
        None \<Rightarrow> s
      | Some x \<Rightarrow>
          (if rg_checksum x = Some c then s
           else
             (let lease = lease_for X (Some c); m = Suc (rg_marker x);
                  s1 = upd_reg r (\<lambda>x. x\<lparr>rg_lease := lease, rg_checksum := Some c, rg_marker := Suc (rg_marker x)\<rparr>) (take_claim lease s)
              in give_claim (rg_lease x) (s1\<lparr>sv_floors := AList.update (rg_route x) m (sv_floors s1)\<rparr>))))"

definition touch_reg :: "nat \<Rightarrow> server \<Rightarrow> server" where
  "touch_reg r s =
     (let f = Suc (sv_fingerprints s)
      in upd_reg r (\<lambda>x. x\<lparr>rg_ws := rg_ws x + 1, rg_fingerprint := Some f\<rparr>) (s\<lparr>sv_fingerprints := f\<rparr>))"

definition share_deliver :: "share_ext \<Rightarrow> nat \<Rightarrow> delivery \<Rightarrow> server \<Rightarrow> share_ack option \<times> server" where
  "share_deliver X r d s =
     (case get_reg s r of
        None \<Rightarrow> (None, s)
      | Some x \<Rightarrow>
          (if rg_closed x \<or> \<not> rg_active x then (Some (share_ack_of Ack_error d x), s)
           else if dl_fingerprint d \<noteq> fp_token (rg_fingerprint x) then (Some (share_ack_of Ack_conflict d x), s)
           else
             (let s1 = touch_reg r (install_value X r (dl_checksum d) s)
              in (map_option (share_ack_of Ack_written d) (get_reg s1 r),
                  if rg_checksum x = Some (dl_checksum d) then s1 else broadcast_update r s1))))"

definition request_cut :: "nat \<Rightarrow> server \<Rightarrow> nat list + (string \<times> int) option" where
  "request_cut r s =
     (case get_reg s r of
        None \<Rightarrow> Inr None
      | Some x \<Rightarrow>
          (if rg_closed x then Inr None
           else if rg_pending_puts x \<noteq> [] then Inl (rg_pending_puts x)
           else Inr (Some (rg_session x, rg_ws x))))"

section \<open>Answers\<close>

record answer =
  an_status :: nat
  an_etag :: "string option"
  an_marker :: "nat option"
  an_content_type :: "string option"
  an_body :: "string option"
  an_location :: "string option"
  an_allow :: "string list"
  an_current :: "(checksum option \<times> nat) option" \<comment> \<open>the checksum and marker of a JSON reply\<close>

definition plain_answer :: "nat \<Rightarrow> answer" where
  "plain_answer status =
     \<lparr>an_status = status, an_etag = None, an_marker = None, an_content_type = None, an_body = None,
      an_location = None, an_allow = [], an_current = None\<rparr>"

definition allow_answer :: "string list \<Rightarrow> answer" where
  "allow_answer methods = (plain_answer 405)\<lparr>an_allow := methods\<rparr>"

definition record_answer :: "nat \<Rightarrow> share_reg \<Rightarrow> checksum \<Rightarrow> answer" where
  "record_answer status x c =
     (plain_answer status)\<lparr>an_etag := Some c, an_marker := Some (rg_marker x), an_content_type := Some (rg_content_type x)\<rparr>"

record request =
  rt_method :: string
  rt_path :: string
  rt_websocket :: bool
  rt_mode :: "string option"
  rt_marker :: "string option"
  rt_if_none_match :: "string option"
  rt_body :: "exc + string" \<comment> \<open>reading the body can fail with an entity that is too large\<close>

section \<open>Routing\<close>

datatype target =
    To_answer answer
  | To_openapi
  | To_client_script
  | To_index "string option"
  | To_registration nat
  | To_websocket string
  | To_state_graph string

definition not_found :: answer where
  "not_found = plain_answer 404"

definition visible_at :: "server \<Rightarrow> nat \<Rightarrow> bool" where
  "visible_at s r = (case get_reg s r of Some x \<Rightarrow> visible_reg x | None \<Rightarrow> False)"

definition lookup_url :: "server \<Rightarrow> request \<Rightarrow> string \<Rightarrow> target" where
  "lookup_url s q path =
     (case map_of (sv_top s) path of
        Some r \<Rightarrow> if visible_at s r then To_registration r else To_answer not_found
      | None \<Rightarrow>
          (case split_slash path of
             [n] \<Rightarrow>
               (if map_of (sv_namespaces s) n \<noteq> None \<and> rt_method q = ''GET'' \<and> rt_websocket q
                then To_websocket n else To_answer not_found)
           | n # _ \<Rightarrow>
               (let key = drop (Suc (length n)) path
                in if key = ''state-graph''
                   then (if map_of (sv_namespaces s) n = None then To_answer not_found else To_state_graph n)
                   else case map_of (sv_records s) (n, key) of
                          Some r \<Rightarrow> if visible_at s r then To_registration r else To_answer not_found
                        | None \<Rightarrow> To_answer not_found)
           | [] \<Rightarrow> To_answer not_found))"

definition route_request :: "server \<Rightarrow> request \<Rightarrow> target" where
  "route_request s q =
     (let raw = dropWhile (\<lambda>c. c = CHR ''/'') (rt_path q); m = rt_method q
      in if m = ''OPTIONS'' then To_answer (plain_answer 204)
         else if \<not> List.member [''GET'', ''HEAD'', ''PUT''] m
         then To_answer (allow_answer [''GET'', ''HEAD'', ''PUT'', ''OPTIONS''])
         else if raw = ''openapi.json''
         then (if m \<noteq> ''GET'' then To_answer (allow_answer [''GET'', ''OPTIONS'']) else To_openapi)
         else if raw = ''seamless-client.js''
         then (if \<not> List.member [''GET'', ''HEAD''] m then To_answer (allow_answer [''GET'', ''HEAD'', ''OPTIONS'']) else To_client_script)
         else if raw = [] then To_index None
         else
           (let slash = last raw = CHR ''/''; path = (if slash then butlast raw else raw); parts = split_slash path
            in if path = [] \<or> List.member parts [] then To_answer not_found
               else if slash then (case parts of [n] \<Rightarrow> To_index (Some n) | _ \<Rightarrow> To_answer not_found)
               else lookup_url s q path))"

definition redirect_index :: "server \<Rightarrow> string option \<Rightarrow> answer" where
  "redirect_index s namespace =
     (let slot = (case namespace of None \<Rightarrow> map_of (sv_top s) ''index.html''
                  | Some n \<Rightarrow> map_of (sv_records s) (n, ''index.html''));
          url = (case namespace of None \<Rightarrow> ''/index.html'' | Some n \<Rightarrow> ''/'' @ quote n @ ''/index.html'')
      in case slot of
           Some r \<Rightarrow> if visible_at s r then (plain_answer 302)\<lparr>an_location := Some url\<rparr> else not_found
         | None \<Rightarrow> not_found)"

section \<open>Reading a value\<close>

fun split_comma :: "string \<Rightarrow> string list" where
  "split_comma [] = [[]]"
| "split_comma (c # cs) =
     (if c = CHR '','' then [] # split_comma cs
      else case split_comma cs of [] \<Rightarrow> [[c]] | p # ps \<Rightarrow> (c # p) # ps)"

definition quoted :: "string \<Rightarrow> string" where
  "quoted c = [CHR 0x22] @ c @ [CHR 0x22]"

definition none_match :: "string option \<Rightarrow> string \<Rightarrow> bool" where
  "none_match inm tag =
     (case inm of None \<Rightarrow> False
      | Some v \<Rightarrow> v \<noteq> [] \<and> (strip v = ''*'' \<or> List.member (map strip (split_comma v)) (quoted tag)))"

text \<open>
  \<open>Inl\<close> is an answer; \<open>Inr\<close> a value to resolve, whose claim is borrowed until the worker is done.
\<close>

definition borrow :: "checksum option \<Rightarrow> server \<Rightarrow> nat \<times> server" where
  "borrow cs s =
     (sv_next s, (take_claim cs s)\<lparr>sv_borrowed := (sv_next s, cs) # sv_borrowed s, sv_next := Suc (sv_next s)\<rparr>)"

definition give_back :: "nat \<Rightarrow> server \<Rightarrow> server" where
  "give_back b s =
     (case map_of (sv_borrowed s) b of
        None \<Rightarrow> s
      | Some cs \<Rightarrow> give_claim cs (s\<lparr>sv_borrowed := AList.delete b (sv_borrowed s)\<rparr>))"

definition serve_get :: "share_ext \<Rightarrow> request \<Rightarrow> nat \<Rightarrow> server \<Rightarrow> (answer + (nat \<times> checksum \<times> answer)) \<times> server" where
  "serve_get X q r s =
     (let mode = rt_mode q; head = rt_method q = ''HEAD''
      in if mode \<noteq> None \<and> mode \<noteq> Some ''value'' \<and> mode \<noteq> Some ''checksum'' then (Inl (plain_answer 400), s)
         else case get_reg s r of
           None \<Rightarrow> (Inl not_found, s)
         | Some x \<Rightarrow>
             (case rg_checksum x of
                None \<Rightarrow> (Inl not_found, s)
              | Some c \<Rightarrow>
                  (let typed = (\<lambda>a. if mode = Some ''checksum'' then a\<lparr>an_content_type := Some ''text/plain; charset=utf-8''\<rparr> else a)
                   in if none_match (rt_if_none_match q) c then (Inl (typed (record_answer 304 x c)), s)
                      else if mode = Some ''checksum''
                      then (Inl (typed ((record_answer 200 x c)\<lparr>an_body := (if head then None else Some c)\<rparr>)), s)
                      else if c = hx_null X then (Inl (record_answer 204 x c), s)
                      else if head then (Inl (record_answer 200 x c), s)
                      else (case borrow (lease_for X (Some c)) s of
                              (b, s1) \<Rightarrow> (Inr (b, c, record_answer 200 x c), s1)))))"

definition serve_value :: "share_ext \<Rightarrow> checksum \<Rightarrow> answer \<Rightarrow> answer" where
  "serve_value X c a =
     (case hx_value X c of
        Inl _ \<Rightarrow> a\<lparr>an_status := 503, an_content_type := None\<rparr>
      | Inr body \<Rightarrow> a\<lparr>an_body := Some body\<rparr>)"

section \<open>Writing a value\<close>

definition is_digit :: "char \<Rightarrow> bool" where
  "is_digit c \<longleftrightarrow> (48 :: nat) \<le> of_char c \<and> (of_char c :: nat) \<le> 57"

text \<open>A marker argument must be the canonical decimal of a natural number.\<close>

definition parse_marker :: "string \<Rightarrow> nat option" where
  "parse_marker v =
     (let n = digits_value (rev v) in if list_all is_digit v \<and> nat_str n = v then Some n else None)"

datatype put_gate =
    Put_wait nat
  | Put_answer answer
  | Put_value checksum "nat option"

definition must_wait :: "server \<Rightarrow> share_reg \<Rightarrow> bool" where
  "must_wait s x \<longleftrightarrow> rg_held x \<or> rg_reattaching x
     \<or> (case map_of (sv_namespaces s) (rg_namespace x) of Some n \<Rightarrow> ns_closing n | None \<Rightarrow> False)"

definition put_body :: "share_ext \<Rightarrow> request \<Rightarrow> share_reg \<Rightarrow> put_gate" where
  "put_body X q x =
     (if ss_readonly (rg_spec x) then Put_answer (allow_answer [''GET'', ''HEAD''])
      else if rt_mode q \<noteq> None \<and> rt_mode q \<noteq> Some ''value'' then Put_answer (plain_answer 400)
      else case (case rt_marker q of None \<Rightarrow> Some None | Some v \<Rightarrow> map_option Some (parse_marker v)) of
        None \<Rightarrow> Put_answer (plain_answer 400)
      | Some expected \<Rightarrow>
          (case rt_body q of
             Inl _ \<Rightarrow> Put_answer (plain_answer 413)
           | Inr body \<Rightarrow>
               (if length body > hx_max_body X then Put_answer (plain_answer 413)
                else case hx_canon X body (rg_celltype x) of
                  Inl _ \<Rightarrow> Put_answer (plain_answer 422)
                | Inr c \<Rightarrow> Put_value c expected)))"

text \<open>A share that waits for its successor makes the request wait for the re-attach future.\<close>

definition put_begin :: "share_ext \<Rightarrow> request \<Rightarrow> nat \<Rightarrow> server \<Rightarrow> put_gate \<times> server" where
  "put_begin X q r s =
     (case get_reg s r of
        None \<Rightarrow> (Put_answer not_found, s)
      | Some x \<Rightarrow>
          (if must_wait s x
           then (case rg_reattach_future x of
                   Some f \<Rightarrow> (Put_wait f, s)
                 | None \<Rightarrow> (Put_wait (sv_next s),
                     (upd_reg r (\<lambda>x. x\<lparr>rg_reattach_future := Some (sv_next s)\<rparr>) s)\<lparr>sv_next := Suc (sv_next s)\<rparr>))
           else (put_body X q x, s)))"

definition put_resume :: "server \<Rightarrow> nat \<Rightarrow> nat + answer" where
  "put_resume s f =
     (case map_of (sv_futures s) f of
        None \<Rightarrow> Inr (plain_answer 503)
      | Some None \<Rightarrow> Inr not_found
      | Some (Some r) \<Rightarrow> Inl r)"

text \<open>
  The critical section of a PUT: the marker the client saw must still be the marker. What is
  accepted becomes an observation for the session, with a claim of its own.
\<close>

definition put_accept ::
  "share_ext \<Rightarrow> nat \<Rightarrow> checksum \<Rightarrow> nat option \<Rightarrow> server \<Rightarrow> (answer + (nat \<times> observation \<times> answer)) \<times> server" where
  "put_accept X r c expected s =
     (case get_reg s r of
        None \<Rightarrow> (Inl not_found, s)
      | Some x \<Rightarrow>
          (if rg_closed x \<or> \<not> rg_active x then (Inl not_found, s)
           else if expected \<noteq> None \<and> expected \<noteq> Some (rg_marker x)
           then (Inl ((plain_answer 409)\<lparr>an_current := Some (rg_checksum x, rg_marker x)\<rparr>), s)
           else
             (let s1 = touch_reg r (install_value X r c s)
              in case borrow (lease_for X (Some c)) s1 of
                   (fence, s2) \<Rightarrow>
                     (let s3 = upd_reg r (\<lambda>x. x\<lparr>rg_pending_puts := rg_pending_puts x @ [fence]\<rparr>) s2
                      in case get_reg s3 r of
                           None \<Rightarrow> (Inl not_found, s3)
                         | Some y \<Rightarrow>
                             (Inr (fence,
                                \<lparr>ob_session = rg_session y, ob_ws = rg_ws y, ob_fingerprint = fp_token (rg_fingerprint y),
                                 ob_checksum = c, ob_leases = listed (lease_for X (Some c)), ob_no_value = False,
                                 ob_canonical_write = False\<rparr>,
                                (plain_answer 200)\<lparr>an_current := Some (Some c, rg_marker y)\<rparr>),
                              if rg_checksum x \<noteq> Some c then broadcast_update r s3 else s3)))))"

definition put_reply_done :: "nat \<Rightarrow> nat \<Rightarrow> server \<Rightarrow> server" where
  "put_reply_done r fence s =
     upd_reg r (\<lambda>x. x\<lparr>rg_pending_puts := removeAll fence (rg_pending_puts x)\<rparr>) (give_back fence s)"

section \<open>The state graph of a namespace\<close>

text \<open>A new digest gets the next marker, the digest already published keeps its marker.\<close>

definition normalized :: "publication option \<Rightarrow> publication \<Rightarrow> publication" where
  "normalized previous new =
     (case (previous, new) of
        (None, _) \<Rightarrow> new
      | (Some (m, d, _), (_, digest, body)) \<Rightarrow> if d = digest then (m, digest, body) else (Suc m, digest, body))"

definition normalize_publication :: "string \<Rightarrow> nat \<Rightarrow> publication \<Rightarrow> server \<Rightarrow> publication \<times> server" where
  "normalize_publication name nsid new s =
     (case map_of (sv_namespaces s) name of
        None \<Rightarrow> (new, s)
      | Some n \<Rightarrow>
          (if ns_id n \<noteq> nsid then (new, s)
           else (let p = normalized (ns_publication n) new in (p, upd_ns name (\<lambda>n. n\<lparr>ns_publication := Some p\<rparr>) s))))"

definition space_closing :: "share_space \<Rightarrow> bool" where
  "space_closing n \<longleftrightarrow> ns_closing n \<or> \<not> ns_owner_active n \<or> ns_hold_until n \<noteq> None"

text \<open>\<open>answered\<close> is what the provider answers, when there is a provider; \<open>Inl\<close> is a failure.\<close>

definition serve_state_graph ::
  "request \<Rightarrow> string \<Rightarrow> share_space \<Rightarrow> exc + publication option \<Rightarrow> server \<Rightarrow> answer \<times> server" where
  "serve_state_graph q name n answered s =
     (if rt_method q = ''PUT'' then (allow_answer [''GET'', ''HEAD'', ''OPTIONS''], s)
      else
        (let result = (if ns_state_graph n = None then Inr None else answered);
             fresh = (case result of Inl _ \<Rightarrow> None | Inr p \<Rightarrow> p)
         in if (case result of Inl _ \<Rightarrow> \<not> space_closing n | Inr _ \<Rightarrow> False) then (plain_answer 503, s)
            else
              (let (published, s1) = (case fresh of
                      Some p \<Rightarrow> (case normalize_publication name (ns_id n) p s of (p', s') \<Rightarrow> (Some p', s'))
                    | None \<Rightarrow> (if space_closing n then ns_publication n else None, s))
               in case published of
                    None \<Rightarrow> (not_found, s1)
                  | Some (m, digest, body) \<Rightarrow>
                      (let a = (plain_answer 200)\<lparr>an_etag := Some digest, an_marker := Some m,
                                  an_content_type := Some ''application/json; charset=utf-8''\<rparr>
                       in (if none_match (rt_if_none_match q) digest then a\<lparr>an_status := 304\<rparr>
                           else if rt_method q = ''HEAD'' then a\<lparr>an_body := Some []\<rparr>
                           else a\<lparr>an_body := Some body\<rparr>, s1)))))"

definition announce_graph :: "string \<Rightarrow> string \<Rightarrow> nat \<Rightarrow> nat \<Rightarrow> server \<Rightarrow> server" where
  "announce_graph name digest m c s =
     (case get_client s c of
        None \<Rightarrow> s
      | Some w \<Rightarrow>
          (if wc_initializing w \<or> wc_closed w \<or> wc_state_graph_sent w = Some digest then s
           else queue_or_send name (Ws_state_graph digest m) c
                  (upd_client c (\<lambda>w. w\<lparr>wc_state_graph_sent := Some digest\<rparr>) s)))"

definition state_graph_tick :: "string \<Rightarrow> share_space \<Rightarrow> publication option \<Rightarrow> server \<Rightarrow> server" where
  "state_graph_tick name n fresh s =
     (if ns_clients n = [] then s
      else
        (let provided = ns_state_graph n \<noteq> None;
             (published, s1) = (case (if provided then fresh else None) of
                 Some p \<Rightarrow> (case normalize_publication name (ns_id n) p s of (p', s') \<Rightarrow> (Some p', s'))
               | None \<Rightarrow> (if provided \<and> \<not> space_closing n then None else ns_publication n, s))
         in case published of
              None \<Rightarrow> s1
            | Some (m, digest, _) \<Rightarrow>
                (case map_of (sv_namespaces s1) name of
                   None \<Rightarrow> s1
                 | Some n1 \<Rightarrow> if ns_id n1 \<noteq> ns_id n then s1
                             else fold (announce_graph name digest m) (ns_clients n1) s1)))"

section \<open>Holding registrations and namespaces\<close>

definition hold_registration :: "nat \<Rightarrow> server \<Rightarrow> server" where
  "hold_registration r s =
     (case get_reg s r of
        None \<Rightarrow> s
      | Some x \<Rightarrow>
          (if rg_closed x then s
           else ensure_future r
                  (upd_reg r (\<lambda>x. x\<lparr>rg_active := False, rg_held := True, rg_reattaching := False, rg_sink := False\<rparr>) s)))"

definition owned_records :: "server \<Rightarrow> share_space \<Rightarrow> nat \<Rightarrow> nat list" where
  "owned_records s n owner =
     filter (\<lambda>r. case get_reg s r of Some x \<Rightarrow> rg_owner x = owner \<and> \<not> rg_closed x | None \<Rightarrow> False)
       (map snd (ns_records n))"

definition begin_close_namespace :: "string \<Rightarrow> nat \<Rightarrow> server \<Rightarrow> server" where
  "begin_close_namespace name owner s =
     (case map_of (sv_namespaces s) name of
        None \<Rightarrow> s
      | Some n \<Rightarrow>
          (if ns_owner n \<noteq> owner then s
           else fold ensure_future (owned_records s n owner) (upd_ns name (\<lambda>n. n\<lparr>ns_closing := True\<rparr>) s)))"

definition hold_record :: "real \<Rightarrow> nat \<Rightarrow> server \<Rightarrow> server" where
  "hold_record deadline r s =
     ensure_future r
       (upd_reg r (\<lambda>x. x\<lparr>rg_active := False, rg_held := True, rg_reattaching := False,
                       rg_hold_until := Some deadline, rg_sink := False\<rparr>) s)"

definition hold_namespace :: "share_ext \<Rightarrow> real \<Rightarrow> string \<Rightarrow> nat \<Rightarrow> server \<Rightarrow> server" where
  "hold_namespace X now name owner s =
     (case map_of (sv_namespaces s) name of
        None \<Rightarrow> s
      | Some n \<Rightarrow>
          (if ns_owner n \<noteq> owner then s
           else fold (hold_record (now + hx_hold X)) (owned_records s n owner)
                  (upd_ns name (\<lambda>n. n\<lparr>ns_closing := False, ns_owner_active := False,
                     ns_hold_until := Some (now + hx_hold X), ns_state_graph := None, ns_hold_task := True\<rparr>) s)))"

definition close_client :: "nat \<Rightarrow> server \<Rightarrow> server" where
  "close_client c s = upd_client c (\<lambda>w. w\<lparr>wc_closed := True\<rparr>) s"

definition hold_expired :: "real \<Rightarrow> server \<Rightarrow> nat \<Rightarrow> bool" where
  "hold_expired now s r =
     (case get_reg s r of
        None \<Rightarrow> False
      | Some x \<Rightarrow> rg_held x \<and> (case rg_hold_until x of Some t \<Rightarrow> t \<le> now | None \<Rightarrow> False))"

definition expire_registration :: "nat \<Rightarrow> server \<Rightarrow> server" where
  "expire_registration r s =
     remove_registration r (resolve_future (Option.bind (get_reg s r) rg_reattach_future) None s)"

definition hold_deadlines :: "server \<Rightarrow> share_space \<Rightarrow> real list" where
  "hold_deadlines s n =
     List.map_filter (\<lambda>r. case get_reg s r of Some x \<Rightarrow> if rg_held x then rg_hold_until x else None | None \<Rightarrow> None)
       (map snd (ns_records n))
     @ (if ns_owner_active n then [] else listed (ns_hold_until n))"

text \<open>One round of \<open>_expire_holds\<close>; \<open>Some t\<close> is the deadline it sleeps to, \<open>None\<close> is its end.\<close>

definition expire_holds :: "real \<Rightarrow> string \<Rightarrow> nat \<Rightarrow> server \<Rightarrow> real option \<times> server" where
  "expire_holds now name nsid s =
     (case map_of (sv_namespaces s) name of
        None \<Rightarrow> (None, s)
      | Some n0 \<Rightarrow>
          (if ns_id n0 \<noteq> nsid then (None, s)
           else
             (let expired = filter (hold_expired now s) (map snd (ns_records n0));
                  s1 = upd_ns name (\<lambda>n. if (case ns_hold_until n of Some t \<Rightarrow> t \<le> now | None \<Rightarrow> False)
                                        then n\<lparr>ns_hold_until := None\<rparr> else n)
                         (fold expire_registration expired s)
              in case map_of (sv_namespaces s1) name of
                   None \<Rightarrow> (None, s1)
                 | Some n \<Rightarrow>
                     (if \<not> ns_owner_active n \<and> ns_hold_until n = None \<and> ns_records n = []
                      then (None, fold close_client (ns_clients n)
                              (s1\<lparr>sv_namespaces := AList.delete name (sv_namespaces s1)\<rparr>))
                      else
                        (let deadlines = hold_deadlines s1 n;
                             s2 = (if deadlines = [] then upd_ns name (\<lambda>n. n\<lparr>ns_hold_task := False\<rparr>) s1 else s1);
                             s3 = (if expired = [] then s2 else broadcast_shares name s2)
                         in (if deadlines = [] then None else Some (Min (set deadlines)), s3))))))"

section \<open>Releasing\<close>

definition staged_of :: "server \<Rightarrow> string \<Rightarrow> nat \<Rightarrow> nat list" where
  "staged_of s name owner =
     filter (\<lambda>r. case get_reg s r of Some x \<Rightarrow> rg_namespace x = name \<and> rg_owner x = owner | None \<Rightarrow> False) (sv_staged s)"

definition close_namespace :: "string \<Rightarrow> nat \<Rightarrow> server \<Rightarrow> server" where
  "close_namespace name owner s =
     (case map_of (sv_namespaces s) name of
        None \<Rightarrow> s
      | Some n \<Rightarrow>
          (if ns_owner n \<noteq> owner then s
           else if list_ex (\<lambda>r. case get_reg s r of Some x \<Rightarrow> rg_owner x = owner \<and> rg_active x \<and> \<not> rg_closed x
                                               | None \<Rightarrow> False) (map snd (ns_records n)) then s
           else
             (let s1 = fold expire_registration (map snd (ns_records n)) s;
                  s2 = fold expire_registration (staged_of s1 name owner) s1
              in fold close_client (ns_clients n)
                   (s2\<lparr>sv_namespaces := AList.delete name (sv_namespaces s2)\<rparr>))))"

text \<open>\<open>_unregister\<close> up to the closing of the clients; the namespace is given up afterwards.\<close>

definition unregister_records :: "nat \<Rightarrow> bool \<Rightarrow> server \<Rightarrow> server" where
  "unregister_records r close_ns s =
     (case get_reg s r of
        None \<Rightarrow> s
      | Some x \<Rightarrow>
          (let owns = (case map_of (sv_namespaces s) (rg_namespace x) of Some n \<Rightarrow> ns_owner n = rg_owner x | None \<Rightarrow> False);
               listed_regs = (if owns then (case map_of (sv_namespaces s) (rg_namespace x) of
                                 Some n \<Rightarrow> map snd (ns_records n) | None \<Rightarrow> []) else [])
                             @ staged_of s (rg_namespace x) (rg_owner x)
           in if close_ns
              then fold remove_registration (if List.member listed_regs r then listed_regs else listed_regs @ [r]) s
              else (let s1 = remove_registration r s
                    in if rg_active x \<and> owns then broadcast_shares (rg_namespace x) s1 else s1)))"

definition give_up_namespace :: "string \<Rightarrow> nat \<Rightarrow> nat \<Rightarrow> server \<Rightarrow> server" where
  "give_up_namespace name nsid owner s =
     (case map_of (sv_namespaces s) name of
        None \<Rightarrow> s
      | Some n \<Rightarrow>
          (if ns_id n = nsid \<and> ns_owner n = owner
           then fold close_client (ns_clients n) (s\<lparr>sv_namespaces := AList.delete name (sv_namespaces s)\<rparr>)
           else s))"

definition drop_namespace :: "string \<Rightarrow> nat \<Rightarrow> server \<Rightarrow> server" where
  "drop_namespace name owner s =
     (case map_of (sv_namespaces s) name of
        None \<Rightarrow> s
      | Some n \<Rightarrow> if ns_owner n = owner then s\<lparr>sv_namespaces := AList.delete name (sv_namespaces s)\<rparr> else s)"

text \<open>\<open>up\<close>: the listener has started without an error.\<close>

definition unregister :: "bool \<Rightarrow> nat \<Rightarrow> bool \<Rightarrow> bool \<Rightarrow> server \<Rightarrow> server" where
  "unregister up r close_ns hold s =
     (if sv_closed s then s
      else if \<not> up
      then (case get_reg s r of
              None \<Rightarrow> s
            | Some x \<Rightarrow> (if close_ns then drop_namespace (rg_namespace x) (rg_owner x) else id) (remove_registration r s))
      else if hold then hold_registration r s
      else unregister_records r close_ns s)"

definition release_namespace :: "bool \<Rightarrow> string \<Rightarrow> nat \<Rightarrow> server \<Rightarrow> server" where
  "release_namespace up name owner s =
     (if sv_closed s then s else if \<not> up then drop_namespace name owner s else close_namespace name owner s)"

definition all_registrations :: "server \<Rightarrow> nat list" where
  "all_registrations s = map snd (sv_top s) @ map snd (sv_records s) @ sv_staged s"

definition close_server :: "server \<Rightarrow> server" where
  "close_server s =
     (if sv_closed s then s
      else (let s1 = fold (\<lambda>(name, n). fold close_client (ns_clients n)) (sv_namespaces s) (s\<lparr>sv_closed := True\<rparr>);
                s2 = s1\<lparr>sv_namespaces := map (\<lambda>(name, n). (name, n\<lparr>ns_clients := [], ns_hold_task := False\<rparr>)) (sv_namespaces s1)\<rparr>
            in fold remove_registration (all_registrations s2) s2))"

end
