(* ===== verification/Share_Tables.thy ===== *)
theory Share_Tables
  imports Share_Service
begin

text \<open>
  The tables, the leases and the markers of the share server under all of its operations.
\<close>

section \<open>Reading an updated state\<close>

lemma map_of_map_at:
  "map_of (map (\<lambda>(k, x). (k, if k = a then f x else x)) d) k = (if k = a then map_option f (map_of d k) else map_of d k)"
  by (induction d) auto

lemma keys_map_at [simp]: "map fst (map (\<lambda>(k, x). (k, if k = a then f x else x)) d) = map fst d"
  by (induction d) auto

lemma get_upd_reg: "get_reg (upd_reg r f s) q = (if q = r then map_option f (get_reg s q) else get_reg s q)"
  by (simp add: get_reg_def upd_reg_def map_of_map_at)

lemma get_reg_cong: "sv_regs s' = sv_regs s \<Longrightarrow> get_reg s' r = get_reg s r"
  by (simp add: get_reg_def)

lemma upd_reg_fields [simp]:
  "sv_namespaces (upd_reg r f s) = sv_namespaces s" "sv_top (upd_reg r f s) = sv_top s"
  "sv_records (upd_reg r f s) = sv_records s" "sv_staged (upd_reg r f s) = sv_staged s"
  "sv_floors (upd_reg r f s) = sv_floors s" "sv_fingerprints (upd_reg r f s) = sv_fingerprints s"
  "sv_closed (upd_reg r f s) = sv_closed s" "sv_claims (upd_reg r f s) = sv_claims s"
  "sv_borrowed (upd_reg r f s) = sv_borrowed s" "sv_futures (upd_reg r f s) = sv_futures s"
  "sv_clients (upd_reg r f s) = sv_clients s" "sv_next (upd_reg r f s) = sv_next s"
  by (simp_all add: upd_reg_def)

lemma upd_ns_fields [simp]:
  "sv_regs (upd_ns n f s) = sv_regs s" "sv_top (upd_ns n f s) = sv_top s"
  "sv_records (upd_ns n f s) = sv_records s" "sv_staged (upd_ns n f s) = sv_staged s"
  "sv_floors (upd_ns n f s) = sv_floors s" "sv_fingerprints (upd_ns n f s) = sv_fingerprints s"
  "sv_closed (upd_ns n f s) = sv_closed s" "sv_claims (upd_ns n f s) = sv_claims s"
  "sv_borrowed (upd_ns n f s) = sv_borrowed s" "sv_futures (upd_ns n f s) = sv_futures s"
  "sv_clients (upd_ns n f s) = sv_clients s" "sv_next (upd_ns n f s) = sv_next s"
  by (simp_all add: upd_ns_def)

lemma get_upd_ns:
  "map_of (sv_namespaces (upd_ns n f s)) m = (if m = n then map_option f (map_of (sv_namespaces s) m) else map_of (sv_namespaces s) m)"
  by (simp add: upd_ns_def map_of_map_at)

lemma claim_fields [simp]:
  "sv_regs (give_claim cs s) = sv_regs s" "sv_regs (take_claim cs s) = sv_regs s"
  "sv_namespaces (give_claim cs s) = sv_namespaces s" "sv_namespaces (take_claim cs s) = sv_namespaces s"
  "sv_top (give_claim cs s) = sv_top s" "sv_top (take_claim cs s) = sv_top s"
  "sv_records (give_claim cs s) = sv_records s" "sv_records (take_claim cs s) = sv_records s"
  "sv_staged (give_claim cs s) = sv_staged s" "sv_staged (take_claim cs s) = sv_staged s"
  "sv_floors (give_claim cs s) = sv_floors s" "sv_floors (take_claim cs s) = sv_floors s"
  "sv_fingerprints (give_claim cs s) = sv_fingerprints s" "sv_fingerprints (take_claim cs s) = sv_fingerprints s"
  "sv_closed (give_claim cs s) = sv_closed s" "sv_closed (take_claim cs s) = sv_closed s"
  "sv_borrowed (give_claim cs s) = sv_borrowed s" "sv_borrowed (take_claim cs s) = sv_borrowed s"
  "sv_next (give_claim cs s) = sv_next s" "sv_next (take_claim cs s) = sv_next s"
  by (simp_all add: give_claim_def take_claim_def split: option.splits)

lemma claims_give: "sv_claims (give_claim cs s) c = sv_claims s c - (if cs = Some c then 1 else 0)"
  by (simp add: give_claim_def split: option.splits)

lemma claims_take: "sv_claims (take_claim cs s) c = sv_claims s c + (if cs = Some c then 1 else 0)"
  by (simp add: take_claim_def split: option.splits)

lemma get_reg_simps [simp]:
  "get_reg (upd_ns n f s) r = get_reg s r" "get_reg (give_claim cs s) r = get_reg s r"
  "get_reg (take_claim cs s) r = get_reg s r"
  "get_reg (s\<lparr>sv_namespaces := a\<rparr>) r = get_reg s r" "get_reg (s\<lparr>sv_top := b\<rparr>) r = get_reg s r"
  "get_reg (s\<lparr>sv_records := d\<rparr>) r = get_reg s r" "get_reg (s\<lparr>sv_staged := e\<rparr>) r = get_reg s r"
  "get_reg (s\<lparr>sv_floors := g\<rparr>) r = get_reg s r" "get_reg (s\<lparr>sv_borrowed := h\<rparr>) r = get_reg s r"
  "get_reg (s\<lparr>sv_next := i\<rparr>) r = get_reg s r" "get_reg (s\<lparr>sv_fingerprints := j\<rparr>) r = get_reg s r"
  "get_reg (s\<lparr>sv_futures := k\<rparr>) r = get_reg s r" "get_reg (s\<lparr>sv_clients := l\<rparr>) r = get_reg s r"
  "get_reg (s\<lparr>sv_closed := m\<rparr>) r = get_reg s r"
  by (simp_all add: get_reg_def)

section \<open>Counting leases\<close>

definition reg_leases :: "server \<Rightarrow> checksum \<Rightarrow> nat" where
  "reg_leases s c = length (filter (\<lambda>x. rg_lease x = Some c) (map snd (sv_regs s)))"

definition loans :: "server \<Rightarrow> checksum \<Rightarrow> nat" where
  "loans s c = length (filter (\<lambda>cs. cs = Some c) (map snd (sv_borrowed s)))"

lemma leases_at:
  "distinct (map fst d) \<Longrightarrow> map_of d r = Some x \<Longrightarrow>
   length (filter (\<lambda>x. rg_lease x = Some c) (map snd (map (\<lambda>(k, x). (k, if k = r then f x else x)) d)))
     + (if rg_lease x = Some c then 1 else 0)
   = length (filter (\<lambda>x. rg_lease x = Some c) (map snd d)) + (if rg_lease (f x) = Some c then 1 else 0)"
proof (induction d)
  case (Cons a d)
  obtain k y where a: "a = (k, y)" by fastforce
  show ?case
  proof (cases "k = r")
    case True
    have "map (\<lambda>(k, x). (k, if k = r then f x else x)) d = d"
      using Cons.prems(1) True a by (intro map_idI) (auto simp: image_iff)
    then show ?thesis using Cons.prems True a by simp
  next
    case False
    then show ?thesis using Cons a by simp
  qed
qed simp

lemma reg_leases_upd:
  assumes "distinct (map fst (sv_regs s))" "get_reg s r = Some x"
  shows "reg_leases (upd_reg r f s) c + (if rg_lease x = Some c then 1 else 0)
       = reg_leases s c + (if rg_lease (f x) = Some c then 1 else 0)"
  using leases_at [OF assms(1), of r x c f] assms(2) by (simp add: reg_leases_def upd_reg_def get_reg_def)

lemma reg_leases_same:
  assumes "distinct (map fst (sv_regs s))" "get_reg s r = Some x" "rg_lease (f x) = rg_lease x"
  shows "reg_leases (upd_reg r f s) c = reg_leases s c"
  using reg_leases_upd [OF assms(1,2), of f c] assms(3) by simp

lemma reg_leases_cong: "sv_regs s' = sv_regs s \<Longrightarrow> reg_leases s' = reg_leases s"
  by (rule ext) (simp add: reg_leases_def)

lemma loans_cong: "sv_borrowed s' = sv_borrowed s \<Longrightarrow> loans s' = loans s"
  by (rule ext) (simp add: loans_def)

lemma reg_leases_ge: "get_reg s r = Some x \<Longrightarrow> rg_lease x = Some c \<Longrightarrow> 1 \<le> reg_leases s c"
proof -
  assume g: "get_reg s r = Some x" and l: "rg_lease x = Some c"
  have "x \<in> set (filter (\<lambda>x. rg_lease x = Some c) (map snd (sv_regs s)))"
    using map_of_SomeD [OF g [unfolded get_reg_def]] l by force
  from length_pos_if_in_set [OF this] show "1 \<le> reg_leases s c"
    unfolding reg_leases_def by linarith
qed

section \<open>The invariant\<close>

text \<open>
  \<open>E\<close> are registrations that are being replaced, \<open>A\<close> those of them whose lease has already
  gone to their successor. Both are empty between operations.
\<close>

definition entries_sat :: "('k \<times> 'v) list \<Rightarrow> ('k \<Rightarrow> 'v \<Rightarrow> bool) \<Rightarrow> bool" where
  "entries_sat d P \<longleftrightarrow> list_all (\<lambda>k. case map_of d k of Some v \<Rightarrow> P k v | None \<Rightarrow> True) (map fst d)"

lemma entries_sat_iff: "entries_sat d P \<longleftrightarrow> (\<forall>k v. map_of d k = Some v \<longrightarrow> P k v)"
proof
  assume l: "entries_sat d P"
  show "\<forall>k v. map_of d k = Some v \<longrightarrow> P k v"
  proof (intro allI impI)
    fix k v assume v: "map_of d k = Some v"
    then have "k \<in> set (map fst d)" by (force dest: map_of_SomeD)
    with l v show "P k v" unfolding entries_sat_def list_all_iff by force
  qed
next
  assume "\<forall>k v. map_of d k = Some v \<longrightarrow> P k v"
  then show "entries_sat d P" unfolding entries_sat_def list_all_iff by (auto split: option.splits)
qed

lemma entries_satD: "entries_sat d P \<Longrightarrow> map_of d k = Some v \<Longrightarrow> P k v"
  by (simp add: entries_sat_iff)

lemma entries_satI: "(\<And>k v. map_of d k = Some v \<Longrightarrow> P k v) \<Longrightarrow> entries_sat d P"
  by (simp add: entries_sat_iff)

definition regs_ok :: "server \<Rightarrow> bool" where
  "regs_ok s \<longleftrightarrow> distinct (map fst (sv_regs s))
     \<and> entries_sat (sv_regs s) (\<lambda>r x. r < sv_next s \<and> server_segment (rg_namespace x)
          \<and> route_for (rg_namespace x) (rg_spec x) = Inr (rg_route x))"

definition listed_reg :: "server \<Rightarrow> nat \<Rightarrow> (share_reg \<Rightarrow> bool) \<Rightarrow> bool" where
  "listed_reg s r P \<longleftrightarrow> (case get_reg s r of None \<Rightarrow> False | Some x \<Rightarrow> \<not> rg_closed x \<and> \<not> rg_staged x \<and> P x)"

definition top_ok :: "server \<Rightarrow> bool" where
  "top_ok s \<longleftrightarrow> entries_sat (sv_top s) (\<lambda>p r. listed_reg s r (\<lambda>x. ss_toplevel (rg_spec x) \<and> ss_path (rg_spec x) = p))"

definition records_ok :: "server \<Rightarrow> bool" where
  "records_ok s \<longleftrightarrow> entries_sat (sv_records s) (\<lambda>(n, p) r. listed_reg s r
     (\<lambda>x. \<not> ss_toplevel (rg_spec x) \<and> rg_namespace x = n \<and> ss_path (rg_spec x) = p))"

definition spaces_ok :: "server \<Rightarrow> bool" where
  "spaces_ok s \<longleftrightarrow> entries_sat (sv_namespaces s) (\<lambda>n ns. entries_sat (ns_records ns)
     (\<lambda>p r. listed_reg s r (\<lambda>x. rg_namespace x = n \<and> ss_path (rg_spec x) = p)))"

definition installed_ok :: "nat set \<Rightarrow> server \<Rightarrow> bool" where
  "installed_ok E s \<longleftrightarrow> entries_sat (sv_regs s) (\<lambda>r x.
     (\<not> rg_closed x \<and> \<not> rg_staged x \<and> r \<notin> E \<longrightarrow> main_slot s (rg_namespace x) (rg_spec x) = Some r)
     \<and> (\<not> rg_closed x \<and> rg_staged x \<longrightarrow> List.member (sv_staged s) r))"

definition staged_ok :: "nat set \<Rightarrow> server \<Rightarrow> bool" where
  "staged_ok E s \<longleftrightarrow> list_all (\<lambda>r. case get_reg s r of None \<Rightarrow> False
     | Some x \<Rightarrow> \<not> rg_closed x \<and> rg_staged x \<and> (r \<notin> E \<longrightarrow> rg_checksum x = None)) (sv_staged s)"

definition lease_kept :: "share_ext \<Rightarrow> nat set \<Rightarrow> nat \<Rightarrow> share_reg \<Rightarrow> bool" where
  "lease_kept X A r x \<longleftrightarrow> rg_lease x = (if rg_closed x \<or> r \<in> A then None else lease_for X (rg_checksum x))"

definition ledger_ok :: "server \<Rightarrow> bool" where
  "ledger_ok s \<longleftrightarrow> (\<forall>c. sv_claims s c = reg_leases s c + loans s c)"

definition loans_ok :: "server \<Rightarrow> bool" where
  "loans_ok s \<longleftrightarrow> distinct (map fst (sv_borrowed s)) \<and> list_all (\<lambda>b. b < sv_next s) (map fst (sv_borrowed s))"

definition prints_ok :: "server \<Rightarrow> bool" where
  "prints_ok s \<longleftrightarrow> entries_sat (sv_regs s) (\<lambda>r x. case rg_fingerprint x of None \<Rightarrow> True
      | Some f \<Rightarrow> f \<le> sv_fingerprints s
          \<and> entries_sat (sv_regs s) (\<lambda>q y. rg_fingerprint y = Some f \<longrightarrow> q = r))"

definition share_inv :: "share_ext \<Rightarrow> nat set \<Rightarrow> nat set \<Rightarrow> server \<Rightarrow> bool" where
  "share_inv X E A s \<longleftrightarrow>
     regs_ok s \<and> top_ok s \<and> records_ok s \<and> spaces_ok s \<and> installed_ok E s \<and> staged_ok E s
     \<and> entries_sat (sv_regs s) (lease_kept X A) \<and> ledger_ok s \<and> loans_ok s \<and> prints_ok s"

definition share_ok :: "share_ext \<Rightarrow> server \<Rightarrow> bool" where
  "share_ok X s \<longleftrightarrow> share_inv X {} {} s"

section \<open>The invariant as facts\<close>

definition slot_at :: "server \<Rightarrow> string \<Rightarrow> string \<Rightarrow> nat option" where
  "slot_at s n p = (case map_of (sv_namespaces s) n of Some ns \<Rightarrow> map_of (ns_records ns) p | None \<Rightarrow> None)"

lemma key_slot_at: "key_slot s n spec = slot_at s n (ss_path spec)"
  by (simp add: key_slot_def slot_at_def)

lemma regs_sat: "entries_sat (sv_regs s) P \<longleftrightarrow> (\<forall>r x. get_reg s r = Some x \<longrightarrow> P r x)"
  by (simp add: entries_sat_iff get_reg_def)

lemma spaces_ok_iff:
  "spaces_ok s \<longleftrightarrow> (\<forall>n p r. slot_at s n p = Some r \<longrightarrow> listed_reg s r (\<lambda>x. rg_namespace x = n \<and> ss_path (rg_spec x) = p))"
  unfolding spaces_ok_def entries_sat_iff slot_at_def by (fastforce split: option.splits)

lemma listed_iff: "listed_reg s r P \<longleftrightarrow> (\<exists>x. get_reg s r = Some x \<and> \<not> rg_closed x \<and> \<not> rg_staged x \<and> P x)"
  by (auto simp: listed_reg_def split: option.splits)

lemma records_ok_iff:
  "records_ok s \<longleftrightarrow> (\<forall>n p r. map_of (sv_records s) (n, p) = Some r \<longrightarrow> listed_reg s r
     (\<lambda>x. \<not> ss_toplevel (rg_spec x) \<and> rg_namespace x = n \<and> ss_path (rg_spec x) = p))"
  unfolding records_ok_def entries_sat_iff by fastforce

lemma staged_ok_iff:
  "staged_ok E s \<longleftrightarrow> (\<forall>r\<in>set (sv_staged s). \<exists>x. get_reg s r = Some x \<and> \<not> rg_closed x \<and> rg_staged x
     \<and> (r \<notin> E \<longrightarrow> rg_checksum x = None))"
  unfolding staged_ok_def list_all_iff by (auto split: option.splits)

lemma prints_ok_iff:
  "prints_ok s \<longleftrightarrow> (\<forall>r x f. get_reg s r = Some x \<longrightarrow> rg_fingerprint x = Some f \<longrightarrow> f \<le> sv_fingerprints s)
     \<and> (\<forall>r x f q y. get_reg s r = Some x \<longrightarrow> rg_fingerprint x = Some f \<longrightarrow> get_reg s q = Some y \<longrightarrow>
          rg_fingerprint y = Some f \<longrightarrow> q = r)"
  (is "?L \<longleftrightarrow> ?R")
proof
  assume ?L
  then have all: "case rg_fingerprint x of None \<Rightarrow> True | Some f \<Rightarrow> f \<le> sv_fingerprints s
      \<and> (\<forall>q y. get_reg s q = Some y \<longrightarrow> rg_fingerprint y = Some f \<longrightarrow> q = r)" if "get_reg s r = Some x" for r x
    using that unfolding prints_ok_def regs_sat by blast
  have "f \<le> sv_fingerprints s \<and> (\<forall>q y. get_reg s q = Some y \<longrightarrow> rg_fingerprint y = Some f \<longrightarrow> q = r)"
    if "get_reg s r = Some x" "rg_fingerprint x = Some f" for r x f
    using all [OF that(1)] that(2) by simp
  then show ?R by blast
next
  assume ?R
  then have one: "f \<le> sv_fingerprints s \<and> (\<forall>q y. get_reg s q = Some y \<longrightarrow> rg_fingerprint y = Some f \<longrightarrow> q = r)"
    if "get_reg s r = Some x" "rg_fingerprint x = Some f" for r x f
    using that by blast
  show ?L
    unfolding prints_ok_def regs_sat
  proof (intro allI impI)
    fix r x assume g: "get_reg s r = Some x"
    show "case rg_fingerprint x of None \<Rightarrow> True | Some f \<Rightarrow> f \<le> sv_fingerprints s
        \<and> (\<forall>q y. get_reg s q = Some y \<longrightarrow> rg_fingerprint y = Some f \<longrightarrow> q = r)"
    proof (cases "rg_fingerprint x")
      case None
      then show ?thesis by simp
    next
      case (Some f)
      from one [OF g Some] show ?thesis unfolding Some option.case .
    qed
  qed
qed

lemmas inv_iffs = regs_sat spaces_ok_iff records_ok_iff staged_ok_iff

section \<open>Changes the invariant does not see\<close>

definition reg_core where
  "reg_core x = (rg_namespace x, rg_spec x, rg_route x, rg_session x, rg_owner x, rg_celltype x, rg_closed x,
     rg_staged x, rg_lease x, rg_checksum x, rg_marker x, rg_ws x, rg_fingerprint x)"

definition same_core :: "server \<Rightarrow> server \<Rightarrow> bool" where
  "same_core s s' \<longleftrightarrow>
     map (\<lambda>(r, x). (r, reg_core x)) (sv_regs s') = map (\<lambda>(r, x). (r, reg_core x)) (sv_regs s)
     \<and> sv_top s' = sv_top s \<and> sv_records s' = sv_records s \<and> sv_staged s' = sv_staged s
     \<and> (\<forall>n p r. slot_at s' n p = Some r \<longrightarrow> slot_at s n p = Some r)
     \<and> sv_claims s' = sv_claims s \<and> sv_borrowed s' = sv_borrowed s \<and> sv_next s \<le> sv_next s'
     \<and> sv_fingerprints s' = sv_fingerprints s"

lemma same_core_refl [intro, simp]: "same_core s s"
  by (simp add: same_core_def)

lemma same_core_trans [trans]: "same_core s s' \<Longrightarrow> same_core s' s'' \<Longrightarrow> same_core s s''"
  unfolding same_core_def by (metis (no_types, lifting) order_trans)

lemma core_map_of: "map_of (map (\<lambda>(r, x). (r, reg_core x)) d) r = map_option reg_core (map_of d r)"
  by (induction d) auto

lemma same_core_get: "same_core s s' \<Longrightarrow> map_option reg_core (get_reg s' r) = map_option reg_core (get_reg s r)"
  unfolding same_core_def get_reg_def core_map_of [symmetric] by simp

lemma same_core_Some:
  assumes "same_core s s'" "get_reg s' r = Some y"
  obtains x where "get_reg s r = Some x" "reg_core x = reg_core y"
  using same_core_get [OF assms(1), of r] assms(2) by (cases "get_reg s r") auto

lemma same_core_Some':
  assumes "same_core s s'" "get_reg s r = Some x"
  obtains y where "get_reg s' r = Some y" "reg_core x = reg_core y"
  using same_core_get [OF assms(1), of r] assms(2) by (cases "get_reg s' r") auto

lemma core_leases:
  "map (\<lambda>(r, x). (r, reg_core x)) d' = map (\<lambda>(r, x). (r, reg_core x)) d \<Longrightarrow>
   length (filter (\<lambda>x. rg_lease x = Some c) (map snd d')) = length (filter (\<lambda>x. rg_lease x = Some c) (map snd d))
   \<and> map fst d' = map fst d"
proof (induction d' arbitrary: d)
  case (Cons a d')
  then obtain b e where d: "d = b # e" by (cases d) auto
  with Cons show ?case by (auto simp: reg_core_def split: prod.splits)
qed simp

lemma same_core_leases: "same_core s s' \<Longrightarrow> reg_leases s' c = reg_leases s c"
  unfolding same_core_def reg_leases_def using core_leases [of "sv_regs s'" "sv_regs s" c] by simp

lemma same_core_keys: "same_core s s' \<Longrightarrow> map fst (sv_regs s') = map fst (sv_regs s)"
  unfolding same_core_def using core_leases [of "sv_regs s'" "sv_regs s"] by simp

lemma same_core_main: "same_core s s' \<Longrightarrow> main_slot s' n spec = main_slot s n spec"
  by (simp add: same_core_def main_slot_def)

lemma same_core_listed:
  assumes "same_core s s'" "listed_reg s r P" "\<And>x y. reg_core x = reg_core y \<Longrightarrow> P x \<Longrightarrow> Q y"
  shows "listed_reg s' r Q"
proof -
  from assms(2) obtain x where x: "get_reg s r = Some x" "\<not> rg_closed x" "\<not> rg_staged x" "P x"
    by (auto simp: listed_iff)
  from same_core_Some' [OF assms(1) x(1)] obtain y where y: "get_reg s' r = Some y" "reg_core x = reg_core y" .
  with x assms(3) show ?thesis unfolding listed_iff reg_core_def by auto
qed

lemma same_core_inv:
  assumes c: "same_core s s'" and i: "share_inv X E A s"
  shows "share_inv X E A s'"
proof -
  have was: "\<exists>x. get_reg s r = Some x \<and> reg_core x = reg_core y" if "get_reg s' r = Some y" for r y
    using same_core_Some [OF c that] by blast
  have f: "sv_top s' = sv_top s" "sv_records s' = sv_records s" "sv_staged s' = sv_staged s"
    "sv_claims s' = sv_claims s" "sv_borrowed s' = sv_borrowed s" "sv_next s \<le> sv_next s'"
    "sv_fingerprints s' = sv_fingerprints s"
    using c unfolding same_core_def by blast+
  have fs: "slot_at s' n p = Some r \<Longrightarrow> slot_at s n p = Some r" for n p r
    using c unfolding same_core_def by blast
  have core: "rg_namespace x = rg_namespace y" "rg_spec x = rg_spec y" "rg_route x = rg_route y" "rg_closed x = rg_closed y"
    "rg_staged x = rg_staged y" "rg_lease x = rg_lease y" "rg_checksum x = rg_checksum y" "rg_fingerprint x = rg_fingerprint y"
    if "reg_core x = reg_core y" for x y
    using that unfolding reg_core_def by (simp_all only: prod.inject)
  have r: "regs_ok s'"
    unfolding regs_ok_def regs_sat same_core_keys [OF c]
  proof (intro conjI allI impI)
    show "distinct (map fst (sv_regs s))" using i unfolding share_inv_def regs_ok_def by blast
    fix r y assume "get_reg s' r = Some y"
    with was obtain x where x: "get_reg s r = Some x" "reg_core x = reg_core y" by blast
    have "r < sv_next s \<and> server_segment (rg_namespace x) \<and> route_for (rg_namespace x) (rg_spec x) = Inr (rg_route x)"
      using i x(1) unfolding share_inv_def regs_ok_def regs_sat by blast
    with f core [OF x(2)] show "r < sv_next s'" "server_segment (rg_namespace y)"
      "route_for (rg_namespace y) (rg_spec y) = Inr (rg_route y)" by simp_all
  qed
  have t: "top_ok s'"
    unfolding top_ok_def entries_sat_iff
  proof (intro allI impI)
    fix p r assume "map_of (sv_top s') p = Some r"
    with i f have "listed_reg s r (\<lambda>x. ss_toplevel (rg_spec x) \<and> ss_path (rg_spec x) = p)"
      unfolding share_inv_def top_ok_def entries_sat_iff by simp
    then show "listed_reg s' r (\<lambda>x. ss_toplevel (rg_spec x) \<and> ss_path (rg_spec x) = p)"
      by (rule same_core_listed [OF c]) (simp add: reg_core_def)
  qed
  have k: "records_ok s'"
    unfolding records_ok_iff
  proof (intro allI impI)
    fix n p r assume "map_of (sv_records s') (n, p) = Some r"
    with i f have "listed_reg s r (\<lambda>x. \<not> ss_toplevel (rg_spec x) \<and> rg_namespace x = n \<and> ss_path (rg_spec x) = p)"
      unfolding share_inv_def records_ok_iff by simp
    then show "listed_reg s' r (\<lambda>x. \<not> ss_toplevel (rg_spec x) \<and> rg_namespace x = n \<and> ss_path (rg_spec x) = p)"
      by (rule same_core_listed [OF c]) (simp add: reg_core_def)
  qed
  have n: "spaces_ok s'"
    unfolding spaces_ok_iff
  proof (intro allI impI)
    fix n p r assume "slot_at s' n p = Some r"
    from i fs [OF this] have "listed_reg s r (\<lambda>x. rg_namespace x = n \<and> ss_path (rg_spec x) = p)"
      unfolding share_inv_def spaces_ok_iff by simp
    then show "listed_reg s' r (\<lambda>x. rg_namespace x = n \<and> ss_path (rg_spec x) = p)"
      by (rule same_core_listed [OF c]) (simp add: reg_core_def)
  qed
  have m: "installed_ok E s'"
    unfolding installed_ok_def regs_sat same_core_main [OF c]
  proof (intro allI impI)
    fix r y assume "get_reg s' r = Some y"
    with was obtain x where x: "get_reg s r = Some x" "reg_core x = reg_core y" by blast
    have "(\<not> rg_closed x \<and> \<not> rg_staged x \<and> r \<notin> E \<longrightarrow> main_slot s (rg_namespace x) (rg_spec x) = Some r)
       \<and> (\<not> rg_closed x \<and> rg_staged x \<longrightarrow> List.member (sv_staged s) r)"
      using i x(1) unfolding share_inv_def installed_ok_def regs_sat by blast
    with f core [OF x(2)]
    show "(\<not> rg_closed y \<and> \<not> rg_staged y \<and> r \<notin> E \<longrightarrow> main_slot s (rg_namespace y) (rg_spec y) = Some r)
       \<and> (\<not> rg_closed y \<and> rg_staged y \<longrightarrow> List.member (sv_staged s') r)" by simp
  qed
  have g: "staged_ok E s'"
    unfolding staged_ok_iff
  proof
    fix r assume "r \<in> set (sv_staged s')"
    then obtain x where x: "get_reg s r = Some x" "\<not> rg_closed x" "rg_staged x" "r \<notin> E \<longrightarrow> rg_checksum x = None"
      using i f unfolding share_inv_def staged_ok_iff by auto
    from same_core_Some' [OF c x(1)] obtain y where "get_reg s' r = Some y" "reg_core x = reg_core y" .
    with core [OF this(2)] x show "\<exists>y. get_reg s' r = Some y \<and> \<not> rg_closed y \<and> rg_staged y \<and> (r \<notin> E \<longrightarrow> rg_checksum y = None)"
      by simp
  qed
  have l: "entries_sat (sv_regs s') (lease_kept X A)"
    unfolding regs_sat
  proof (intro allI impI)
    fix r y assume "get_reg s' r = Some y"
    with was obtain x where x: "get_reg s r = Some x" "reg_core x = reg_core y" by blast
    have "lease_kept X A r x" using i x(1) unfolding share_inv_def regs_sat by blast
    with core [OF x(2)] show "lease_kept X A r y" unfolding lease_kept_def by metis
  qed
  have d: "ledger_ok s'"
    using i f same_core_leases [OF c] unfolding share_inv_def ledger_ok_def loans_def by simp
  have b: "loans_ok s'"
    using i f unfolding share_inv_def loans_ok_def list_all_iff by (metis order_less_le_trans)
  have q: "prints_ok s'"
    unfolding prints_ok_iff
  proof (intro conjI allI impI)
    fix r y f' assume y: "get_reg s' r = Some y" and p: "rg_fingerprint y = Some f'"
    from y was obtain x where x: "get_reg s r = Some x" "reg_core x = reg_core y" by blast
    from p core(8) [OF x(2)] have p': "rg_fingerprint x = Some f'" by simp
    have pr: "prints_ok s" using i unfolding share_inv_def by blast
    note one = pr [unfolded prints_ok_iff, THEN conjunct1, rule_format, OF x(1) p']
    note two = pr [unfolded prints_ok_iff, THEN conjunct2, rule_format, OF x(1) p']
    show "f' \<le> sv_fingerprints s'" using one f(7) by simp
    fix z w assume z: "get_reg s' z = Some w" "rg_fingerprint w = Some f'"
    from z was obtain v where v: "get_reg s z = Some v" "reg_core v = reg_core w" by blast
    show "z = r" by (rule two [OF v(1)]) (simp add: core(8) [OF v(2)] z(2))
  qed
  show ?thesis unfolding share_inv_def using r t k n m g l d b q by blast
qed

section \<open>Operations that keep the core\<close>

named_theorems core_intros \<open>changes that keep the core of every registration\<close>

lemma same_core_after [core_intros]: "same_core s s' \<Longrightarrow> (\<And>t. same_core t (f t)) \<Longrightarrow> same_core s (f s')"
  using same_core_trans by blast

lemma same_core_fold: "(\<And>x t. same_core t (f x t)) \<Longrightarrow> same_core s (fold f xs s)"
  by (induction xs arbitrary: s) (auto intro: same_core_trans)

lemma same_core_upd_reg:
  assumes "\<And>x. reg_core (f x) = reg_core x"
  shows "same_core s (upd_reg r f s)"
proof -
  have "map (\<lambda>(k, x). (k, reg_core x)) (map (\<lambda>(k, x). (k, if k = r then f x else x)) d) = map (\<lambda>(k, x). (k, reg_core x)) d" for d
    by (induction d) (auto simp: assms)
  then show ?thesis by (simp add: same_core_def slot_at_def) (simp add: upd_reg_def)
qed

lemma same_core_upd_ns: "(\<And>n. ns_records (f n) = ns_records n) \<Longrightarrow> same_core s (upd_ns a f s)"
  by (auto simp: same_core_def slot_at_def get_upd_ns split: option.splits if_splits)

lemma same_core_fields:
  "same_core s (s\<lparr>sv_futures := a\<rparr>)" "same_core s (s\<lparr>sv_clients := b\<rparr>)" "same_core s (s\<lparr>sv_closed := d\<rparr>)"
  "same_core s (s\<lparr>sv_floors := e\<rparr>)" "same_core s (s\<lparr>sv_next := Suc (sv_next s)\<rparr>)"
  "same_core s (s\<lparr>sv_namespaces := AList.delete name (sv_namespaces s)\<rparr>)"
  by (simp_all add: same_core_def slot_at_def delete_conv')

lemma same_core_upd_client: "same_core s (upd_client c f s)"
  unfolding upd_client_def by (rule same_core_fields)

lemma same_core_drop_client: "same_core s (drop_client name c s)"
  unfolding drop_client_def by (rule same_core_upd_ns) simp

lemma same_core_queue: "same_core s (queue_or_send name msg c s)"
  by (simp add: queue_or_send_def same_core_upd_client same_core_drop_client split: option.splits)

lemma same_core_broadcast: "same_core s (broadcast name msg s)"
  by (simp add: broadcast_def same_core_fold same_core_queue split: option.splits)

lemma same_core_shares: "same_core s (broadcast_shares name s)"
  by (simp add: broadcast_shares_def same_core_broadcast split: option.splits)

lemma same_core_update: "same_core s (broadcast_update r s)"
  by (simp add: broadcast_update_def same_core_broadcast split: option.splits)

lemma same_core_connect: "same_core s (snd (ws_connect name nsid broken s))"
proof -
  have "same_core s (s\<lparr>sv_clients := l, sv_next := Suc (sv_next s)\<rparr>)" for l
    by (simp add: same_core_def slot_at_def)
  then show ?thesis
    unfolding ws_connect_def Let_def by (auto split: option.splits intro!: same_core_trans [OF _ same_core_upd_ns])
qed

lemma same_core_greet: "same_core s (ws_greet n c s)" "same_core s (ws_flush c s)"
  unfolding ws_greet_def ws_flush_def by (rule same_core_upd_client)+

lemma same_core_resolve: "same_core s (resolve_future q v s)"
  by (simp add: resolve_future_def same_core_fields split: option.splits)

lemma same_core_future: "same_core s ((upd_reg r (\<lambda>x. x\<lparr>rg_reattach_future := f\<rparr>) s)\<lparr>sv_next := Suc (sv_next s)\<rparr>)"
proof -
  have "same_core s (upd_reg r (\<lambda>x. x\<lparr>rg_reattach_future := f\<rparr>) s)" (is "same_core s ?u")
    by (rule same_core_upd_reg) (simp add: reg_core_def)
  moreover have "same_core ?u (?u\<lparr>sv_next := Suc (sv_next ?u)\<rparr>)" by (rule same_core_fields)
  ultimately show ?thesis using same_core_trans by simp
qed

lemma same_core_ensure: "same_core s (ensure_future r s)"
  by (simp add: ensure_future_def same_core_future split: option.splits)

lemma same_core_activate: "same_core s (snd (activate_reg r s))"
  unfolding activate_reg_def Let_def
  by (auto split: option.splits simp: reg_core_def intro!: same_core_upd_reg same_core_trans [OF _ same_core_shares])

lemma same_core_reattach: "same_core s (complete_reattach r s)"
  unfolding complete_reattach_def Let_def
  by (auto split: option.splits simp: reg_core_def
      intro!: same_core_upd_reg same_core_trans [OF _ same_core_shares] same_core_trans [OF _ same_core_resolve])

lemma same_core_hold_record: "same_core s (hold_record t r s)" "same_core s (hold_registration r s)"
  unfolding hold_record_def hold_registration_def
  by (auto split: option.splits simp: reg_core_def intro!: same_core_trans [OF _ same_core_ensure] same_core_upd_reg)

lemma same_core_begin_close: "same_core s (begin_close_namespace name owner s)"
  unfolding begin_close_namespace_def
  by (auto split: option.splits intro!: same_core_trans [OF same_core_upd_ns same_core_fold] same_core_ensure)

lemma same_core_hold_namespace: "same_core s (hold_namespace X now name owner s)"
  unfolding hold_namespace_def
  by (auto split: option.splits intro!: same_core_trans [OF same_core_upd_ns same_core_fold] same_core_hold_record)

lemma same_core_close_client: "same_core s (close_client c s)"
  unfolding close_client_def by (rule same_core_upd_client)

lemma same_core_drop_namespace: "same_core s (drop_namespace name owner s)"
  by (simp add: drop_namespace_def same_core_fields split: option.splits)

lemma same_core_give_up: "same_core s (give_up_namespace name nsid owner s)"
  unfolding give_up_namespace_def
  by (auto split: option.splits intro!: same_core_trans [OF same_core_fields(6) same_core_fold] same_core_close_client)

lemma same_core_normalize: "same_core s (snd (normalize_publication name nsid new s))"
  unfolding normalize_publication_def Let_def by (auto split: option.splits intro!: same_core_upd_ns)

lemma same_core_put_begin: "same_core s (snd (put_begin X q r s))"
  by (simp add: put_begin_def same_core_future split: option.splits)

lemma same_core_take_over: "same_core s (take_over now name owner s)"
  unfolding take_over_def by (auto intro!: same_core_upd_ns)

lemma same_core_offer: "same_core s (offer_state_graph name g s)"
  unfolding offer_state_graph_def by (auto intro!: same_core_upd_ns)

lemma same_core_serve_graph: "same_core s (snd (serve_state_graph q name n answered s))"
proof -
  have "same_core s s'" if "normalize_publication name (ns_id n) p s = (p', s')" for p p' s'
    using same_core_normalize [of s name "ns_id n" p] that by simp
  then show ?thesis
    unfolding serve_state_graph_def Let_def
    by (cases answered) (auto split: option.split prod.split)
qed

lemma same_core_announce: "same_core s (announce_graph name digest m c s)"
  unfolding announce_graph_def
  by (auto split: option.splits intro!: same_core_trans [OF same_core_upd_client same_core_queue])

section \<open>Changing what a registration shows\<close>

definition same_place where
  "same_place x y \<longleftrightarrow> rg_namespace y = rg_namespace x \<and> rg_spec y = rg_spec x \<and> rg_route y = rg_route x
     \<and> rg_closed y = rg_closed x \<and> rg_staged y = rg_staged x"

text \<open>The tables do not see registrations that keep their places.\<close>

lemma same_keys_get:
  assumes "map fst (sv_regs s') = map fst (sv_regs s)" "get_reg s q = Some x"
  obtains z where "get_reg s' q = Some z"
proof -
  have "q \<in> set (map fst (sv_regs s'))" using assms map_of_SomeD unfolding get_reg_def by force
  then obtain z where "map_of (sv_regs s') q = Some z"
    by (cases "map_of (sv_regs s') q") (auto simp: map_of_eq_None_iff)
  with that show ?thesis unfolding get_reg_def by blast
qed

lemma place_kept:
  assumes i: "share_inv X E A s"
    and keys: "map fst (sv_regs s') = map fst (sv_regs s)" "sv_next s \<le> sv_next s'"
    and tabs: "sv_top s' = sv_top s" "sv_records s' = sv_records s" "sv_namespaces s' = sv_namespaces s" "sv_staged s' = sv_staged s"
    and place: "\<And>q z. get_reg s' q = Some z \<Longrightarrow> \<exists>x. get_reg s q = Some x \<and> same_place x z
        \<and> (q \<notin> E \<longrightarrow> rg_staged z \<longrightarrow> rg_checksum z = rg_checksum x)"
    and lease: "entries_sat (sv_regs s') (lease_kept X B)"
    and rest: "ledger_ok s'" "loans_ok s'" "prints_ok s'"
  shows "share_inv X E B s'"
proof -
  have reg: "\<exists>x. get_reg s q = Some x \<and> same_place x z" if "get_reg s' q = Some z" for q z
    using place [OF that] by blast
  have lst: "listed_reg s' q P" if l: "listed_reg s q P" and P: "\<And>a b. same_place a b \<Longrightarrow> P a \<Longrightarrow> P b" for q P
  proof -
    from l obtain a where a: "get_reg s q = Some a" "\<not> rg_closed a" "\<not> rg_staged a" "P a" by (auto simp: listed_iff)
    from same_keys_get [OF keys(1) a(1)] obtain z where z: "get_reg s' q = Some z" .
    with reg a(1) have "same_place a z" by fastforce
    with a z P show ?thesis unfolding listed_iff same_place_def by auto
  qed
  have m: "main_slot s' n spec = main_slot s n spec" for n spec using tabs by (simp add: main_slot_def)
  have sl: "slot_at s' n p = slot_at s n p" for n p using tabs by (simp add: slot_at_def)
  have 1: "regs_ok s'"
    unfolding regs_ok_def regs_sat keys
  proof (intro conjI allI impI)
    show "distinct (map fst (sv_regs s))" using i unfolding share_inv_def regs_ok_def by blast
    fix q z assume "get_reg s' q = Some z"
    with reg obtain w where w: "get_reg s q = Some w" "same_place w z" by blast
    then have "q < sv_next s \<and> server_segment (rg_namespace w) \<and> route_for (rg_namespace w) (rg_spec w) = Inr (rg_route w)"
      using i unfolding share_inv_def regs_ok_def regs_sat by blast
    with w(2) keys(2) show "q < sv_next s'" "server_segment (rg_namespace z)" "route_for (rg_namespace z) (rg_spec z) = Inr (rg_route z)"
      unfolding same_place_def by simp_all
  qed
  have 2: "top_ok s'"
    unfolding top_ok_def entries_sat_iff tabs
  proof (intro allI impI)
    fix p q assume "map_of (sv_top s) p = Some q"
    with i have "listed_reg s q (\<lambda>x. ss_toplevel (rg_spec x) \<and> ss_path (rg_spec x) = p)"
      unfolding share_inv_def top_ok_def entries_sat_iff by blast
    then show "listed_reg s' q (\<lambda>x. ss_toplevel (rg_spec x) \<and> ss_path (rg_spec x) = p)"
      by (rule lst) (simp add: same_place_def)
  qed
  have 3: "records_ok s'"
    unfolding records_ok_iff tabs
  proof (intro allI impI)
    fix n p q assume "map_of (sv_records s) (n, p) = Some q"
    with i have "listed_reg s q (\<lambda>x. \<not> ss_toplevel (rg_spec x) \<and> rg_namespace x = n \<and> ss_path (rg_spec x) = p)"
      unfolding share_inv_def records_ok_iff by blast
    then show "listed_reg s' q (\<lambda>x. \<not> ss_toplevel (rg_spec x) \<and> rg_namespace x = n \<and> ss_path (rg_spec x) = p)"
      by (rule lst) (simp add: same_place_def)
  qed
  have 4: "spaces_ok s'"
    unfolding spaces_ok_iff sl
  proof (intro allI impI)
    fix n p q assume "slot_at s n p = Some q"
    with i have "listed_reg s q (\<lambda>x. rg_namespace x = n \<and> ss_path (rg_spec x) = p)"
      unfolding share_inv_def spaces_ok_iff by blast
    then show "listed_reg s' q (\<lambda>x. rg_namespace x = n \<and> ss_path (rg_spec x) = p)"
      by (rule lst) (simp add: same_place_def)
  qed
  have 5: "installed_ok E s'"
    unfolding installed_ok_def regs_sat m tabs
  proof (intro allI impI)
    fix q z assume "get_reg s' q = Some z"
    with reg obtain w where w: "get_reg s q = Some w" "same_place w z" by blast
    then have "(\<not> rg_closed w \<and> \<not> rg_staged w \<and> q \<notin> E \<longrightarrow> main_slot s (rg_namespace w) (rg_spec w) = Some q)
       \<and> (\<not> rg_closed w \<and> rg_staged w \<longrightarrow> List.member (sv_staged s) q)"
      using i unfolding share_inv_def installed_ok_def regs_sat by blast
    with w(2) show "(\<not> rg_closed z \<and> \<not> rg_staged z \<and> q \<notin> E \<longrightarrow> main_slot s (rg_namespace z) (rg_spec z) = Some q)
       \<and> (\<not> rg_closed z \<and> rg_staged z \<longrightarrow> List.member (sv_staged s) q)" unfolding same_place_def by simp
  qed
  have 6: "staged_ok E s'"
    unfolding staged_ok_iff tabs
  proof
    fix q assume "q \<in> set (sv_staged s)"
    with i obtain w where w: "get_reg s q = Some w" "\<not> rg_closed w" "rg_staged w" "q \<notin> E \<longrightarrow> rg_checksum w = None"
      unfolding share_inv_def staged_ok_iff by blast
    from same_keys_get [OF keys(1) w(1)] obtain z where z: "get_reg s' q = Some z" .
    from place [OF z] w show "\<exists>x. get_reg s' q = Some x \<and> \<not> rg_closed x \<and> rg_staged x \<and> (q \<notin> E \<longrightarrow> rg_checksum x = None)"
      unfolding same_place_def using z by auto
  qed
  show ?thesis unfolding share_inv_def using 1 2 3 4 5 6 lease rest by blast
qed

lemma share_invD:
  assumes "share_inv X E A s"
  shows "distinct (map fst (sv_regs s))" "ledger_ok s" "loans_ok s" "prints_ok s"
    "get_reg s r = Some x \<Longrightarrow> lease_kept X A r x"
    "get_reg s r = Some x \<Longrightarrow> r < sv_next s"
  using assms unfolding share_inv_def regs_ok_def regs_sat by blast+

lemma keys_upd_reg [simp]: "map fst (sv_regs (upd_reg r f s)) = map fst (sv_regs s)"
  unfolding upd_reg_def by (simp add: comp_def split_beta)

lemma touch_inv:
  assumes i: "share_inv X E A s" and Some: "get_reg s r = Some x"
  shows "share_inv X E A (touch_reg r s)"
proof -
  define y where "y = x\<lparr>rg_ws := rg_ws x + 1, rg_fingerprint := Some (Suc (sv_fingerprints s))\<rparr>"
  have t: "touch_reg r s = upd_reg r (\<lambda>x. x\<lparr>rg_ws := rg_ws x + 1, rg_fingerprint := Some (Suc (sv_fingerprints s))\<rparr>)
      (s\<lparr>sv_fingerprints := Suc (sv_fingerprints s)\<rparr>)"
    by (simp add: touch_reg_def Let_def)
  have g: "get_reg (touch_reg r s) q = (if q = r then Some y else get_reg s q)" for q
    by (simp add: t get_upd_reg Some y_def)
  have fld: "map fst (sv_regs (touch_reg r s)) = map fst (sv_regs s)" "sv_next s \<le> sv_next (touch_reg r s)"
    "sv_top (touch_reg r s) = sv_top s" "sv_records (touch_reg r s) = sv_records s"
    "sv_namespaces (touch_reg r s) = sv_namespaces s" "sv_staged (touch_reg r s) = sv_staged s"
    "sv_claims (touch_reg r s) = sv_claims s" "sv_borrowed (touch_reg r s) = sv_borrowed s"
    "sv_fingerprints (touch_reg r s) = Suc (sv_fingerprints s)"
    by (simp_all add: t)
  have rl: "reg_leases (touch_reg r s) c = reg_leases s c" for c
  proof -
    have "reg_leases (touch_reg r s) c = reg_leases (upd_reg r (\<lambda>x. x\<lparr>rg_ws := rg_ws x + 1, rg_fingerprint := Some (Suc (sv_fingerprints s))\<rparr>) s) c"
      by (simp add: t reg_leases_def upd_reg_def)
    also have "\<dots> = reg_leases s c" by (rule reg_leases_same [OF share_invD(1) [OF i] Some]) simp
    finally show ?thesis .
  qed
  show ?thesis
  proof (rule place_kept [OF i fld(1-6)])
    show "\<exists>x. get_reg s q = Some x \<and> same_place x z \<and> (q \<notin> E \<longrightarrow> rg_staged z \<longrightarrow> rg_checksum z = rg_checksum x)"
      if "get_reg (touch_reg r s) q = Some z" for q z
      using that Some by (auto simp: g y_def same_place_def split: if_splits)
    show "entries_sat (sv_regs (touch_reg r s)) (lease_kept X A)"
      unfolding regs_sat g using share_invD(5) [OF i] Some by (auto simp: y_def lease_kept_def)
    show "ledger_ok (touch_reg r s)"
      using share_invD(2) [OF i] rl unfolding ledger_ok_def loans_def fld by simp
    show "loans_ok (touch_reg r s)"
      using share_invD(3) [OF i] fld(2) unfolding loans_ok_def fld list_all_iff by fastforce
    have old: "f \<le> sv_fingerprints s" if "get_reg s q = Some z" "rg_fingerprint z = Some f" for q z f
      using share_invD(4) [OF i] that unfolding prints_ok_iff by blast
    show "prints_ok (touch_reg r s)"
      unfolding prints_ok_iff fld(9)
    proof (intro conjI allI impI)
      fix q z f assume z: "get_reg (touch_reg r s) q = Some z" "rg_fingerprint z = Some f"
      show "f \<le> Suc (sv_fingerprints s)"
        using z old by (cases "q = r") (force simp: g y_def)+
      fix p w assume w: "get_reg (touch_reg r s) p = Some w" "rg_fingerprint w = Some f"
      show "p = q"
      proof (rule ccontr)
        assume n: "p \<noteq> q"
        consider "q = r" | "p = r" | "q \<noteq> r" "p \<noteq> r" by blast
        then show False
        proof cases
          case 1
          with z w n old [of p w f] show False by (auto simp: g y_def)
        next
          case 2
          with z w n old [of q z f] show False by (auto simp: g y_def)
        next
          case 3
          with z w have "get_reg s q = Some z" "get_reg s p = Some w" by (simp_all add: g)
          with z(2) w(2) n share_invD(4) [OF i] show False unfolding prints_ok_iff by blast
        qed
      qed
    qed
  qed
qed

lemma prints_kept:
  assumes i: "prints_ok s" and le: "sv_fingerprints s \<le> sv_fingerprints s'"
    and g: "\<And>q z. get_reg s' q = Some z \<Longrightarrow> rg_fingerprint z \<noteq> None \<Longrightarrow> \<exists>w. get_reg s q = Some w \<and> rg_fingerprint w = rg_fingerprint z"
  shows "prints_ok s'"
  unfolding prints_ok_iff
proof (intro conjI allI impI)
  fix q z v assume z: "get_reg s' q = Some z" "rg_fingerprint z = Some v"
  from g [OF z(1)] z(2) obtain w where w: "get_reg s q = Some w" "rg_fingerprint w = Some v" by auto
  then have "v \<le> sv_fingerprints s" using i unfolding prints_ok_iff by blast
  with le show "v \<le> sv_fingerprints s'" by simp
  fix p z' assume z': "get_reg s' p = Some z'" "rg_fingerprint z' = Some v"
  from g [OF z'(1)] z'(2) obtain w' where w': "get_reg s p = Some w'" "rg_fingerprint w' = Some v" by auto
  show "p = q" using i w w' unfolding prints_ok_iff by blast
qed

lemma install_value_inv:
  assumes i: "share_inv X E A s" and x: "get_reg s r = Some x" "\<not> rg_closed x" "r \<notin> A" "\<not> rg_staged x"
  shows "share_inv X E A (install_value X r c s)"
proof (cases "rg_checksum x = Some c")
  case True
  then show ?thesis using i x by (simp add: install_value_def)
next
  case False
  define l where "l = lease_for X (Some c)"
  define f where "f = (\<lambda>x :: share_reg. x\<lparr>rg_lease := l, rg_checksum := Some c, rg_marker := Suc (rg_marker x)\<rparr>)"
  let ?u = "upd_reg r f (take_claim l s)"
  let ?t = "give_claim (rg_lease x) (?u\<lparr>sv_floors := AList.update (rg_route x) (Suc (rg_marker x)) (sv_floors ?u)\<rparr>)"
  have t: "install_value X r c s = ?t"
    using x False by (simp add: install_value_def Let_def l_def f_def)
  have g: "get_reg ?t q = (if q = r then Some (f x) else get_reg s q)" for q
    by (simp add: get_upd_reg x)
  have rl: "reg_leases ?t c' + (if rg_lease x = Some c' then 1 else 0) = reg_leases s c' + (if l = Some c' then 1 else 0)" for c'
  proof -
    have "reg_leases ?t c' = reg_leases (upd_reg r f s) c'" by (simp add: reg_leases_def upd_reg_def)
    with reg_leases_upd [OF share_invD(1) [OF i] x(1), of f c'] show ?thesis by (simp add: f_def)
  qed
  show ?thesis
    unfolding t
  proof (rule place_kept [OF i])
    show "\<exists>x. get_reg s q = Some x \<and> same_place x z \<and> (q \<notin> E \<longrightarrow> rg_staged z \<longrightarrow> rg_checksum z = rg_checksum x)"
      if "get_reg ?t q = Some z" for q z
      using that [unfolded g] x by (auto simp: f_def same_place_def split: if_splits)
    show "entries_sat (sv_regs ?t) (lease_kept X A)"
      unfolding regs_sat g using share_invD(5) [OF i] x by (auto simp: f_def l_def lease_kept_def)
    show "ledger_ok ?t"
      unfolding ledger_ok_def
    proof
      fix c'
      have "sv_claims s c' = reg_leases s c' + loans s c'" using share_invD(2) [OF i] unfolding ledger_ok_def by blast
      moreover have "sv_claims ?t c' = sv_claims s c' + (if l = Some c' then 1 else 0) - (if rg_lease x = Some c' then 1 else 0)"
        by (simp add: claims_give claims_take)
      moreover have "loans ?t c' = loans s c'" by (simp add: loans_def)
      ultimately show "sv_claims ?t c' = reg_leases ?t c' + loans ?t c'" using rl [of c'] by linarith
    qed
    show "loans_ok ?t" using share_invD(3) [OF i] unfolding loans_ok_def by simp
    have fp: "rg_fingerprint (f x) = rg_fingerprint x" by (simp add: f_def)
    show "prints_ok ?t"
    proof (rule prints_kept [OF share_invD(4) [OF i]])
      show "\<exists>w. get_reg s q = Some w \<and> rg_fingerprint w = rg_fingerprint z" if "get_reg ?t q = Some z" for q z
        using that [unfolded g] x(1) fp by (auto split: if_splits)
    qed simp
  qed simp_all
qed

lemma claims_changed:
  assumes i: "share_inv X E A s"
    and f: "sv_regs s' = sv_regs s" "sv_namespaces s' = sv_namespaces s" "sv_top s' = sv_top s" "sv_records s' = sv_records s"
      "sv_staged s' = sv_staged s" "sv_fingerprints s' = sv_fingerprints s" "sv_next s \<le> sv_next s'"
    and l: "ledger_ok s'" "loans_ok s'"
  shows "share_inv X E A s'"
proof -
  have g: "get_reg s' r = get_reg s r" for r by (rule get_reg_cong [OF f(1)])
  have "regs_ok s'"
    using i f(7) unfolding share_inv_def regs_ok_def regs_sat g f by (meson order_less_le_trans)
  moreover have "top_ok s' = top_ok s" "records_ok s' = records_ok s" "spaces_ok s' = spaces_ok s" "installed_ok E s' = installed_ok E s"
    "staged_ok E s' = staged_ok E s" "prints_ok s' = prints_ok s"
    unfolding top_ok_def records_ok_def spaces_ok_def installed_ok_def staged_ok_def prints_ok_def listed_reg_def main_slot_def g f
    by (rule refl)+
  ultimately show ?thesis using i l unfolding share_inv_def f by simp
qed

lemma borrow_inv:
  assumes i: "share_inv X E A s"
  shows "share_inv X E A (snd (borrow cs s))"
proof (rule claims_changed [OF i])
  have l: "loans (snd (borrow cs s)) c = loans s c + (if cs = Some c then 1 else 0)" for c
    by (simp add: borrow_def loans_def)
  show "ledger_ok (snd (borrow cs s))"
    using share_invD(2) [OF i] l reg_leases_cong [of "snd (borrow cs s)" s]
    unfolding ledger_ok_def by (simp add: borrow_def claims_take)
  show "loans_ok (snd (borrow cs s))"
    using share_invD(3) [OF i] unfolding loans_ok_def borrow_def list_all_iff by (auto simp: less_Suc_eq)
qed (simp_all add: borrow_def)

lemma loans_delete:
  assumes "distinct (map fst d)" "map_of d b = Some cs"
  shows "length (filter (\<lambda>x. x = Some c) (map snd (AList.delete b d))) + (if cs = Some c then 1 else 0)
       = length (filter (\<lambda>x. x = Some c) (map snd d))"
  using assms
proof (induction d)
  case (Cons a d)
  obtain k v where a: "a = (k, v)" by fastforce
  show ?case
  proof (cases "k = b")
    case True
    with Cons.prems a have "AList.delete b d = d" by (intro delete_id) simp
    with True Cons.prems a show ?thesis by simp
  next
    case False
    with Cons a show ?thesis by simp
  qed
qed simp

lemma give_back_inv:
  assumes i: "share_inv X E A s"
  shows "share_inv X E A (give_back b s)"
proof (cases "map_of (sv_borrowed s) b")
  case None
  then show ?thesis using i by (simp add: give_back_def)
next
  case (Some cs)
  let ?t = "give_claim cs (s\<lparr>sv_borrowed := AList.delete b (sv_borrowed s)\<rparr>)"
  have t: "give_back b s = ?t" by (simp add: give_back_def Some)
  have d: "distinct (map fst (sv_borrowed s))" using share_invD(3) [OF i] by (simp add: loans_ok_def)
  have l: "loans ?t c + (if cs = Some c then 1 else 0) = loans s c" for c
    using loans_delete [OF d Some, of c] by (simp add: loans_def)
  show ?thesis
    unfolding t
  proof (rule claims_changed [OF i])
    show "ledger_ok ?t"
      unfolding ledger_ok_def
    proof
      fix c
      have "sv_claims s c = reg_leases s c + loans s c" using share_invD(2) [OF i] unfolding ledger_ok_def by blast
      moreover have "reg_leases ?t c = reg_leases s c" by (simp add: reg_leases_def)
      ultimately show "sv_claims ?t c = reg_leases ?t c + loans ?t c" using l [of c] by (simp add: claims_give)
    qed
    show "loans_ok ?t"
      using share_invD(3) [OF i] unfolding loans_ok_def list_all_iff by (auto simp: delete_keys distinct_removeAll)
  qed simp_all
qed

section \<open>Removing a registration\<close>

definition removed_core :: "nat \<Rightarrow> share_reg \<Rightarrow> server \<Rightarrow> server" where
  "removed_core r x s =
     (let path = ss_path (rg_spec x); name = rg_namespace x;
          s1 = upd_reg r (\<lambda>x. x\<lparr>rg_closed := True, rg_active := False\<rparr>) s;
          s2 = s1\<lparr>sv_staged := removeAll r (sv_staged s1)\<rparr>;
          s3 = (if ss_toplevel (rg_spec x) then s2\<lparr>sv_top := drop_if path r (sv_top s2)\<rparr>
                else s2\<lparr>sv_records := drop_if (name, path) r (sv_records s2)\<rparr>);
          s4 = upd_ns name (\<lambda>n. n\<lparr>ns_records := drop_if path r (ns_records n)\<rparr>) s3;
          s5 = s4\<lparr>sv_floors := AList.update (rg_route x) (max (share_floor s4 (rg_route x)) (rg_marker x)) (sv_floors s4)\<rparr>
      in drop_share_lease r s5)"

lemma remove_same_core:
  assumes "get_reg s r = Some x" "\<not> rg_closed x"
  shows "same_core (removed_core r x s) (remove_registration r s)"
  using assms unfolding remove_registration_def removed_core_def Let_def
  by (simp add: same_core_fields split: option.split)

lemma drop_if_map_of: "map_of (drop_if k r d) k' = (if k' = k \<and> map_of d k = Some r then None else map_of d k')"
  by (simp add: drop_if_def delete_conv')

lemma removed_fields:
  assumes x: "get_reg s r = Some x" and s': "s' = removed_core r x s"
  shows "get_reg s' q = (if q = r then Some (x\<lparr>rg_closed := True, rg_active := False, rg_lease := None\<rparr>) else get_reg s q)"
    "map fst (sv_regs s') = map fst (sv_regs s)" "sv_next s' = sv_next s" "sv_fingerprints s' = sv_fingerprints s"
    "sv_borrowed s' = sv_borrowed s" "sv_staged s' = removeAll r (sv_staged s)"
    "map_of (sv_top s') p = (if ss_toplevel (rg_spec x) \<and> p = ss_path (rg_spec x) \<and> map_of (sv_top s) p = Some r then None else map_of (sv_top s) p)"
    "map_of (sv_records s') k = (if \<not> ss_toplevel (rg_spec x) \<and> k = (rg_namespace x, ss_path (rg_spec x)) \<and> map_of (sv_records s) k = Some r
       then None else map_of (sv_records s) k)"
    "slot_at s' n p = (if n = rg_namespace x \<and> p = ss_path (rg_spec x) \<and> slot_at s n p = Some r then None else slot_at s n p)"
    "sv_claims s' c = sv_claims s c - (if rg_lease x = Some c then 1 else 0)"
proof -
  show "get_reg s' q = (if q = r then Some (x\<lparr>rg_closed := True, rg_active := False, rg_lease := None\<rparr>) else get_reg s q)"
    using x by (simp add: s' removed_core_def Let_def drop_share_lease_def get_upd_reg)
  show "map fst (sv_regs s') = map fst (sv_regs s)" "sv_next s' = sv_next s" "sv_fingerprints s' = sv_fingerprints s"
    "sv_borrowed s' = sv_borrowed s" "sv_staged s' = removeAll r (sv_staged s)"
    using x by (simp_all add: s' removed_core_def Let_def drop_share_lease_def get_upd_reg)
  show "map_of (sv_top s') p = (if ss_toplevel (rg_spec x) \<and> p = ss_path (rg_spec x) \<and> map_of (sv_top s) p = Some r then None else map_of (sv_top s) p)"
    using x by (auto simp: s' removed_core_def Let_def drop_share_lease_def get_upd_reg drop_if_map_of)
  show "map_of (sv_records s') k = (if \<not> ss_toplevel (rg_spec x) \<and> k = (rg_namespace x, ss_path (rg_spec x)) \<and> map_of (sv_records s) k = Some r
       then None else map_of (sv_records s) k)"
    using x by (auto simp: s' removed_core_def Let_def drop_share_lease_def get_upd_reg drop_if_map_of)
  show "slot_at s' n p = (if n = rg_namespace x \<and> p = ss_path (rg_spec x) \<and> slot_at s n p = Some r then None else slot_at s n p)"
    using x by (auto simp: s' removed_core_def Let_def drop_share_lease_def get_upd_reg drop_if_map_of slot_at_def get_upd_ns
        split: option.split)
  show "sv_claims s' c = sv_claims s c - (if rg_lease x = Some c then 1 else 0)"
    using x by (simp add: s' removed_core_def Let_def drop_share_lease_def get_upd_reg claims_give)
qed

lemma removed_leases:
  assumes x: "get_reg s r = Some x" and d: "distinct (map fst (sv_regs s))"
  shows "reg_leases (removed_core r x s) c + (if rg_lease x = Some c then 1 else 0) = reg_leases s c"
proof -
  let ?a = "upd_reg r (\<lambda>x. x\<lparr>rg_closed := True, rg_active := False\<rparr>) s"
  let ?b = "upd_reg r (\<lambda>x. x\<lparr>rg_lease := None\<rparr>) ?a"
  have b: "sv_regs (removed_core r x s) = sv_regs ?b"
    using x by (simp add: removed_core_def Let_def drop_share_lease_def get_upd_reg) (simp add: upd_reg_def)
  have "reg_leases ?b c + (if rg_lease x = Some c then 1 else 0) = reg_leases ?a c"
    using reg_leases_upd [of ?a r "x\<lparr>rg_closed := True, rg_active := False\<rparr>" "\<lambda>x. x\<lparr>rg_lease := None\<rparr>" c] d x
    by (simp add: get_upd_reg)
  also have "reg_leases ?a c = reg_leases s c" by (rule reg_leases_same [OF d x]) simp
  finally show ?thesis using reg_leases_cong [OF b] by simp
qed

lemma inv_shrink:
  assumes i: "share_inv X E A s" and g: "\<And>x. get_reg s r = Some x \<Longrightarrow> rg_closed x"
  shows "share_inv X (E - {r}) (A - {r}) s"
proof -
  have "installed_ok (E - {r}) s"
    unfolding installed_ok_def regs_sat
  proof (intro allI impI)
    fix q z assume z: "get_reg s q = Some z"
    have "(\<not> rg_closed z \<and> \<not> rg_staged z \<and> q \<notin> E \<longrightarrow> main_slot s (rg_namespace z) (rg_spec z) = Some q)
       \<and> (\<not> rg_closed z \<and> rg_staged z \<longrightarrow> List.member (sv_staged s) q)"
      using i z unfolding share_inv_def installed_ok_def regs_sat by blast
    with g z show "(\<not> rg_closed z \<and> \<not> rg_staged z \<and> q \<notin> E - {r} \<longrightarrow> main_slot s (rg_namespace z) (rg_spec z) = Some q)
       \<and> (\<not> rg_closed z \<and> rg_staged z \<longrightarrow> List.member (sv_staged s) q)" by blast
  qed
  moreover have "entries_sat (sv_regs s) (lease_kept X (A - {r}))"
    unfolding regs_sat
  proof (intro allI impI)
    fix q z assume z: "get_reg s q = Some z"
    then have "lease_kept X A q z" using i unfolding share_inv_def regs_sat by blast
    with g z show "lease_kept X (A - {r}) q z" unfolding lease_kept_def by auto
  qed
  moreover have "staged_ok (E - {r}) s"
    unfolding staged_ok_iff
  proof
    fix q assume "q \<in> set (sv_staged s)"
    with i obtain w where "get_reg s q = Some w" "\<not> rg_closed w" "rg_staged w" "q \<notin> E \<longrightarrow> rg_checksum w = None"
      unfolding share_inv_def staged_ok_iff by blast
    with g show "\<exists>x. get_reg s q = Some x \<and> \<not> rg_closed x \<and> rg_staged x \<and> (q \<notin> E - {r} \<longrightarrow> rg_checksum x = None)" by blast
  qed
  ultimately show ?thesis using i unfolding share_inv_def by blast
qed

lemma removed_inv:
  assumes i: "share_inv X E A s" and x: "get_reg s r = Some x" "\<not> rg_closed x"
  shows "share_inv X (E - {r}) (A - {r}) (removed_core r x s)"
proof -
  define s' where s': "s' = removed_core r x s"
  note f = removed_fields [OF x(1) s']
  have main: "main_slot s' n spec = Some q" if "main_slot s n spec = Some q" "q \<noteq> r" for n spec q
    using that unfolding main_slot_def by (auto simp: f split: if_splits)
  have lst: "listed_reg s' q P" if "listed_reg s q P" "q \<noteq> r" for q P
    using that unfolding listed_reg_def f by simp
  have atr: "P x \<and> \<not> rg_staged x" if "listed_reg s r P" for P using that x unfolding listed_reg_def by simp
  have 1: "regs_ok s'"
    using i x(1) unfolding share_inv_def regs_ok_def regs_sat f by (auto split: if_splits)
  have 2: "top_ok s'"
    unfolding top_ok_def entries_sat_iff
  proof (intro allI impI)
    fix p q assume p: "map_of (sv_top s') p = Some q"
    then have m: "map_of (sv_top s) p = Some q" unfolding f by (simp split: if_splits)
    with i have l: "listed_reg s q (\<lambda>x. ss_toplevel (rg_spec x) \<and> ss_path (rg_spec x) = p)"
      unfolding share_inv_def top_ok_def entries_sat_iff by blast
    have "q \<noteq> r" using p m atr l by (auto simp: f split: if_splits)
    with l show "listed_reg s' q (\<lambda>x. ss_toplevel (rg_spec x) \<and> ss_path (rg_spec x) = p)" by (rule lst)
  qed
  have 3: "records_ok s'"
    unfolding records_ok_iff
  proof (intro allI impI)
    fix n p q assume p: "map_of (sv_records s') (n, p) = Some q"
    then have m: "map_of (sv_records s) (n, p) = Some q" unfolding f by (simp split: if_splits)
    with i have l: "listed_reg s q (\<lambda>x. \<not> ss_toplevel (rg_spec x) \<and> rg_namespace x = n \<and> ss_path (rg_spec x) = p)"
      unfolding share_inv_def records_ok_iff by blast
    have "q \<noteq> r" using p m atr l by (auto simp: f split: if_splits)
    with l show "listed_reg s' q (\<lambda>x. \<not> ss_toplevel (rg_spec x) \<and> rg_namespace x = n \<and> ss_path (rg_spec x) = p)" by (rule lst)
  qed
  have 4: "spaces_ok s'"
    unfolding spaces_ok_iff
  proof (intro allI impI)
    fix n p q assume p: "slot_at s' n p = Some q"
    then have m: "slot_at s n p = Some q" unfolding f by (simp split: if_splits)
    with i have l: "listed_reg s q (\<lambda>x. rg_namespace x = n \<and> ss_path (rg_spec x) = p)"
      unfolding share_inv_def spaces_ok_iff by blast
    have "q \<noteq> r" using p m atr l by (auto simp: f split: if_splits)
    with l show "listed_reg s' q (\<lambda>x. rg_namespace x = n \<and> ss_path (rg_spec x) = p)" by (rule lst)
  qed
  have 5: "installed_ok (E - {r}) s'"
    unfolding installed_ok_def regs_sat
  proof (intro allI impI)
    fix q z assume z: "get_reg s' q = Some z"
    show "(\<not> rg_closed z \<and> \<not> rg_staged z \<and> q \<notin> E - {r} \<longrightarrow> main_slot s' (rg_namespace z) (rg_spec z) = Some q)
       \<and> (\<not> rg_closed z \<and> rg_staged z \<longrightarrow> List.member (sv_staged s') q)"
    proof (cases "q = r")
      case True
      with z x show ?thesis unfolding f by auto
    next
      case False
      with z have z': "get_reg s q = Some z" unfolding f by simp
      have "(\<not> rg_closed z \<and> \<not> rg_staged z \<and> q \<notin> E \<longrightarrow> main_slot s (rg_namespace z) (rg_spec z) = Some q)
       \<and> (\<not> rg_closed z \<and> rg_staged z \<longrightarrow> List.member (sv_staged s) q)"
        using i z' unfolding share_inv_def installed_ok_def regs_sat by blast
      with False main show ?thesis unfolding f by simp
    qed
  qed
  have 6: "staged_ok (E - {r}) s'"
    using i unfolding share_inv_def staged_ok_iff f by auto
  have 7: "entries_sat (sv_regs s') (lease_kept X (A - {r}))"
    unfolding regs_sat
  proof (intro allI impI)
    fix q z assume z: "get_reg s' q = Some z"
    show "lease_kept X (A - {r}) q z"
    proof (cases "q = r")
      case True
      with z show ?thesis unfolding f by (auto simp: lease_kept_def)
    next
      case False
      with z have "get_reg s q = Some z" unfolding f by simp
      from share_invD(5) [OF i this] False show ?thesis by (simp add: lease_kept_def)
    qed
  qed
  have d: "distinct (map fst (sv_regs s))" by (rule share_invD(1) [OF i])
  have 8: "ledger_ok s'"
    unfolding ledger_ok_def
  proof
    fix c
    have "sv_claims s c = reg_leases s c + loans s c" using share_invD(2) [OF i] unfolding ledger_ok_def by blast
    with removed_leases [OF x(1) d, of c] show "sv_claims s' c = reg_leases s' c + loans s' c"
      unfolding f loans_def s' [symmetric] by simp
  qed
  have 9: "loans_ok s'" using share_invD(3) [OF i] unfolding loans_ok_def f .
  have 10: "prints_ok s'"
    by (rule prints_kept [OF share_invD(4) [OF i]]) (use x(1) in \<open>auto simp: f split: if_splits\<close>)
  show ?thesis unfolding share_inv_def s' [symmetric] using 1 2 3 4 5 6 7 8 9 10 by blast
qed

lemma remove_inv:
  assumes i: "share_inv X E A s"
  shows "share_inv X (E - {r}) (A - {r}) (remove_registration r s)"
proof (cases "\<exists>x. get_reg s r = Some x \<and> \<not> rg_closed x")
  case True
  then obtain x where x: "get_reg s r = Some x" "\<not> rg_closed x" by blast
  from same_core_inv [OF remove_same_core [OF x] removed_inv [OF i x]] show ?thesis .
next
  case False
  then have "remove_registration r s = s"
    unfolding remove_registration_def by (auto split: option.split)
  with inv_shrink [OF i] False show ?thesis by auto
qed

section \<open>Reserving and publishing\<close>

lemma inv_weaken:
  assumes i: "share_inv X E A s" and le: "E \<subseteq> F"
  shows "share_inv X F A s"
proof -
  have "installed_ok F s" using i le unfolding share_inv_def installed_ok_def regs_sat by blast
  moreover have "staged_ok F s" using i le unfolding share_inv_def staged_ok_iff by blast
  ultimately show ?thesis using i unfolding share_inv_def by blast
qed

definition fresh_reg where
  "fresh_reg x \<longleftrightarrow> \<not> rg_closed x \<and> rg_checksum x = None \<and> rg_lease x = None \<and> rg_fingerprint x = None
     \<and> server_segment (rg_namespace x) \<and> route_for (rg_namespace x) (rg_spec x) = Inr (rg_route x)"

lemma add_reg_inv:
  assumes i: "share_inv X E A s" and x: "fresh_reg x" and A: "sv_next s \<notin> A"
    and s': "s' = s\<lparr>sv_regs := sv_regs s @ [(sv_next s, x)], sv_next := Suc (sv_next s)\<rparr>"
    and s'': "s'' = (if rg_staged x then s'\<lparr>sv_staged := sv_staged s @ [sv_next s]\<rparr> else s')"
  shows "share_inv X (if rg_staged x then E else insert (sv_next s) E) A s''"
proof -
  let ?r = "sv_next s" and ?E = "if rg_staged x then E else insert (sv_next s) E"
  have lt: "q < ?r" if "get_reg s q = Some z" for q z by (rule share_invD(6) [OF i that])
  have none: "map_of (sv_regs s) ?r = None" using lt by (cases "map_of (sv_regs s) ?r") (auto simp: get_reg_def)
  have g: "get_reg s'' q = (if q = ?r then Some x else get_reg s q)" for q
    using none by (auto simp: s'' s' get_reg_def map_add_def split: option.split)
  have f: "sv_top s'' = sv_top s" "sv_records s'' = sv_records s" "sv_namespaces s'' = sv_namespaces s" "sv_claims s'' = sv_claims s"
    "sv_borrowed s'' = sv_borrowed s" "sv_fingerprints s'' = sv_fingerprints s" "sv_next s'' = Suc ?r"
    "map fst (sv_regs s'') = map fst (sv_regs s) @ [?r]"
    "set (sv_staged s'') = (if rg_staged x then insert ?r (set (sv_staged s)) else set (sv_staged s))"
    by (simp_all add: s'' s')
  have lst: "listed_reg s'' q P" if "listed_reg s q P" for q P
    using that lt unfolding listed_iff g by fastforce
  have m: "main_slot s'' n spec = main_slot s n spec" for n spec by (simp add: main_slot_def f)
  have sl: "slot_at s'' n p = slot_at s n p" for n p by (simp add: slot_at_def f)
  have "?r \<notin> set (map fst (sv_regs s))" using none by (simp add: map_of_eq_None_iff)
  then have 1: "regs_ok s''"
    using i x unfolding share_inv_def regs_ok_def regs_sat g f fresh_reg_def by (auto simp: less_Suc_eq)
  have 2: "top_ok s''" using i lst unfolding share_inv_def top_ok_def entries_sat_iff f by blast
  have 3: "records_ok s''" using i lst unfolding share_inv_def records_ok_iff f by blast
  have 4: "spaces_ok s''" using i lst unfolding share_inv_def spaces_ok_iff sl by blast
  have 5: "installed_ok ?E s''"
    unfolding installed_ok_def regs_sat m
  proof (intro allI impI)
    fix q z assume z: "get_reg s'' q = Some z"
    show "(\<not> rg_closed z \<and> \<not> rg_staged z \<and> q \<notin> ?E \<longrightarrow> main_slot s (rg_namespace z) (rg_spec z) = Some q)
       \<and> (\<not> rg_closed z \<and> rg_staged z \<longrightarrow> List.member (sv_staged s'') q)"
    proof (cases "q = ?r")
      case True
      with z show ?thesis unfolding g by (auto simp: f)
    next
      case False
      with z have "get_reg s q = Some z" unfolding g by simp
      with i have "(\<not> rg_closed z \<and> \<not> rg_staged z \<and> q \<notin> E \<longrightarrow> main_slot s (rg_namespace z) (rg_spec z) = Some q)
         \<and> (\<not> rg_closed z \<and> rg_staged z \<longrightarrow> List.member (sv_staged s) q)"
        unfolding share_inv_def installed_ok_def regs_sat by blast
      then show ?thesis by (auto simp: f)
    qed
  qed
  have 6: "staged_ok ?E s''"
    unfolding staged_ok_iff
  proof
    fix q assume q: "q \<in> set (sv_staged s'')"
    show "\<exists>z. get_reg s'' q = Some z \<and> \<not> rg_closed z \<and> rg_staged z \<and> (q \<notin> ?E \<longrightarrow> rg_checksum z = None)"
    proof (cases "q \<in> set (sv_staged s)")
      case True
      with i obtain w where w: "get_reg s q = Some w" "\<not> rg_closed w" "rg_staged w" "q \<notin> E \<longrightarrow> rg_checksum w = None"
        unfolding share_inv_def staged_ok_iff by blast
      have "q \<noteq> ?r" using lt [OF w(1)] by simp
      with w show ?thesis unfolding g by auto
    next
      case False
      with q x show ?thesis by (auto simp: g f fresh_reg_def split: if_splits)
    qed
  qed
  have 7: "entries_sat (sv_regs s'') (lease_kept X A)"
    unfolding regs_sat g using share_invD(5) [OF i] x A by (auto simp: lease_kept_def fresh_reg_def lease_for_def)
  have 8: "ledger_ok s''"
    using share_invD(2) [OF i] x unfolding ledger_ok_def f by (simp add: s'' s' reg_leases_def loans_def fresh_reg_def)
  have 9: "loans_ok s''"
    using share_invD(3) [OF i] unfolding loans_ok_def f list_all_iff by auto
  have 10: "prints_ok s''"
    by (rule prints_kept [OF share_invD(4) [OF i]]) (use x in \<open>auto simp: g f fresh_reg_def split: if_splits\<close>)
  show ?thesis unfolding share_inv_def using 1 2 3 4 5 6 7 8 9 10 by blast
qed

lemma adopt_inv:
  assumes i: "share_inv X E A s" and r: "get_reg s r = Some x" "\<not> rg_closed x" "r \<in> E" "r \<notin> A" "rg_lease x = None"
    and h: "get_reg s h = Some y" "\<not> rg_closed y" "\<not> rg_staged y" "h \<notin> A" and n: "h \<noteq> r"
  shows "share_inv X E (insert h A) (adopt_held r h s)"
proof -
  define f where "f = (\<lambda>x :: share_reg. x\<lparr>rg_checksum := rg_checksum y, rg_marker := max (rg_marker x) (rg_marker y),
     rg_lease := rg_lease y, rg_held := True, rg_reattaching := True, rg_reattached_from := Some h,
     rg_flags_changed := (ss_readonly (rg_spec x) \<noteq> ss_readonly (rg_spec y)
       \<or> rg_content_type x \<noteq> rg_content_type y \<or> rg_binary x \<noteq> rg_binary y)\<rparr>)"
  define s1 where "s1 = upd_reg r f s"
  define s2 where "s2 = upd_reg h (\<lambda>x. x\<lparr>rg_lease := None\<rparr>) s1"
  have s2: "adopt_held r h s = s2" using h by (simp add: adopt_held_def s2_def s1_def f_def)
  have g: "get_reg s2 q = (if q = h then Some (y\<lparr>rg_lease := None\<rparr>) else if q = r then Some (f x) else get_reg s q)" for q
    using r h n by (auto simp: s2_def s1_def get_upd_reg)
  have d: "distinct (map fst (sv_regs s))" "distinct (map fst (sv_regs s1))"
    using share_invD(1) [OF i] by (simp_all add: s1_def)
  have rl: "reg_leases s2 c = reg_leases s c" for c
    using reg_leases_upd [OF d(1) r(1), of f c, folded s1_def]
      reg_leases_upd [OF d(2), of h y "\<lambda>x. x\<lparr>rg_lease := None\<rparr>" c, folded s2_def] h(1) n r(5)
    by (auto simp: s1_def get_upd_reg f_def split: if_splits)
  show ?thesis
    unfolding s2
  proof (rule place_kept [OF i])
    show "\<exists>x. get_reg s q = Some x \<and> same_place x z \<and> (q \<notin> E \<longrightarrow> rg_staged z \<longrightarrow> rg_checksum z = rg_checksum x)"
      if "get_reg s2 q = Some z" for q z
      using that r h by (auto simp: g f_def same_place_def split: if_splits)
    show "entries_sat (sv_regs s2) (lease_kept X (insert h A))"
      unfolding regs_sat g
      using share_invD(5) [OF i] share_invD(5) [OF i r(1)] share_invD(5) [OF i h(1)] r h n
      by (auto simp: lease_kept_def f_def split: if_splits)
    show "ledger_ok s2"
      using share_invD(2) [OF i] rl unfolding ledger_ok_def by (simp add: s2_def s1_def loans_def)
    show "loans_ok s2" using share_invD(3) [OF i] unfolding loans_ok_def by (simp add: s2_def s1_def)
    show "prints_ok s2"
      by (rule prints_kept [OF share_invD(4) [OF i]])
        (use r h in \<open>auto simp: s2_def s1_def get_upd_reg f_def split: if_splits\<close>)
  qed (simp_all add: s2_def s1_def)
qed

text \<open>Whatever was in the slots of the new registration is left as an exception.\<close>

lemma publish_inv:
  assumes i: "share_inv X E A s" and x: "get_reg s r = Some x" "\<not> rg_closed x"
    and y: "same_place (x\<lparr>rg_staged := False\<rparr>) y" "rg_lease y = rg_lease x" "rg_checksum y = rg_checksum x" "rg_fingerprint y = rg_fingerprint x"
    and g: "\<And>q. get_reg s' q = (if q = r then Some y else get_reg s q)"
    and keys: "map fst (sv_regs s') = map fst (sv_regs s)" "sv_next s' = sv_next s" "sv_claims s' = sv_claims s"
      "sv_borrowed s' = sv_borrowed s" "sv_fingerprints s' = sv_fingerprints s" "sv_staged s' = removeAll r (sv_staged s)"
    and leases: "\<And>c. reg_leases s' c = reg_leases s c"
    and top: "sv_top s' = (if ss_toplevel (rg_spec x) then AList.update (ss_path (rg_spec x)) r (sv_top s) else sv_top s)"
    and recs: "sv_records s' = (if ss_toplevel (rg_spec x) then sv_records s
        else AList.update (rg_namespace x, ss_path (rg_spec x)) r (sv_records s))"
    and slots: "\<And>n p q. slot_at s' n p = Some q \<Longrightarrow> slot_at s n p = Some q \<or> (q = r \<and> n = rg_namespace x \<and> p = ss_path (rg_spec x))"
  shows "share_inv X ((E - {r}) \<union> set (listed (main_slot s (rg_namespace x) (rg_spec x)))) A s'"
proof -
  let ?E = "(E - {r}) \<union> set (listed (main_slot s (rg_namespace x) (rg_spec x)))"
  have y': "rg_namespace y = rg_namespace x" "rg_spec y = rg_spec x" "rg_route y = rg_route x" "\<not> rg_closed y" "\<not> rg_staged y"
    using y(1) x(2) by (simp_all add: same_place_def)
  have lst: "listed_reg s' q P" if l: "listed_reg s q P" "P x \<Longrightarrow> P y" for q P
    using l x y' unfolding listed_iff g by (cases "q = r") auto
  have own: "listed_reg s' r P" if "P y" for P using that y' unfolding listed_iff g by auto
  have 1: "regs_ok s'"
    unfolding regs_ok_def regs_sat keys
  proof (intro conjI allI impI)
    have d: "distinct (map fst (sv_regs s))" and o: "\<And>q w. get_reg s q = Some w \<Longrightarrow> q < sv_next s
        \<and> server_segment (rg_namespace w) \<and> route_for (rg_namespace w) (rg_spec w) = Inr (rg_route w)"
      using i unfolding share_inv_def regs_ok_def regs_sat by blast+
    show "distinct (map fst (sv_regs s))" by (rule d)
    fix q z assume z: "get_reg s' q = Some z"
    have "\<exists>w. get_reg s q = Some w \<and> rg_namespace z = rg_namespace w \<and> rg_spec z = rg_spec w \<and> rg_route z = rg_route w"
    proof (cases "q = r")
      case True
      with z have "z = y" unfolding g by simp
      with True x(1) y'(1-3) show ?thesis by metis
    next
      case False
      with z have "get_reg s q = Some z" unfolding g by simp
      then show ?thesis by blast
    qed
    then obtain w where w: "get_reg s q = Some w" "rg_namespace z = rg_namespace w" "rg_spec z = rg_spec w" "rg_route z = rg_route w"
      by blast
    from o [OF w(1)] show "q < sv_next s" "server_segment (rg_namespace z)" "route_for (rg_namespace z) (rg_spec z) = Inr (rg_route z)"
      unfolding w by blast+
  qed
  have 2: "top_ok s'"
    unfolding top_ok_def entries_sat_iff
  proof (intro allI impI)
    fix p q assume "map_of (sv_top s') p = Some q"
    then have "map_of (sv_top s) p = Some q \<or> (q = r \<and> ss_toplevel (rg_spec x) \<and> p = ss_path (rg_spec x))"
      unfolding top by (simp add: update_conv' split: if_splits)
    then consider "map_of (sv_top s) p = Some q" | "q = r" "ss_toplevel (rg_spec x)" "p = ss_path (rg_spec x)" by blast
    then show "listed_reg s' q (\<lambda>x. ss_toplevel (rg_spec x) \<and> ss_path (rg_spec x) = p)"
    proof cases
      case 1
      with i have "listed_reg s q (\<lambda>x. ss_toplevel (rg_spec x) \<and> ss_path (rg_spec x) = p)"
        unfolding share_inv_def top_ok_def entries_sat_iff by blast
      then show ?thesis by (rule lst) (simp add: y')
    next
      case 2
      then show ?thesis using own y' by simp
    qed
  qed
  have 3: "records_ok s'"
    unfolding records_ok_iff
  proof (intro allI impI)
    fix n p q assume "map_of (sv_records s') (n, p) = Some q"
    then have "map_of (sv_records s) (n, p) = Some q
        \<or> (q = r \<and> \<not> ss_toplevel (rg_spec x) \<and> p = ss_path (rg_spec x) \<and> n = rg_namespace x)"
      unfolding recs by (simp add: update_conv' split: if_splits)
    then consider "map_of (sv_records s) (n, p) = Some q"
      | "q = r" "\<not> ss_toplevel (rg_spec x)" "p = ss_path (rg_spec x)" "n = rg_namespace x" by blast
    then show "listed_reg s' q (\<lambda>x. \<not> ss_toplevel (rg_spec x) \<and> rg_namespace x = n \<and> ss_path (rg_spec x) = p)"
    proof cases
      case 1
      with i have "listed_reg s q (\<lambda>x. \<not> ss_toplevel (rg_spec x) \<and> rg_namespace x = n \<and> ss_path (rg_spec x) = p)"
        unfolding share_inv_def records_ok_iff by blast
      then show ?thesis by (rule lst) (simp add: y')
    next
      case 2
      then show ?thesis using own y' by simp
    qed
  qed
  have 4: "spaces_ok s'"
    unfolding spaces_ok_iff
  proof (intro allI impI)
    fix n p q assume "slot_at s' n p = Some q"
    with slots consider "slot_at s n p = Some q" | "q = r" "n = rg_namespace x" "p = ss_path (rg_spec x)" by blast
    then show "listed_reg s' q (\<lambda>x. rg_namespace x = n \<and> ss_path (rg_spec x) = p)"
    proof cases
      case 1
      with i have "listed_reg s q (\<lambda>x. rg_namespace x = n \<and> ss_path (rg_spec x) = p)"
        unfolding share_inv_def spaces_ok_iff by blast
      then show ?thesis by (rule lst) (simp add: y')
    next
      case 2
      then show ?thesis using own y' by simp
    qed
  qed
  have main: "main_slot s' n spec = (if ss_toplevel spec = ss_toplevel (rg_spec x) \<and> ss_path spec = ss_path (rg_spec x)
      \<and> (ss_toplevel spec \<or> n = rg_namespace x) then Some r else main_slot s n spec)" for n spec
    by (auto simp: main_slot_def top recs update_conv')
  have same: "main_slot s n spec = main_slot s (rg_namespace x) (rg_spec x)"
    if "ss_toplevel spec = ss_toplevel (rg_spec x)" "ss_path spec = ss_path (rg_spec x)" "ss_toplevel spec \<or> n = rg_namespace x" for n spec
    using that by (auto simp: main_slot_def)
  have 5: "installed_ok ?E s'"
    unfolding installed_ok_def regs_sat
  proof (intro allI impI)
    fix q z assume z: "get_reg s' q = Some z"
    show "(\<not> rg_closed z \<and> \<not> rg_staged z \<and> q \<notin> ?E \<longrightarrow> main_slot s' (rg_namespace z) (rg_spec z) = Some q)
       \<and> (\<not> rg_closed z \<and> rg_staged z \<longrightarrow> List.member (sv_staged s') q)"
    proof (cases "q = r")
      case True
      with z y' show ?thesis unfolding g main by auto
    next
      case False
      with z have "get_reg s q = Some z" unfolding g by simp
      with i have b: "(\<not> rg_closed z \<and> \<not> rg_staged z \<and> q \<notin> E \<longrightarrow> main_slot s (rg_namespace z) (rg_spec z) = Some q)
         \<and> (\<not> rg_closed z \<and> rg_staged z \<longrightarrow> List.member (sv_staged s) q)"
        unfolding share_inv_def installed_ok_def regs_sat by blast
      with False same [of "rg_spec z" "rg_namespace z"] show ?thesis
        unfolding main keys by (auto simp: listed_def)
    qed
  qed
  have 6: "staged_ok ?E s'"
    using i unfolding share_inv_def staged_ok_iff g keys by auto
  have 7: "entries_sat (sv_regs s') (lease_kept X A)"
    unfolding regs_sat g using share_invD(5) [OF i] share_invD(5) [OF i x(1)] y y' x(2) by (auto simp: lease_kept_def)
  have 8: "ledger_ok s'" using share_invD(2) [OF i] leases unfolding ledger_ok_def keys loans_def by simp
  have 9: "loans_ok s'" using share_invD(3) [OF i] unfolding loans_ok_def keys .
  have 10: "prints_ok s'"
    by (rule prints_kept [OF share_invD(4) [OF i]]) (use x y in \<open>auto simp: g keys split: if_splits\<close>)
  show ?thesis unfolding share_inv_def using 1 2 3 4 5 6 7 8 9 10 by blast
qed

end
