(* ===== verification/Share_Invariant.thy ===== *)
theory Share_Invariant
  imports Share_Tables
begin

text \<open>
  Every operation of the share server keeps its invariant.
\<close>

section \<open>Routes\<close>

lemma hex_upper_no_slash: "n < 16 \<Longrightarrow> hex_upper n \<noteq> CHR ''/''"
proof
  assume "n < 16" "hex_upper n = CHR ''/''"
  then have "of_char (hex_upper n) = (47 :: nat)" by simp
  then show False using \<open>n < 16\<close> by (auto simp: hex_upper_def split: if_splits)
qed

lemma quote_no_slash: "CHR ''/'' \<notin> set (quote s)"
proof -
  have "CHR ''/'' \<notin> set (quote_char c)" for c
  proof -
    have n: "(of_char c :: nat) < 256" by (rule nat_of_char_less_256)
    then have d: "(of_char c :: nat) div 16 < 16" by (intro less_mult_imp_div_less) simp
    have al: "\<not> is_alnum CHR ''/''" by code_simp
    show ?thesis
      using hex_upper_no_slash [OF d] hex_upper_no_slash [of "of_char c mod 16"] al
      by (auto simp: quote_char_def)
  qed
  then show ?thesis by (simp add: quote_def)
qed

definition slashes :: "string \<Rightarrow> nat" where
  "slashes s = length (filter (\<lambda>c. c = CHR ''/'') s)"

lemma slashes_join: "slashes (join_slash ps) = length ps"
proof (induction ps)
  case (Cons p ps)
  have "filter (\<lambda>c. c = CHR ''/'') (quote p) = []"
    using quote_no_slash [of p] by (auto simp: filter_empty_conv)
  with Cons show ?case by (simp add: slashes_def join_slash_def)
qed (simp add: slashes_def join_slash_def)

lemma route_slashes:
  assumes "route_for n spec = Inr route"
  shows "ss_toplevel spec \<longleftrightarrow> slashes route = 1"
proof -
  have ne: "split_slash s \<noteq> []" for s by (induction s) (auto split: list.split)
  show ?thesis
    using assms ne [of "ss_path spec"] slashes_join
    by (auto simp: route_for_def Let_def split: if_splits)
qed

lemma route_for_cong:
  "ss_path a = ss_path b \<Longrightarrow> ss_toplevel a = ss_toplevel b \<Longrightarrow> ss_toplevel a \<or> n = m \<Longrightarrow> route_for n a = route_for m b"
  unfolding route_for_def Let_def by (cases "ss_toplevel a") simp_all

text \<open>What is in the slot of a share has its route.\<close>

lemma slot_reg:
  assumes i: "share_inv X E A s" and m: "main_slot s n spec = Some q"
  obtains y where "get_reg s q = Some y" "\<not> rg_closed y" "\<not> rg_staged y" "ss_toplevel (rg_spec y) = ss_toplevel spec"
    "ss_path (rg_spec y) = ss_path spec" "ss_toplevel spec \<or> rg_namespace y = n"
proof (cases "ss_toplevel spec")
  case True
  with m i have "listed_reg s q (\<lambda>x. ss_toplevel (rg_spec x) \<and> ss_path (rg_spec x) = ss_path spec)"
    unfolding main_slot_def share_inv_def top_ok_def entries_sat_iff by simp
  with True that show ?thesis unfolding listed_iff by blast
next
  case False
  with m i have "listed_reg s q (\<lambda>x. \<not> ss_toplevel (rg_spec x) \<and> rg_namespace x = n \<and> ss_path (rg_spec x) = ss_path spec)"
    unfolding main_slot_def share_inv_def records_ok_iff by simp
  with False that show ?thesis unfolding listed_iff by blast
qed

lemma reg_route:
  assumes "share_inv X E A s" "get_reg s q = Some y"
  shows "route_for (rg_namespace y) (rg_spec y) = Inr (rg_route y)"
  using assms unfolding share_inv_def regs_ok_def regs_sat by blast

lemma slot_route:
  assumes i: "share_inv X E A s" and m: "main_slot s n spec = Some q" and r: "route_for n spec = Inr route"
    and y: "get_reg s q = Some y"
  shows "rg_route y = route"
proof -
  from slot_reg [OF i m] y have "ss_toplevel (rg_spec y) = ss_toplevel spec"
    "ss_path (rg_spec y) = ss_path spec" "ss_toplevel spec \<or> rg_namespace y = n" by auto
  then have "route_for (rg_namespace y) (rg_spec y) = route_for n spec" by (intro route_for_cong) auto
  with reg_route [OF i y] r show ?thesis by simp
qed

lemma held_is_main:
  assumes i: "share_inv X E A s" and r: "route_for n spec = Inr route"
    and h: "held_registration_for s n spec route = Some h"
  obtains y where "get_reg s h = Some y" "\<not> rg_closed y" "\<not> rg_staged y" "rg_route y = route" "rg_held y"
    "h \<notin> E \<Longrightarrow> main_slot s n spec = Some h"
proof (cases "fits_held s route (key_slot s n spec)")
  case True
  with h have k: "slot_at s n (ss_path spec) = Some h" by (simp add: held_registration_for_def key_slot_at)
  with i have "listed_reg s h (\<lambda>x. rg_namespace x = n \<and> ss_path (rg_spec x) = ss_path spec)"
    unfolding share_inv_def spaces_ok_iff by blast
  then obtain y where y: "get_reg s h = Some y" "\<not> rg_closed y" "\<not> rg_staged y" "rg_namespace y = n" "ss_path (rg_spec y) = ss_path spec"
    unfolding listed_iff by blast
  from True k y(1) have f: "rg_held y" "rg_route y = route" by (simp_all add: fits_held_def key_slot_at)
  have "ss_toplevel (rg_spec y) = ss_toplevel spec"
    using route_slashes [OF reg_route [OF i y(1)]] route_slashes [OF r] f by simp
  with y have "main_slot s (rg_namespace y) (rg_spec y) = main_slot s n spec" by (simp add: main_slot_def)
  moreover have "h \<notin> E \<Longrightarrow> main_slot s (rg_namespace y) (rg_spec y) = Some h"
    using i y unfolding share_inv_def installed_ok_def regs_sat by blast
  ultimately show ?thesis using that [OF y(1-3) f(2) f(1)] by simp
next
  case False
  with h have m: "main_slot s n spec = Some h" "fits_held s route (Some h)"
    by (auto simp: held_registration_for_def split: if_splits)
  from slot_reg [OF i m(1)] obtain y where y: "get_reg s h = Some y" "\<not> rg_closed y" "\<not> rg_staged y" by blast
  with m(2) have "rg_held y" "rg_route y = route" by (simp_all add: fits_held_def)
  with that y m(1) show ?thesis by blast
qed

section \<open>Publishing\<close>

lemma install_fields:
  "sv_regs (install r n spec s) = sv_regs s" "sv_next (install r n spec s) = sv_next s" "sv_claims (install r n spec s) = sv_claims s"
  "sv_borrowed (install r n spec s) = sv_borrowed s" "sv_fingerprints (install r n spec s) = sv_fingerprints s"
  "sv_staged (install r n spec s) = sv_staged s"
  "sv_top (install r n spec s) = (if ss_toplevel spec then AList.update (ss_path spec) r (sv_top s) else sv_top s)"
  "sv_records (install r n spec s) = (if ss_toplevel spec then sv_records s else AList.update (n, ss_path spec) r (sv_records s))"
  by (simp_all add: install_def)

lemma install_get [simp]: "get_reg (install r n spec s) q = get_reg s q"
  by (simp add: get_reg_def install_fields)

lemma install_slot:
  "slot_at (install r n spec s) m p = Some q \<Longrightarrow> slot_at s m p = Some q \<or> (q = r \<and> m = n \<and> p = ss_path spec)"
  by (auto simp: install_def slot_at_def get_upd_ns update_conv' split: option.splits if_splits)

lemma install_inv:
  assumes i: "share_inv X E A s" and x: "get_reg s r = Some x" "\<not> rg_closed x" "\<not> rg_staged x" "r \<notin> set (sv_staged s)"
  shows "share_inv X ((E - {r}) \<union> set (listed (main_slot s (rg_namespace x) (rg_spec x)))) A
    (install r (rg_namespace x) (rg_spec x) s)"
  by (rule publish_inv [OF i x(1,2), of x])
    (use x in \<open>auto simp: same_place_def install_fields reg_leases_def dest: install_slot\<close>)

definition staged_published :: "nat \<Rightarrow> share_reg \<Rightarrow> nat \<Rightarrow> server \<Rightarrow> server" where
  "staged_published r x m s =
     (let s2 = install r (rg_namespace x) (rg_spec x) (upd_reg r (\<lambda>x. x\<lparr>rg_marker := max (rg_marker x) m, rg_staged := False\<rparr>) s)
      in s2\<lparr>sv_staged := removeAll r (sv_staged s2)\<rparr>)"

lemma slot_staged [simp]: "slot_at (s\<lparr>sv_staged := l\<rparr>) n p = slot_at s n p" "slot_at (upd_reg r f s) n p = slot_at s n p"
  by (simp_all add: slot_at_def)

lemma staged_published_inv:
  assumes i: "share_inv X E A s" and x: "get_reg s r = Some x" "\<not> rg_closed x"
  shows "share_inv X ((E - {r}) \<union> set (listed (main_slot s (rg_namespace x) (rg_spec x)))) A (staged_published r x m s)"
proof -
  let ?f = "\<lambda>x :: share_reg. x\<lparr>rg_marker := max (rg_marker x) m, rg_staged := False\<rparr>"
  have l: "reg_leases (staged_published r x m s) c = reg_leases s c" for c
  proof -
    have "reg_leases (staged_published r x m s) c = reg_leases (upd_reg r ?f s) c"
      by (simp add: staged_published_def Let_def reg_leases_def install_fields)
    also have "\<dots> = reg_leases s c" by (rule reg_leases_same [OF share_invD(1) [OF i] x(1)]) simp
    finally show ?thesis .
  qed
  show ?thesis
  proof (rule publish_inv [OF i x, of "?f x"])
    show "get_reg (staged_published r x m s) q = (if q = r then Some (?f x) else get_reg s q)" for q
      using x by (simp add: staged_published_def Let_def get_upd_reg)
    show "slot_at (staged_published r x m s) n p = Some q \<Longrightarrow> slot_at s n p = Some q \<or> (q = r \<and> n = rg_namespace x \<and> p = ss_path (rg_spec x))"
      for n p q using install_slot [of r "rg_namespace x" "rg_spec x" "upd_reg r ?f s" n p q]
      by (simp add: staged_published_def Let_def)
    show "reg_leases (staged_published r x m s) c = reg_leases s c" for c by (rule l)
  qed (simp_all add: staged_published_def Let_def install_fields same_place_def)
qed

lemma adopt_fields [simp]:
  "main_slot (adopt_held r h s) n spec = main_slot s n spec" "slot_at (adopt_held r h s) n p = slot_at s n p"
  "sv_staged (adopt_held r h s) = sv_staged s" "sv_floors (adopt_held r h s) = sv_floors s" "sv_next (adopt_held r h s) = sv_next s"
  by (simp_all add: adopt_held_def main_slot_def slot_at_def split: option.split)

text \<open>The identity of a registration does not change.\<close>

definition same_id where
  "same_id x y \<longleftrightarrow> rg_namespace y = rg_namespace x \<and> rg_spec y = rg_spec x \<and> rg_route y = rg_route x \<and> rg_owner y = rg_owner x"

lemma adopt_get:
  assumes "get_reg s q = Some x"
  shows "\<exists>y. get_reg (adopt_held r h s) q = Some y \<and> same_id x y \<and> rg_closed y = rg_closed x \<and> rg_staged y = rg_staged x"
  using assms by (cases "q = h"; cases "q = r") (auto simp: adopt_held_def get_upd_reg same_id_def split: option.split)

lemma publish_staged_inv:
  assumes i: "share_inv X E A s" and r: "r \<in> set (sv_staged s)" "r \<notin> E" "r \<notin> A"
    and h: "\<forall>x h. get_reg s r = Some x \<longrightarrow> held_registration_for s (rg_namespace x) (rg_spec x) (rg_route x) = Some h \<longrightarrow> h \<notin> A"
    and p: "publish_staged r s = (olds, s')"
  shows "\<exists>x E' A'. get_reg s r = Some x \<and> share_inv X E' A' s' \<and> E' \<subseteq> E \<union> set olds \<and> A' \<subseteq> A \<union> set olds
      \<and> (\<forall>q\<in>(E' - E) \<union> (A' - A). \<exists>y. get_reg s q = Some y \<and> \<not> rg_staged y)
      \<and> (\<forall>q\<in>A' - A. \<exists>y. get_reg s q = Some y \<and> rg_route y = rg_route x)
      \<and> sv_staged s' = removeAll r (sv_staged s)"
proof -
  from i r(1,2) obtain x where x: "get_reg s r = Some x" "\<not> rg_closed x" "rg_staged x" "rg_checksum x = None"
    unfolding share_inv_def staged_ok_iff by blast
  define name spec where "name = rg_namespace x" and "spec = rg_spec x"
  define held where "held = held_registration_for s name spec (rg_route x)"
  define s1 where "s1 = (case held of Some h \<Rightarrow> adopt_held r h s | None \<Rightarrow> s)"
  define m where "m = max (max (old_marker s1 (key_slot s name spec)) (old_marker s1 (main_slot s name spec))) (share_floor s1 (rg_route x))"
  define s2 where "s2 = staged_published r x m s1"
  note rt = reg_route [OF i x(1)]
  have olds: "olds = listed held @ listed (key_slot s name spec) @ listed (main_slot s name spec)"
    and s': "s' = offer_state_graph name (rg_state_graph x) (upd_ns name (\<lambda>n. n\<lparr>ns_staged_claim := False\<rparr>) s2)"
    using p x(1) by (simp_all add: publish_staged_def Let_def name_def spec_def held_def s1_def m_def s2_def staged_published_def)
  have lease: "rg_lease x = None"
    using share_invD(5) [OF i x(1)] x r by (simp add: lease_kept_def lease_for_def)
  let ?E = "insert r E"
  let ?A = "A \<union> set (listed held)"
  have heldp: "\<exists>y. get_reg s h = Some y \<and> \<not> rg_closed y \<and> \<not> rg_staged y \<and> rg_route y = rg_route x" if "held = Some h" for h
    using held_is_main [OF i rt that [unfolded held_def name_def spec_def]] by blast
  have 1: "share_inv X ?E ?A s1"
  proof (cases held)
    case None
    then show ?thesis using inv_weaken [OF i, of ?E] by (auto simp: s1_def listed_def)
  next
    case (Some h')
    from heldp [OF Some] obtain y where y: "get_reg s h' = Some y" "\<not> rg_closed y" "\<not> rg_staged y" by blast
    have "h' \<noteq> r" using x(1,3) y(1,3) by auto
    moreover have "h' \<notin> A" using h x(1) Some unfolding held_def name_def spec_def by blast
    ultimately have "share_inv X ?E (insert h' A) (adopt_held r h' s)"
      using adopt_inv [OF inv_weaken [OF i, of ?E] x(1,2) _ r(3) lease y] by blast
    then show ?thesis using Some by (simp add: s1_def listed_def)
  qed
  have gx: "\<exists>z. get_reg s1 r = Some z \<and> \<not> rg_closed z \<and> rg_namespace z = name \<and> rg_spec z = spec"
  proof (cases held)
    case None
    then show ?thesis using x by (simp add: s1_def name_def spec_def)
  next
    case (Some h')
    from adopt_get [OF x(1), of r h'] show ?thesis
      using x Some by (auto simp: s1_def name_def spec_def same_id_def)
  qed
  then obtain z where z: "get_reg s1 r = Some z" "\<not> rg_closed z" "rg_namespace z = name" "rg_spec z = spec" by blast
  have sp: "staged_published r x m s1 = staged_published r z m s1"
    by (simp add: staged_published_def z name_def [symmetric] spec_def [symmetric])
  have mn: "main_slot s1 name spec = main_slot s name spec" and st: "sv_staged s1 = sv_staged s"
    by (simp_all add: s1_def split: option.split)
  let ?E' = "(?E - {r}) \<union> set (listed (main_slot s name spec))"
  have 2: "share_inv X ?E' ?A s2"
    using staged_published_inv [OF 1 z(1,2), of m] unfolding s2_def sp z mn .
  have "same_core s2 s'"
    unfolding s' by (rule same_core_trans [OF same_core_upd_ns same_core_offer]) simp
  from same_core_inv [OF this 2] have 3: "share_inv X ?E' ?A s'" .
  have "sv_staged s' = sv_staged s2" using \<open>same_core s2 s'\<close> by (simp add: same_core_def)
  then have 4: "sv_staged s' = removeAll r (sv_staged s)"
    by (simp add: s2_def staged_published_def Let_def install_fields st)
  have 5: "\<exists>y. get_reg s q = Some y \<and> \<not> rg_staged y" if "q \<in> set (listed (main_slot s name spec))" for q
    using that slot_reg [OF i, of name spec q] by (auto simp: listed_def split: option.splits)
  have 6: "\<exists>y. get_reg s q = Some y \<and> \<not> rg_staged y \<and> rg_route y = rg_route x" if "q \<in> set (listed held)" for q
    using that heldp by (auto simp: listed_def split: option.splits)
  show ?thesis
  proof (intro exI conjI)
    show "get_reg s r = Some x" by (rule x(1))
    show "share_inv X ?E' ?A s'" by (rule 3)
    show "?E' \<subseteq> E \<union> set olds" "?A \<subseteq> A \<union> set olds" by (auto simp: olds)
    show "\<forall>q\<in>(?E' - E) \<union> (?A - A). \<exists>y. get_reg s q = Some y \<and> \<not> rg_staged y" using 5 6 by blast
    show "\<forall>q\<in>?A - A. \<exists>y. get_reg s q = Some y \<and> rg_route y = rg_route x" using 6 by blast
    show "sv_staged s' = removeAll r (sv_staged s)" by (rule 4)
  qed
qed

section \<open>How registrations move\<close>

text \<open>
  A registration keeps its identity, never reopens and never becomes staged again. Once it is
  published, its marker never falls and rises with every change of the checksum. A fingerprint
  that changes is newer than all fingerprints before.
\<close>

definition reg_later :: "server \<Rightarrow> share_reg \<Rightarrow> share_reg \<Rightarrow> bool" where
  "reg_later s x y \<longleftrightarrow>
     same_id x y \<and> rg_session y = rg_session x \<and> rg_celltype y = rg_celltype x
     \<and> (rg_closed x \<longrightarrow> rg_closed y) \<and> rg_ws x \<le> rg_ws y
     \<and> (\<not> rg_staged x \<longrightarrow> \<not> rg_staged y \<and> rg_marker x \<le> rg_marker y
          \<and> (rg_checksum y \<noteq> rg_checksum x \<longrightarrow> rg_marker x < rg_marker y))
     \<and> (rg_fingerprint y = rg_fingerprint x
        \<or> (case rg_fingerprint y of None \<Rightarrow> False | Some f \<Rightarrow> sv_fingerprints s < f))"

definition server_later :: "nat set \<Rightarrow> server \<Rightarrow> server \<Rightarrow> bool" where
  "server_later N s s' \<longleftrightarrow> sv_fingerprints s \<le> sv_fingerprints s'
     \<and> entries_sat (sv_regs s) (\<lambda>q x. q \<notin> N \<longrightarrow> (case get_reg s' q of None \<Rightarrow> False | Some y \<Rightarrow> reg_later s x y))"

lemma server_laterD:
  assumes "server_later N s s'" "get_reg s q = Some x" "q \<notin> N"
  obtains y where "get_reg s' q = Some y" "reg_later s x y"
proof -
  from assms have "case get_reg s' q of None \<Rightarrow> False | Some y \<Rightarrow> reg_later s x y"
    unfolding server_later_def regs_sat by blast
  with that show ?thesis by (cases "get_reg s' q") auto
qed

lemma server_laterI:
  assumes "sv_fingerprints s \<le> sv_fingerprints s'"
    and "\<And>q x. get_reg s q = Some x \<Longrightarrow> q \<notin> N \<Longrightarrow> \<exists>y. get_reg s' q = Some y \<and> reg_later s x y"
  shows "server_later N s s'"
  using assms unfolding server_later_def regs_sat by fastforce

lemma reg_later_refl [simp]: "reg_later s x x"
  by (simp add: reg_later_def same_id_def)

lemma server_later_refl [simp]: "server_later N s s"
  by (rule server_laterI) auto

lemma reg_later_trans:
  assumes "reg_later s x y" "reg_later s' y z" "sv_fingerprints s \<le> sv_fingerprints s'"
  shows "reg_later s x z"
proof -
  have m: "\<not> rg_staged x \<longrightarrow> \<not> rg_staged z \<and> rg_marker x \<le> rg_marker z \<and> (rg_checksum z \<noteq> rg_checksum x \<longrightarrow> rg_marker x < rg_marker z)"
    using assms(1,2) unfolding reg_later_def by (metis order_trans order_less_le_trans order_le_less_trans)
  have f: "rg_fingerprint z = rg_fingerprint x \<or> (case rg_fingerprint z of None \<Rightarrow> False | Some f \<Rightarrow> sv_fingerprints s < f)"
    using assms unfolding reg_later_def by (auto split: option.splits)
  show ?thesis using assms(1,2) m f unfolding reg_later_def same_id_def by auto
qed

lemma server_later_trans [trans]:
  assumes "server_later N s s'" "server_later N s' s''"
  shows "server_later N s s''"
proof (rule server_laterI)
  have le: "sv_fingerprints s \<le> sv_fingerprints s'" "sv_fingerprints s' \<le> sv_fingerprints s''"
    using assms unfolding server_later_def by blast+
  then show "sv_fingerprints s \<le> sv_fingerprints s''" by simp
  fix q x assume x: "get_reg s q = Some x" "q \<notin> N"
  from server_laterD [OF assms(1) x] obtain y where y: "get_reg s' q = Some y" "reg_later s x y" .
  from server_laterD [OF assms(2) y(1) x(2)] obtain z where z: "get_reg s'' q = Some z" "reg_later s' y z" .
  from reg_later_trans [OF y(2) z(2) le(1)] z(1) show "\<exists>z. get_reg s'' q = Some z \<and> reg_later s x z" by blast
qed

lemma server_later_mono: "server_later {} s s' \<Longrightarrow> server_later M s s'"
  unfolding server_later_def regs_sat by blast

lemma server_later_drop: "server_later {r} s s' \<Longrightarrow> get_reg s r = None \<Longrightarrow> server_later {} s s'"
  unfolding server_later_def regs_sat by (metis option.distinct(1) singletonD)

lemma server_later_same_regs: "sv_regs s' = sv_regs s \<Longrightarrow> sv_fingerprints s' = sv_fingerprints s \<Longrightarrow> server_later N s s'"
  by (rule server_laterI) (auto simp: get_reg_def)

lemma same_core_later:
  assumes "same_core s s'"
  shows "server_later N s s'"
proof (rule server_laterI)
  show "sv_fingerprints s \<le> sv_fingerprints s'" using assms by (simp add: same_core_def)
  fix q x assume "get_reg s q = Some x"
  from same_core_Some' [OF assms this] obtain y where "get_reg s' q = Some y" "reg_core x = reg_core y" .
  then show "\<exists>y. get_reg s' q = Some y \<and> reg_later s x y" by (auto simp: reg_later_def same_id_def reg_core_def)
qed

lemma upd_reg_later:
  assumes "\<And>x. get_reg s r = Some x \<Longrightarrow> r \<notin> N \<Longrightarrow> reg_later s x (f x)"
    and "\<And>q. get_reg s' q = get_reg (upd_reg r f s) q" "sv_fingerprints s \<le> sv_fingerprints s'"
  shows "server_later N s s'"
  by (rule server_laterI) (use assms in \<open>auto simp: get_upd_reg\<close>)

lemma touch_later: "server_later N s (touch_reg r s)"
  by (rule upd_reg_later [of s r N "\<lambda>x. x\<lparr>rg_ws := rg_ws x + 1, rg_fingerprint := Some (Suc (sv_fingerprints s))\<rparr>"])
    (simp_all add: touch_reg_def Let_def get_upd_reg reg_later_def same_id_def)

lemma install_value_later: "server_later N s (install_value X r c s)"
proof (cases "get_reg s r")
  case (Some x)
  show ?thesis
  proof (cases "rg_checksum x = Some c")
    case False
    show ?thesis
      by (rule upd_reg_later [of s r N "\<lambda>x. x\<lparr>rg_lease := lease_for X (Some c), rg_checksum := Some c, rg_marker := Suc (rg_marker x)\<rparr>"])
        (use Some False in \<open>simp_all add: install_value_def Let_def get_upd_reg reg_later_def same_id_def\<close>)
  qed (use Some in \<open>simp add: install_value_def\<close>)
qed (simp add: install_value_def)

lemma borrow_later: "server_later N s (snd (borrow cs s))"
  by (rule server_later_same_regs) (simp_all add: borrow_def)

lemma give_back_later: "server_later N s (give_back b s)"
  by (rule server_later_same_regs) (simp_all add: give_back_def split: option.split)

lemma remove_later: "server_later N s (remove_registration r s)"
proof (cases "\<exists>x. get_reg s r = Some x \<and> \<not> rg_closed x")
  case True
  then obtain x where x: "get_reg s r = Some x" "\<not> rg_closed x" by blast
  have "server_later N s (removed_core r x s)"
    by (rule server_laterI) (use x in \<open>auto simp: removed_fields [OF x(1) refl] reg_later_def same_id_def\<close>)
  with server_later_trans same_core_later [OF remove_same_core [OF x]] show ?thesis by blast
next
  case False
  then have "remove_registration r s = s" unfolding remove_registration_def by (auto split: option.split)
  then show ?thesis by simp
qed

lemma adopt_later:
  assumes "r \<in> N \<or> (\<forall>x. get_reg s r = Some x \<longrightarrow> rg_staged x)"
  shows "server_later N s (adopt_held r h s)"
proof (rule server_laterI)
  show "sv_fingerprints s \<le> sv_fingerprints (adopt_held r h s)" by (simp add: adopt_held_def split: option.split)
  fix q x assume "get_reg s q = Some x" "q \<notin> N"
  with assms show "\<exists>y. get_reg (adopt_held r h s) q = Some y \<and> reg_later s x y"
    by (cases "q = h"; cases "q = r") (auto simp: adopt_held_def get_upd_reg reg_later_def same_id_def split: option.split)
qed

lemma staged_published_later: "server_later N s (staged_published r x m s)"
  by (rule upd_reg_later [of s r N "\<lambda>x. x\<lparr>rg_marker := max (rg_marker x) m, rg_staged := False\<rparr>"])
    (simp_all add: staged_published_def Let_def install_fields get_upd_reg reg_later_def same_id_def)

lemma fold_later: "(\<And>x t. server_later N t (f x t)) \<Longrightarrow> server_later N s (fold f xs s)"
  by (induction xs arbitrary: s) (auto intro: server_later_trans)

lemma publish_staged_later:
  assumes "\<And>x. get_reg s r = Some x \<Longrightarrow> rg_staged x"
  shows "server_later {} s (snd (publish_staged r s))"
proof (cases "get_reg s r")
  case (Some x)
  define held where "held = held_registration_for s (rg_namespace x) (rg_spec x) (rg_route x)"
  define s1 where "s1 = (case held of Some h \<Rightarrow> adopt_held r h s | None \<Rightarrow> s)"
  have 1: "server_later {} s s1"
    using assms by (auto simp: s1_def intro!: adopt_later split: option.split)
  obtain m where e: "snd (publish_staged r s) = offer_state_graph (rg_namespace x) (rg_state_graph x)
      (upd_ns (rg_namespace x) (\<lambda>n. n\<lparr>ns_staged_claim := False\<rparr>) (staged_published r x m s1))"
    using Some by (simp add: publish_staged_def Let_def held_def s1_def staged_published_def)
  have "same_core (staged_published r x m s1) (snd (publish_staged r s))"
    unfolding e by (rule same_core_trans [OF same_core_upd_ns same_core_offer]) simp
  from server_later_trans [OF 1 server_later_trans [OF staged_published_later same_core_later [OF this]]] show ?thesis .
qed (simp add: publish_staged_def)

section \<open>Committing a batch\<close>

definition route_of :: "server \<Rightarrow> nat \<Rightarrow> string option" where
  "route_of s r = map_option rg_route (get_reg s r)"

lemma later_route: "server_later {} s s' \<Longrightarrow> get_reg s r \<noteq> None \<Longrightarrow> route_of s' r = route_of s r"
  by (auto simp: route_of_def reg_later_def same_id_def elim: server_laterD)

lemma later_unstaged:
  "server_later {} s s' \<Longrightarrow> \<exists>y. get_reg s q = Some y \<and> \<not> rg_staged y \<Longrightarrow> \<exists>y. get_reg s' q = Some y \<and> \<not> rg_staged y"
  by (auto simp: reg_later_def elim!: server_laterD)

lemma publish_batch_inv:
  assumes "share_inv X E A s" "set rs \<subseteq> set (sv_staged s)" "distinct (map (route_of s) rs)"
    and "\<forall>q\<in>E \<union> A. \<exists>y. get_reg s q = Some y \<and> \<not> rg_staged y"
    and "\<forall>a\<in>A. \<forall>r\<in>set rs. route_of s a \<noteq> route_of s r"
    and "publish_batch rs s = (olds, s')"
  shows "(\<exists>E' A'. share_inv X E' A' s' \<and> E' \<subseteq> E \<union> set olds \<and> A' \<subseteq> A \<union> set olds) \<and> server_later {} s s'"
  using assms
proof (induction rs arbitrary: E A s olds)
  case Nil
  then show ?case by auto
next
  case (Cons r rs)
  obtain old s1 where p: "publish_staged r s = (old, s1)" by fastforce
  obtain olds' where b: "publish_batch rs s1 = (olds', s')" and olds: "olds = old @ olds'"
    using Cons.prems(6) p by (auto split: prod.splits)
  from Cons.prems(1,2) obtain xr where xr: "get_reg s r = Some xr" "rg_staged xr"
    unfolding share_inv_def staged_ok_iff by fastforce
  have nE: "r \<notin> E" "r \<notin> A" using Cons.prems(4) xr by force+
  have hA: "h \<notin> A" if x: "get_reg s r = Some x"
    and h: "held_registration_for s (rg_namespace x) (rg_spec x) (rg_route x) = Some h" for x h
  proof -
    from held_is_main [OF Cons.prems(1) reg_route [OF Cons.prems(1) x] h] obtain y where
      "get_reg s h = Some y" "rg_route y = rg_route x" by blast
    then have "route_of s h = route_of s r" using x by (simp add: route_of_def)
    then show ?thesis using Cons.prems(5) by force
  qed
  have "r \<in> set (sv_staged s)" using Cons.prems(2) by simp
  from publish_staged_inv [OF Cons.prems(1) this nE _ p] hA obtain x E1 A1 where
    x: "get_reg s r = Some x" and i1: "share_inv X E1 A1 s1" and sub: "E1 \<subseteq> E \<union> set old" "A1 \<subseteq> A \<union> set old"
    and new: "\<forall>q\<in>(E1 - E) \<union> (A1 - A). \<exists>y. get_reg s q = Some y \<and> \<not> rg_staged y"
    and nA: "\<forall>q\<in>A1 - A. \<exists>y. get_reg s q = Some y \<and> rg_route y = rg_route x"
    and st: "sv_staged s1 = removeAll r (sv_staged s)" by blast
  have later: "server_later {} s s1" using publish_staged_later [of s r] xr p by simp
  have known: "get_reg s q \<noteq> None" if "q \<in> set rs" for q
    using that Cons.prems(1,2) unfolding share_inv_def staged_ok_iff by fastforce
  have ro: "route_of s1 q = route_of s q" if "q \<in> set rs" for q by (rule later_route [OF later known [OF that]])
  have "\<forall>q\<in>E1 \<union> A1. \<exists>y. get_reg s q = Some y \<and> \<not> rg_staged y" using Cons.prems(4) new by blast
  then have u: "\<forall>q\<in>E1 \<union> A1. \<exists>y. get_reg s1 q = Some y \<and> \<not> rg_staged y" using later_unstaged [OF later] by blast
  have "\<forall>a\<in>A1. \<forall>q\<in>set rs. route_of s a \<noteq> route_of s q"
  proof (intro ballI)
    fix a q assume a: "a \<in> A1" and q: "q \<in> set rs"
    show "route_of s a \<noteq> route_of s q"
    proof (cases "a \<in> A")
      case True
      then show ?thesis using Cons.prems(5) q by simp
    next
      case False
      with a nA have "route_of s a = route_of s r" using x by (auto simp: route_of_def)
      moreover have "route_of s q \<noteq> route_of s r" using Cons.prems(3) q by (auto simp: image_iff)
      ultimately show ?thesis by metis
    qed
  qed
  moreover have "get_reg s a \<noteq> None" if "a \<in> A1" for a
    using that Cons.prems(4) new by (cases "a \<in> A") fastforce+
  ultimately have rA: "\<forall>a\<in>A1. \<forall>q\<in>set rs. route_of s1 a \<noteq> route_of s1 q"
    using later_route [OF later] ro by simp
  have "map (route_of s1) rs = map (route_of s) rs" using ro by (rule map_cong [OF refl])
  moreover have "distinct (map (route_of s) rs)" using Cons.prems(3) by simp
  ultimately have d: "distinct (map (route_of s1) rs)" by metis
  have "r \<notin> set rs" using Cons.prems(3) by auto
  then have "set rs \<subseteq> set (sv_staged s1)" using Cons.prems(2) st by auto
  from Cons.IH [OF i1 this d u rA b] obtain E' A' where
    e: "share_inv X E' A' s'" "E' \<subseteq> E1 \<union> set olds'" "A' \<subseteq> A1 \<union> set olds'" and l: "server_later {} s1 s'" by blast
  have "E' \<subseteq> E \<union> set olds" "A' \<subseteq> A \<union> set olds" using sub e(2,3) unfolding olds by auto
  with e(1) server_later_trans [OF later l] show ?case by blast
qed

lemma remove_all_inv:
  "share_inv X E A s \<Longrightarrow> share_inv X (E - set rs) (A - set rs) (fold remove_registration rs s)"
proof (induction rs arbitrary: E A s)
  case (Cons r rs)
  have "E - set (r # rs) = E - {r} - set rs" "A - set (r # rs) = A - {r} - set rs" by auto
  with Cons.IH [OF remove_inv [OF Cons.prems, of r]] show ?case by simp
qed simp

lemma takeovers_same_core: "same_core s (snd (commit_takeovers now xs s))"
  by (induction xs arbitrary: s) (auto intro: same_core_trans same_core_take_over)

lemma collision_free_routes: "\<not> batch_collides xs \<Longrightarrow> distinct (map rg_route xs)"
  by (induction xs) (auto simp: collides_def list_ex_iff)

lemma find_error_None: "find_error f xs = None \<Longrightarrow> x \<in> set xs \<Longrightarrow> f x = None"
  by (induction xs) (auto simp: find_error_def List.map_filter_simps split: option.splits)

lemma commit_inv:
  assumes i: "share_inv X {} {} s"
  shows "share_inv X {} {} (snd (commit_reservations now rs s)) \<and> server_later {} s (snd (commit_reservations now rs s))"
proof -
  define xs where "xs = List.map_filter (get_reg s) rs"
  define out where "out = snd (commit_reservations now rs s)"
  have split: "out = s \<or> (\<exists>e s1. commit_takeovers now xs s = (Inl e, s1) \<and> out = s1)
    \<or> (\<exists>u s1 olds s2. find_error (staged_conflict now rs s) rs = None \<and> \<not> batch_collides xs
        \<and> commit_takeovers now xs s = (Inr u, s1) \<and> publish_batch rs s1 = (olds, s2) \<and> out = fold remove_registration olds s2)"
  proof (cases "rs = [] \<or> sv_closed s \<or> find_error (staged_conflict now rs s) rs \<noteq> None \<or> batch_collides xs")
    case True
    then have "out = s" unfolding out_def commit_reservations_def Let_def xs_def by (auto split: option.split)
    then show ?thesis by blast
  next
    case False
    obtain e s1 where t: "commit_takeovers now xs s = (e, s1)" by fastforce
    show ?thesis
    proof (cases e)
      case (Inl a)
      then have "out = s1" using False t unfolding out_def commit_reservations_def Let_def xs_def by simp
      with t Inl show ?thesis by blast
    next
      case (Inr u)
      obtain olds s2 where b: "publish_batch rs s1 = (olds, s2)" by fastforce
      have "out = fold remove_registration olds s2"
        using False t b Inr unfolding out_def commit_reservations_def Let_def xs_def by simp
      moreover have "find_error (staged_conflict now rs s) rs = None" "\<not> batch_collides xs" using False by blast+
      ultimately show ?thesis using t [unfolded Inr] b by metis
    qed
  qed
  then consider (stay) "snd (commit_reservations now rs s) = s"
    | (take) e s1 where "commit_takeovers now xs s = (Inl e, s1)" "snd (commit_reservations now rs s) = s1"
    | (go) u s1 olds s2 where "find_error (staged_conflict now rs s) rs = None" "\<not> batch_collides xs"
        "commit_takeovers now xs s = (Inr u, s1)" "publish_batch rs s1 = (olds, s2)"
        "snd (commit_reservations now rs s) = fold remove_registration olds s2"
    unfolding out_def by blast
  then show ?thesis
  proof cases
    case stay
    then show ?thesis using i by simp
  next
    case take
    then have "same_core s (snd (commit_reservations now rs s))" using takeovers_same_core [of s now xs] by simp
    then show ?thesis using same_core_inv i same_core_later by blast
  next
    case go
    have c: "same_core s s1" using takeovers_same_core [of s now xs] go(3) by simp
    have each: "\<exists>x. get_reg s r = Some x \<and> r \<in> set (sv_staged s)" if "r \<in> set rs" for r
      using find_error_None [OF go(1) that] by (auto simp: staged_conflict_def split: option.splits if_splits)
    then have xs: "xs = map (\<lambda>r. the (get_reg s r)) rs"
      unfolding xs_def by (induction rs) (force simp: List.map_filter_simps)+
    have ro: "route_of s1 r = Some (rg_route (the (get_reg s r)))" if "r \<in> set rs" for r
    proof -
      from each [OF that] obtain x where x: "get_reg s r = Some x" by blast
      then show ?thesis using later_route [OF same_core_later [OF c], of r] by (simp add: route_of_def)
    qed
    have "map (route_of s1) rs = map Some (map rg_route xs)" using ro by (simp add: xs)
    then have d: "distinct (map (route_of s1) rs)" using collision_free_routes [OF go(2)] by (auto simp: distinct_map inj_on_def)
    have st: "set rs \<subseteq> set (sv_staged s1)" using each c by (auto simp: same_core_def)
    from publish_batch_inv [OF same_core_inv [OF c i] st d _ _ go(4)] obtain E' A' where
      b: "share_inv X E' A' s2" "E' \<subseteq> set olds" "A' \<subseteq> set olds" and l: "server_later {} s1 s2" by auto
    have "E' - set olds = {}" "A' - set olds = {}" using b by auto
    with remove_all_inv [OF b(1), of olds] have "share_inv X {} {} (fold remove_registration olds s2)" by simp
    moreover have "server_later {} s (fold remove_registration olds s2)"
      using server_later_trans [OF same_core_later [OF c] server_later_trans [OF l fold_later [OF remove_later]]] .
    ultimately show ?thesis unfolding go(5) by blast
  qed
qed

section \<open>Reserving\<close>

lemma open_namespace_core: "same_core s (open_namespace name owner staged s)"
  by (auto simp: open_namespace_def same_core_def slot_at_def update_conv' split: if_splits option.splits)

lemma held_slot_free:
  assumes i: "share_inv X E A s'" and r: "route_for n spec = Inr route" and no: "held_registration_for s' n spec route = None"
    and c: "\<not> reservation_conflicts now s n spec route owner [] []"
    and m: "main_slot s' n spec = main_slot s n spec" and g: "\<And>q. main_slot s n spec = Some q \<Longrightarrow> get_reg s' q = get_reg s q"
  shows "main_slot s' n spec = None"
proof (rule ccontr)
  assume "main_slot s' n spec \<noteq> None"
  then obtain q where q: "main_slot s' n spec = Some q" by blast
  from slot_reg [OF i q] obtain y where y: "get_reg s' q = Some y" by blast
  have "held_reg s q"
    using c q unfolding m unfolding reservation_conflicts_def Let_def main_slot_def by (auto split: if_splits)
  moreover have "get_reg s q = Some y" using g [of q] q y m by simp
  ultimately have "rg_held y" by (simp add: held_reg_def)
  then have "fits_held s' route (main_slot s' n spec)"
    using y slot_route [OF i q r y] by (simp add: fits_held_def q)
  then show False using no q by (auto simp: held_registration_for_def fits_held_def split: if_splits)
qed

lemma take_offer_core: "same_core s (offer_state_graph a g (take_over now b w s))"
  by (rule same_core_trans [OF same_core_take_over same_core_offer])

lemma same_core_id:
  assumes "same_core s s'" "get_reg s r = Some x"
  shows "\<exists>y. get_reg s' r = Some y \<and> same_id x y \<and> rg_closed y = rg_closed x \<and> rg_staged y = rg_staged x"
proof -
  from same_core_Some' [OF assms] obtain y where "get_reg s' r = Some y" "reg_core x = reg_core y" .
  then show ?thesis by (auto simp: reg_core_def same_id_def)
qed

text \<open>
  The registration \<open>r\<close> has been added but is in no table yet; publishing it removes the held one
  it succeeds, which leaves its slot free.
\<close>

lemma publish_reservation_inv:
  assumes i: "share_inv X {r} {} s" and x: "get_reg s r = Some x" "\<not> rg_closed x" "\<not> rg_staged x" "rg_lease x = None"
    and q: "rq_namespace q = rg_namespace x" "rq_spec q = rg_spec x" "rg_route x = route"
    and free: "held_registration_for s (rq_namespace q) (rq_spec q) route = None \<Longrightarrow> main_slot s (rq_namespace q) (rq_spec q) = None"
    and nr: "\<And>n spec. main_slot s n spec \<noteq> Some r" "\<And>n p. slot_at s n p \<noteq> Some r"
  shows "share_inv X {} {} (publish_reservation now q owner route r s)
    \<and> server_later {r} s (publish_reservation now q owner route r s)"
proof -
  let ?n = "rg_namespace x" and ?spec = "rg_spec x"
  have rt: "route_for ?n ?spec = Inr route" using reg_route [OF i x(1)] q by simp
  define s1 where "s1 = (case held_registration_for s ?n ?spec route of
      Some held \<Rightarrow> remove_registration held (adopt_held r held s) | None \<Rightarrow> s)"
  have "share_inv X {r} {} s1 \<and> main_slot s1 ?n ?spec = None \<and> server_later {r} s s1
      \<and> (\<exists>z. get_reg s1 r = Some z \<and> same_id x z \<and> \<not> rg_closed z \<and> \<not> rg_staged z)"
  proof (cases "held_registration_for s ?n ?spec route")
    case None
    then show ?thesis using i free q x by (auto simp: s1_def same_id_def)
  next
    case (Some h)
    from held_is_main [OF i rt Some] obtain y where y: "get_reg s h = Some y" "\<not> rg_closed y" "\<not> rg_staged y"
      "h \<notin> {r} \<Longrightarrow> main_slot s ?n ?spec = Some h" by blast
    have ne: "h \<noteq> r"
      using Some nr unfolding held_registration_for_def key_slot_at by (auto split: if_splits)
    with y have m: "main_slot s ?n ?spec = Some h" by simp
    define s0 where "s0 = adopt_held r h s"
    have s1: "s1 = remove_registration h s0" by (simp add: s1_def Some s0_def)
    have i0: "share_inv X {r} {h} s0"
      using adopt_inv [OF i x(1,2) _ _ x(4) y(1-3) _ ne] by (simp add: s0_def)
    have "share_inv X {r} {} s1" using remove_inv [OF i0, of h] ne by (simp add: s1 insert_Diff_if)
    moreover have "main_slot s1 ?n ?spec = None"
    proof -
      from adopt_get [OF y(1), of r h] obtain z where z: "get_reg s0 h = Some z" "same_id y z" "\<not> rg_closed z"
        using y by (auto simp: s0_def)
      have ms: "main_slot s0 ?n ?spec = Some h" using m by (simp add: s0_def)
      from slot_reg [OF i0 ms] z(1) have eq: "ss_toplevel (rg_spec z) = ss_toplevel ?spec" "ss_path (rg_spec z) = ss_path ?spec"
        "ss_toplevel ?spec \<or> rg_namespace z = ?n" by auto
      note f = removed_fields [OF z(1) refl]
      have "main_slot (removed_core h z s0) ?n ?spec = None"
        using ms eq unfolding main_slot_def by (auto simp: f split: if_splits)
      then show ?thesis using same_core_main [OF remove_same_core [OF z(1,3)]] by (simp add: s1)
    qed
    moreover have "server_later {r} s s1"
      unfolding s1 s0_def by (rule server_later_trans [OF adopt_later remove_later]) simp
    moreover have "\<exists>z. get_reg s1 r = Some z \<and> same_id x z \<and> \<not> rg_closed z \<and> \<not> rg_staged z"
    proof -
      from adopt_get [OF x(1), of r h] obtain z where z: "get_reg s0 r = Some z" "same_id x z" "\<not> rg_closed z" "\<not> rg_staged z"
        using x by (auto simp: s0_def)
      have other: "get_reg (removed_core h w s0) r = Some z" if "get_reg s0 h = Some w" for w
        using z(1) ne by (simp add: removed_fields [OF that refl])
      from adopt_get [OF y(1), of r h] obtain w where w: "get_reg s0 h = Some w" "\<not> rg_closed w"
        using y by (auto simp: s0_def)
      from same_core_id [OF remove_same_core [OF w] other [OF w(1)]] z show ?thesis
        by (auto simp: s1 same_id_def)
    qed
    ultimately show ?thesis by blast
  qed
  then obtain z where i1: "share_inv X {r} {} s1" and m1: "main_slot s1 ?n ?spec = None" and l1: "server_later {r} s s1"
    and z: "get_reg s1 r = Some z" "same_id x z" "\<not> rg_closed z" "\<not> rg_staged z" by blast
  define s2 where "s2 = offer_state_graph ?n (rq_state_graph q) (take_over now ?n owner s1)"
  have c: "same_core s1 s2" unfolding s2_def by (rule take_offer_core)
  have out: "publish_reservation now q owner route r s = install r ?n ?spec s2"
    by (simp add: publish_reservation_def Let_def q s1_def s2_def)
  note i2 = same_core_inv [OF c i1]
  from same_core_id [OF c z(1)] z obtain w where
    w: "get_reg s2 r = Some w" "same_id x w" "\<not> rg_closed w" "\<not> rg_staged w" by (auto simp: same_id_def)
  have ns: "r \<notin> set (sv_staged s2)"
  proof
    assume "r \<in> set (sv_staged s2)"
    with i2 w show False unfolding share_inv_def staged_ok_iff by fastforce
  qed
  have wn: "rg_namespace w = ?n" "rg_spec w = ?spec" using w(2) by (simp_all add: same_id_def)
  have "share_inv X {} {} (install r ?n ?spec s2)"
    using install_inv [OF i2 w(1,3,4) ns] m1 unfolding wn same_core_main [OF c] by (simp add: listed_def)
  moreover have "server_later {r} s2 (install r ?n ?spec s2)"
    by (rule server_later_same_regs) (simp_all add: install_fields)
  ultimately show ?thesis unfolding out
    using server_later_trans [OF l1 server_later_trans [OF same_core_later [OF c]]] by blast
qed

lemma reserve_inv:
  assumes i: "share_inv X {} {} s" and q: "rq_staged q \<or> rq_replaces q = []" and res: "reserve X now q s = (out, s')"
  shows "share_inv X {} {} s' \<and> server_later {} s s'"
proof (cases "s' = s")
  case False
  define n spec where "n = rq_namespace q" and "spec = rq_spec q"
  from False res obtain route ct where rt: "route_for n spec = Inr route" and seg: "server_segment n"
    and nc: "\<not> reservation_conflicts now s n spec route (rq_owner q) (rq_replaces q) []"
    and ct: "content_type (hx_guess X) (rq_celltype q) (ss_path spec) (ss_mimetype spec) = Inr ct"
    and ok': "\<not> List.member [''openapi.json'', ''seamless-client.js''] n" "\<not> sv_closed s"
    unfolding n_def spec_def reserve_def Let_def by (auto split: sum.splits if_splits)
  define s1 where "s1 = open_namespace n (rq_owner q) (rq_staged q) s"
  define owner where "owner = (case rq_owner q of Some w \<Rightarrow> w | None \<Rightarrow> (case map_of (sv_namespaces s1) n of Some m \<Rightarrow> ns_owner m | None \<Rightarrow> 0))"
  define r where "r = sv_next s1"
  define x where "x = new_registration s1 q owner route ct"
  define s2 where "s2 = s1\<lparr>sv_regs := sv_regs s1 @ [(r, x)], sv_next := Suc r\<rparr>"
  have "reserve X now q s = (Inr r, if rq_staged q then s2\<lparr>sv_staged := sv_staged s2 @ [r]\<rparr> else publish_reservation now q owner route r s2)"
    unfolding reserve_def n_def [symmetric] spec_def [symmetric]
    by (simp only: seg ok' rt nc ct not_True_eq_False not_False_eq_True if_False res_bind_simps sum.case prod.case Let_def
        s1_def [symmetric] r_def [symmetric] owner_def [symmetric] x_def [symmetric] s2_def [symmetric])
  then have s': "s' = (if rq_staged q then s2\<lparr>sv_staged := sv_staged s2 @ [r]\<rparr> else publish_reservation now q owner route r s2)"
    using res by simp
  have c: "same_core s s1" unfolding s1_def by (rule open_namespace_core)
  note i1 = same_core_inv [OF c i]
  have xf: "fresh_reg x" "rg_staged x = rq_staged q" "rg_namespace x = n" "rg_spec x = spec" "rg_route x = route" "rg_lease x = None" "\<not> rg_closed x"
    using seg rt by (simp_all add: x_def new_registration_def fresh_reg_def n_def spec_def)
  have new: "q' < r" if "get_reg s1 q' = Some z" for q' z using share_invD(6) [OF i1 that] by (simp add: r_def)
  then have none: "map_of (sv_regs s1) r = None" by (cases "map_of (sv_regs s1) r") (auto simp: get_reg_def)
  have g2: "get_reg s2 q' = (if q' = r then Some x else get_reg s1 q')" for q'
    using none by (auto simp: s2_def get_reg_def map_add_def split: option.split)
  have later2: "server_later {} s1 s2"
  proof (rule server_laterI)
    fix q' z assume z: "get_reg s1 q' = Some z"
    have "q' \<noteq> r" using new [OF z] by simp
    with z show "\<exists>y. get_reg s2 q' = Some y \<and> reg_later s1 z y" by (simp add: g2)
  qed (simp add: s2_def)
  show ?thesis
  proof (cases "rq_staged q")
    case True
    have "share_inv X {} {} s'"
      using add_reg_inv [OF i1 xf(1), of "s1\<lparr>sv_regs := sv_regs s1 @ [(sv_next s1, x)], sv_next := Suc (sv_next s1)\<rparr>" s'] True xf(2)
      by (simp add: s' s2_def r_def)
    moreover have "server_later {} s2 s'" by (rule server_later_same_regs) (simp_all add: s' True)
    ultimately show ?thesis using server_later_trans [OF same_core_later [OF c] server_later_trans [OF later2]] by blast
  next
    case F: False
    have i2: "share_inv X {r} {} s2"
      using add_reg_inv [OF i1 xf(1), of s2 s2] F xf(2) by (simp add: s2_def r_def)
    have ms: "main_slot s2 n' spec' = main_slot s n' spec'" for n' spec'
    proof -
      have "main_slot s2 n' spec' = main_slot s1 n' spec'" by (simp add: main_slot_def s2_def)
      then show ?thesis using same_core_main [OF c] by simp
    qed
    have sl: "slot_at s2 n' p = slot_at s1 n' p" for n' p by (simp add: slot_at_def s2_def)
    have same: "get_reg s1 q' = get_reg s q'" for q' by (simp add: s1_def open_namespace_def get_reg_def)
    have nm: "main_slot s n' spec' \<noteq> Some r" for n' spec'
    proof
      assume "main_slot s n' spec' = Some r"
      from slot_reg [OF i this] new same show False by (metis order_less_irrefl)
    qed
    have np: "slot_at s1 n' p \<noteq> Some r" for n' p
    proof
      assume "slot_at s1 n' p = Some r"
      with i1 have "listed_reg s1 r (\<lambda>x. rg_namespace x = n' \<and> ss_path (rg_spec x) = p)"
        unfolding share_inv_def spaces_ok_iff by blast
      with new show False unfolding listed_iff by blast
    qed
    have "share_inv X {} {} s' \<and> server_later {r} s2 s'"
      unfolding s' using F
    proof (simp, intro publish_reservation_inv [OF i2, of x])
      show "get_reg s2 r = Some x" by (simp add: g2)
      show "main_slot s2 (rq_namespace q) (rq_spec q) = None" if no: "held_registration_for s2 (rq_namespace q) (rq_spec q) route = None"
      proof (rule held_slot_free [OF i2 rt [unfolded n_def spec_def] no])
        show "\<not> reservation_conflicts now s (rq_namespace q) (rq_spec q) route (rq_owner q) [] []"
          using nc q F by (simp add: n_def spec_def)
        show "main_slot s2 (rq_namespace q) (rq_spec q) = main_slot s (rq_namespace q) (rq_spec q)" by (rule ms)
        show "get_reg s2 q' = get_reg s q'" if "main_slot s (rq_namespace q) (rq_spec q) = Some q'" for q'
          using that nm g2 same by metis
      qed
      show "main_slot s2 n' spec' \<noteq> Some r" for n' spec' using nm ms by simp
      show "slot_at s2 n' p \<noteq> Some r" for n' p using np sl by simp
    qed (use xf F in \<open>simp_all add: n_def spec_def\<close>)
    moreover have "server_later {} s s'"
    proof -
      have "server_later {r} s s2"
        using server_later_trans [OF same_core_later [OF c] server_later_mono [OF later2]] .
      with calculation have "server_later {r} s s'" using server_later_trans by blast
      moreover have "get_reg s r = None" using none same by (simp add: get_reg_def)
      ultimately show ?thesis by (rule server_later_drop)
    qed
    ultimately show ?thesis by blast
  qed
qed (use i in simp)

section \<open>Deliveries, requests and the end of a share\<close>

definition step_ok :: "share_ext \<Rightarrow> server \<Rightarrow> server \<Rightarrow> bool" where
  "step_ok X s s' \<longleftrightarrow> share_ok X s' \<and> server_later {} s s'"

lemma step_okI: "share_inv X {} {} s' \<Longrightarrow> server_later {} s s' \<Longrightarrow> step_ok X s s'"
  by (simp add: step_ok_def share_ok_def)

lemma step_ok_refl: "share_ok X s \<Longrightarrow> step_ok X s s"
  by (simp add: step_ok_def)

lemma step_ok_trans: "step_ok X s s' \<Longrightarrow> (share_ok X s' \<Longrightarrow> step_ok X s' s'') \<Longrightarrow> step_ok X s s''"
  unfolding step_ok_def using server_later_trans by blast

lemma step_ok_core: "share_ok X s \<Longrightarrow> same_core s s' \<Longrightarrow> step_ok X s s'"
  unfolding step_ok_def share_ok_def using same_core_inv same_core_later by blast

lemma step_ok_after_core: "step_ok X s s' \<Longrightarrow> same_core s' s'' \<Longrightarrow> step_ok X s s''"
  using step_ok_trans step_ok_core by blast

lemma step_ok_fold:
  assumes "\<And>x t. share_ok X t \<Longrightarrow> step_ok X t (f x t)" "share_ok X s"
  shows "step_ok X s (fold f xs s)"
  using assms(2)
proof (induction xs arbitrary: s)
  case Nil
  then show ?case by (simp add: step_ok_refl)
next
  case (Cons x xs)
  have "step_ok X s (f x s)" by (rule assms(1) [OF Cons.prems])
  moreover have "step_ok X (f x s) (fold f xs (f x s))" if "share_ok X (f x s)" by (rule Cons.IH [OF that])
  ultimately show ?case using step_ok_trans by simp
qed

lemma remove_step: "share_ok X s \<Longrightarrow> step_ok X s (remove_registration r s)"
  using remove_inv [of X "{}" "{}" s r] remove_later by (auto simp: step_ok_def share_ok_def)

lemma borrow_step: "share_ok X s \<Longrightarrow> step_ok X s (snd (borrow cs s))"
  using borrow_inv borrow_later by (auto simp: step_ok_def share_ok_def)

lemma give_back_step: "share_ok X s \<Longrightarrow> step_ok X s (give_back b s)"
  using give_back_inv give_back_later by (auto simp: step_ok_def share_ok_def)

lemma write_step:
  assumes "share_ok X s" "get_reg s r = Some x" "\<not> rg_closed x" "\<not> rg_staged x"
  shows "step_ok X s (touch_reg r (install_value X r c s))"
proof -
  have i: "share_inv X {} {} s" using assms(1) by (simp add: share_ok_def)
  from server_laterD [OF install_value_later [of "{}" s X r c] assms(2)] obtain y where
    y: "get_reg (install_value X r c s) r = Some y" by auto
  have "share_inv X {} {} (touch_reg r (install_value X r c s))"
    by (rule touch_inv [OF install_value_inv [OF i assms(2,3) _ assms(4)] y]) simp
  then show ?thesis by (rule step_okI) (rule server_later_trans [OF install_value_later touch_later])
qed

definition published :: "server \<Rightarrow> nat \<Rightarrow> bool" where
  "published s r = (case get_reg s r of Some x \<Rightarrow> \<not> rg_staged x | None \<Rightarrow> False)"

lemma deliver_step:
  assumes "share_ok X s" "published s r"
  shows "step_ok X s (snd (share_deliver X r d s))"
proof -
  from assms(2) obtain x where x: "get_reg s r = Some x" "\<not> rg_staged x" by (auto simp: published_def split: option.splits)
  show ?thesis
  proof (cases "rg_closed x \<or> \<not> rg_active x \<or> dl_fingerprint d \<noteq> fp_token (rg_fingerprint x)")
    case True
    then have "snd (share_deliver X r d s) = s" using x by (auto simp: share_deliver_def)
    then show ?thesis using step_ok_refl [OF assms(1)] by simp
  next
    case False
    with write_step [OF assms(1) x(1) _ x(2)] have w: "step_ok X s (touch_reg r (install_value X r (dl_checksum d) s))" by simp
    with False x step_ok_after_core [OF w same_core_update] show ?thesis by (simp add: share_deliver_def Let_def)
  qed
qed

lemma borrow_get: "get_reg (snd (borrow cs s)) r = get_reg s r"
  by (simp add: borrow_def)

lemma put_accept_step:
  assumes "share_ok X s" "published s r"
  shows "step_ok X s (snd (put_accept X r c e s))"
proof -
  from assms(2) obtain x where x: "get_reg s r = Some x" "\<not> rg_staged x" by (auto simp: published_def split: option.splits)
  show ?thesis
  proof (cases "rg_closed x \<or> \<not> rg_active x \<or> (e \<noteq> None \<and> e \<noteq> Some (rg_marker x))")
    case True
    then have "snd (put_accept X r c e s) = s" using x by (auto simp: put_accept_def)
    then show ?thesis using step_ok_refl [OF assms(1)] by simp
  next
    case False
    define s1 where "s1 = touch_reg r (install_value X r c s)"
    obtain fence s2 where b: "borrow (lease_for X (Some c)) s1 = (fence, s2)" by fastforce
    define s3 where "s3 = upd_reg r (\<lambda>x. x\<lparr>rg_pending_puts := rg_pending_puts x @ [fence]\<rparr>) s2"
    have 1: "step_ok X s s1" unfolding s1_def using write_step [OF assms(1) x(1) _ x(2)] False by simp
    have 2: "step_ok X s s2" using step_ok_trans [OF 1, of s2] borrow_step [of X s1 "lease_for X (Some c)"] b by simp
    have "same_core s2 s3" unfolding s3_def by (rule same_core_upd_reg) (simp add: reg_core_def)
    from step_ok_after_core [OF 2 this] have 3: "step_ok X s s3" .
    have "snd (put_accept X r c e s) \<in> {s3, broadcast_update r s3}"
      using False x b unfolding put_accept_def s1_def s3_def by (auto simp: Let_def split: option.splits)
    with 3 step_ok_after_core [OF 3 same_core_update] show ?thesis by auto
  qed
qed

lemma reply_done_step: "share_ok X s \<Longrightarrow> step_ok X s (put_reply_done r fence s)"
  unfolding put_reply_done_def
  by (rule step_ok_after_core [OF give_back_step same_core_upd_reg]) (simp_all add: reg_core_def)

lemma serve_get_step: "share_ok X s \<Longrightarrow> step_ok X s (snd (serve_get X q r s))"
  unfolding serve_get_def Let_def
  by (auto split: option.splits prod.splits simp: step_ok_refl) (metis borrow_step snd_conv)+

lemma tick_core: "same_core s (state_graph_tick name n fresh s)"
proof -
  have "same_core s s'" if "normalize_publication name (ns_id n) p s = (p', s')" for p p' s'
    using same_core_normalize [of s name "ns_id n" p] that by simp
  then show ?thesis
    unfolding state_graph_tick_def Let_def
    by (auto split: option.splits prod.splits intro!: same_core_fold same_core_announce
        intro: same_core_trans [OF _ same_core_fold [OF same_core_announce]])
qed

lemma expire_registration_step: "share_ok X s \<Longrightarrow> step_ok X s (expire_registration r s)"
  unfolding expire_registration_def
  by (rule step_ok_trans [OF step_ok_core [OF _ same_core_resolve] remove_step])

lemma close_clients_core: "same_core s (fold close_client cs s)"
  by (rule same_core_fold) (rule same_core_close_client)

end
