(* ===== verification/Share_Protocol.thy ===== *)
theory Share_Protocol
  imports Share_Invariant
begin

text \<open>
  The share server as a transition system, and what its visitors and its sessions can rely on.
\<close>

section \<open>The remaining operations\<close>

lemma expire_holds_step:
  assumes "share_ok X s"
  shows "step_ok X s (snd (expire_holds now name nsid s))"
proof (cases "map_of (sv_namespaces s) name")
  case None
  then show ?thesis using step_ok_refl [OF assms] by (simp add: expire_holds_def)
next
  case (Some n0)
  define expired where "expired = filter (hold_expired now s) (map snd (ns_records n0))"
  define s1 where "s1 = upd_ns name (\<lambda>n. if (case ns_hold_until n of Some t \<Rightarrow> t \<le> now | None \<Rightarrow> False)
                                        then n\<lparr>ns_hold_until := None\<rparr> else n) (fold expire_registration expired s)"
  have kept: "ns_records (if b then n\<lparr>ns_hold_until := None\<rparr> else n) = ns_records n" for b and n :: share_space
    by simp
  have "step_ok X s (fold expire_registration expired s)" by (rule step_ok_fold [OF expire_registration_step assms])
  then have 1: "step_ok X s s1"
    unfolding s1_def by (rule step_ok_after_core [OF _ same_core_upd_ns]) (rule kept)
  have gone: "step_ok X s (fold close_client cs (s1\<lparr>sv_namespaces := AList.delete name (sv_namespaces s1)\<rparr>))" for cs
    by (rule step_ok_after_core [OF step_ok_after_core [OF 1 same_core_fields(6)] close_clients_core])
  define s2 where "s2 = (\<lambda>b. if b then upd_ns name (\<lambda>n. n\<lparr>ns_hold_task := False\<rparr>) s1 else s1)"
  have 2: "step_ok X s (s2 b)" for b
    unfolding s2_def using step_ok_after_core [OF 1 same_core_upd_ns] 1 by simp
  have 3: "step_ok X s (broadcast_shares name (s2 b))" for b by (rule step_ok_after_core [OF 2 same_core_shares])
  have "snd (expire_holds now name nsid s) \<in> {s, s1}
      \<union> range (\<lambda>cs. fold close_client cs (s1\<lparr>sv_namespaces := AList.delete name (sv_namespaces s1)\<rparr>))
      \<union> range s2 \<union> range (\<lambda>b. broadcast_shares name (s2 b))"
    unfolding expire_holds_def Some option.case Let_def expired_def [symmetric] s1_def [symmetric]
    by (auto simp: s2_def split: option.split)
  then show ?thesis using step_ok_refl [OF assms] 1 gone 2 3 by auto
qed

lemma close_namespace_step:
  assumes "share_ok X s"
  shows "step_ok X s (close_namespace name owner s)"
proof -
  have e: "step_ok X s (fold expire_registration rs s)" for rs by (rule step_ok_fold [OF expire_registration_step assms])
  have "step_ok X s (fold expire_registration qs (fold expire_registration rs s))" for qs rs
    by (rule step_ok_trans [OF e step_ok_fold [OF expire_registration_step]])
  then have "step_ok X s (fold close_client cs ((fold expire_registration qs (fold expire_registration rs s))
      \<lparr>sv_namespaces := AList.delete name (sv_namespaces (fold expire_registration qs (fold expire_registration rs s)))\<rparr>))" for cs qs rs
    by (rule step_ok_after_core [OF step_ok_after_core [OF _ same_core_fields(6)] close_clients_core])
  then show ?thesis using step_ok_refl [OF assms] unfolding close_namespace_def Let_def by (simp split: option.split)
qed

lemma unregister_records_step:
  assumes "share_ok X s"
  shows "step_ok X s (unregister_records r close_ns s)"
proof -
  have f: "step_ok X s (fold remove_registration rs s)" for rs
    by (rule step_ok_fold [OF remove_step assms])
  have b: "step_ok X s (broadcast_shares n (remove_registration r s))" for n
    by (rule step_ok_after_core [OF remove_step [OF assms] same_core_shares])
  note o = step_ok_refl [OF assms] remove_step [OF assms, of r]
  show ?thesis
  proof (cases "get_reg s r")
    case None
    then show ?thesis using o by (simp add: unregister_records_def)
  next
    case (Some x)
    show ?thesis unfolding unregister_records_def Some option.case Let_def by (simp only: f b o split: if_split) simp
  qed
qed

lemma unregister_step:
  assumes "share_ok X s"
  shows "step_ok X s (unregister up r close_ns hold s)"
proof -
  have "step_ok X s (drop_namespace n w (remove_registration r s))" for n w
    by (rule step_ok_after_core [OF remove_step [OF assms] same_core_drop_namespace])
  then show ?thesis
    using step_ok_refl [OF assms] remove_step [OF assms] unregister_records_step [OF assms] step_ok_core [OF assms same_core_hold_record(2)]
    unfolding unregister_def by (simp split: option.split)
qed

lemma release_namespace_step:
  assumes "share_ok X s"
  shows "step_ok X s (release_namespace up name owner s)"
  using step_ok_refl [OF assms] close_namespace_step [OF assms] step_ok_core [OF assms same_core_drop_namespace]
  unfolding release_namespace_def by simp

definition clients_closed :: "server \<Rightarrow> server" where
  "clients_closed s =
     (let s1 = fold (\<lambda>(name, n). fold close_client (ns_clients n)) (sv_namespaces s) (s\<lparr>sv_closed := True\<rparr>)
      in s1\<lparr>sv_namespaces := map (\<lambda>(name, n). (name, n\<lparr>ns_clients := [], ns_hold_task := False\<rparr>)) (sv_namespaces s1)\<rparr>)"

lemma clients_closed_core: "same_core s (clients_closed s)"
proof -
  let ?s1 = "fold (\<lambda>(name, n). fold close_client (ns_clients n)) (sv_namespaces s) (s\<lparr>sv_closed := True\<rparr>)"
  have 1: "same_core s ?s1"
    by (rule same_core_trans [OF same_core_fields(3) same_core_fold]) (auto intro: close_clients_core split: prod.split)
  have "map_of (map (\<lambda>(name, n). (name, n\<lparr>ns_clients := [], ns_hold_task := False\<rparr>)) d) k
      = map_option (\<lambda>n. n\<lparr>ns_clients := [], ns_hold_task := False\<rparr>) (map_of d k)" for d :: "(string \<times> share_space) list" and k
    by (induction d) auto
  then have "same_core t (t\<lparr>sv_namespaces := map (\<lambda>(name, n). (name, n\<lparr>ns_clients := [], ns_hold_task := False\<rparr>)) (sv_namespaces t)\<rparr>)" for t
    by (auto simp: same_core_def slot_at_def split: option.splits)
  from same_core_trans [OF 1 this] show ?thesis by (simp add: clients_closed_def Let_def)
qed

lemma close_server_alt:
  "close_server s = (if sv_closed s then s else fold remove_registration (all_registrations (clients_closed s)) (clients_closed s))"
  by (simp add: close_server_def clients_closed_def Let_def)

lemma close_server_step:
  assumes "share_ok X s"
  shows "step_ok X s (close_server s)"
proof -
  have "step_ok X t (fold remove_registration rs t)" if "share_ok X t" for rs t
    by (rule step_ok_fold [OF _ that]) (rule remove_step)
  from step_ok_trans [OF step_ok_core [OF assms clients_closed_core] this] show ?thesis
    unfolding close_server_alt using step_ok_refl [OF assms] by simp
qed

section \<open>The server as a transition system\<close>

text \<open>
  A registration is delivered to, and asked for by a PUT, only once it is published; a reservation
  that replaces others is staged. Both are the protocol of the driver.
\<close>

inductive share_step :: "share_ext \<Rightarrow> server \<Rightarrow> server \<Rightarrow> bool" for X where
  step_reserve: "rq_staged q \<or> rq_replaces q = [] \<Longrightarrow> share_step X s (snd (reserve X now q s))"
| step_commit: "share_step X s (snd (commit_reservations now rs s))"
| step_activate: "share_step X s (snd (activate_reg r s))"
| step_reattach: "share_step X s (complete_reattach r s)"
| step_deliver: "published s r \<Longrightarrow> share_step X s (snd (share_deliver X r d s))"
| step_put_begin: "share_step X s (snd (put_begin X q r s))"
| step_put_accept: "published s r \<Longrightarrow> share_step X s (snd (put_accept X r c e s))"
| step_put_done: "share_step X s (put_reply_done r fence s)"
| step_get: "share_step X s (snd (serve_get X q r s))"
| step_got: "share_step X s (give_back b s)"
| step_graph: "share_step X s (snd (serve_state_graph q name n answered s))"
| step_tick: "share_step X s (state_graph_tick name n fresh s)"
| step_connect: "share_step X s (snd (ws_connect name nsid broken s))"
| step_greet: "share_step X s (ws_greet n c s)"
| step_flush: "share_step X s (ws_flush c s)"
| step_disconnect: "share_step X s (drop_client name c s)"
| step_unregister: "share_step X s (unregister up r close_ns hold s)"
| step_release: "share_step X s (release_namespace up name owner s)"
| step_give_up: "share_step X s (give_up_namespace name nsid owner s)"
| step_begin_close: "share_step X s (begin_close_namespace name owner s)"
| step_hold: "share_step X s (hold_namespace X now name owner s)"
| step_expire: "share_step X s (snd (expire_holds now name nsid s))"
| step_close: "share_step X s (close_server s)"

inductive share_run :: "share_ext \<Rightarrow> server \<Rightarrow> server \<Rightarrow> bool" for X where
  run_refl: "share_run X s s"
| run_step: "share_run X s s' \<Longrightarrow> share_step X s' s'' \<Longrightarrow> share_run X s s''"

lemma share_step_ok: "share_step X s s' \<Longrightarrow> share_ok X s \<Longrightarrow> step_ok X s s'"
proof (induction rule: share_step.induct)
  case (step_reserve q s now)
  then show ?case
    using reserve_inv [of X s q now "fst (reserve X now q s)" "snd (reserve X now q s)"] by (simp add: step_ok_def share_ok_def)
next
  case (step_commit s now rs)
  then show ?case using commit_inv [of X s now rs] by (simp add: step_ok_def share_ok_def)
qed (auto intro: step_ok_core same_core_activate same_core_reattach deliver_step same_core_put_begin put_accept_step reply_done_step
    serve_get_step give_back_step same_core_serve_graph tick_core same_core_connect same_core_greet same_core_drop_client unregister_step
    release_namespace_step same_core_give_up same_core_begin_close same_core_hold_namespace expire_holds_step close_server_step)

lemma share_run_ok: "share_run X s s' \<Longrightarrow> share_ok X s \<Longrightarrow> step_ok X s s'"
  by (induction rule: share_run.induct) (auto intro: step_ok_refl step_ok_trans share_step_ok)

lemma init_server_ok: "share_ok X init_server"
  by (simp add: share_ok_def share_inv_def init_server_def regs_ok_def top_ok_def records_ok_def spaces_ok_def installed_ok_def
      staged_ok_def ledger_ok_def loans_ok_def prints_ok_def entries_sat_def reg_leases_def loans_def)

end
