(* ===== verification/Share_Promises.thy ===== *)
theory Share_Promises
  imports Share_Protocol
begin

text \<open>
  What the share server promises: markers and fingerprints, URLs, holding, and claims.
\<close>

section \<open>An example server\<close>

definition demo_ext :: share_ext where
  "demo_ext = \<lparr>hx_guess = (\<lambda>_. None), hx_null = ''n'', hx_canon = (\<lambda>b _. Inr b), hx_value = (\<lambda>c. Inr c),
     hx_max_body = 9, hx_hold = 10\<rparr>"

definition demo_request :: "nat \<Rightarrow> bool \<Rightarrow> reservation" where
  "demo_request owner toplevel =
     \<lparr>rq_namespace = ''ctx'', rq_spec = \<lparr>ss_path = ''a'', ss_readonly = False, ss_mimetype = PyNone, ss_toplevel = toplevel\<rparr>,
      rq_celltype = ''text'', rq_session = ''s1'', rq_owner = Some owner, rq_replaces = [], rq_staged = False,
      rq_state_graph = None\<rparr>"

definition demo_reserved :: server where
  "demo_reserved = snd (reserve demo_ext 0 (demo_request 7 False) init_server)"

definition demo_shared :: server where
  "demo_shared = snd (activate_reg 2 demo_reserved)"

definition demo_put :: server where
  "demo_put = snd (put_accept demo_ext 2 ''v1'' None demo_shared)"

lemma demo_run: "share_run demo_ext init_server demo_shared"
proof -
  have "share_step demo_ext init_server demo_reserved"
    unfolding demo_reserved_def by (rule step_reserve) (simp add: demo_request_def)
  from run_step [OF run_step [OF run_refl this] step_activate] show ?thesis unfolding demo_shared_def by simp
qed

lemma demo_reg: "get_reg demo_shared 2 \<noteq> None \<and> published demo_shared 2"
  by code_simp

section \<open>Markers and fingerprints\<close>

lemma install_value_get:
  assumes "get_reg s r = Some x"
  shows "\<exists>y. get_reg (install_value X r c s) r = Some y \<and> same_id x y \<and> rg_session y = rg_session x
      \<and> rg_checksum y = Some c \<and> rg_marker y = (if rg_checksum x = Some c then rg_marker x else Suc (rg_marker x))
      \<and> rg_ws y = rg_ws x \<and> rg_fingerprint y = rg_fingerprint x"
  using assms by (auto simp: install_value_def Let_def get_upd_reg same_id_def)

lemma install_value_prints: "sv_fingerprints (install_value X r c s) = sv_fingerprints s"
  by (simp add: install_value_def Let_def split: option.split)

text \<open>What an accepted PUT leaves of its registration, and what it answers.\<close>

lemma put_accept_effect:
  assumes x: "get_reg s r = Some x" and p: "put_accept X r c e s = (Inr (fence, ob, ans), s')"
  shows "\<not> rg_closed x" "rg_active x" "e = None \<or> e = Some (rg_marker x)"
    "\<exists>y. get_reg s' r = Some y \<and> rg_checksum y = Some c
       \<and> rg_marker y = (if rg_checksum x = Some c then rg_marker x else Suc (rg_marker x))
       \<and> rg_ws y = rg_ws x + 1 \<and> rg_fingerprint y = Some (Suc (sv_fingerprints s))
       \<and> an_current ans = Some (Some c, rg_marker y) \<and> ob_checksum ob = c
       \<and> ob_ws ob = rg_ws y \<and> ob_fingerprint ob = fp_token (rg_fingerprint y)"
proof -
  show g: "\<not> rg_closed x" "rg_active x" "e = None \<or> e = Some (rg_marker x)"
    using x p by (auto simp: put_accept_def split: if_splits)
  define s1 where "s1 = install_value X r c s"
  from install_value_get [OF x, of X c] obtain y where y: "get_reg s1 r = Some y" "rg_session y = rg_session x"
    "rg_checksum y = Some c" "rg_marker y = (if rg_checksum x = Some c then rg_marker x else Suc (rg_marker x))"
    "rg_ws y = rg_ws x" "rg_fingerprint y = rg_fingerprint x" unfolding s1_def by blast
  define z where "z = y\<lparr>rg_ws := rg_ws y + 1, rg_fingerprint := Some (Suc (sv_fingerprints s))\<rparr>"
  have t: "get_reg (touch_reg r s1) r = Some z"
    using y by (simp add: touch_reg_def Let_def get_upd_reg z_def s1_def install_value_prints)
  obtain f s2 where b: "borrow (lease_for X (Some c)) (touch_reg r s1) = (f, s2)" by fastforce
  have g2: "get_reg s2 r = Some z" using borrow_get [of "lease_for X (Some c)" "touch_reg r s1" r] b t by simp
  define w where "w = z\<lparr>rg_pending_puts := rg_pending_puts z @ [f]\<rparr>"
  define s3 where "s3 = upd_reg r (\<lambda>x. x\<lparr>rg_pending_puts := rg_pending_puts x @ [f]\<rparr>) s2"
  have g3: "get_reg s3 r = Some w" using g2 by (simp add: s3_def get_upd_reg w_def)
  from p x g have out: "s' = (if rg_checksum x \<noteq> Some c then broadcast_update r s3 else s3)"
    "ans = (plain_answer 200)\<lparr>an_current := Some (Some c, rg_marker w)\<rparr>"
    "ob_checksum ob = c" "ob_ws ob = rg_ws w" "ob_fingerprint ob = fp_token (rg_fingerprint w)"
    using g3 by (auto simp: put_accept_def Let_def s1_def [symmetric] b s3_def [symmetric] split: if_splits)
  have "same_core s3 s'" unfolding out(1) using same_core_update by simp
  from same_core_Some' [OF this g3] obtain v where v: "get_reg s' r = Some v" "reg_core w = reg_core v" .
  then have "rg_checksum v = rg_checksum w" "rg_marker v = rg_marker w" "rg_ws v = rg_ws w" "rg_fingerprint v = rg_fingerprint w"
    by (simp_all add: reg_core_def)
  with v(1) y out show "\<exists>y. get_reg s' r = Some y \<and> rg_checksum y = Some c
       \<and> rg_marker y = (if rg_checksum x = Some c then rg_marker x else Suc (rg_marker x))
       \<and> rg_ws y = rg_ws x + 1 \<and> rg_fingerprint y = Some (Suc (sv_fingerprints s))
       \<and> an_current ans = Some (Some c, rg_marker y) \<and> ob_checksum ob = c
       \<and> ob_ws ob = rg_ws y \<and> ob_fingerprint ob = fp_token (rg_fingerprint y)"
    by (simp add: w_def z_def)
qed

lemma run_later:
  assumes "share_run X init_server s" "share_run X s s'"
  shows "share_ok X s" "share_ok X s'" "server_later {} s s'"
proof -
  show o: "share_ok X s" using share_run_ok [OF assms(1) init_server_ok] by (simp add: step_ok_def)
  show "share_ok X s'" "server_later {} s s'" using share_run_ok [OF assms(2) o] by (simp_all add: step_ok_def)
qed

text \<open>
  C7: A PUT that names a marker overwrites what its sender saw. If a published share shows a marker, and any
  operations of the server later a PUT under that marker is accepted, the share still had the checksum
  that was shown; the PUT leaves its own checksum, and the marker it answers is the marker of the share.
\<close>

theorem conditional_put_sees_latest:
  assumes "share_run X init_server s1" and x1: "get_reg s1 r = Some x1" and u: "\<not> rg_staged x1" and "share_run X s1 s2"
    and p: "put_accept X r c (Some (rg_marker x1)) s2 = (Inr (fence, ob, ans), s3)"
  shows "\<exists>x2 x3. get_reg s2 r = Some x2 \<and> rg_checksum x2 = rg_checksum x1 \<and> rg_marker x2 = rg_marker x1
    \<and> get_reg s3 r = Some x3 \<and> rg_checksum x3 = Some c \<and> an_current ans = Some (Some c, rg_marker x3)
    \<and> (rg_marker x3 = rg_marker x1 \<longleftrightarrow> rg_checksum x1 = Some c)"
proof -
  from server_laterD [OF run_later(3) [OF assms(1,4)] x1] obtain x2 where x2: "get_reg s2 r = Some x2" "reg_later s1 x1 x2" by auto
  have "rg_marker x2 = rg_marker x1" using put_accept_effect(3) [OF x2(1) p] by simp
  then have c: "rg_checksum x2 = rg_checksum x1" using x2(2) u unfolding reg_later_def by auto
  from put_accept_effect(4) [OF x2(1) p] obtain y where y: "get_reg s3 r = Some y" "rg_checksum y = Some c"
    "rg_marker y = (if rg_checksum x2 = Some c then rg_marker x2 else Suc (rg_marker x2))"
    "an_current ans = Some (Some c, rg_marker y)" by blast
  with x2(1) c \<open>rg_marker x2 = rg_marker x1\<close> show ?thesis by (auto split: if_splits)
qed

lemma demo_put_reg:
  "\<exists>x. get_reg demo_put 2 = Some x \<and> \<not> rg_staged x \<and> rg_marker x = 1 \<and> rg_checksum x = Some ''v1''"
proof -
  have "case get_reg demo_put 2 of None \<Rightarrow> False | Some x \<Rightarrow> \<not> rg_staged x \<and> rg_marker x = 1 \<and> rg_checksum x = Some ''v1''"
    by code_simp
  then show ?thesis by (auto split: option.splits)
qed

lemma demo_put_run: "share_run demo_ext init_server demo_put"
  unfolding demo_put_def by (rule run_step [OF demo_run step_put_accept]) code_simp

lemma demo_put_again:
  "\<exists>fence ob ans s. put_accept demo_ext 2 ''v2'' (Some 1) demo_put = (Inr (fence, ob, ans), s)"
proof -
  have "case put_accept demo_ext 2 ''v2'' (Some 1) demo_put of (Inr _, _) \<Rightarrow> True | _ \<Rightarrow> False" by code_simp
  then show ?thesis by (auto split: prod.splits sum.splits)
qed

theorem conditional_put_sees_latest_witness:
  "\<exists>x2 x3. get_reg demo_put 2 = Some x2 \<and> rg_checksum x2 = Some ''v1''
    \<and> get_reg (snd (put_accept demo_ext 2 ''v2'' (Some 1) demo_put)) 2 = Some x3 \<and> rg_checksum x3 = Some ''v2'' \<and> rg_marker x3 \<noteq> 1"
proof -
  from demo_put_reg obtain x where x: "get_reg demo_put 2 = Some x" "\<not> rg_staged x" "rg_marker x = 1" "rg_checksum x = Some ''v1''" by blast
  from demo_put_again obtain fence ob ans s where a: "put_accept demo_ext 2 ''v2'' (Some (rg_marker x)) demo_put = (Inr (fence, ob, ans), s)"
    unfolding x by blast
  from conditional_put_sees_latest [OF demo_put_run x(1,2) run_refl a] a x show ?thesis by auto
qed

text \<open>
  C39: A delivery that was prepared before a PUT conflicts. Once a PUT is accepted, every later delivery
  that expects the fingerprint from before is answered with a conflict and changes nothing, whatever
  the server did in between.
\<close>

theorem stale_delivery_conflicts:
  assumes "share_run X init_server s1" and x1: "get_reg s1 r = Some x1"
    and p: "put_accept X r c e s1 = (Inr (fence, ob, ans), s2)" and pub: "published s1 r" and "share_run X s2 s3"
    and x3: "get_reg s3 r = Some x3" "\<not> rg_closed x3" "rg_active x3" and d: "dl_fingerprint d = fp_token (rg_fingerprint x1)"
  shows "share_deliver X r d s3 = (Some (share_ack_of Ack_conflict d x3), s3)"
proof -
  have r2: "share_run X init_server s2" using run_step [OF assms(1) step_put_accept [OF pub, of X c e]] p by simp
  from put_accept_effect(4) [OF x1 p] obtain y where y: "get_reg s2 r = Some y" "rg_fingerprint y = Some (Suc (sv_fingerprints s1))" by blast
  from server_laterD [OF run_later(3) [OF r2 assms(5)] y(1)] x3 have l: "reg_later s2 y x3" by auto
  have i: "share_inv X {} {} s1" "share_inv X {} {} s2"
    using run_later(1) [OF assms(1) run_refl] run_later(1) [OF r2 run_refl] by (simp_all add: share_ok_def)
  have old: "f \<le> sv_fingerprints s1" if "rg_fingerprint x1 = Some f" for f
    using share_invD(4) [OF i(1)] x1 that unfolding prints_ok_iff by blast
  have "Suc (sv_fingerprints s1) \<le> sv_fingerprints s2"
    using share_invD(4) [OF i(2)] y unfolding prints_ok_iff by blast
  then have "\<exists>f. rg_fingerprint x3 = Some f \<and> sv_fingerprints s1 < f"
    using l y(2) unfolding reg_later_def by (auto split: option.splits)
  then have "rg_fingerprint x3 \<noteq> rg_fingerprint x1" using old by fastforce
  then have "fp_token (rg_fingerprint x1) \<noteq> fp_token (rg_fingerprint x3)"
    by (auto simp: fp_token_def split: option.splits dest: nat_str_inj [THEN iffD1]) (cases "rg_fingerprint x1"; cases "rg_fingerprint x3"; simp)
  with x3 d show ?thesis by (simp add: share_deliver_def)
qed

definition demo_delivery :: delivery where
  "demo_delivery = \<lparr>dl_seq = 1, dl_checksum = ''v9'', dl_celltype = ''text'', dl_fingerprint = None, dl_force = False\<rparr>"

theorem stale_delivery_conflicts_witness:
  "snd (share_deliver demo_ext 2 demo_delivery demo_put) = demo_put"
proof -
  have f: "case get_reg demo_shared 2 of None \<Rightarrow> False | Some x \<Rightarrow> rg_fingerprint x = None" by code_simp
  then obtain x1 where x1: "get_reg demo_shared 2 = Some x1" "rg_fingerprint x1 = None" by (auto split: option.splits)
  have "case get_reg demo_put 2 of None \<Rightarrow> False | Some x \<Rightarrow> \<not> rg_closed x \<and> rg_active x" by code_simp
  then obtain x3 where x3: "get_reg demo_put 2 = Some x3" "\<not> rg_closed x3" "rg_active x3" by (auto split: option.splits)
  have "case put_accept demo_ext 2 ''v1'' None demo_shared of (Inr _, _) \<Rightarrow> True | _ \<Rightarrow> False" by code_simp
  then obtain fence ob ans where p: "put_accept demo_ext 2 ''v1'' None demo_shared = (Inr (fence, ob, ans), demo_put)"
    unfolding demo_put_def by (cases "put_accept demo_ext 2 ''v1'' None demo_shared") (auto split: sum.splits)
  have pub: "published demo_shared 2" by code_simp
  have d: "dl_fingerprint demo_delivery = fp_token (rg_fingerprint x1)" by (simp add: demo_delivery_def fp_token_def x1)
  from stale_delivery_conflicts [OF demo_run x1(1) p pub run_refl x3 d] show ?thesis by simp
qed

section \<open>URLs\<close>

lemma split_slash_cons: "CHR ''/'' \<notin> set a \<Longrightarrow> split_slash (a @ CHR ''/'' # b) = a # split_slash b"
  by (induction a) auto

lemma split_slash_ne: "split_slash s \<noteq> []"
  by (induction s) (auto split: list.split)

lemma split_slash_last: "s \<noteq> [] \<Longrightarrow> last s = CHR ''/'' \<Longrightarrow> [] \<in> set (tl (split_slash s))"
proof (induction s)
  case (Cons c s)
  show ?case
  proof (cases "s = []")
    case True
    with Cons.prems show ?thesis by simp
  next
    case False
    with Cons have "[] \<in> set (tl (split_slash s))" by simp
    then show ?thesis by (cases "split_slash s") auto
  qed
qed simp

lemma server_segmentD: "server_segment p \<Longrightarrow> p \<noteq> [] \<and> CHR ''/'' \<notin> set p"
  by (auto simp: server_segment_def safe_segment_def list_all_iff safe_char_def Let_def List.member_iff)

definition url_path :: "share_reg \<Rightarrow> string" where
  "url_path x = (if ss_toplevel (rg_spec x) then ss_path (rg_spec x) else rg_namespace x @ ''/'' @ ss_path (rg_spec x))"

lemma lookup_finds:
  assumes i: "share_ok X s" and x: "get_reg s r = Some x" "\<not> rg_staged x" "visible_reg x"
  shows "lookup_url s q (url_path x) = To_registration r"
proof -
  have i': "share_inv X {} {} s" using i by (simp add: share_ok_def)
  have open': "\<not> rg_closed x" using x(3) by (simp add: visible_reg_def)
  have m: "main_slot s (rg_namespace x) (rg_spec x) = Some r"
    using i' x open' unfolding share_inv_def installed_ok_def regs_sat by blast
  have v: "visible_at s r" using x by (simp add: visible_at_def)
  have rt: "route_for (rg_namespace x) (rg_spec x) = Inr (rg_route x)" by (rule reg_route [OF i' x(1)])
  have seg: "server_segment (rg_namespace x)" using i' x(1) unfolding share_inv_def regs_ok_def regs_sat by blast
  show ?thesis
  proof (cases "ss_toplevel (rg_spec x)")
    case True
    then show ?thesis using m v by (simp add: lookup_url_def url_path_def main_slot_def)
  next
    case False
    let ?n = "rg_namespace x" and ?p = "ss_path (rg_spec x)"
    have u: "url_path x = ?n @ CHR ''/'' # ?p" using False by (simp add: url_path_def)
    have sp: "split_slash (url_path x) = ?n # split_slash ?p"
      unfolding u by (rule split_slash_cons) (use server_segmentD [OF seg] in blast)
    obtain a b where ab: "split_slash ?p = a # b" using split_slash_ne by (cases "split_slash ?p") auto
    have none: "map_of (sv_top s) (url_path x) = None"
    proof (rule ccontr)
      assume "map_of (sv_top s) (url_path x) \<noteq> None"
      then obtain q' where "map_of (sv_top s) (url_path x) = Some q'" by blast
      with i' have "listed_reg s q' (\<lambda>y. ss_toplevel (rg_spec y) \<and> ss_path (rg_spec y) = url_path x)"
        unfolding share_inv_def top_ok_def entries_sat_iff by blast
      then obtain y where y: "get_reg s q' = Some y" "ss_toplevel (rg_spec y)" "ss_path (rg_spec y) = url_path x"
        unfolding listed_iff by blast
      from reg_route [OF i' y(1)] y(2,3) sp ab show False by (simp add: route_for_def Let_def split: if_splits)
    qed
    have "drop (Suc (length ?n)) (url_path x) = ?p" unfolding u by simp
    moreover have "?p \<noteq> ''state-graph''"
    proof
      assume "?p = ''state-graph''"
      moreover have "split_slash ''state-graph'' = [''state-graph'']" by code_simp
      ultimately show False using rt False by (simp add: route_for_def Let_def split: if_splits)
    qed
    moreover have "map_of (sv_records s) (?n, ?p) = Some r" using m False by (simp add: main_slot_def)
    ultimately show ?thesis using none v sp ab by (simp add: lookup_url_def)
  qed
qed

text \<open>
  C18: Every published share that is visible answers at its own URL. In every state the server reaches, a GET,
  HEAD or PUT for the path of a share is routed to that share and to no other: not to a share at the
  top level, not to the state graph or a document of the server, not to an error.
\<close>

theorem url_reaches_its_share:
  assumes "share_run X init_server s" and x: "get_reg s r = Some x" "\<not> rg_staged x" "visible_reg x"
    and q: "List.member [''GET'', ''HEAD'', ''PUT''] (rt_method q)" "rt_path q = CHR ''/'' # url_path x"
  shows "route_request s q = To_registration r"
proof -
  have ok': "share_ok X s" by (rule run_later(1) [OF assms(1) run_refl])
  then have i: "share_inv X {} {} s" by (simp add: share_ok_def)
  note rt = reg_route [OF i x(1)]
  have seg: "server_segment (rg_namespace x)" using i x(1) unfolding share_inv_def regs_ok_def regs_sat by blast
  have path: "ss_path (rg_spec x) \<noteq> []" "hd (ss_path (rg_spec x)) \<noteq> CHR ''/''" "list_all server_segment (split_slash (ss_path (rg_spec x)))"
    using rt by (auto simp: route_for_def Let_def split: if_splits)
  have hd: "url_path x \<noteq> []" "hd (url_path x) \<noteq> CHR ''/''"
    using path server_segmentD [OF seg] by (cases "rg_namespace x"; auto simp: url_path_def)+
  have sp: "split_slash (url_path x) = (if ss_toplevel (rg_spec x) then [] else [rg_namespace x]) @ split_slash (ss_path (rg_spec x))"
    using server_segmentD [OF seg] by (simp add: url_path_def split_slash_cons)
  have parts: "[] \<notin> set (split_slash (url_path x))"
    using path(3) server_segmentD server_segmentD [OF seg] unfolding sp list_all_iff by auto
  have "last (url_path x) \<noteq> CHR ''/''" using split_slash_last [OF hd(1)] parts by (meson list.set_sel(2) split_slash_ne)
  moreover have "dropWhile (\<lambda>c. c = CHR ''/'') (rt_path q) = url_path x"
    using hd by (cases "url_path x") (simp_all add: q)
  moreover have "url_path x \<noteq> ''openapi.json''" "url_path x \<noteq> ''seamless-client.js''"
  proof -
    have docs: "split_slash ''openapi.json'' = [''openapi.json'']" "split_slash ''seamless-client.js'' = [''seamless-client.js'']" by code_simp+
    show "url_path x \<noteq> ''openapi.json''"
    proof
      assume u: "url_path x = ''openapi.json''"
      with sp docs split_slash_ne [of "ss_path (rg_spec x)"] have "ss_toplevel (rg_spec x)" by (auto split: if_splits)
      with u rt docs show False by (simp add: url_path_def route_for_def Let_def split: if_splits)
    qed
    show "url_path x \<noteq> ''seamless-client.js''"
    proof
      assume u: "url_path x = ''seamless-client.js''"
      with sp docs split_slash_ne [of "ss_path (rg_spec x)"] have "ss_toplevel (rg_spec x)" by (auto split: if_splits)
      with u rt docs show False by (simp add: url_path_def route_for_def Let_def split: if_splits)
    qed
  qed
  moreover have "rt_method q \<noteq> ''OPTIONS''" using q(1) by auto
  ultimately show ?thesis
    unfolding route_request_def Let_def using lookup_finds [OF ok' x] hd parts q(1) by simp
qed

theorem url_reaches_its_share_witness:
  "route_request demo_shared \<lparr>rt_method = ''GET'', rt_path = ''/ctx/a'', rt_websocket = False, rt_mode = None, rt_marker = None,
     rt_if_none_match = None, rt_body = Inr []\<rparr> = To_registration 2"
proof -
  have "case get_reg demo_shared 2 of None \<Rightarrow> False | Some x \<Rightarrow> \<not> rg_staged x \<and> visible_reg x \<and> url_path x = ''ctx/a''" by code_simp
  then obtain x where x: "get_reg demo_shared 2 = Some x" "\<not> rg_staged x" "visible_reg x" "url_path x = ''ctx/a''"
    by (auto split: option.splits)
  show ?thesis by (rule url_reaches_its_share [OF demo_run x(1-3)]) (simp_all add: x)
qed

section \<open>The end of shares\<close>

definition closed_at :: "server \<Rightarrow> nat \<Rightarrow> bool" where
  "closed_at s r = (case get_reg s r of Some x \<Rightarrow> rg_closed x | None \<Rightarrow> True)"

lemma remove_closed_at: "closed_at (remove_registration r s) q \<longleftrightarrow> closed_at s q \<or> q = r"
proof (cases "\<exists>x. get_reg s r = Some x \<and> \<not> rg_closed x")
  case True
  then obtain x where x: "get_reg s r = Some x" "\<not> rg_closed x" by blast
  have "closed_at (remove_registration r s) q = closed_at (removed_core r x s) q"
    using same_core_get [OF remove_same_core [OF x], of q]
    by (auto simp: closed_at_def reg_core_def split: option.splits)
  also have "\<dots> \<longleftrightarrow> closed_at s q \<or> q = r"
    by (simp add: closed_at_def removed_fields [OF x(1) refl])
  finally show ?thesis .
next
  case False
  then have "remove_registration r s = s" unfolding remove_registration_def by (auto split: option.split)
  then show ?thesis using False by (auto simp: closed_at_def split: option.split)
qed

lemma same_core_closed_at: "same_core s s' \<Longrightarrow> closed_at s' q = closed_at s q"
  using same_core_get [of s s' q] by (auto simp: closed_at_def reg_core_def split: option.splits)

lemma remove_all_closed_at: "closed_at (fold remove_registration rs s) q \<longleftrightarrow> closed_at s q \<or> q \<in> set rs"
  by (induction rs arbitrary: s) (auto simp: remove_closed_at)

lemma expire_all_closed_at: "closed_at (fold expire_registration rs s) q \<longleftrightarrow> closed_at s q \<or> q \<in> set rs"
  by (induction rs arbitrary: s)
    (auto simp: expire_registration_def remove_closed_at same_core_closed_at [OF same_core_resolve])

lemma open_is_listed:
  assumes i: "share_ok X s" and x: "get_reg s r = Some x" "\<not> rg_closed x"
  shows "r \<in> set (all_registrations s)"
proof (cases "rg_staged x")
  case True
  then have "r \<in> set (sv_staged s)"
    using i x unfolding share_ok_def share_inv_def installed_ok_def regs_sat by (simp add: List.member_iff)
  then show ?thesis by (simp add: all_registrations_def)
next
  case False
  then have "main_slot s (rg_namespace x) (rg_spec x) = Some r"
    using i x unfolding share_ok_def share_inv_def installed_ok_def regs_sat by blast
  then show ?thesis by (auto simp: main_slot_def all_registrations_def split: if_splits dest: map_of_SomeD intro: rev_image_eqI)
qed

text \<open>
  C19: A share server that closes gives every claim back. In every state it reaches, closing it closes all its
  registrations, staged ones included; the claims it then still has are those of requests under way.
\<close>

theorem closed_server_keeps_no_lease:
  assumes "share_run X init_server s" and "\<not> sv_closed s"
  shows "list_all (\<lambda>(r, x). rg_closed x \<and> rg_lease x = None) (sv_regs (close_server s))
    \<and> sv_claims (close_server s) c = loans s c"
proof -
  let ?t = "close_server s"
  have ok': "share_ok X s" by (rule run_later(1) [OF assms(1) run_refl])
  have c: "same_core s (clients_closed s)" by (rule clients_closed_core)
  have okc: "share_ok X (clients_closed s)" using step_ok_core [OF ok' c] by (simp add: step_ok_def)
  have okt: "share_inv X {} {} ?t" using close_server_step [OF ok'] by (simp add: step_ok_def share_ok_def)
  have t: "?t = fold remove_registration (all_registrations (clients_closed s)) (clients_closed s)"
    using assms(2) by (simp add: close_server_alt)
  have all: "closed_at ?t r" for r
  proof (cases "closed_at (clients_closed s) r")
    case True
    then show ?thesis by (simp add: t remove_all_closed_at)
  next
    case False
    then obtain x where "get_reg (clients_closed s) r = Some x" "\<not> rg_closed x" by (auto simp: closed_at_def split: option.splits)
    from open_is_listed [OF okc this] show ?thesis by (simp add: t remove_all_closed_at)
  qed
  have d: "distinct (map fst (sv_regs ?t))" by (rule share_invD(1) [OF okt])
  have one: "rg_closed x \<and> rg_lease x = None" if "(r, x) \<in> set (sv_regs ?t)" for r x
  proof -
    have g: "get_reg ?t r = Some x" using that d by (simp add: get_reg_def)
    have "rg_closed x" using all [of r] g by (simp add: closed_at_def)
    with share_invD(5) [OF okt g] show ?thesis by (simp add: lease_kept_def)
  qed
  then have "reg_leases ?t c = 0" by (auto simp: reg_leases_def filter_empty_conv)
  moreover have "sv_claims ?t c = reg_leases ?t c + loans ?t c" using share_invD(2) [OF okt] unfolding ledger_ok_def by blast
  moreover have "sv_borrowed (remove_registration r u) = sv_borrowed u" for r u
    by (simp add: remove_registration_def Let_def drop_share_lease_def split: option.split)
  then have "sv_borrowed (fold remove_registration rs u) = sv_borrowed u" for rs u by (induction rs arbitrary: u) auto
  then have "loans ?t c = loans s c" using c by (simp add: t loans_def same_core_def)
  ultimately show ?thesis using one by (auto simp: list_all_iff)
qed

theorem closed_server_keeps_no_lease_witness:
  "sv_claims demo_put ''v1'' = 2 \<and> sv_claims (close_server demo_put) ''v1'' = 1"
proof -
  have "\<not> sv_closed demo_put" "loans demo_put ''v1'' = 1" by code_simp+
  with closed_server_keeps_no_lease [OF demo_put_run, of "''v1''"] have "sv_claims (close_server demo_put) ''v1'' = 1" by simp
  moreover have "sv_claims demo_put ''v1'' = 2" by code_simp
  ultimately show ?thesis by simp
qed

text \<open>
  C40: One round of the expiry of a namespace closes exactly those registrations of the server that the namespace still
  records and that are held past their deadline: not one that was activated again, not one whose
  deadline is still to come, not one of another namespace, and not one whose key another share of the namespace has taken
  over in the records, however long it has been held.
\<close>

theorem hold_expiry_exact:
  assumes "map_of (sv_namespaces s) name = Some n" "ns_id n = nsid" and x: "get_reg s r = Some x" "\<not> rg_closed x"
  shows "\<exists>y. get_reg (snd (expire_holds now name nsid s)) r = Some y
    \<and> (rg_closed y \<longleftrightarrow> List.member (map snd (ns_records n)) r \<and> rg_held x
         \<and> (case rg_hold_until x of Some t \<Rightarrow> t \<le> now | None \<Rightarrow> False))"
proof -
  let ?t = "snd (expire_holds now name nsid s)"
  define expired where "expired = filter (hold_expired now s) (map snd (ns_records n))"
  define s0 where "s0 = fold expire_registration expired s"
  define s1 where "s1 = upd_ns name (\<lambda>n. if (case ns_hold_until n of Some t \<Rightarrow> t \<le> now | None \<Rightarrow> False)
                                        then n\<lparr>ns_hold_until := None\<rparr> else n) s0"
  define s2 where "s2 = (\<lambda>b. if b then upd_ns name (\<lambda>n. n\<lparr>ns_hold_task := False\<rparr>) s1 else s1)"
  have kept: "ns_records (if b then n\<lparr>ns_hold_until := None\<rparr> else n) = ns_records n" for b and n :: share_space by simp
  have c1: "same_core s0 s1" unfolding s1_def by (rule same_core_upd_ns) (rule kept)
  have c2: "same_core s0 (s2 b)" for b
    unfolding s2_def using c1 same_core_trans [OF c1 same_core_upd_ns] by simp
  have c3: "same_core s0 (broadcast_shares name (s2 b))" for b by (rule same_core_trans [OF c2 same_core_shares])
  have c4: "same_core s0 (fold close_client cs (s1\<lparr>sv_namespaces := AList.delete name (sv_namespaces s1)\<rparr>))" for cs
    by (rule same_core_trans [OF same_core_trans [OF c1 same_core_fields(6)] close_clients_core])
  have "?t \<in> {s1} \<union> range (\<lambda>cs. fold close_client cs (s1\<lparr>sv_namespaces := AList.delete name (sv_namespaces s1)\<rparr>))
      \<union> range s2 \<union> range (\<lambda>b. broadcast_shares name (s2 b))"
    unfolding expire_holds_def assms(1) option.case Let_def expired_def [symmetric] s0_def [symmetric] s1_def [symmetric]
    using assms(2) by (auto simp: s2_def split: option.split)
  then have c: "same_core s0 ?t" using c1 c2 c3 c4 by auto
  have later: "server_later {} s s0"
    unfolding s0_def expire_registration_def
    by (rule fold_later) (rule server_later_trans [OF same_core_later [OF same_core_resolve] remove_later])
  from server_laterD [OF server_later_trans [OF later same_core_later [OF c]] x(1)] obtain y where y: "get_reg ?t r = Some y" by auto
  have "rg_closed y = closed_at ?t r" using y by (simp add: closed_at_def)
  also have "\<dots> = closed_at s0 r" by (rule same_core_closed_at [OF c])
  also have "\<dots> \<longleftrightarrow> r \<in> set expired" using x by (simp add: s0_def expire_all_closed_at) (simp add: closed_at_def)
  finally show ?thesis using y x by (auto simp: expired_def hold_expired_def)
qed

definition demo_held :: server where
  "demo_held = hold_namespace demo_ext 5 ''ctx'' 7 demo_put"

text \<open>Owner 8 shares the key of the held registration at another URL.\<close>

definition demo_orphan :: server where
  "demo_orphan = snd (reserve demo_ext 6 (demo_request 8 True) demo_held)"

theorem hold_expiry_exact_witness:
  "(case get_reg (snd (expire_holds 15 ''ctx'' 1 demo_held)) 2 of Some y \<Rightarrow> rg_closed y | None \<Rightarrow> False)
   \<and> (case get_reg (snd (expire_holds 14 ''ctx'' 1 demo_held)) 2 of Some y \<Rightarrow> \<not> rg_closed y | None \<Rightarrow> False)
   \<and> (case get_reg (snd (expire_holds 20 ''ctx'' 1 demo_orphan)) 2 of Some y \<Rightarrow> \<not> rg_closed y | None \<Rightarrow> False)"
proof -
  have "case map_of (sv_namespaces demo_held) ''ctx'' of None \<Rightarrow> False | Some n \<Rightarrow> ns_id n = 1 \<and> List.member (map snd (ns_records n)) 2"
    by code_simp
  then obtain n where n: "map_of (sv_namespaces demo_held) ''ctx'' = Some n" "ns_id n = 1" "List.member (map snd (ns_records n)) 2"
    by (auto split: option.splits)
  have "case map_of (sv_namespaces demo_orphan) ''ctx'' of None \<Rightarrow> False | Some n \<Rightarrow> ns_id n = 1 \<and> \<not> List.member (map snd (ns_records n)) 2"
    by code_simp
  then obtain n' where n': "map_of (sv_namespaces demo_orphan) ''ctx'' = Some n'" "ns_id n' = 1" "\<not> List.member (map snd (ns_records n')) 2"
    by (auto split: option.splits)
  have "case get_reg demo_held 2 of None \<Rightarrow> False | Some x \<Rightarrow> \<not> rg_closed x \<and> rg_held x \<and> rg_hold_until x = Some (5 + 10)" by code_simp
  then obtain x where x: "get_reg demo_held 2 = Some x" "\<not> rg_closed x" "rg_held x" "rg_hold_until x = Some 15" by (auto split: option.splits)
  have "case get_reg demo_orphan 2 of None \<Rightarrow> False | Some x \<Rightarrow> \<not> rg_closed x \<and> rg_held x" by code_simp
  then obtain x' where x': "get_reg demo_orphan 2 = Some x'" "\<not> rg_closed x'" by (auto split: option.splits)
  show ?thesis
    using hold_expiry_exact [OF n(1,2) x(1,2), of 15] hold_expiry_exact [OF n(1,2) x(1,2), of 14]
      hold_expiry_exact [OF n'(1,2) x', of 20] n(3) n'(3) x(3,4) by auto
qed

section \<open>Coming back\<close>

lemma fits_held_added:
  assumes "get_reg s r = None" "\<And>q. get_reg s' q = (if q = r then Some x else get_reg s q)" "\<not> rg_held x"
  shows "fits_held s' route p = fits_held s route p"
  using assms by (auto simp: fits_held_def split: option.splits)

text \<open>
  C17: A share that comes back takes over where its predecessor stopped. A reservation that finds a held
  registration for its URL gets the checksum and the lease of that registration and a marker that is not
  lower; the predecessor is closed, the URL belongs to the successor, and the claims of the server do not change.
\<close>

theorem successor_takes_value:
  assumes "share_run X init_server s" and rt: "route_for (rq_namespace q) (rq_spec q) = Inr route"
    and h: "held_registration_for s (rq_namespace q) (rq_spec q) route = Some h" and y: "get_reg s h = Some y"
    and q: "\<not> rq_staged q" "rq_replaces q = []" and res: "reserve X now q s = (Inr r, s')"
  shows "\<exists>x z. get_reg s' r = Some x \<and> rg_checksum x = rg_checksum y \<and> rg_lease x = rg_lease y \<and> rg_marker y \<le> rg_marker x
    \<and> rg_held x \<and> rg_reattached_from x = Some h \<and> get_reg s' h = Some z \<and> rg_closed z \<and> rg_lease z = None
    \<and> main_slot s' (rq_namespace q) (rq_spec q) = Some r \<and> sv_claims s' = sv_claims s"
proof -
  let ?n = "rq_namespace q" and ?spec = "rq_spec q"
  have i: "share_inv X {} {} s" using run_later(1) [OF assms(1) run_refl] by (simp add: share_ok_def)
  define s1 where "s1 = open_namespace ?n (rq_owner q) False s"
  define owner where "owner = (case rq_owner q of Some w \<Rightarrow> w | None \<Rightarrow> (case map_of (sv_namespaces s1) ?n of Some m \<Rightarrow> ns_owner m | None \<Rightarrow> 0))"
  from res rt obtain ct where g: "server_segment ?n" "\<not> List.member [''openapi.json'', ''seamless-client.js''] ?n" "\<not> sv_closed s"
      "\<not> reservation_conflicts now s ?n ?spec route (rq_owner q) (rq_replaces q) []"
      "content_type (hx_guess X) (rq_celltype q) (ss_path ?spec) (ss_mimetype ?spec) = Inr ct"
    unfolding reserve_def by (auto simp: Let_def split: sum.splits if_splits)
  have "reserve X now q s = (Inr (sv_next s1), publish_reservation now q owner route (sv_next s1)
      (s1\<lparr>sv_regs := sv_regs s1 @ [(sv_next s1, new_registration s1 q owner route ct)], sv_next := Suc (sv_next s1)\<rparr>))"
    unfolding reserve_def
    by (simp only: g rt q(1) not_True_eq_False not_False_eq_True if_False res_bind_simps sum.case prod.case Let_def
        s1_def [symmetric] owner_def [symmetric])
  then have r: "r = sv_next s1" and s': "s' = publish_reservation now q owner route r
      (s1\<lparr>sv_regs := sv_regs s1 @ [(r, new_registration s1 q owner route ct)], sv_next := Suc r\<rparr>)"
    using res by simp_all
  define x0 where "x0 = new_registration s1 q owner route ct"
  define s2 where "s2 = s1\<lparr>sv_regs := sv_regs s1 @ [(r, x0)], sv_next := Suc r\<rparr>"
  have c: "same_core s s1" unfolding s1_def by (rule open_namespace_core)
  have same: "get_reg s1 p = get_reg s p" for p by (simp add: s1_def open_namespace_def get_reg_def)
  have none: "get_reg s1 r = None"
    using share_invD(6) [OF same_core_inv [OF c i], of r] r by (cases "get_reg s1 r") auto
  have g2: "get_reg s2 p = (if p = r then Some x0 else get_reg s1 p)" for p
    using none by (auto simp: s2_def get_reg_def map_add_def split: option.split)
  have fits: "fits_held s2 route p = fits_held s route p" for p
  proof -
    have "fits_held s2 route p = fits_held s1 route p"
      by (rule fits_held_added [OF none g2]) (simp add: x0_def new_registration_def)
    also have "\<dots> = fits_held s route p" unfolding fits_held_def same ..
    finally show ?thesis .
  qed
  have m2: "main_slot s2 n spec = main_slot s n spec" for n spec
    using same_core_main [OF c] by (simp add: s2_def main_slot_def s1_def open_namespace_def)
  have k2: "key_slot s2 n spec = key_slot s n spec" for n spec
    by (auto simp: s2_def key_slot_def s1_def open_namespace_def update_conv' split: option.splits)
  have h2: "held_registration_for s2 ?n ?spec route = Some h"
    using h unfolding held_registration_for_def fits m2 k2 .
  have ne: "h \<noteq> r" using y none same by auto
  have yh: "get_reg s2 h = Some y" using g2 ne y same by simp
  have open_y: "\<not> rg_closed y" using held_is_main [OF i rt h] y by auto
  define x1 where "x1 = x0\<lparr>rg_checksum := rg_checksum y, rg_marker := max (rg_marker x0) (rg_marker y), rg_lease := rg_lease y,
     rg_held := True, rg_reattaching := True, rg_reattached_from := Some h,
     rg_flags_changed := (ss_readonly (rg_spec x0) \<noteq> ss_readonly (rg_spec y)
       \<or> rg_content_type x0 \<noteq> rg_content_type y \<or> rg_binary x0 \<noteq> rg_binary y)\<rparr>"
  define s3 where "s3 = adopt_held r h s2"
  have g3: "get_reg s3 p = (if p = h then Some (y\<lparr>rg_lease := None\<rparr>) else if p = r then Some x1 else get_reg s2 p)" for p
    using yh ne g2 by (simp add: s3_def adopt_held_def get_upd_reg x1_def)
  define s4 where "s4 = removed_core h (y\<lparr>rg_lease := None\<rparr>) s3"
  have hy: "get_reg s3 h = Some (y\<lparr>rg_lease := None\<rparr>)" "\<not> rg_closed (y\<lparr>rg_lease := None\<rparr>)" using g3 open_y by simp_all
  note f4 = removed_fields [OF hy(1) s4_def]
  define s5 where "s5 = offer_state_graph ?n (rq_state_graph q) (take_over now ?n owner (remove_registration h s3))"
  have c5: "same_core s4 s5"
    unfolding s4_def s5_def by (rule same_core_trans [OF remove_same_core [OF hy] take_offer_core])
  have out: "s' = install r ?n ?spec s5"
    using h2 unfolding s' x0_def [symmetric] s2_def [symmetric] by (simp add: publish_reservation_def Let_def s3_def s5_def)
  have "get_reg s4 r = Some x1" using f4(1) g3 ne by simp
  moreover have "\<exists>z. get_reg s4 h = Some z \<and> rg_closed z \<and> rg_lease z = None" using f4(1) by simp
  moreover have "sv_claims s4 = sv_claims s"
  proof -
    have "sv_claims s3 = sv_claims s"
      by (simp add: s3_def adopt_held_def s2_def s1_def open_namespace_def split: option.split)
    then show ?thesis using f4(10) by (intro ext) simp
  qed
  ultimately obtain z where a: "get_reg s4 r = Some x1" "get_reg s4 h = Some z" "rg_closed z" "rg_lease z = None" "sv_claims s4 = sv_claims s"
    by blast
  have full: "\<exists>v. get_reg s' r = Some v \<and> reg_core v = reg_core x1 \<and> rg_held v \<and> rg_reattached_from v = Some h"
  proof -
    have "get_reg (remove_registration h s3) r = get_reg s3 r"
      using hy ne unfolding remove_registration_def Let_def drop_share_lease_def
      by (simp add: get_upd_reg split: option.split)
    then have "get_reg s' r = Some x1"
      unfolding out s5_def using g3 ne by (simp add: offer_state_graph_def take_over_def)
    then show ?thesis by (simp add: x1_def)
  qed
  from same_core_Some' [OF c5 a(2)] obtain w where w: "get_reg s5 h = Some w" "reg_core z = reg_core w" .
  have "main_slot s' ?n ?spec = Some r" by (simp add: out main_slot_def install_fields update_conv')
  moreover have "sv_claims s' = sv_claims s" using c5 a(5) by (simp add: out install_fields same_core_def)
  ultimately show ?thesis
    using full w a(3,4) by (auto simp: out reg_core_def x1_def)
qed

lemma demo_held_run: "share_run demo_ext init_server demo_held"
  unfolding demo_held_def by (rule run_step [OF demo_put_run step_hold])

theorem successor_takes_value_witness:
  "\<exists>r s'. reserve demo_ext 6 (demo_request 8 False) demo_held = (Inr r, s') \<and> main_slot s' ''ctx'' (rq_spec (demo_request 8 False)) = Some r
    \<and> (\<exists>x. get_reg s' r = Some x \<and> rg_checksum x = Some ''v1'') \<and> sv_claims s' ''v1'' = 2"
proof -
  let ?q = "demo_request 8 False"
  have rt: "route_for (rq_namespace ?q) (rq_spec ?q) = Inr ''/ctx/a''" by code_simp
  have h: "held_registration_for demo_held (rq_namespace ?q) (rq_spec ?q) ''/ctx/a'' = Some 2" by code_simp
  have "case get_reg demo_held 2 of None \<Rightarrow> False | Some y \<Rightarrow> rg_checksum y = Some ''v1''" by code_simp
  then obtain y where y: "get_reg demo_held 2 = Some y" "rg_checksum y = Some ''v1''" by (auto split: option.splits)
  have "case fst (reserve demo_ext 6 ?q demo_held) of Inr _ \<Rightarrow> True | Inl _ \<Rightarrow> False" by code_simp
  then obtain r s' where res: "reserve demo_ext 6 ?q demo_held = (Inr r, s')"
    by (cases "reserve demo_ext 6 ?q demo_held") (auto split: sum.splits)
  have q: "\<not> rq_staged ?q" "rq_replaces ?q = []" "rq_namespace ?q = ''ctx''" by (simp_all add: demo_request_def)
  have "sv_claims demo_held ''v1'' = 2" by code_simp
  with successor_takes_value [OF demo_held_run rt h y(1) q(1,2) res] y(2) q(3) res show ?thesis by auto
qed

text \<open>
  C8: The server's tables, leases and fingerprints stay in step. In every state reached from the start, the
  tables hold open published registrations under their own keys, every open published registration is in
  its slot and every staged one in the stage; each open registration has the lease of the checksum it shows
  and closed ones have none; the claims are exactly these leases and those of requests under way; and no
  two registrations share a fingerprint.
\<close>

theorem share_server_invariant:
  assumes "share_run X init_server s"
  shows "share_ok X s"
  by (rule run_later(1) [OF assms run_refl])

theorem share_server_invariant_witness:
  "share_ok demo_ext demo_held \<and> sv_claims demo_held ''v1'' = 2"
proof
  show "share_ok demo_ext demo_held" by (rule share_server_invariant [OF demo_held_run])
  show "sv_claims demo_held ''v1'' = 2" by code_simp
qed

end
