(* ===== verification/File_Service.thy ===== *)
theory File_Service
  imports Mount_Delivery
begin

text \<open>
  The file service (\<^verbatim>\<open>attachments/fs/service.py\<close>): registrations and their serial queues, stable
  reads, polls, atomic writes and deliveries.

  The file system is a value, and what happens to it between two calls of the service is an argument. Codecs,
  canonical forms and checksums of the imported package are the record \<open>file_ext\<close>. The time limits of a
  scan and the modes of files are left out.
\<close>

section \<open>The file system\<close>

text \<open>Device, inode, size, and the times of modification and of change.\<close>

type_synonym stamp = "nat \<times> nat \<times> nat \<times> nat \<times> nat"

record file_node =
  fn_stamp :: stamp
  fn_content :: string

record fsys =
  fy_files :: "(string \<times> file_node) list"
  fy_dirs :: "(string \<times> stamp) list"
  fy_links :: "string list" \<comment> \<open>the files that are symbolic links\<close>

definition stat_path :: "fsys \<Rightarrow> string \<Rightarrow> stamp option" where
  "stat_path fs path =
     (case map_of (fy_files fs) path of Some f \<Rightarrow> Some (fn_stamp f) | None \<Rightarrow> map_of (fy_dirs fs) path)"

definition path_join :: "string \<Rightarrow> string \<Rightarrow> string" where
  "path_join a b = a @ ''/'' @ b"

definition below_path :: "string \<Rightarrow> string \<Rightarrow> bool" where
  "below_path base path \<longleftrightarrow> starts_with (base @ ''/'') path"

definition base_name :: "string \<Rightarrow> string" where
  "base_name path = last (split_slash path)"

definition temporary_name :: "string \<Rightarrow> bool" where
  "temporary_name name \<longleftrightarrow> starts_with ''.'' name \<and> contains ''.seamless-'' name \<and> ends_with ''.tmp'' name"

text \<open>The order in which \<open>os.walk\<close> meets files: those of a directory first, then its subdirectories.\<close>

fun walk_before :: "string list \<Rightarrow> string list \<Rightarrow> bool" where
  "walk_before [] ys \<longleftrightarrow> True"
| "walk_before xs [] \<longleftrightarrow> False"
| "walk_before [x] [y] \<longleftrightarrow> KStr x \<le> KStr y"
| "walk_before [x] (y # ys) \<longleftrightarrow> True"
| "walk_before (x # xs) [y] \<longleftrightarrow> False"
| "walk_before (x # xs) (y # ys) \<longleftrightarrow> (if x = y then walk_before xs ys else KStr x \<le> KStr y)"

fun walk_insert :: "string \<Rightarrow> string list \<Rightarrow> string list" where
  "walk_insert p [] = [p]"
| "walk_insert p (q # qs) =
     (if walk_before (split_slash p) (split_slash q) then p # q # qs else q # walk_insert p qs)"

definition walk_files :: "fsys \<Rightarrow> string \<Rightarrow> string list" where
  "walk_files fs base =
     foldr walk_insert
       (map (drop (Suc (length base))) (filter (below_path base) (map fst (fy_files fs)))) []"

section \<open>Registrations\<close>

datatype file_print =
    Fp_none
  | Fp_invalid
  | Fp_file stamp
  | Fp_dir stamp "(string \<times> stamp option) list"

record file_reg =
  fr_path :: string
  fr_session :: string
  fr_spec :: spec
  fr_celltype :: string
  fr_directory :: bool
  fr_active :: bool
  fr_closed :: bool
  fr_ws :: int
  fr_baseline :: file_print
  fr_queue :: "nat list"
  fr_busy :: bool
  fr_poll_queued :: bool
  fr_closing :: bool
  fr_replaces :: "nat list"

record file_service =
  fv_regs :: "(nat \<times> file_reg) list"
  fv_registered :: "nat list"
  fv_work :: "(nat \<times> nat) list"
  fv_running :: "(nat \<times> nat) list"
  fv_stopping :: bool
  fv_next :: nat

record file_ext =
  fx_gunzip :: "string \<Rightarrow> exc + string"
  fx_gzip :: "string \<Rightarrow> string"
  fx_unzstd :: "string \<Rightarrow> exc + string"
  fx_zstd :: "string \<Rightarrow> string"
  fx_canon :: "string \<Rightarrow> string \<Rightarrow> exc + string"
  fx_sum :: "string \<Rightarrow> checksum"
  fx_index_sum :: "(string \<times> checksum) list \<Rightarrow> checksum"
  fx_index :: "string \<Rightarrow> exc + (string \<times> checksum) list option" \<comment> \<open>\<open>None\<close> is the null index\<close>
  fx_resolve :: "checksum \<Rightarrow> exc + string"
  fx_null :: string
  fx_escapes :: "string \<Rightarrow> bool" \<comment> \<open>the real path leaves the mount\<close>
  fx_max_file :: nat
  fx_max_files :: nat
  fx_max_tree :: nat

definition get_file_reg :: "file_service \<Rightarrow> nat \<Rightarrow> file_reg option" where
  "get_file_reg s r = map_of (fv_regs s) r"

definition upd_file_reg :: "nat \<Rightarrow> (file_reg \<Rightarrow> file_reg) \<Rightarrow> file_service \<Rightarrow> file_service" where
  "upd_file_reg r f s = s\<lparr>fv_regs := map (\<lambda>(k, x). (k, if k = r then f x else x)) (fv_regs s)\<rparr>"

text \<open>
  A registration is refused when its path and that of another live one lie in each other and one of
  the two writes, or removes a directory when it ends.
\<close>

definition paths_overlap :: "string \<Rightarrow> string \<Rightarrow> bool" where
  "paths_overlap a b \<longleftrightarrow> a = b \<or> below_path b a \<or> below_path a b"

definition writes_path :: "bool \<Rightarrow> spec \<Rightarrow> bool" where
  "writes_path directory sp \<longleftrightarrow> contains ''w'' (spec_mode sp) \<or> (directory \<and> \<not> spec_persistent sp)"

definition clashes :: "file_reg \<Rightarrow> file_reg \<Rightarrow> bool" where
  "clashes a b \<longleftrightarrow> paths_overlap (fr_path a) (fr_path b)
     \<and> (writes_path (fr_directory a) (fr_spec a) \<or> writes_path (fr_directory b) (fr_spec b))"

definition live_reg :: "file_reg \<Rightarrow> bool" where
  "live_reg x \<longleftrightarrow> \<not> fr_closed x \<and> \<not> fr_closing x"

definition new_file_reg :: "string \<Rightarrow> spec \<Rightarrow> string \<Rightarrow> bool \<Rightarrow> string \<Rightarrow> nat list \<Rightarrow> file_reg" where
  "new_file_reg path sp celltype directory session replaces =
     \<lparr>fr_path = path, fr_session = session, fr_spec = sp, fr_celltype = celltype, fr_directory = directory,
      fr_active = False, fr_closed = False, fr_ws = 0, fr_baseline = Fp_none, fr_queue = [], fr_busy = False,
      fr_poll_queued = False, fr_closing = False, fr_replaces = replaces\<rparr>"

definition file_reserve ::
  "string \<Rightarrow> spec \<Rightarrow> string \<Rightarrow> bool \<Rightarrow> string \<Rightarrow> nat list \<Rightarrow> (file_service, nat) oper" where
  "file_reserve path sp celltype directory session replaces s =
     (let new = new_file_reg path sp celltype directory session replaces; r = fv_next s
      in if fv_stopping s then (Inl Runtime_Error, s)
         else if list_ex (\<lambda>q. case get_file_reg s q of
                  None \<Rightarrow> False
                | Some other \<Rightarrow> live_reg other \<and> \<not> List.member replaces q \<and> clashes new other) (fv_registered s)
         then (Inl Value_Error, s)
         else (Inr r, s\<lparr>fv_regs := fv_regs s @ [(r, new)], fv_registered := fv_registered s @ [r], fv_next := Suc r\<rparr>))"

definition file_activate :: "nat \<Rightarrow> file_service \<Rightarrow> file_service" where
  "file_activate r s = upd_file_reg r (\<lambda>x. x\<lparr>fr_active := True\<rparr>) s"

section \<open>The serial queue of a registration\<close>

text \<open>Operations are numbered. A worker takes the first of the work queue.\<close>

definition submit_op :: "nat \<Rightarrow> nat \<Rightarrow> file_service \<Rightarrow> file_service" where
  "submit_op r k s =
     (case get_file_reg s r of
        None \<Rightarrow> s
      | Some x \<Rightarrow>
          (if fr_busy x then upd_file_reg r (\<lambda>x. x\<lparr>fr_queue := fr_queue x @ [k]\<rparr>) s
           else (upd_file_reg r (\<lambda>x. x\<lparr>fr_busy := True\<rparr>) s)\<lparr>fv_work := fv_work s @ [(r, k)]\<rparr>))"

definition start_op :: "file_service \<Rightarrow> (nat \<times> nat) option \<times> file_service" where
  "start_op s =
     (case fv_work s of
        [] \<Rightarrow> (None, s)
      | w # ws \<Rightarrow> (Some w, s\<lparr>fv_work := ws, fv_running := fv_running s @ [w]\<rparr>))"

definition finish_op :: "nat \<Rightarrow> nat \<Rightarrow> file_service \<Rightarrow> file_service" where
  "finish_op r k s =
     (let s1 = s\<lparr>fv_running := remove1 (r, k) (fv_running s)\<rparr>
      in case get_file_reg s r of
           None \<Rightarrow> s1
         | Some x \<Rightarrow>
             (case fr_queue x of
                [] \<Rightarrow> upd_file_reg r (\<lambda>x. x\<lparr>fr_busy := False\<rparr>) s1
              | n # ns \<Rightarrow> (upd_file_reg r (\<lambda>x. x\<lparr>fr_queue := ns\<rparr>) s1)\<lparr>fv_work := fv_work s1 @ [(r, n)]\<rparr>))"

section \<open>Fingerprints and reads\<close>

text \<open>Errors of the operating system are \<open>Runtime_Error\<close>; every caller catches all exceptions.\<close>

fun print_entries :: "file_ext \<Rightarrow> fsys \<Rightarrow> string \<Rightarrow> string list \<Rightarrow> (string \<times> stamp option) list \<Rightarrow> exc + (string \<times> stamp option) list" where
  "print_entries X fs base [] acc = Inr acc"
| "print_entries X fs base (p # ps) acc =
     (if temporary_name (base_name p) then print_entries X fs base ps acc
      else if List.member (fy_links fs) (path_join base p) then Inl Value_Error
      else (let acc' = acc @ [(p, stat_path fs (path_join base p))]
            in if length acc' > fx_max_files X then Inl Value_Error else print_entries X fs base ps acc'))"

definition fingerprint :: "file_ext \<Rightarrow> fsys \<Rightarrow> file_reg \<Rightarrow> exc + file_print" where
  "fingerprint X fs x =
     (case stat_path fs (fr_path x) of
        None \<Rightarrow> Inr Fp_none
      | Some st \<Rightarrow>
          (if \<not> fr_directory x then Inr (Fp_file st)
           else if map_of (fy_dirs fs) (fr_path x) = None then Inl Runtime_Error
           else res_bind (print_entries X fs (fr_path x) (walk_files fs (fr_path x)) []) (\<lambda>es. Inr (Fp_dir st es))))"

definition decode_bytes :: "file_ext \<Rightarrow> string \<Rightarrow> string \<Rightarrow> exc + string" where
  "decode_bytes X path data =
     (if data = [] then Inr []
      else if ends_with ''.gz'' path then res_bind (fx_gunzip X data) (\<lambda>d. Inr (take (Suc (fx_max_file X)) d))
      else if ends_with ''.zst'' path then res_bind (fx_unzstd X data) (\<lambda>d. Inr (take (Suc (fx_max_file X)) d))
      else Inr data)"

definition encode_bytes :: "file_ext \<Rightarrow> string \<Rightarrow> string \<Rightarrow> string" where
  "encode_bytes X path data =
     (if data = [] then []
      else if ends_with ''.gz'' path then fx_gzip X data
      else if ends_with ''.zst'' path then fx_zstd X data
      else data)"

definition read_bytes :: "file_ext \<Rightarrow> fsys \<Rightarrow> string \<Rightarrow> exc + string" where
  "read_bytes X fs path =
     (case map_of (fy_files fs) path of
        None \<Rightarrow> Inl Runtime_Error
      | Some f \<Rightarrow>
          (if length (fn_content f) > fx_max_file X then Inl Value_Error
           else res_bind (decode_bytes X path (fn_content f)) (\<lambda>content.
             if length content > fx_max_file X then Inl Value_Error else Inr content)))"

definition plain_name :: "string \<Rightarrow> string" where
  "plain_name relative =
     (if ends_with ''.gz'' relative then take (length relative - 3) relative
      else if ends_with ''.zst'' relative then take (length relative - 4) relative
      else relative)"

text \<open>The leaves of a directory: the index, and the claims that were taken before an exception.\<close>

fun read_leaves ::
  "file_ext \<Rightarrow> (string \<Rightarrow> fsys) \<Rightarrow> string \<Rightarrow> string list \<Rightarrow> nat \<Rightarrow> (string \<times> checksum) list \<Rightarrow> checksum list
    \<Rightarrow> (exc + (string \<times> checksum) list) \<times> checksum list" where
  "read_leaves X seen base [] bytes index leases = (Inr index, leases)"
| "read_leaves X seen base (p # ps) bytes index leases =
     (case read_bytes X (seen (path_join base p)) (path_join base p) of
        Inl e \<Rightarrow> (Inl e, leases)
      | Inr content \<Rightarrow>
          (if bytes + length content > fx_max_tree X then (Inl Value_Error, leases)
           else if map_of index (plain_name p) \<noteq> None then (Inl Value_Error, leases)
           else (let cs = fx_sum X content
                 in read_leaves X seen base ps (bytes + length content) (index @ [(plain_name p, cs)]) (leases @ [cs]))))"

record read_result =
  fz_checksum :: checksum
  fz_no_value :: bool
  fz_canonical :: bool

definition print_names :: "file_print \<Rightarrow> string list" where
  "print_names f = (case f of Fp_dir _ es \<Rightarrow> map fst es | _ \<Rightarrow> [])"

definition read_content ::
  "file_ext \<Rightarrow> (string \<Rightarrow> fsys) \<Rightarrow> file_reg \<Rightarrow> file_print \<Rightarrow> bool \<Rightarrow> (exc + read_result) \<times> checksum list" where
  "read_content X seen x print initial =
     (if fr_directory x
      then (case read_leaves X seen (fr_path x) (print_names print) 0 [] [] of
              (Inl e, leases) \<Rightarrow> (Inl e, leases)
            | (Inr index, leases) \<Rightarrow>
                (let empty = (initial \<and> index = [])
                 in (Inr \<lparr>fz_checksum = (if empty then fx_sum X (fx_null X) else fx_index_sum X index),
                          fz_no_value = empty, fz_canonical = False\<rparr>, leases)))
      else (case read_bytes X (seen (fr_path x)) (fr_path x) of
              Inl e \<Rightarrow> (Inl e, [])
            | Inr content \<Rightarrow>
                (if content = []
                 then (Inr \<lparr>fz_checksum = fx_sum X (fx_null X), fz_no_value = True, fz_canonical = False\<rparr>, [])
                 else (case fx_canon X content (fr_celltype x) of
                         Inl e \<Rightarrow> (Inl e, [])
                       | Inr canonical \<Rightarrow>
                           (Inr \<lparr>fz_checksum = fx_sum X canonical, fz_no_value = False,
                                fz_canonical = (canonical \<noteq> content)\<rparr>, [])))))"

record file_obs =
  fo_session :: string
  fo_ws :: int
  fo_print :: file_print
  fo_checksum :: checksum
  fo_leases :: "checksum list"
  fo_no_value :: bool
  fo_canonical :: bool

definition plain_obs :: "file_reg \<Rightarrow> int \<Rightarrow> file_print \<Rightarrow> checksum \<Rightarrow> bool \<Rightarrow> file_obs" where
  "plain_obs x ws f c no_value =
     \<lparr>fo_session = fr_session x, fo_ws = ws, fo_print = f, fo_checksum = c, fo_leases = [], fo_no_value = no_value,
      fo_canonical = False\<rparr>"

text \<open>
  What one attempt of a read sees: the file system at the first fingerprint, at the reading of each
  file, and at the second fingerprint.
\<close>

record read_view =
  rv_before :: fsys
  rv_at :: "string \<Rightarrow> fsys"
  rv_after :: fsys

text \<open>
  A read takes at most five attempts. Beside the observation: the claims that were taken, and
  those that were given back.
\<close>

fun read_loop ::
  "file_ext \<Rightarrow> file_reg \<Rightarrow> int \<Rightarrow> bool \<Rightarrow> read_view list \<Rightarrow> file_print \<Rightarrow> checksum list \<Rightarrow> checksum list \<Rightarrow> checksum list
    \<Rightarrow> file_obs \<times> checksum list \<times> checksum list" where
  "read_loop X x ws initial [] f leases taken freed = (plain_obs x ws f INVALID False, taken, freed @ leases)"
| "read_loop X x ws initial (v # vs) f leases taken freed =
     (case fingerprint X (rv_before v) x of
        Inl _ \<Rightarrow> (plain_obs x ws f INVALID False, taken, freed @ leases)
      | Inr Fp_none \<Rightarrow> (plain_obs x ws Fp_none ABSENT True, taken, freed @ leases)
      | Inr g \<Rightarrow>
          (case read_content X (rv_at v) x g initial of
             (Inl _, ls) \<Rightarrow> (plain_obs x ws g INVALID False, taken @ ls, freed @ leases @ ls)
           | (Inr res, ls) \<Rightarrow>
               (case fingerprint X (rv_after v) x of
                  Inl _ \<Rightarrow> (plain_obs x ws g INVALID False, taken @ ls, freed @ leases @ ls)
                | Inr g' \<Rightarrow>
                    (if g = g'
                     then (\<lparr>fo_session = fr_session x, fo_ws = ws, fo_print = g, fo_checksum = fz_checksum res,
                            fo_leases = fz_checksum res # ls, fo_no_value = fz_no_value res,
                            fo_canonical = fz_canonical res\<rparr>,
                           taken @ ls @ [fz_checksum res], freed @ leases)
                     else read_loop X x ws initial vs g ls (taken @ ls) (freed @ leases)))))"

definition file_read ::
  "file_ext \<Rightarrow> file_reg \<Rightarrow> int \<Rightarrow> bool \<Rightarrow> (nat \<Rightarrow> read_view) \<Rightarrow> file_obs \<times> checksum list \<times> checksum list" where
  "file_read X x ws initial views = read_loop X x ws initial (map views [0..<5]) Fp_none [] [] []"

definition file_initial_read ::
  "file_ext \<Rightarrow> nat \<Rightarrow> (nat \<Rightarrow> read_view) \<Rightarrow> file_service \<Rightarrow> file_obs option \<times> file_service" where
  "file_initial_read X r views s =
     (case get_file_reg s r of
        None \<Rightarrow> (None, s)
      | Some x \<Rightarrow>
          (let ob = fst (file_read X x (fr_ws x + 1) True views)
           in (Some ob, upd_file_reg r (\<lambda>x. x\<lparr>fr_ws := fr_ws x + 1, fr_baseline := fo_print ob\<rparr>) s)))"

section \<open>Polls\<close>

datatype file_message =
    Fm_observed nat file_obs
  | Fm_cut nat nat int
  | Fm_tick nat

definition send_observed :: "file_service \<Rightarrow> nat \<Rightarrow> file_obs \<Rightarrow> file_message list" where
  "send_observed s r ob =
     (case get_file_reg s r of None \<Rightarrow> [] | Some x \<Rightarrow> if fr_closed x then [] else [Fm_observed r ob])"

fun print_stamps :: "file_print \<Rightarrow> stamp option list" where
  "print_stamps (Fp_dir st es) = Some st # map snd es"
| "print_stamps (Fp_file st) = [Some st]"
| "print_stamps _ = []"

text \<open>A time of modification within two seconds of the clock is racy: a later write may leave it unchanged.\<close>

definition racy_print :: "real \<Rightarrow> file_print \<Rightarrow> bool" where
  "racy_print now f =
     list_ex (\<lambda>q. case q of None \<Rightarrow> False
       | Some (_, _, _, mtime, _) \<Rightarrow> \<bar>now - real mtime / 10 ^ 9\<bar> \<le> 2) (print_stamps f)"

definition read_peers :: "file_service \<Rightarrow> nat \<Rightarrow> file_reg \<Rightarrow> nat list" where
  "read_peers s r x =
     filter (\<lambda>q. q \<noteq> r \<and> (case get_file_reg s q of
         None \<Rightarrow> False
       | Some y \<Rightarrow> fr_active y \<and> \<not> fr_closed y \<and> spec_mode (fr_spec y) = ''r'' \<and> fr_path y = fr_path x
                    \<and> fr_celltype y = fr_celltype x)) (fv_registered s)"

definition share_read :: "file_print \<Rightarrow> file_obs \<Rightarrow> nat \<Rightarrow> file_message list \<times> file_service \<Rightarrow> file_message list \<times> file_service" where
  "share_read print ob q out =
     (let s1 = upd_file_reg q (\<lambda>y. y\<lparr>fr_ws := fr_ws y + 1, fr_baseline := print\<rparr>) (snd out)
      in case get_file_reg s1 q of
           None \<Rightarrow> (fst out, s1)
         | Some y \<Rightarrow>
             (fst out @ send_observed s1 q
                \<lparr>fo_session = fr_session y, fo_ws = fr_ws y, fo_print = fo_print ob, fo_checksum = fo_checksum ob,
                 fo_leases = fo_leases ob, fo_no_value = False, fo_canonical = False\<rparr>, s1))"

definition file_poll ::
  "file_ext \<Rightarrow> real \<Rightarrow> fsys \<Rightarrow> (nat \<Rightarrow> read_view) \<Rightarrow> nat \<Rightarrow> bool \<Rightarrow> file_service \<Rightarrow> file_message list \<times> file_service" where
  "file_poll X now fs views r force s =
     (case get_file_reg s r of
        None \<Rightarrow> ([], s)
      | Some x \<Rightarrow>
          (if fr_closed x \<or> \<not> fr_active x then ([], s)
           else
             (let (print, racy) = (case fingerprint X fs x of Inl _ \<Rightarrow> (Fp_invalid, True) | Inr f \<Rightarrow> (f, racy_print now f))
              in if \<not> force \<and> print = fr_baseline x \<and> \<not> racy then ([], s)
                 else
                   (let s1 = upd_file_reg r (\<lambda>x. x\<lparr>fr_ws := fr_ws x + 1, fr_baseline := print\<rparr>) s;
                        ob = fst (file_read X x (fr_ws x + 1) False views);
                        out = fold (share_read print ob) (if spec_mode (fr_spec x) = ''r'' then read_peers s1 r x else []) ([], s1)
                    in (fst out @ send_observed (snd out) r ob, snd out)))))"

definition file_cut ::
  "file_ext \<Rightarrow> real \<Rightarrow> fsys \<Rightarrow> (nat \<Rightarrow> read_view) \<Rightarrow> nat \<Rightarrow> nat \<Rightarrow> file_service \<Rightarrow> file_message list \<times> file_service" where
  "file_cut X now fs views r cut_id s =
     (let (out, s1) = file_poll X now fs views r True s
      in (out @ (case get_file_reg s1 r of None \<Rightarrow> [] | Some x \<Rightarrow> [Fm_cut r cut_id (fr_ws x)]), s1))"

text \<open>
  One round of the broker: of the registrations that only read the same file as the same celltype one
  is polled for all.
\<close>

fun broker_round :: "string list \<Rightarrow> nat list \<Rightarrow> (string \<times> string) list \<Rightarrow> file_service \<Rightarrow> (nat \<times> bool) list \<times> file_service" where
  "broker_round touched [] shared s = ([], s)"
| "broker_round touched (r # rs) shared s =
     (case get_file_reg s r of
        None \<Rightarrow> broker_round touched rs shared s
      | Some x \<Rightarrow>
          (let key = (fr_path x, fr_celltype x); reads = spec_mode (fr_spec x) = ''r'';
               live = (fr_active x \<and> \<not> fr_closed x)
           in if reads \<and> List.member shared key then broker_round touched rs shared s
              else
                (let shared' = (if reads \<and> live then key # shared else shared)
                 in if \<not> live \<or> fr_poll_queued x then broker_round touched rs shared' s
                    else
                      (let (ps, s') = broker_round touched rs shared' (upd_file_reg r (\<lambda>x. x\<lparr>fr_poll_queued := True\<rparr>) s)
                       in ((r, List.member touched (fr_path x)) # ps, s')))))"

definition broker_poll ::
  "file_ext \<Rightarrow> real \<Rightarrow> fsys \<Rightarrow> (nat \<Rightarrow> read_view) \<Rightarrow> nat \<Rightarrow> bool \<Rightarrow> file_service \<Rightarrow> file_message list \<times> file_service" where
  "broker_poll X now fs views r force s =
     (let (out, s1) = file_poll X now fs views r force s
      in (out @ [Fm_tick r], upd_file_reg r (\<lambda>x. x\<lparr>fr_poll_queued := False\<rparr>) s1))"

section \<open>Writes\<close>

definition put_file :: "string \<Rightarrow> file_node \<Rightarrow> fsys \<Rightarrow> fsys" where
  "put_file path node fs = fs\<lparr>fy_files := AList.update path node (fy_files fs)\<rparr>"

definition drop_file :: "string \<Rightarrow> fsys \<Rightarrow> fsys" where
  "drop_file path fs = fs\<lparr>fy_files := AList.delete path (fy_files fs)\<rparr>"

definition parent_path :: "string \<Rightarrow> string" where
  "parent_path path = take (length path - Suc (length (base_name path))) path"

text \<open>
  \<open>fresh\<close> gives, for a path, the random token of a temporary file made for it and the stamp it has after the
  operation. A directory that gets or loses an entry gets a new stamp.
\<close>

definition touch_parent :: "(string \<Rightarrow> string \<times> stamp) \<Rightarrow> string \<Rightarrow> fsys \<Rightarrow> fsys" where
  "touch_parent fresh path fs =
     fs\<lparr>fy_dirs := map (\<lambda>(d, st). (d, if d = parent_path path then snd (fresh d) else st)) (fy_dirs fs)\<rparr>"

fun path_prefixes :: "string \<Rightarrow> string list \<Rightarrow> string list" where
  "path_prefixes acc [] = []"
| "path_prefixes acc (p # ps) = (acc @ p) # path_prefixes (acc @ p @ ''/'') ps"

definition make_dirs :: "(string \<Rightarrow> string \<times> stamp) \<Rightarrow> string \<Rightarrow> fsys \<Rightarrow> exc + fsys" where
  "make_dirs fresh path fs =
     (let chain = filter (\<lambda>d. d \<noteq> []) (path_prefixes [] (split_slash path))
      in if list_ex (\<lambda>d. map_of (fy_files fs) d \<noteq> None) chain then Inl Runtime_Error
         else Inr (fold (\<lambda>d fs. if map_of (fy_dirs fs) d \<noteq> None then fs
                               else (touch_parent fresh d fs)\<lparr>fy_dirs := fy_dirs (touch_parent fresh d fs) @ [(d, snd (fresh d))]\<rparr>)
                     chain fs))"

definition temp_path :: "string \<Rightarrow> string \<Rightarrow> string" where
  "temp_path path token =
     path_join (parent_path path) (''.'' @ base_name path @ ''.seamless-'' @ token @ ''.tmp'')"

text \<open>
  An atomic write. \<open>env\<close> is what others do to the file system before the temporary file is made, before the
  target is compared and before it is replaced; the result has the states the write itself leaves, the last of
  them after the temporary file is removed.
\<close>

definition atomic_write ::
  "file_ext \<Rightarrow> (nat \<Rightarrow> fsys \<Rightarrow> fsys) \<Rightarrow> string \<Rightarrow> stamp \<Rightarrow> string \<Rightarrow> string \<Rightarrow> stamp option \<Rightarrow> fsys
    \<Rightarrow> (exc + bool) \<times> fsys list" where
  "atomic_write X env token st path content expected fs =
     (let tmp = temp_path path token; data = encode_bytes X path content;
          f0 = env 0 fs
      in if stat_path f0 tmp \<noteq> None \<or> (parent_path path \<noteq> [] \<and> map_of (fy_dirs f0) (parent_path path) = None)
         then (Inl Runtime_Error, [drop_file tmp f0])
         else
           (let f1 = put_file tmp \<lparr>fn_stamp = st, fn_content = []\<rparr> f0;
                f2 = put_file tmp \<lparr>fn_stamp = st, fn_content = data\<rparr> f0;
                f3 = env 1 f2
            in if expected \<noteq> None \<and> stat_path f3 path = None then (Inl Runtime_Error, [f1, f2, drop_file tmp f3])
               else if stat_path f3 path \<noteq> expected then (Inr False, [f1, f2, drop_file tmp f3])
               else
                 (let f4 = env 2 f3
                  in case map_of (fy_files f4) tmp of
                       None \<Rightarrow> (Inl Runtime_Error, [f1, f2, drop_file tmp f4])
                     | Some node \<Rightarrow>
                         (let f5 = put_file path node (drop_file tmp f4)
                          in (Inr True, [f1, f2, f5, drop_file tmp f5])))))"

text \<open>The write of a directory: the index is checked before the first leaf is written.\<close>

definition safe_leaf :: "string \<Rightarrow> bool" where
  "safe_leaf name \<longleftrightarrow> name \<noteq> [] \<and> hd name \<noteq> CHR ''/''
     \<and> list_all (\<lambda>p. \<not> List.member [[], ''.'', ''..''] p) (split_slash name)"

fun physical_names :: "string list \<Rightarrow> (string \<times> string) list \<Rightarrow> exc + (string \<times> string) list" where
  "physical_names [] acc = Inr acc"
| "physical_names (p # ps) acc =
     (if map_of acc (plain_name p) \<noteq> None then Inl Value_Error else physical_names ps (acc @ [(plain_name p, p)]))"

definition leaf_path :: "string \<Rightarrow> (string \<times> string) list \<Rightarrow> string \<Rightarrow> string" where
  "leaf_path base names name =
     path_join base
       (case map_of names name of
          Some p \<Rightarrow> p
        | None \<Rightarrow> name @ (if ends_with ''.gz'' name then ''.gz'' else if ends_with ''.zst'' name then ''.zst'' else []))"

fun write_leaves ::
  "file_ext \<Rightarrow> (string \<Rightarrow> string \<times> stamp) \<Rightarrow> string \<Rightarrow> (string \<times> string) list \<Rightarrow> (string \<times> checksum) list \<Rightarrow> nat \<Rightarrow> fsys
    \<Rightarrow> exc option \<times> fsys" where
  "write_leaves X fresh base names [] bytes fs = (None, fs)"
| "write_leaves X fresh base names ((name, cs) # rest) bytes fs =
     (let path = leaf_path base names name
      in if fx_escapes X path then (Some Value_Error, fs)
         else case fx_resolve X cs of
           Inl e \<Rightarrow> (Some e, fs)
         | Inr data \<Rightarrow>
             (if bytes + length data > fx_max_tree X then (Some Value_Error, fs)
              else case make_dirs fresh (parent_path path) fs of
                Inl e \<Rightarrow> (Some e, fs)
              | Inr fs1 \<Rightarrow>
                  (let expected = stat_path fs1 path; total' = bytes + length data
                   in case (if expected = None then Inr False
                            else res_bind (read_bytes X fs1 path) (\<lambda>old. Inr (old = data))) of
                        Inl e \<Rightarrow> (Some e, fs1)
                      | Inr True \<Rightarrow> write_leaves X fresh base names rest total' fs1
                      | Inr False \<Rightarrow>
                          (case atomic_write X (\<lambda>_ fs. fs) (fst (fresh path)) (snd (fresh path)) path data expected fs1 of
                             (out, states) \<Rightarrow>
                               (let fs2 = touch_parent fresh path (last (fs1 # states))
                                in case out of
                                     Inl e \<Rightarrow> (Some e, fs2)
                                   | Inr False \<Rightarrow> (Some Runtime_Error, fs2)
                                   | Inr True \<Rightarrow> write_leaves X fresh base names rest total' fs2)))))"

text \<open>What is not in the index is removed, temporary files apart; then the directories left empty.\<close>

definition stale_leaf :: "string \<Rightarrow> (string \<times> checksum) list \<Rightarrow> string \<Rightarrow> bool" where
  "stale_leaf base index path \<longleftrightarrow>
     below_path base path \<and> \<not> temporary_name (base_name path)
     \<and> map_of index (plain_name (drop (Suc (length base)) path)) = None"

definition remove_stale :: "(string \<Rightarrow> string \<times> stamp) \<Rightarrow> string \<Rightarrow> (string \<times> checksum) list \<Rightarrow> fsys \<Rightarrow> fsys" where
  "remove_stale fresh base index fs =
     (let files = filter (\<lambda>(p, _). \<not> stale_leaf base index p) (fy_files fs);
          kept = (\<lambda>d. \<not> below_path base d \<or> list_ex (\<lambda>(p, _). below_path d p) files);
          gone = map fst (filter (\<lambda>(p, _). stale_leaf base index p) (fy_files fs))
                 @ filter (\<lambda>d. \<not> kept d) (map fst (fy_dirs fs))
      in fold (touch_parent fresh) gone (fs\<lparr>fy_files := files, fy_dirs := filter (\<lambda>(d, _). kept d) (fy_dirs fs)\<rparr>))"

fun name_insert :: "string \<times> checksum \<Rightarrow> (string \<times> checksum) list \<Rightarrow> (string \<times> checksum) list" where
  "name_insert a [] = [a]"
| "name_insert a (b # bs) = (if KStr (fst a) \<le> KStr (fst b) then a # b # bs else b # name_insert a bs)"

definition write_directory ::
  "file_ext \<Rightarrow> (string \<Rightarrow> string \<times> stamp) \<Rightarrow> file_reg \<Rightarrow> file_print \<Rightarrow> string \<Rightarrow> fsys \<Rightarrow> (exc + bool) \<times> fsys" where
  "write_directory X fresh x expected content fs =
     (case fx_index X content of
        Inl e \<Rightarrow> (Inl e, fs)
      | Inr None \<Rightarrow> (res_bind (fingerprint X fs x) (\<lambda>f. Inr (f = expected)), fs)
      | Inr (Some index) \<Rightarrow>
          (if length index > fx_max_files X then (Inl Value_Error, fs)
           else if \<not> list_all (\<lambda>(name, _). safe_leaf name) index then (Inl Value_Error, fs)
           else case fingerprint X fs x of
             Inl e \<Rightarrow> (Inl e, fs)
           | Inr f \<Rightarrow>
               (if f \<noteq> expected then (Inr False, fs)
                else case physical_names (print_names expected) [] of
                  Inl e \<Rightarrow> (Inl e, fs)
                | Inr names \<Rightarrow>
                    (case make_dirs fresh (fr_path x) fs of
                       Inl e \<Rightarrow> (Inl e, fs)
                     | Inr fs0 \<Rightarrow>
                         (case write_leaves X fresh (fr_path x) names (foldr name_insert index []) 0 fs0 of
                            (Some e, fs1) \<Rightarrow> (Inl e, fs1)
                          | (None, fs1) \<Rightarrow>
                              (Inr True,
                               if spec_mode (fr_spec x) = ''w'' \<or> spec_authority (fr_spec x) = ''cell''
                               then remove_stale fresh (fr_path x) index fs1 else fs1))))))"

section \<open>Deliveries\<close>

record file_delivery =
  fd_seq :: nat
  fd_checksum :: checksum
  fd_expected :: file_print

record file_ack =
  fa_session :: string
  fa_seq :: nat
  fa_ws :: int
  fa_outcome :: ack_outcome
  fa_checksum :: "checksum option"
  fa_print :: file_print

definition expected_stamp :: "file_print \<Rightarrow> stamp option" where
  "expected_stamp f = (case f of Fp_file st \<Rightarrow> Some st | Fp_dir st _ \<Rightarrow> Some st | _ \<Rightarrow> None)"

text \<open>
  The content a delivery writes and the checksum the disk has after it; a null value is an empty
  file.
\<close>

definition delivery_content :: "file_ext \<Rightarrow> file_reg \<Rightarrow> checksum \<Rightarrow> exc + (string \<times> checksum)" where
  "delivery_content X x cs =
     res_bind (fx_resolve X cs) (\<lambda>content.
       if fr_directory x then Inr (content, cs)
       else res_bind (fx_canon X content (fr_celltype x)) (\<lambda>canonical.
         Inr (if canonical = fx_null X then [] else canonical, fx_sum X canonical)))"

definition write_delivery ::
  "file_ext \<Rightarrow> (nat \<Rightarrow> fsys \<Rightarrow> fsys) \<Rightarrow> (string \<Rightarrow> string \<times> stamp) \<Rightarrow> file_reg \<Rightarrow> file_delivery \<Rightarrow> string \<Rightarrow> fsys
    \<Rightarrow> (exc + bool) \<times> fsys" where
  "write_delivery X env fresh x d content fs =
     (if fr_directory x then write_directory X fresh x (fd_expected d) content fs
      else (case atomic_write X env (fst (fresh (fr_path x))) (snd (fresh (fr_path x))) (fr_path x) content
                   (expected_stamp (fd_expected d)) fs of
              (out, states) \<Rightarrow> (out, touch_parent fresh (fr_path x) (last (fs # states)))))"

definition file_deliver ::
  "file_ext \<Rightarrow> (nat \<Rightarrow> fsys \<Rightarrow> fsys) \<Rightarrow> (string \<Rightarrow> string \<times> stamp) \<Rightarrow> nat \<Rightarrow> file_delivery \<Rightarrow> fsys \<Rightarrow> file_service
    \<Rightarrow> file_ack option \<times> fsys \<times> file_service" where
  "file_deliver X env fresh r d fs s =
     (case get_file_reg s r of
        None \<Rightarrow> (None, fs, s)
      | Some x \<Rightarrow>
          (let ack = (\<lambda>ws out cs f. Some \<lparr>fa_session = fr_session x, fa_seq = fd_seq d, fa_ws = ws, fa_outcome = out,
                                        fa_checksum = cs, fa_print = f\<rparr>)
           in if fr_closed x then (ack (fr_ws x) Ack_error None Fp_none, fs, s)
              else case delivery_content X x (fd_checksum d) of
                Inl _ \<Rightarrow> (ack (fr_ws x) Ack_error None Fp_none, fs, s)
              | Inr (content, cs) \<Rightarrow>
                  (case write_delivery X env fresh x d content fs of
                     (Inl _, fs1) \<Rightarrow> (ack (fr_ws x) Ack_error None Fp_none, fs1, s)
                   | (Inr False, fs1) \<Rightarrow> (ack (fr_ws x) Ack_conflict None Fp_none, fs1, s)
                   | (Inr True, fs1) \<Rightarrow>
                       (let s1 = upd_file_reg r (\<lambda>x. x\<lparr>fr_ws := fr_ws x + 1\<rparr>) s
                        in case fingerprint X fs1 x of
                             Inl _ \<Rightarrow> (ack (fr_ws x + 1) Ack_error None Fp_none, fs1, s1)
                           | Inr f \<Rightarrow> (ack (fr_ws x + 1) Ack_written (Some cs) f, fs1,
                                       upd_file_reg r (\<lambda>x. x\<lparr>fr_baseline := f\<rparr>) s1)))))"

text \<open>A conflict is followed by a poll, which reports what stands there instead.\<close>

definition deliver_op ::
  "file_ext \<Rightarrow> real \<Rightarrow> (nat \<Rightarrow> fsys \<Rightarrow> fsys) \<Rightarrow> (string \<Rightarrow> string \<times> stamp) \<Rightarrow> (nat \<Rightarrow> read_view) \<Rightarrow> nat \<Rightarrow> file_delivery
    \<Rightarrow> fsys \<Rightarrow> file_service \<Rightarrow> file_ack option \<times> file_message list \<times> fsys \<times> file_service" where
  "deliver_op X now env fresh views r d fs s =
     (case file_deliver X env fresh r d fs s of
        (ack, fs1, s1) \<Rightarrow>
          (if (case ack of Some a \<Rightarrow> fa_outcome a = Ack_conflict | None \<Rightarrow> False)
           then (case file_poll X now fs1 views r True s1 of (out, s2) \<Rightarrow> (ack, out, fs1, s2))
           else (ack, [], fs1, s1)))"

section \<open>The end of a registration\<close>

definition file_unregister :: "nat \<Rightarrow> file_service \<Rightarrow> file_service" where
  "file_unregister r s = upd_file_reg r (\<lambda>x. x\<lparr>fr_active := False, fr_closing := True\<rparr>) s"

definition remounted :: "file_service \<Rightarrow> nat \<Rightarrow> file_reg \<Rightarrow> bool" where
  "remounted s r x =
     list_ex (\<lambda>q. q \<noteq> r \<and> (case get_file_reg s q of None \<Rightarrow> False | Some y \<Rightarrow> live_reg y \<and> fr_path y = fr_path x))
       (fv_registered s)"

definition drop_tree :: "string \<Rightarrow> fsys \<Rightarrow> fsys" where
  "drop_tree base fs =
     fs\<lparr>fy_files := filter (\<lambda>(p, _). \<not> below_path base p) (fy_files fs),
        fy_dirs := filter (\<lambda>(d, _). d \<noteq> base \<and> \<not> below_path base d) (fy_dirs fs)\<rparr>"

definition file_cleanup ::
  "file_ext \<Rightarrow> (string \<Rightarrow> string \<times> stamp) \<Rightarrow> bool \<Rightarrow> file_print \<Rightarrow> nat \<Rightarrow> fsys \<Rightarrow> file_service \<Rightarrow> fsys \<times> file_service" where
  "file_cleanup X fresh delete expected r fs s =
     (case get_file_reg s r of
        None \<Rightarrow> (fs, s)
      | Some x \<Rightarrow>
          (let removes = (delete \<and> \<not> remounted s r x \<and> fingerprint X fs x = Inr expected \<and> expected \<noteq> Fp_none)
           in (if \<not> removes then fs
               else touch_parent fresh (fr_path x)
                      (if fr_directory x then drop_tree (fr_path x) fs else drop_file (fr_path x) fs),
               (upd_file_reg r (\<lambda>x. x\<lparr>fr_closed := True\<rparr>) s)\<lparr>fv_registered := removeAll r (fv_registered s)\<rparr>)))"

text \<open>Closing refuses new registrations and ends the ones there are, one after the other.\<close>

definition file_close :: "file_ext \<Rightarrow> (string \<Rightarrow> string \<times> stamp) \<Rightarrow> fsys \<Rightarrow> file_service \<Rightarrow> file_service" where
  "file_close X fresh fs s =
     fold (\<lambda>r s. snd (file_cleanup X fresh False Fp_none r fs (file_unregister r s))) (fv_registered s)
       (s\<lparr>fv_stopping := True\<rparr>)"

end
