(* ===== verification/File_Promises.thy ===== *)
theory File_Promises
  imports File_Service
begin

text \<open>
  What the file service promises: serial operations, consistent reads, whole writes, mounts that keep apart.
\<close>

section \<open>The serial queue\<close>

text \<open>
  A run of the queues with its events. What the service does beside its queues leaves them alone; a new
  registration starts with an empty queue.
\<close>

datatype queue_event = Q_submit nat nat | Q_start nat nat | Q_finish nat nat

definition queue_of :: "file_service \<Rightarrow> nat \<Rightarrow> nat list" where
  "queue_of s r = (case get_file_reg s r of None \<Rightarrow> [] | Some x \<Rightarrow> fr_queue x)"

definition busy_at :: "file_service \<Rightarrow> nat \<Rightarrow> bool" where
  "busy_at s r = (case get_file_reg s r of None \<Rightarrow> False | Some x \<Rightarrow> fr_busy x)"

definition same_queues :: "file_service \<Rightarrow> file_service \<Rightarrow> bool" where
  "same_queues s s' \<longleftrightarrow> fv_work s' = fv_work s \<and> fv_running s' = fv_running s
     \<and> (\<forall>r. queue_of s' r = queue_of s r \<and> busy_at s' r = busy_at s r)"

definition empty_service :: file_service where
  "empty_service = \<lparr>fv_regs = [], fv_registered = [], fv_work = [], fv_running = [], fv_stopping = False, fv_next = 0\<rparr>"

inductive queue_run :: "file_service \<Rightarrow> queue_event list \<Rightarrow> bool" where
  queue_init: "queue_run empty_service []"
| queue_other: "queue_run s evs \<Longrightarrow> same_queues s s' \<Longrightarrow> queue_run s' evs"
| queue_submit: "queue_run s evs \<Longrightarrow> get_file_reg s r \<noteq> None \<Longrightarrow> queue_run (submit_op r k s) (evs @ [Q_submit r k])"
| queue_start: "queue_run s evs \<Longrightarrow> start_op s = (Some (r, k), s') \<Longrightarrow> queue_run s' (evs @ [Q_start r k])"
| queue_finish: "queue_run s evs \<Longrightarrow> (r, k) \<in> set (fv_running s) \<Longrightarrow> queue_run (finish_op r k s) (evs @ [Q_finish r k])"

definition submitted :: "queue_event list \<Rightarrow> nat \<Rightarrow> nat list" where
  "submitted evs r = List.map_filter (\<lambda>e. case e of Q_submit q k \<Rightarrow> if q = r then Some k else None | _ \<Rightarrow> None) evs"

definition started :: "queue_event list \<Rightarrow> nat \<Rightarrow> nat list" where
  "started evs r = List.map_filter (\<lambda>e. case e of Q_start q k \<Rightarrow> if q = r then Some k else None | _ \<Rightarrow> None) evs"

definition finished :: "queue_event list \<Rightarrow> nat \<Rightarrow> nat list" where
  "finished evs r = List.map_filter (\<lambda>e. case e of Q_finish q k \<Rightarrow> if q = r then Some k else None | _ \<Rightarrow> None) evs"

definition ops_of :: "(nat \<times> nat) list \<Rightarrow> nat \<Rightarrow> nat list" where
  "ops_of ws r = List.map_filter (\<lambda>(q, k). if q = r then Some k else None) ws"

lemma map_filter_append [simp]: "List.map_filter f (xs @ ys) = List.map_filter f xs @ List.map_filter f ys"
  by (simp add: List.map_filter_def)

lemma events_snoc [simp]:
  "submitted (evs @ [Q_submit q k]) r = submitted evs r @ (if q = r then [k] else [])"
  "submitted (evs @ [Q_start q k]) r = submitted evs r" "submitted (evs @ [Q_finish q k]) r = submitted evs r"
  "started (evs @ [Q_start q k]) r = started evs r @ (if q = r then [k] else [])"
  "started (evs @ [Q_submit q k]) r = started evs r" "started (evs @ [Q_finish q k]) r = started evs r"
  "finished (evs @ [Q_finish q k]) r = finished evs r @ (if q = r then [k] else [])"
  "finished (evs @ [Q_submit q k]) r = finished evs r" "finished (evs @ [Q_start q k]) r = finished evs r"
  by (simp_all add: submitted_def started_def finished_def List.map_filter_simps)

lemma ops_of_simps [simp]:
  "ops_of [] r = []" "ops_of ((q, k) # ws) r = (if q = r then k # ops_of ws r else ops_of ws r)"
  "ops_of (us @ ws) r = ops_of us r @ ops_of ws r"
  by (simp_all add: ops_of_def List.map_filter_simps)

lemma ops_of_remove1: "ops_of (remove1 (q, k) ws) r = (if q = r then remove1 k (ops_of ws r) else ops_of ws r)"
proof (induction ws)
  case (Cons w ws)
  then show ?case by (cases w) auto
qed simp

lemma in_ops_of: "(r, k) \<in> set ws \<longleftrightarrow> k \<in> set (ops_of ws r)"
proof (induction ws)
  case (Cons w ws)
  then show ?case by (cases w) auto
qed simp

definition queues_ok :: "file_service \<Rightarrow> queue_event list \<Rightarrow> nat \<Rightarrow> bool" where
  "queues_ok s evs r \<longleftrightarrow>
     submitted evs r = started evs r @ ops_of (fv_work s) r @ queue_of s r
     \<and> started evs r = finished evs r @ ops_of (fv_running s) r
     \<and> length (ops_of (fv_work s) r) + length (ops_of (fv_running s) r) = (if busy_at s r then 1 else 0)
     \<and> (\<not> busy_at s r \<longrightarrow> queue_of s r = [])"

lemma file_map_at:
  "map_of (map (\<lambda>(k, x). (k, if k = a then f x else x)) d) k = (if k = a then map_option f (map_of d k) else map_of d k)"
  by (induction d) auto

lemma get_upd_file_reg: "get_file_reg (upd_file_reg r f s) q = (if q = r then map_option f (get_file_reg s q) else get_file_reg s q)"
  by (simp add: get_file_reg_def upd_file_reg_def file_map_at)

lemma upd_file_reg_fields [simp]:
  "fv_work (upd_file_reg r f s) = fv_work s" "fv_running (upd_file_reg r f s) = fv_running s"
  "fv_registered (upd_file_reg r f s) = fv_registered s" "fv_stopping (upd_file_reg r f s) = fv_stopping s"
  "fv_next (upd_file_reg r f s) = fv_next s"
  by (simp_all add: upd_file_reg_def)

lemma get_file_reg_fields [simp]:
  "get_file_reg (s\<lparr>fv_work := a\<rparr>) r = get_file_reg s r" "get_file_reg (s\<lparr>fv_running := b\<rparr>) r = get_file_reg s r"
  "get_file_reg (s\<lparr>fv_registered := c\<rparr>) r = get_file_reg s r"
  by (simp_all add: get_file_reg_def)

lemma queue_upd:
  assumes "get_file_reg s q = Some x"
  shows "queue_of (upd_file_reg q f s) r = (if r = q then fr_queue (f x) else queue_of s r)"
    "busy_at (upd_file_reg q f s) r = (if r = q then fr_busy (f x) else busy_at s r)"
  using assms by (auto simp: queue_of_def busy_at_def get_upd_file_reg)

lemma queue_fields [simp]:
  "queue_of (s\<lparr>fv_work := a\<rparr>) r = queue_of s r" "queue_of (s\<lparr>fv_running := b\<rparr>) r = queue_of s r"
  "busy_at (s\<lparr>fv_work := a\<rparr>) r = busy_at s r" "busy_at (s\<lparr>fv_running := b\<rparr>) r = busy_at s r"
  by (simp_all add: queue_of_def busy_at_def)

lemma submit_op_queues:
  assumes "get_file_reg s q = Some x"
  shows "fv_running (submit_op q k s) = fv_running s"
    "fv_work (submit_op q k s) = fv_work s @ (if busy_at s q then [] else [(q, k)])"
    "queue_of (submit_op q k s) r = queue_of s r @ (if r = q \<and> busy_at s q then [k] else [])"
    "busy_at (submit_op q k s) r = (r = q \<or> busy_at s r)"
proof -
  have b: "busy_at s q = fr_busy x" "queue_of s q = fr_queue x" using assms by (simp_all add: busy_at_def queue_of_def)
  show "fv_running (submit_op q k s) = fv_running s"
    and "fv_work (submit_op q k s) = fv_work s @ (if busy_at s q then [] else [(q, k)])"
    unfolding submit_op_def assms b by simp_all
  show "queue_of (submit_op q k s) r = queue_of s r @ (if r = q \<and> busy_at s q then [k] else [])"
    and "busy_at (submit_op q k s) r = (r = q \<or> busy_at s r)"
    unfolding submit_op_def assms by (auto simp: queue_upd [OF assms] b)
qed

lemma finish_op_queues:
  assumes "get_file_reg s q = Some x"
  shows "fv_running (finish_op q k s) = remove1 (q, k) (fv_running s)"
    "fv_work (finish_op q k s) = fv_work s @ map (Pair q) (take 1 (queue_of s q))"
    "queue_of (finish_op q k s) r = (if r = q then drop 1 (queue_of s q) else queue_of s r)"
    "busy_at (finish_op q k s) r = (if r = q then busy_at s q \<and> queue_of s q \<noteq> [] else busy_at s r)"
proof -
  have b: "busy_at s q = fr_busy x" "queue_of s q = fr_queue x" using assms by (simp_all add: busy_at_def queue_of_def)
  have x': "get_file_reg (s\<lparr>fv_running := remove1 (q, k) (fv_running s)\<rparr>) q = Some x" using assms by simp
  show "fv_running (finish_op q k s) = remove1 (q, k) (fv_running s)"
    and "fv_work (finish_op q k s) = fv_work s @ map (Pair q) (take 1 (queue_of s q))"
    unfolding finish_op_def assms b Let_def by (cases "fr_queue x"; simp)+
  show "queue_of (finish_op q k s) r = (if r = q then drop 1 (queue_of s q) else queue_of s r)"
    and "busy_at (finish_op q k s) r = (if r = q then busy_at s q \<and> queue_of s q \<noteq> [] else busy_at s r)"
    unfolding finish_op_def assms b Let_def by (cases "fr_queue x"; simp add: queue_upd [OF x'])+
qed

lemma ops_of_pairs [simp]: "ops_of (map (Pair q) ks) r = (if q = r then ks else [])"
  by (induction ks) auto

lemma queues_okD:
  assumes "queues_ok s evs r"
  shows "submitted evs r = started evs r @ ops_of (fv_work s) r @ queue_of s r"
    "started evs r = finished evs r @ ops_of (fv_running s) r"
    "length (ops_of (fv_work s) r) + length (ops_of (fv_running s) r) = (if busy_at s r then 1 else 0)"
    "\<not> busy_at s r \<Longrightarrow> queue_of s r = []"
  using assms unfolding queues_ok_def by simp_all

lemma queue_run_ok: "queue_run s evs \<Longrightarrow> queues_ok s evs r"
proof (induction arbitrary: r rule: queue_run.induct)
  case queue_init
  then show ?case
    by (simp add: queues_ok_def empty_service_def queue_of_def busy_at_def get_file_reg_def submitted_def started_def finished_def
        List.map_filter_simps)
next
  case (queue_other s evs s' r)
  then show ?case by (simp add: queues_ok_def same_queues_def)
next
  case (queue_submit s evs q k r)
  then obtain x where x: "get_file_reg s q = Some x" by blast
  note i = queues_okD [OF queue_submit.IH [of r]]
  show ?case
    unfolding queues_ok_def submit_op_queues(1,2) [OF x] submit_op_queues(3,4) [OF x, where r = r] events_snoc ops_of_simps i(1) using i(2-4)
    by (cases "q = r"; cases "busy_at s r"; simp)
next
  case (queue_start s evs q k s' r)
  then obtain ws where w: "fv_work s = (q, k) # ws" and s': "s' = s\<lparr>fv_work := ws, fv_running := fv_running s @ [(q, k)]\<rparr>"
    by (auto simp: start_op_def split: list.splits)
  note i = queues_okD [OF queue_start.IH [of r]]
  show ?case
    unfolding queues_ok_def s' events_snoc i(1) using i(2-4) by (cases "q = r"; simp add: w)
next
  case (queue_finish s evs q k r)
  have one: "ops_of (fv_running s) q = [k]" "ops_of (fv_work s) q = []" "busy_at s q"
  proof -
    have l: "length (ops_of (fv_work s) q) + length (ops_of (fv_running s) q) = (if busy_at s q then 1 else 0)"
      by (rule queues_okD(3) [OF queue_finish.IH])
    have k: "k \<in> set (ops_of (fv_running s) q)" using queue_finish.hyps(2) in_ops_of by blast
    then obtain u us where u: "ops_of (fv_running s) q = u # us" by (cases "ops_of (fv_running s) q") auto
    show "busy_at s q" using l u by (simp split: if_splits)
    then show "ops_of (fv_running s) q = [k]" "ops_of (fv_work s) q = []" using l u k by simp_all
  qed
  then obtain x where x: "get_file_reg s q = Some x" by (auto simp: busy_at_def split: option.splits)
  note i = queues_okD [OF queue_finish.IH [of r]]
  show ?case
  proof (cases "q = r")
    case True
    show ?thesis
      unfolding queues_ok_def finish_op_queues(1,2) [OF x] finish_op_queues(3,4) [OF x, where r = r] events_snoc ops_of_simps i(1) ops_of_remove1 ops_of_pairs
      using i(2-4) one True by (cases "queue_of s r"; simp)
  next
    case False
    then show ?thesis
      unfolding queues_ok_def finish_op_queues(1,2) [OF x] finish_op_queues(3,4) [OF x, where r = r] events_snoc ops_of_simps i(1) ops_of_remove1 ops_of_pairs
      using i(2-4) by simp
  qed
qed

text \<open>
  The operations of one registration run one at a time and in the order they were submitted. What
  has started is a beginning of what was submitted, at most one started operation is unfinished, and
  when the workers are idle everything submitted has finished.
\<close>

theorem file_operations_serial:
  assumes "queue_run s evs"
  shows "started evs r = take (length (started evs r)) (submitted evs r)
    \<and> finished evs r = take (length (finished evs r)) (submitted evs r)
    \<and> length (started evs r) \<le> Suc (length (finished evs r))
    \<and> (fv_work s = [] \<and> fv_running s = [] \<longrightarrow> finished evs r = submitted evs r)"
proof -
  have ok': "queues_ok s evs r" by (rule queue_run_ok [OF assms])
  then have sub: "submitted evs r = started evs r @ ops_of (fv_work s) r @ queue_of s r"
    and st: "started evs r = finished evs r @ ops_of (fv_running s) r" unfolding queues_ok_def by blast+
  have "length (ops_of (fv_running s) r) \<le> 1" using ok' by (auto simp: queues_ok_def split: if_splits)
  moreover have "fv_work s = [] \<and> fv_running s = [] \<longrightarrow> finished evs r = submitted evs r"
    using ok' by (auto simp: queues_ok_def split: if_splits)
  ultimately show ?thesis using sub st by simp
qed

text \<open>Two operations of a registration and one of another, and a poll between them.\<close>

definition demo_file_spec :: spec where
  "demo_file_spec = FileSpec (attach_spec.make ''/m'' ''rw'' ''file'' True ''file'')"

definition demo_mounted :: file_service where
  "demo_mounted = file_activate 0 (snd (file_reserve ''/m'' demo_file_spec ''plain'' False ''s'' [] empty_service))"

definition demo_submitted :: file_service where
  "demo_submitted = submit_op 0 8 (submit_op 0 7 demo_mounted)"

definition demo_finished :: file_service where
  "demo_finished = finish_op 0 8 (snd (start_op (finish_op 0 7 (snd (start_op demo_submitted)))))"

lemma demo_mounted_regs:
  "demo_mounted = empty_service\<lparr>fv_regs := [(0, (new_file_reg ''/m'' demo_file_spec ''plain'' False ''s'' [])\<lparr>fr_active := True\<rparr>)],
     fv_registered := [0], fv_next := 1\<rparr>"
  by code_simp

lemma demo_queue_run:
  "queue_run demo_finished
     ((((([] @ [Q_submit 0 7]) @ [Q_submit 0 8]) @ [Q_start 0 7]) @ [Q_finish 0 7]) @ [Q_start 0 8] @ [Q_finish 0 8])"
proof -
  have "same_queues empty_service demo_mounted"
    unfolding demo_mounted_regs
    by (simp add: same_queues_def empty_service_def queue_of_def busy_at_def get_file_reg_def new_file_reg_def)
  then have 1: "queue_run demo_mounted []" by (rule queue_other [OF queue_init])
  have 2: "queue_run (submit_op 0 7 demo_mounted) ([] @ [Q_submit 0 7])"
    by (rule queue_submit [OF 1]) code_simp
  have 3: "queue_run demo_submitted (([] @ [Q_submit 0 7]) @ [Q_submit 0 8])"
    unfolding demo_submitted_def by (rule queue_submit [OF 2]) code_simp
  have e4: "start_op demo_submitted = (Some (0, 7), snd (start_op demo_submitted))" by code_simp
  note 4 = queue_start [OF 3 e4]
  have e5: "(0, 7) \<in> set (fv_running (snd (start_op demo_submitted)))" by code_simp
  note 5 = queue_finish [OF 4 e5]
  have e6: "start_op (finish_op 0 7 (snd (start_op demo_submitted)))
      = (Some (0, 8), snd (start_op (finish_op 0 7 (snd (start_op demo_submitted)))))" by code_simp
  note 6 = queue_start [OF 5 e6]
  have e7: "(0, 8) \<in> set (fv_running (snd (start_op (finish_op 0 7 (snd (start_op demo_submitted))))))" by code_simp
  note 7 = queue_finish [OF 6 e7]
  then show ?thesis unfolding demo_finished_def by simp
qed

lemma file_operations_serial_witness:
  "finished [Q_submit 0 7, Q_submit 0 8, Q_start 0 7, Q_finish 0 7, Q_start 0 8, Q_finish 0 8] 0 = [7, 8]"
proof -
  have "fv_work demo_finished = []" "fv_running demo_finished = []" by code_simp+
  then have "finished ((((([] @ [Q_submit 0 7]) @ [Q_submit 0 8]) @ [Q_start 0 7]) @ [Q_finish 0 7]) @ [Q_start 0 8] @ [Q_finish 0 8]) 0
      = submitted ((((([] @ [Q_submit 0 7]) @ [Q_submit 0 8]) @ [Q_start 0 7]) @ [Q_finish 0 7]) @ [Q_start 0 8] @ [Q_finish 0 8]) 0"
    using file_operations_serial [OF demo_queue_run, of 0] by blast
  moreover have "submitted ((((([] @ [Q_submit 0 7]) @ [Q_submit 0 8]) @ [Q_start 0 7]) @ [Q_finish 0 7]) @ [Q_start 0 8] @ [Q_finish 0 8]) 0 = [7, 8]"
    by code_simp
  ultimately show ?thesis by simp
qed

section \<open>Reads\<close>

text \<open>What an observation that carries leases says of the attempt it comes from.\<close>

definition stable_view :: "file_ext \<Rightarrow> file_reg \<Rightarrow> bool \<Rightarrow> read_view \<Rightarrow> file_obs \<Rightarrow> bool" where
  "stable_view X x initial v ob \<longleftrightarrow>
     fingerprint X (rv_before v) x = Inr (fo_print ob) \<and> fingerprint X (rv_after v) x = Inr (fo_print ob)
     \<and> (case read_content X (rv_at v) x (fo_print ob) initial of
          (Inl _, _) \<Rightarrow> False
        | (Inr res, ls) \<Rightarrow> fo_checksum ob = fz_checksum res \<and> fo_leases ob = fz_checksum res # ls)"

definition read_says :: "file_ext \<Rightarrow> file_reg \<Rightarrow> bool \<Rightarrow> read_view list \<Rightarrow> file_obs \<Rightarrow> bool" where
  "read_says X x initial vs ob \<longleftrightarrow>
     (if fo_leases ob = []
      then fo_checksum ob = INVALID
        \<or> fo_checksum ob = ABSENT \<and> fo_print ob = Fp_none \<and> list_ex (\<lambda>v. fingerprint X (rv_before v) x = Inr Fp_none) vs
      else list_ex (\<lambda>v. stable_view X x initial v ob) vs)"

lemma plain_obs_leases [simp]:
  "fo_leases (plain_obs x ws f c b) = []" "fo_checksum (plain_obs x ws f c b) = c" "fo_print (plain_obs x ws f c b) = f"
  by (simp_all add: plain_obs_def)

lemma read_says_more: "read_says X x initial vs ob \<Longrightarrow> read_says X x initial (v # vs) ob"
  by (auto simp: read_says_def split: if_splits)

lemma read_loop_attempt:
  assumes "fingerprint X (rv_before v) x = Inr g" "g \<noteq> Fp_none"
  shows "read_loop X x ws initial (v # vs) f leases taken freed =
    (case read_content X (rv_at v) x g initial of
       (Inl _, ls) \<Rightarrow> (plain_obs x ws g INVALID False, taken @ ls, freed @ leases @ ls)
     | (Inr res, ls) \<Rightarrow>
         (case fingerprint X (rv_after v) x of
            Inl _ \<Rightarrow> (plain_obs x ws g INVALID False, taken @ ls, freed @ leases @ ls)
          | Inr g' \<Rightarrow>
              (if g = g'
               then (\<lparr>fo_session = fr_session x, fo_ws = ws, fo_print = g, fo_checksum = fz_checksum res,
                      fo_leases = fz_checksum res # ls, fo_no_value = fz_no_value res,
                      fo_canonical = fz_canonical res\<rparr>, taken @ ls @ [fz_checksum res], freed @ leases)
               else read_loop X x ws initial vs g ls (taken @ ls) (freed @ leases))))"
  using assms by (cases g) (simp_all only: read_loop.simps sum.case file_print.case simp_thms)

lemma read_loop_says:
  assumes "read_loop X x ws initial vs f leases taken freed = (ob, taken', freed')"
  shows "read_says X x initial vs ob"
  using assms
proof (induction vs arbitrary: f leases taken freed)
  case Nil
  then show ?case by (auto simp: read_says_def)
next
  case (Cons v vs)
  consider (bad) e where "fingerprint X (rv_before v) x = Inl e" | (absent) "fingerprint X (rv_before v) x = Inr Fp_none"
    | (there) g where "fingerprint X (rv_before v) x = Inr g" "g \<noteq> Fp_none"
    by (cases "fingerprint X (rv_before v) x") auto
  then show ?case
  proof cases
    case bad
    then show ?thesis using Cons.prems by (auto simp: read_says_def)
  next
    case absent
    then show ?thesis using Cons.prems by (auto simp: read_says_def)
  next
    case (there g)
    obtain out ls where rc: "read_content X (rv_at v) x g initial = (out, ls)" by fastforce
    note step = Cons.prems [unfolded read_loop_attempt [OF there] rc prod.case]
    show ?thesis
    proof (cases out)
      case (Inl e)
      then show ?thesis using step by (auto simp: read_says_def)
    next
      case (Inr res)
      note step = step [unfolded Inr sum.case]
      show ?thesis
      proof (cases "fingerprint X (rv_after v) x")
        case (Inl e)
        then show ?thesis using step by (auto simp: read_says_def)
      next
        case after: (Inr g')
        show ?thesis
        proof (cases "g = g'")
          case True
          then have ob: "fo_print ob = g" "fo_checksum ob = fz_checksum res" "fo_leases ob = fz_checksum res # ls"
            using step after by auto
          then have "stable_view X x initial v ob" using there(1) after True rc Inr by (simp add: stable_view_def)
          then show ?thesis using ob by (simp add: read_says_def)
        next
          case False
          then have "read_loop X x ws initial vs g ls (taken @ ls) (freed @ leases) = (ob, taken', freed')"
            using step after by simp
          then show ?thesis by (intro read_says_more Cons.IH)
        qed
      qed
    qed
  qed
qed

lemma read_loop_books:
  assumes "read_loop X x ws initial vs f leases taken freed = (ob, taken', freed')"
    "mset taken = mset freed + mset leases"
  shows "mset taken' = mset freed' + mset (fo_leases ob)"
  using assms
proof (induction vs arbitrary: f leases taken freed)
  case Nil
  then show ?case by auto
next
  case (Cons v vs)
  consider (bad) e where "fingerprint X (rv_before v) x = Inl e" | (absent) "fingerprint X (rv_before v) x = Inr Fp_none"
    | (there) g where "fingerprint X (rv_before v) x = Inr g" "g \<noteq> Fp_none"
    by (cases "fingerprint X (rv_before v) x") auto
  then show ?case
  proof cases
    case bad
    then show ?thesis using Cons.prems by auto
  next
    case absent
    then show ?thesis using Cons.prems by auto
  next
    case (there g)
    obtain out ls where rc: "read_content X (rv_at v) x g initial = (out, ls)" by fastforce
    note step = Cons.prems(1) [unfolded read_loop_attempt [OF there] rc prod.case]
    show ?thesis
      using step Cons.prems(2) Cons.IH [of g ls "taken @ ls" "freed @ leases"]
      by (auto split: sum.splits if_splits)
  qed
qed

text \<open>
  C23: A read returns an observation of one moment and accounts for its claims. An observation that carries
  claims comes from one of five attempts: the fingerprint before it and after it is the one observed, the
  checksum is that of what it read, and its claims are on that checksum and on every leaf. Any other
  observation is invalid, or absent because an attempt found no file. Whatever was claimed during the read
  is with the observation or was given back, each once.
\<close>

theorem stable_read:
  assumes "file_read X x ws initial views = (ob, taken, freed)"
  shows "read_says X x initial (map views [0..<5]) ob \<and> mset taken = mset freed + mset (fo_leases ob)"
  using read_loop_says [OF assms [unfolded file_read_def]] read_loop_books [OF assms [unfolded file_read_def]] by simp

text \<open>A file that changes under the first attempt and is read by the second.\<close>

definition demo_ext :: file_ext where
  "demo_ext = \<lparr>fx_gunzip = Inr, fx_gzip = id, fx_unzstd = Inr, fx_zstd = id, fx_canon = (\<lambda>b _. Inr b), fx_sum = (\<lambda>b. ''#'' @ b),
     fx_index_sum = (\<lambda>i. ''@'' @ concat (map snd i)), fx_index = (\<lambda>b. if b = [] then Inl Value_Error else Inr (Some [(''a'', b)])),
     fx_resolve = (\<lambda>c. Inr (drop 1 c)), fx_null = ''null'', fx_escapes = (\<lambda>_. False), fx_max_file = 9, fx_max_files = 2,
     fx_max_tree = 20\<rparr>"

definition demo_fs :: "nat \<Rightarrow> string \<Rightarrow> fsys" where
  "demo_fs n c = \<lparr>fy_files = [(''/m'', \<lparr>fn_stamp = (0, 0, length c, n, n), fn_content = c\<rparr>)], fy_dirs = [], fy_links = []\<rparr>"

definition demo_mount :: file_reg where
  "demo_mount = new_file_reg ''/m'' demo_file_spec ''plain'' False ''s'' []"

definition demo_views :: "nat \<Rightarrow> read_view" where
  "demo_views i =
     (if i = 0 then \<lparr>rv_before = demo_fs 1 ''x'', rv_at = (\<lambda>_. demo_fs 2 ''yy''), rv_after = demo_fs 2 ''yy''\<rparr>
      else \<lparr>rv_before = demo_fs 2 ''yy'', rv_at = (\<lambda>_. demo_fs 2 ''yy''), rv_after = demo_fs 2 ''yy''\<rparr>)"

lemma stable_read_witness:
  "stable_view demo_ext demo_mount False (demo_views 1) (fst (file_read demo_ext demo_mount 1 False demo_views))
   \<and> fo_checksum (fst (file_read demo_ext demo_mount 1 False demo_views)) = ''#yy''"
proof -
  obtain ob taken freed where r: "file_read demo_ext demo_mount 1 False demo_views = (ob, taken, freed)"
    using prod_cases3 by blast
  have l: "fo_leases (fst (file_read demo_ext demo_mount 1 False demo_views)) = [''#yy'']" by code_simp
  have n: "\<not> stable_view demo_ext demo_mount False (demo_views 0) (fst (file_read demo_ext demo_mount 1 False demo_views))"
    by code_simp
  have v: "map demo_views [0..<5] = demo_views 0 # replicate 4 (demo_views 1)"
    by (simp add: upt_rec demo_views_def numeral_eq_Suc)
  have "list_ex (\<lambda>v. stable_view demo_ext demo_mount False v ob) (map demo_views [0..<5])"
    using stable_read [OF r] l r by (simp add: read_says_def)
  then have "stable_view demo_ext demo_mount False (demo_views 1) ob"
    using n r unfolding v by (auto simp: list_ex_iff)
  moreover have "fo_checksum (fst (file_read demo_ext demo_mount 1 False demo_views)) = ''#yy''" by code_simp
  ultimately show ?thesis using r by simp
qed

end
