(* ===== verification/File_Writes.thy ===== *)
theory File_Writes
  imports File_Promises
begin

text \<open>
  Whole writes, deliveries that stay in their mount, and mounts that keep apart.
\<close>

section \<open>Paths\<close>

lemma split_slash_last_length: "length (last (split_slash s)) \<le> length s"
proof (induction s)
  case (Cons c s)
  then show ?case by (cases "c = CHR ''/''"; cases "split_slash s") (auto split: if_splits list.splits)
qed simp

lemma base_name_length: "length (base_name path) \<le> length path"
  by (simp add: base_name_def split_slash_last_length)

lemma temp_path_ne: "temp_path path token \<noteq> path"
proof
  assume "temp_path path token = path"
  then have "length (temp_path path token) = length path" by simp
  then show False using base_name_length [of path] by (simp add: temp_path_def path_join_def parent_path_def)
qed

lemma file_tables [simp]:
  "map_of (fy_files (put_file p f fs)) q = (if q = p then Some f else map_of (fy_files fs) q)"
  "map_of (fy_files (drop_file p fs)) q = (if q = p then None else map_of (fy_files fs) q)"
  by (auto simp: put_file_def drop_file_def update_conv' delete_conv')

lemma put_file_dirs: "fy_dirs (put_file p f fs) = fy_dirs fs"
  by (simp add: put_file_def)

section \<open>The atomic write\<close>

lemma atomic_write_cases:
  fixes path token
  defines "tmp \<equiv> temp_path path token"
  assumes "atomic_write X env token st path content expected fs = (out, states)"
  obtains (exists) "out = Inl Runtime_Error" "states = [drop_file tmp (env 0 fs)]"
  | (stopped) f3 f4 where "out \<noteq> Inr True"
      "f3 = env 1 (put_file tmp \<lparr>fn_stamp = st, fn_content = encode_bytes X path content\<rparr> (env 0 fs))"
      "f4 = f3 \<or> f4 = env 2 f3" "stat_path (env 0 fs) tmp = None" "out = Inr False \<Longrightarrow> stat_path f3 path \<noteq> expected"
      "states = [put_file tmp \<lparr>fn_stamp = st, fn_content = []\<rparr> (env 0 fs),
                 put_file tmp \<lparr>fn_stamp = st, fn_content = encode_bytes X path content\<rparr> (env 0 fs), drop_file tmp f4]"
  | (written) f3 node where "out = Inr True"
      "f3 = env 1 (put_file tmp \<lparr>fn_stamp = st, fn_content = encode_bytes X path content\<rparr> (env 0 fs))"
      "stat_path f3 path = expected" "map_of (fy_files (env 2 f3)) tmp = Some node"
      "states = [put_file tmp \<lparr>fn_stamp = st, fn_content = []\<rparr> (env 0 fs),
                 put_file tmp \<lparr>fn_stamp = st, fn_content = encode_bytes X path content\<rparr> (env 0 fs),
                 put_file path node (drop_file tmp (env 2 f3)), drop_file tmp (put_file path node (drop_file tmp (env 2 f3)))]"
proof -
  let ?new = "\<lparr>fn_stamp = st, fn_content = encode_bytes X path content\<rparr>"
  let ?f3 = "env 1 (put_file tmp ?new (env 0 fs))"
  note run = assms(2) [unfolded atomic_write_def Let_def tmp_def [symmetric]]
  show thesis
  proof (cases "stat_path (env 0 fs) tmp \<noteq> None \<or> (parent_path path \<noteq> [] \<and> map_of (fy_dirs (env 0 fs)) (parent_path path) = None)")
    case True
    show ?thesis by (rule exists) (use run [unfolded if_P [OF True]] in auto)
  next
    case a: False
    note run = run [unfolded if_not_P [OF a]]
    have none: "stat_path (env 0 fs) tmp = None" using a by blast
    show ?thesis
    proof (cases "expected \<noteq> None \<and> stat_path ?f3 path = None")
      case True
      show ?thesis by (rule stopped [of ?f3 ?f3]) (use run [unfolded if_P [OF True]] none in auto)
    next
      case b: False
      note run = run [unfolded if_not_P [OF b]]
      show ?thesis
      proof (cases "stat_path ?f3 path = expected")
        case False
        show ?thesis by (rule stopped [of ?f3 ?f3]) (use run [unfolded if_P [OF False]] none False in auto)
      next
        case same: True
        then have "\<not> stat_path ?f3 path \<noteq> expected" by simp
        note run = run [unfolded if_not_P [OF this]]
        show ?thesis
        proof (cases "map_of (fy_files (env 2 ?f3)) tmp")
          case None
          show ?thesis by (rule stopped [of ?f3 "env 2 ?f3"]) (use run [unfolded None option.case] none in auto)
        next
          case (Some node)
          show ?thesis by (rule written [of ?f3 node]) (use run [unfolded Some option.case] same Some in auto)
        qed
      qed
    qed
  qed
qed

text \<open>
  C0: An atomic write leaves its target whole. Whatever others do meanwhile, as long as they leave the
  temporary file alone and put only values of \<open>P\<close> at the target, every state of the write has a value of \<open>P\<close> or
  the complete new file at the target. The new file is there at the end exactly when the write says so, and
  then the stamp of the target was the expected one when it was compared. No temporary file stays behind, and a
  write alone changes no other file.
\<close>

theorem atomic_write_whole:
  fixes path token st content X
  defines "tmp \<equiv> temp_path path token" and "new \<equiv> \<lparr>fn_stamp = st, fn_content = encode_bytes X path content\<rparr>"
  assumes run: "atomic_write X env token st path content expected fs = (out, states)"
    and tmp: "\<forall>i g. map_of (fy_files (env i g)) tmp = map_of (fy_files g) tmp"
    and start: "P (map_of (fy_files fs) path)"
    and rely: "\<forall>i g. P (map_of (fy_files g) path) \<longrightarrow> P (map_of (fy_files (env i g)) path)"
  shows "(\<forall>g\<in>set states. P (map_of (fy_files g) path) \<or> map_of (fy_files g) path = Some new)
    \<and> map_of (fy_files (last states)) tmp = None
    \<and> (out = Inr True \<longrightarrow> map_of (fy_files (last states)) path = Some new
         \<and> stat_path (env 1 (put_file tmp new (env 0 fs))) path = expected)
    \<and> (out \<noteq> Inr True \<longrightarrow> P (map_of (fy_files (last states)) path))
    \<and> (env = (\<lambda>_ g. g) \<longrightarrow> (\<forall>q. q \<noteq> path \<and> q \<noteq> tmp \<longrightarrow> map_of (fy_files (last states)) q = map_of (fy_files fs) q))"
proof -
  have ne: "path \<noteq> tmp" "tmp \<noteq> path" using temp_path_ne unfolding tmp_def by metis+
  have P0: "P (map_of (fy_files (env 0 fs)) path)" using rely start by blast
  show ?thesis
    using run
  proof (cases rule: atomic_write_cases)
    case exists
    then show ?thesis using P0 ne unfolding tmp_def [symmetric] by simp
  next
    case (stopped f3 f4)
    have "P (map_of (fy_files f3) path)" using rely P0 ne unfolding stopped(2) tmp_def [symmetric] by simp
    then have "P (map_of (fy_files f4) path)" using stopped(3) rely by blast
    then show ?thesis using stopped P0 ne unfolding tmp_def [symmetric] by auto
  next
    case (written f3 node)
    have f3: "f3 = env 1 (put_file tmp new (env 0 fs))" unfolding written(2) tmp_def new_def ..
    then have "node = new" using written(4) tmp by (simp add: tmp_def [symmetric])
    then show ?thesis
      using written(1,3,5) P0 ne f3 unfolding tmp_def [symmetric] new_def [symmetric] by auto
  qed
qed

lemma atomic_write_whole_witness:
  "map_of (fy_files (last (snd (atomic_write demo_ext (\<lambda>_ g. g) ''t'' (0, 0, 3, 7, 7) ''/m'' ''new'' (Some (0, 0, 3, 1, 1)) (demo_fs 1 ''old'')))))
     ''/m'' = Some \<lparr>fn_stamp = (0, 0, 3, 7, 7), fn_content = ''new''\<rparr>"
proof -
  obtain out states where run: "atomic_write demo_ext (\<lambda>_ g. g) ''t'' (0, 0, 3, 7, 7) ''/m'' ''new'' (Some (0, 0, 3, 1, 1)) (demo_fs 1 ''old'')
      = (out, states)" by (rule prod.exhaust)
  have out: "fst (atomic_write demo_ext (\<lambda>_ g. g) ''t'' (0, 0, 3, 7, 7) ''/m'' ''new'' (Some (0, 0, 3, 1, 1)) (demo_fs 1 ''old'')) = Inr True"
    by code_simp
  have "encode_bytes demo_ext ''/m'' ''new'' = ''new''" by code_simp
  then show ?thesis
    using atomic_write_whole [OF run, of "\<lambda>_. True"] out run by simp
qed

section \<open>Deliveries\<close>

lemma touch_parent_files [simp]: "fy_files (touch_parent fresh p fs) = fy_files fs"
  by (simp add: touch_parent_def Let_def)

lemma make_dirs_files: "make_dirs fresh p fs = Inr fs' \<Longrightarrow> fy_files fs' = fy_files fs"
proof -
  have "fy_files (fold (\<lambda>d fs. if map_of (fy_dirs fs) d \<noteq> None then fs
      else (touch_parent fresh d fs)\<lparr>fy_dirs := fy_dirs (touch_parent fresh d fs) @ [(d, snd (fresh d))]\<rparr>) ds fs) = fy_files fs" for ds
    by (induction ds arbitrary: fs) auto
  then show "make_dirs fresh p fs = Inr fs' \<Longrightarrow> fy_files fs' = fy_files fs"
    by (auto simp: make_dirs_def Let_def split: if_splits)
qed

lemma starts_with_append [simp]: "starts_with p (p @ q)"
  by (induction p) auto

lemma below_join: "below_path base (path_join base rest)"
  using starts_with_append [of "base @ ''/''" rest] by (simp add: below_path_def path_join_def)

lemma split_slash_append: "split_slash (a @ CHR ''/'' # b) = split_slash a @ split_slash b"
proof (induction a)
  case (Cons c a)
  have "split_slash a \<noteq> []" by (induction a) (auto split: list.splits)
  then show ?case using Cons by (auto split: list.splits)
qed simp

lemma last_split_slash: "last (split_slash (a @ CHR ''/'' # b)) = last (split_slash b)"
proof -
  have "split_slash b \<noteq> []" by (induction b) (auto split: list.splits)
  then show ?thesis by (simp add: split_slash_append)
qed

lemma temp_below: "below_path base (temp_path (path_join base rest) token)"
proof -
  let ?p = "path_join base rest" and ?n = "length (path_join base rest) - Suc (length (base_name (path_join base rest)))"
  have "length (base_name ?p) \<le> length rest"
    using split_slash_last_length [of rest] by (simp add: base_name_def path_join_def last_split_slash)
  then have "length base \<le> ?n" by (simp add: path_join_def)
  then obtain k where k: "?n = length base + k" using le_Suc_ex by blast
  have parent: "parent_path ?p = take ?n (base @ ''/'' @ rest)" unfolding parent_path_def by (simp add: path_join_def)
  obtain z where z: "parent_path ?p @ ''/'' = (base @ ''/'') @ z"
    unfolding parent k by (cases k) auto
  have "temp_path ?p token = (parent_path ?p @ ''/'') @ (''.'' @ base_name ?p @ ''.seamless-'' @ token @ ''.tmp'')"
    unfolding temp_path_def path_join_def append_assoc ..
  also have "\<dots> = (base @ ''/'') @ (z @ (''.'' @ base_name ?p @ ''.seamless-'' @ token @ ''.tmp''))"
    unfolding z append_assoc ..
  finally show ?thesis unfolding below_path_def by (metis starts_with_append)
qed

lemma atomic_write_alone:
  assumes run: "atomic_write X (\<lambda>_ g. g) token st path content expected fs = (out, states)"
  shows "q \<noteq> path \<Longrightarrow> q \<noteq> temp_path path token \<Longrightarrow> map_of (fy_files (last (fs # states))) q = map_of (fy_files fs) q"
    and "out = Inr True \<Longrightarrow> stat_path fs path = expected"
    and "out = Inr False \<Longrightarrow> stat_path fs path \<noteq> expected \<and> map_of (fy_files (last (fs # states))) q = map_of (fy_files fs) q"
proof -
  have ne: "path \<noteq> temp_path path token" using temp_path_ne by metis
  have st: "stat_path (put_file (temp_path path token) f fs) path = stat_path fs path" for f
    using ne by (cases "map_of (fy_files fs) path") (simp_all add: stat_path_def put_file_dirs)
  show "q \<noteq> path \<Longrightarrow> q \<noteq> temp_path path token \<Longrightarrow> map_of (fy_files (last (fs # states))) q = map_of (fy_files fs) q"
    using run by (cases rule: atomic_write_cases) auto
  show "out = Inr True \<Longrightarrow> stat_path fs path = expected"
    using run by (cases rule: atomic_write_cases) (auto simp: st)
  show "out = Inr False \<Longrightarrow> stat_path fs path \<noteq> expected \<and> map_of (fy_files (last (fs # states))) q = map_of (fy_files fs) q"
    using run
  proof (cases rule: atomic_write_cases)
    case (stopped f3 f4)
    have "map_of (fy_files fs) (temp_path path token) = None"
      using stopped(4) by (simp add: stat_path_def split: option.splits)
    then show "out = Inr False \<Longrightarrow> ?thesis" using stopped(2,3,5,6) by (auto simp: st)
  qed auto
qed

definition same_outside :: "string \<Rightarrow> fsys \<Rightarrow> fsys \<Rightarrow> bool" where
  "same_outside base fs fs' \<longleftrightarrow> (\<forall>q. \<not> below_path base q \<longrightarrow> map_of (fy_files fs') q = map_of (fy_files fs) q)"

lemma same_outside_refl [simp]: "same_outside base fs fs"
  by (simp add: same_outside_def)

lemma same_outside_trans: "same_outside base fs fs1 \<Longrightarrow> same_outside base fs1 fs2 \<Longrightarrow> same_outside base fs fs2"
  by (simp add: same_outside_def)

lemma same_outside_files [simp]:
  "same_outside base fs (touch_parent fresh p fs') = same_outside base fs fs'"
  "same_outside base (touch_parent fresh p fs) fs' = same_outside base fs fs'"
  by (simp_all add: same_outside_def)

lemma leaf_write_outside:
  assumes "atomic_write X (\<lambda>_ g. g) token st (leaf_path base names name) data expected fs = (out, states)"
  shows "same_outside base fs (last (fs # states))"
proof -
  have "q \<noteq> leaf_path base names name \<and> q \<noteq> temp_path (leaf_path base names name) token" if "\<not> below_path base q" for q
    using that below_join temp_below unfolding leaf_path_def by metis
  then show ?thesis using atomic_write_alone(1) [OF assms] unfolding same_outside_def by blast
qed

lemma write_leaves_outside:
  assumes "write_leaves X fresh base names index bytes fs = (e, fs')"
  shows "same_outside base fs fs'"
  using assms
proof (induction index arbitrary: bytes fs)
  case Nil
  then show ?case by simp
next
  case (Cons a rest)
  obtain name cs where a: "a = (name, cs)" by (rule prod.exhaust)
  let ?path = "leaf_path base names name"
  show ?case
  proof (cases "fx_escapes X ?path")
    case True
    then show ?thesis using Cons.prems a by simp
  next
    case esc: False
    note step = Cons.prems [unfolded a write_leaves.simps Let_def if_not_P [OF esc]]
    consider (stop) "fs' = fs" | (leaf) data fs1 where "make_dirs fresh (parent_path ?path) fs = Inr fs1"
      "(case (if stat_path fs1 ?path = None then Inr False else res_bind (read_bytes X fs1 ?path) (\<lambda>old. Inr (old = data))) of
          Inl e \<Rightarrow> (Some e, fs1)
        | Inr True \<Rightarrow> write_leaves X fresh base names rest (bytes + length data) fs1
        | Inr False \<Rightarrow>
            (case atomic_write X (\<lambda>_ fs. fs) (fst (fresh ?path)) (snd (fresh ?path)) ?path data (stat_path fs1 ?path) fs1 of
               (out, states) \<Rightarrow>
                 (case out of
                    Inl e \<Rightarrow> (Some e, touch_parent fresh ?path (last (fs1 # states)))
                  | Inr False \<Rightarrow> (Some Runtime_Error, touch_parent fresh ?path (last (fs1 # states)))
                  | Inr True \<Rightarrow> write_leaves X fresh base names rest (bytes + length data)
                      (touch_parent fresh ?path (last (fs1 # states)))))) = (e, fs')"
    proof (cases "fx_resolve X cs")
      case (Inl err)
      then show ?thesis using step that(1) by simp
    next
      case res: (Inr data)
      note step = step [unfolded res sum.case]
      show ?thesis
      proof (cases "bytes + length data > fx_max_tree X")
        case True
        then show ?thesis using step that(1) by simp
      next
        case small: False
        note step = step [unfolded if_not_P [OF small]]
        show ?thesis
        proof (cases "make_dirs fresh (parent_path ?path) fs")
          case (Inl err)
          then show ?thesis using step that(1) by simp
        next
          case dirs: (Inr fs1)
          show ?thesis by (rule that(2) [OF dirs step [unfolded dirs sum.case]])
        qed
      qed
    qed
    then show ?thesis
    proof cases
      case stop
      then show ?thesis by simp
    next
      case (leaf data fs1)
      have start: "same_outside base fs fs1" using make_dirs_files [OF leaf(1)] by (simp add: same_outside_def)
      obtain out states where aw: "atomic_write X (\<lambda>_ fs. fs) (fst (fresh ?path)) (snd (fresh ?path)) ?path data (stat_path fs1 ?path) fs1
          = (out, states)" by (rule prod.exhaust)
      note out = leaf_write_outside [OF aw]
      have more: "same_outside base fs1 fs'" if "write_leaves X fresh base names rest (bytes + length data)
          (touch_parent fresh ?path (last (fs1 # states))) = (e, fs')"
        using same_outside_trans [OF out] Cons.IH [OF that] by simp
      have "same_outside base fs1 fs'"
        using leaf(2) Cons.IH [of "bytes + length data" fs1] out more
        unfolding aw prod.case by (auto simp del: last.simps split: sum.splits if_splits bool.splits)
      then show ?thesis using start same_outside_trans by blast
    qed
  qed
qed

lemma remove_stale_outside: "same_outside base fs (remove_stale fresh base index fs)"
proof -
  have f: "fy_files (fold (touch_parent fresh) ps fs) = fy_files fs" for ps fs by (induction ps arbitrary: fs) simp_all
  have "map_of (filter (\<lambda>(p, _). \<not> stale_leaf base index p) ds) q = map_of ds q" if "\<not> below_path base q" for ds :: "(string \<times> file_node) list" and q
    using that by (induction ds) (auto simp: stale_leaf_def)
  then show ?thesis by (simp add: same_outside_def remove_stale_def Let_def f)
qed

definition expected_state :: "file_ext \<Rightarrow> file_reg \<Rightarrow> file_delivery \<Rightarrow> fsys \<Rightarrow> bool" where
  "expected_state X x d fs \<longleftrightarrow>
     (if fr_directory x then fingerprint X fs x = Inr (fd_expected d)
      else stat_path fs (fr_path x) = expected_stamp (fd_expected d))"

lemma write_directory_outcome:
  assumes run: "write_directory X fresh x expected content fs = (out, fs')"
  shows "same_outside (fr_path x) fs fs' \<and> (out = Inr True \<longrightarrow> fingerprint X fs x = Inr expected)
    \<and> (out = Inr False \<longrightarrow> fs' = fs \<and> fingerprint X fs x \<noteq> Inr expected)"
proof -
  consider (kept) e where "out = Inl e" "fs' = fs"
    | (compared) f where "fingerprint X fs x = Inr f" "out = Inr (f = expected)" "fs' = fs"
    | (leaves) index names fs0 e fs1 where "fingerprint X fs x = Inr expected" "make_dirs fresh (fr_path x) fs = Inr fs0"
        "write_leaves X fresh (fr_path x) names (foldr name_insert index []) 0 fs0 = (e, fs1)"
        "out \<noteq> Inr False" "fs' = fs1 \<or> fs' = remove_stale fresh (fr_path x) index fs1"
  proof (cases "fx_index X content")
    case (Inl e)
    then have "(out, fs') = (Inl e, fs)" using run by (simp add: write_directory_def)
    then show ?thesis by (intro kept) simp_all
  next
    case idx: (Inr oi)
    note run = run [unfolded write_directory_def idx sum.case]
    show ?thesis
    proof (cases oi)
      case None
      show ?thesis
      proof (cases "fingerprint X fs x")
        case (Inl e)
        then have "(out, fs') = (Inl e, fs)" using run None by simp
        then show ?thesis by (intro kept) simp_all
      next
        case (Inr f)
        then have "(out, fs') = (Inr (f = expected), fs)" using run None by simp
        then show ?thesis by (intro compared [OF Inr]) simp_all
      qed
    next
      case (Some index)
      note run = run [unfolded Some option.case]
      show ?thesis
      proof (cases "length index > fx_max_files X \<or> \<not> list_all (\<lambda>(name, _). safe_leaf name) index")
        case True
        then have "(out, fs') = (Inl Value_Error, fs)" using run by (simp split: if_splits)
        then show ?thesis by (intro kept) simp_all
      next
        case safe: False
        then have ns: "\<not> length index > fx_max_files X" "\<not> \<not> list_all (\<lambda>(name, _). safe_leaf name) index" by blast+
        note run = run [unfolded if_not_P [OF ns(1)] if_not_P [OF ns(2)]]
        show ?thesis
        proof (cases "fingerprint X fs x")
          case (Inl e)
          then have "(out, fs') = (Inl e, fs)" using run by simp
              then show ?thesis by (intro kept) simp_all
        next
          case fp: (Inr f)
          show ?thesis
          proof (cases "f = expected")
            case False
            then have "(out, fs') = (Inr False, fs)" using run fp by simp
            then show ?thesis using False by (intro compared [OF fp]) simp_all
          next
            case True
            note run = run [unfolded fp sum.case True simp_thms if_False]
            show ?thesis
            proof (cases "physical_names (print_names expected) []")
              case (Inl e)
              then have "(out, fs') = (Inl e, fs)" using run by simp
              then show ?thesis by (intro kept) simp_all
            next
              case names: (Inr names)
              note run = run [unfolded names sum.case]
              show ?thesis
              proof (cases "make_dirs fresh (fr_path x) fs")
                case (Inl e)
                then have "(out, fs') = (Inl e, fs)" using run by simp
              then show ?thesis by (intro kept) simp_all
              next
                case dirs: (Inr fs0)
                obtain e fs1 where w: "write_leaves X fresh (fr_path x) names (foldr name_insert index []) 0 fs0 = (e, fs1)"
                  by (rule prod.exhaust)
                show ?thesis
                  by (rule leaves [OF fp [unfolded True] dirs w])
                     (use run [unfolded dirs sum.case w prod.case] in \<open>auto split: option.splits if_splits\<close>)
              qed
            qed
          qed
        qed
      qed
    qed
  qed
  then show ?thesis
  proof cases
    case leaves
    have "same_outside (fr_path x) fs fs0" using make_dirs_files [OF leaves(2)] by (simp add: same_outside_def)
    then have 1: "same_outside (fr_path x) fs fs1" by (rule same_outside_trans [OF _ write_leaves_outside [OF leaves(3)]])
    from leaves(5) have "same_outside (fr_path x) fs fs'" using 1 same_outside_trans [OF 1 remove_stale_outside] by auto
    then show ?thesis using leaves(1,4) by simp
  qed auto
qed

definition untouched :: "file_reg \<Rightarrow> string \<Rightarrow> fsys \<Rightarrow> fsys \<Rightarrow> bool" where
  "untouched x token fs fs' \<longleftrightarrow>
     (\<forall>p. p \<noteq> fr_path x \<and> \<not> below_path (fr_path x) p \<and> p \<noteq> temp_path (fr_path x) token
        \<longrightarrow> map_of (fy_files fs') p = map_of (fy_files fs) p)"

lemma write_delivery_outcome:
  assumes run: "write_delivery X (\<lambda>_ g. g) fresh x d content fs = (out, fs')"
  shows "untouched x (fst (fresh (fr_path x))) fs fs'
    \<and> (out = Inr True \<longrightarrow> expected_state X x d fs)
    \<and> (out = Inr False \<longrightarrow> \<not> expected_state X x d fs \<and> (\<forall>p. map_of (fy_files fs') p = map_of (fy_files fs) p))"
proof (cases "fr_directory x")
  case True
  then have "write_directory X fresh x (fd_expected d) content fs = (out, fs')" using run by (simp add: write_delivery_def)
  from write_directory_outcome [OF this] True show ?thesis by (simp add: same_outside_def untouched_def expected_state_def)
next
  case False
  obtain o' states where aw: "atomic_write X (\<lambda>_ g. g) (fst (fresh (fr_path x))) (snd (fresh (fr_path x))) (fr_path x) content
      (expected_stamp (fd_expected d)) fs = (o', states)" by (rule prod.exhaust)
  have out: "out = o'" "fs' = touch_parent fresh (fr_path x) (last (fs # states))"
    using run False by (simp_all add: write_delivery_def aw)
  have files: "fy_files fs' = fy_files (last (fs # states))" unfolding out(2) by (rule touch_parent_files)
  show ?thesis
    unfolding untouched_def expected_state_def if_not_P [OF False] files out(1) using atomic_write_alone [OF aw] by blast
qed

text \<open>
  A delivery writes only over the state it expects, and only inside its mount. Files that are not the mount's, not
  below it and not its temporary file stay as they are, and so do the other registrations. It is written
  only when the disk was as expected, and then the fingerprint it reports is the one the disk has after the write and
  the baseline of the next poll. A conflict leaves every file as it was.
\<close>

theorem delivery_checked_and_confined:
  assumes x: "get_file_reg s r = Some x" and run: "file_deliver X (\<lambda>_ g. g) fresh r d fs s = (Some a, fs', s')"
  shows "untouched x (fst (fresh (fr_path x))) fs fs'
    \<and> (\<forall>q. q \<noteq> r \<longrightarrow> get_file_reg s' q = get_file_reg s q)
    \<and> (fa_outcome a = Ack_written \<longrightarrow> expected_state X x d fs \<and> fingerprint X fs' x = Inr (fa_print a)
         \<and> get_file_reg s' r = Some (x\<lparr>fr_ws := fr_ws x + 1, fr_baseline := fa_print a\<rparr>) \<and> fa_ws a = fr_ws x + 1)
    \<and> (fa_outcome a = Ack_conflict \<longrightarrow> s' = s \<and> \<not> expected_state X x d fs
         \<and> (\<forall>p. map_of (fy_files fs') p = map_of (fy_files fs) p))"
proof (cases "fr_closed x")
  case True
  then show ?thesis using x run by (auto simp: file_deliver_def Let_def untouched_def)
next
  case open_reg: False
  note run = run [unfolded file_deliver_def x option.case Let_def if_not_P [OF open_reg]]
  show ?thesis
  proof (cases "delivery_content X x (fd_checksum d)")
    case (Inl e)
    then show ?thesis using run by (auto simp: untouched_def)
  next
    case (Inr cc)
    obtain content cs where cc: "cc = (content, cs)" by (rule prod.exhaust)
    obtain out fs1 where w: "write_delivery X (\<lambda>_ g. g) fresh x d content fs = (out, fs1)" by (rule prod.exhaust)
    note run = run [unfolded Inr cc sum.case prod.case w]
    note o = write_delivery_outcome [OF w]
    show ?thesis
    proof (cases out)
      case (Inl e)
      then show ?thesis using run o by auto
    next
      case (Inr b)
      show ?thesis
      proof (cases b)
        case False
        then show ?thesis using run o Inr by auto
      next
        case True
        let ?s1 = "upd_file_reg r (\<lambda>x. x\<lparr>fr_ws := fr_ws x + 1\<rparr>) s"
        have b: "b = True" using True by simp
        note run = run [unfolded Inr sum.case b bool.case]
        show ?thesis
        proof (cases "fingerprint X fs1 x")
          case (Inl e)
          then show ?thesis using run o by (auto simp: get_upd_file_reg)
        next
          case fp: (Inr f)
          have "get_file_reg (upd_file_reg r (\<lambda>x. x\<lparr>fr_baseline := f\<rparr>) ?s1) r = Some (x\<lparr>fr_ws := fr_ws x + 1, fr_baseline := f\<rparr>)"
            using x by (simp add: get_upd_file_reg)
          then show ?thesis using run o fp Inr b by (auto simp: get_upd_file_reg)
        qed
      qed
    qed
  qed
qed

text \<open>A delivery of a new value to the file that was read, and one that comes after another program has written.\<close>

definition demo_delivery :: file_delivery where
  "demo_delivery = \<lparr>fd_seq = 1, fd_checksum = ''#new'', fd_expected = Fp_file (0, 0, 3, 1, 1)\<rparr>"

definition demo_fresh :: "string \<Rightarrow> string \<times> stamp" where
  "demo_fresh path = (''t'', (0, 0, 3, 7, 7))"

lemma delivery_checked_and_confined_witness:
  "map_option fa_print (fst (file_deliver demo_ext (\<lambda>_ g. g) demo_fresh 0 demo_delivery (demo_fs 1 ''old'') demo_mounted))
     = Some (Fp_file (0, 0, 3, 7, 7))
   \<and> map_of (fy_files (fst (snd (file_deliver demo_ext (\<lambda>_ g. g) demo_fresh 0 demo_delivery (demo_fs 2 ''mid'') demo_mounted)))) ''/m''
     = map_of (fy_files (demo_fs 2 ''mid'')) ''/m''"
proof
  let ?w = "file_deliver demo_ext (\<lambda>_ g. g) demo_fresh 0 demo_delivery (demo_fs 1 ''old'') demo_mounted"
  let ?c = "file_deliver demo_ext (\<lambda>_ g. g) demo_fresh 0 demo_delivery (demo_fs 2 ''mid'') demo_mounted"
  have "get_file_reg demo_mounted 0 \<noteq> None" by code_simp
  then obtain x where x: "get_file_reg demo_mounted 0 = Some x" by blast
  have path: "\<not> fr_directory x" "fr_path x = ''/m''" using x by (auto simp: demo_mounted_regs get_file_reg_def new_file_reg_def)
  have "map_option fa_outcome (fst ?w) = Some Ack_written" by code_simp
  then obtain a fs' s' where w: "?w = (Some a, fs', s')" "fa_outcome a = Ack_written" by (cases ?w) auto
  have "stat_path (fst (snd ?w)) ''/m'' = Some (0, 0, 3, 7, 7)" by code_simp
  then have "fingerprint demo_ext fs' x = Inr (Fp_file (0, 0, 3, 7, 7))" using w path by (simp add: fingerprint_def)
  then show "map_option fa_print (fst ?w) = Some (Fp_file (0, 0, 3, 7, 7))"
    using delivery_checked_and_confined [OF x w(1)] w by simp
  have "map_option fa_outcome (fst ?c) = Some Ack_conflict" by code_simp
  then obtain b gs t where c: "?c = (Some b, gs, t)" "fa_outcome b = Ack_conflict" by (cases ?c) auto
  show "map_of (fy_files (fst (snd ?c))) ''/m'' = map_of (fy_files (demo_fs 2 ''mid'')) ''/m''"
    using delivery_checked_and_confined [OF x c(1)] c by simp
qed

end
