(* ===== verification/Spec2Isabelle.thy ===== *)
theory Spec2Isabelle
  imports Graph_Fusion Reload Controller Run_History Share_Promises File_Promises File_Writes
begin

text \<open>
  A model of the reactive workflow Context of the repository, and its correctness properties.

  \<^bold>\<open>The program.\<close> A Context (\<^verbatim>\<open>src/seamless_workflow/context.py\<close>) is a graph of cells and
  transformers that recomputes what depends on an edit. Its durable part is a \<open>ContextGraph\<close>
  (\<^verbatim>\<open>graph.py\<close>): nodes by path, edges from a view path to a view path, and the symbols of the anonymous
  links that a projected or converted source stands for. Every operation runs as a turn of one controller
  thread (\<^verbatim>\<open>controller.py\<close>), changes the graph or a table, and ends with a derivation
  (\<open>_derive_all\<close>): the nodes are visited in the order of the edges, the state, current checksum and
  runs of each are derived from its sources, and the claims on checksums are brought in line. Work goes out as
  effects (jobs, runs of transformers in \<^verbatim>\<open>reactive.py\<close> and \<^verbatim>\<open>scheduler.py\<close>, deliveries to files and
  shares in \<^verbatim>\<open>attachments/runtime.py\<close>) and comes back as later turns.

  \<^bold>\<open>The state.\<close> \<open>Context_State\<close> has the record \<open>ctx\<close>: one field for each attribute that
  \<open>Context.__init__\<close> creates, dictionaries as association lists in insertion order. A reference count is
  the number of claims taken and not given back (\<open>cx_refs\<close>). An operation has type \<open>(ctx, 'a) oper\<close>, a
  function from a state to a result or an exception, and the state it leaves: an operation that raises keeps what
  it did before, as Python does. What the imported package \<^verbatim>\<open>seamless\<close> computes is the record \<open>ext\<close> of
  parameters; a property that relies on a law of it names the law as a premise. Symbols are
  hashed by the parameter \<open>x_symbol_base\<close>.

  \<^bold>\<open>The theories\<close>, in the order in which they build on each other:
  \<^item> \<open>WF_Base\<close>: paths, values, exceptions, operations, association lists, and the locale
    \<open>step_relation\<close> for what every step of an operation keeps.
  \<^item> \<open>Graph_Links\<close>, \<open>Graph_Fusion\<close>: celltype projection, the links of a recipe, the deep step and the
    fusible runs of \<^verbatim>\<open>graph.py\<close>; fused evaluation gives the value of link-by-link evaluation in every evaluator
    that obeys the laws of the locale of evaluators.
  \<^item> \<open>Path_Order\<close>: the order of paths, and Python's comparison, which may raise.
  \<^item> \<open>Attach_Policy\<close>: \<^verbatim>\<open>attachments/policy.py\<close> and the mount and share specifications.
  \<^item> \<open>Graph_Store\<close>, \<open>Graph_Edges\<close>: the graph, resolution of paths, symbols, miswiring, and the edge
    queries and the edge list of \<^verbatim>\<open>context.py\<close>, with the invariant \<open>edges_ok\<close> (no cycle, one producer for
    each endpoint, no root edge of a cell beside edges into it).
  \<^item> \<open>Refholds\<close>: the claims and the four tables that a derivation synchronises; \<open>ledger\<close> is what is
    taken less what the state records, and no operation changes it. The locale \<open>claim_table\<close> states the
    contract of a table and is interpreted for each of the four.
  \<^item> \<open>Runs\<close>: the run ledger of \<^verbatim>\<open>scheduler.py\<close>: at most \<open>superseded_cap\<close> held runs for a node,
    generations that never come back, holds that expire.
  \<^item> \<open>Derive_Source\<close>, \<open>Derive_Cell\<close>, \<open>Derive_Transformer\<close>, \<open>Derivation\<close>: what an edge
    delivers, the derivation of a cell, of a transformer and of the graph, and the arrival of facts and results. The
    relation \<open>derives\<close> says what every derivation keeps.
  \<^item> \<open>Mount_Delivery\<close>, \<open>Mount_Runtime\<close>: deliveries and their acknowledgements, sessions,
    observations, the end of a turn, barriers.
  \<^item> \<open>Edit_Edges\<close>, \<open>Edit_Nodes\<close>: connecting endpoints, roots, pins and code, optimistic updates,
    deleting, and building cells from prepared builders. The relation \<open>edits\<close> says what every edit keeps and
    \<open>healthy\<close> collects the invariants of the state.
  \<^item> \<open>Run_History\<close>: what a derivation leaves on a transformer that runs, and the inductive relation \<open>history\<close> of
    the operations of a Context between its start and its closing, under which a generation that was given up never
    returns.
  \<^item> \<open>Close_Context\<close>: the claims by their role, and closing.
  \<^item> \<open>Serialize\<close>, \<open>Reload\<close>: saving a graph and loading it (\<^verbatim>\<open>serialization.py\<close>), and the
    round trip between the two.
  \<^item> \<open>Controller\<close>: the queue and the turns of \<^verbatim>\<open>controller.py\<close> as a step relation; every accepted
    message is answered once and in order, and a failure is final.
  \<^item> \<open>Share_Server\<close>, \<open>Share_Service\<close>: the share server (\<^verbatim>\<open>attachments/share/server.py\<close>). Its state is
    the record \<open>server\<close>: registrations by number, the tables of routes, namespaces, marker floors, claims. Each
    operation is one critical section of its lock. \<open>Share_Tables\<close> and \<open>Share_Invariant\<close> show that
    every operation keeps \<open>share_ok\<close> and moves registrations only forward (\<open>server_later\<close>);
    \<open>Share_Protocol\<close> has the step relation \<open>share_step\<close>, \<open>Share_Promises\<close> the properties.
  \<^item> \<open>File_Service\<close>: the file service (\<^verbatim>\<open>attachments/fs/service.py\<close>): registrations, their serial queues, stable
    reads, polls, deliveries, atomic writes, cleanup. The file system is a value \<open>fsys\<close>, and what others do to it
    between two calls is an argument. \<open>File_Promises\<close> has the properties of queues and reads,
    \<open>File_Writes\<close> those of writes.

  \<^bold>\<open>What the properties show.\<close> Every derivation, edit, delivery and report keeps \<open>healthy\<close> and the
  ledger, whether it raises or not; a derivation visits each node once and after its sources; a transformer runs
  only on inputs it shows as complete and under the key of exactly their checksums; the completion of a run that was given
  up changes nothing after any history of operations; what an edge delivers as complete is complete and not miswired;
  connecting an endpoint refines one update of an abstract wiring; adding an edge is atomic; an optimistic update
  that lost its race changes nothing; a cell that cannot be built is gone with its edges and claims; deleting removes exactly
  a subtree; a closed Context has given back exactly what it recorded; a saved graph loads with its nodes, edges
  and symbols. In the share server a conditional PUT overwrites only what its sender saw, a delivery prepared
  before a PUT conflicts, every visible share answers at its URL, a share that comes back takes over value and
  lease, a round of expiry closes exactly what the namespace records as held past its deadline, and closing leaves no
  lease behind. In the file service a read reports one moment, and a write leaves its target whole.

  \<^bold>\<open>What they do not show.\<close> A failed creation from an expression or from another builder may leave the cells that
  were created for its input, as the code does. The lease of a finished run is not given back when the derivation after it
  raises, as in the code; the Context is poisoned then. A held registration whose entry in the namespace was overwritten by a
  successor is not reached by its expiry (the witness of \<open>hold_expiry_exact\<close> has one). A marker names a value
  within one registration: after it is unregistered and its URL reserved anew, a floor marker may meet another value.

  \<^bold>\<open>Bounds and fuel.\<close> \<open>visit\<close> recurses to a depth of one more than the number of nodes, which is
  enough because the edges have no cycle (shown with the order). \<open>first_untaken\<close> tries one candidate more than
  there are taken names, so it finds one (shown with \<open>first_free\<close>). The loops over cones, cycles and downstream
  holders run for at most one round for each node, after which nothing is new. A clock is read once for a turn and
  is an argument.

  \<^bold>\<open>Not modelled.\<close> The event loop of the controller, the futures of the side work and of \<open>close\<close>; the leases that a running job or effect holds for itself and the materializers of scratch values,
  which no key depends on; wake-up timers and log subscribers; the coroutine that carries a transformation out; the
  native notifications, scan time limits and file modes of the file service; widgets and traitlets, whose reports are
  arguments; the thread, the
  listener and the HTTP library of the share server and its OpenAPI document (\<^verbatim>\<open>openapi.py\<close>); the
  handles and views that name endpoints (\<^verbatim>\<open>builder_state.py\<close>, \<^verbatim>\<open>views.py\<close>), and diagnostics. Sets are lists
  in insertion order where the code iterates over them. Whether a checksum can be acquired is a function of the checksum
  and the scratch flag (\<open>x_acquire\<close>), so within one derivation it cannot succeed once and fail later; the leases
  that deliveries (\<open>mount_request\<close>), reinstated results (\<open>reinstate\<close>) and observations of an accepted PUT
  (\<open>put_accept\<close>) take for the message they travel in never fail. The reservation of a URL and the acceptance of a
  PUT are one critical section each, although the code looks at \<open>closed\<close> before it takes the lock and takes the lease
  after it has left it. The materializer of scratch sources is not consulted. \<open>quote\<close> is for ASCII keys.
\<close>

end
